(* ===== verification/Prelude.thy ===== *)
theory Prelude
  imports Main "HOL-Library.Word"
begin

text \<open>
  Shared vocabulary of the development: the C scalar types, the ways a C statement
  can go wrong, the collections \<open>rep_defs\<close> and \<open>op_defs\<close>, nullable pointers to the ends
  of a list, the successor map of a list of nodes with the facts both intrusive containers
  (\<open>queueT.c\<close>, \<open>listT.c\<close>) rest on, and counting at the width of \<open>size_t\<close>.
\<close>

unbundle bit_operations_syntax

section \<open>Scalars\<close>

text \<open>LP64: \<open>int\<close> has 32 bits, \<open>size_t\<close> and pointers have 64. A pointer that the
  code has compared with NULL, or dereferences without a test, is an \<open>addr\<close>; a pointer
  that may be NULL is an \<open>addr option\<close>.\<close>

type_synonym c_int = "32 word"
type_synonym c_uint = "32 word"
type_synonym c_ushort = "16 word"
type_synonym c_uchar = "8 word"
type_synonym c_size = "64 word"
type_synonym addr = "64 word"

text \<open>What a C statement may do instead of finishing.\<close>

datatype fault =
    NullDeref       \<comment> \<open>a NULL pointer is dereferenced\<close>
  | OutOfBounds     \<comment> \<open>an array is indexed outside its allocation\<close>
  | ShiftOverflow   \<comment> \<open>the result of \<open><<\<close> is not representable in its type\<close>
  | Indeterminate   \<comment> \<open>a value that was never written is read\<close>
  | UseAfterFree    \<comment> \<open>a freed block is read or written\<close>

definition returns :: "fault + 'a \<Rightarrow> 'a option" where
  "returns r = (case r of Inl _ \<Rightarrow> None | Inr x \<Rightarrow> Some x)"

lemma returns_simps [simp]: "returns (Inl e) = None" "returns (Inr x) = Some x"
  by (simp_all add: returns_def)

text \<open>Sequencing of two computations that may fault.\<close>

definition and_then :: "fault + 'a \<Rightarrow> ('a \<Rightarrow> fault + 'b) \<Rightarrow> fault + 'b" where
  "and_then r f = (case r of Inl e \<Rightarrow> Inl e | Inr x \<Rightarrow> f x)"

lemma and_then_simps [simp]: "and_then (Inl e) f = Inl e" "and_then (Inr x) f = f x"
  by (simp_all add: and_then_def)

lemma and_then_Inr:
  "and_then r f = Inr y \<longleftrightarrow> (\<exists>x. r = Inr x \<and> f x = Inr y)"
  by (cases r) simp_all

section \<open>Collections of facts\<close>

named_theorems rep_defs \<open>definitions of the representation relations\<close>
named_theorems op_defs \<open>definitions of the operations of the components\<close>

section \<open>First and last element as nullable pointers\<close>

definition hd_opt :: "'a list \<Rightarrow> 'a option" where
  "hd_opt xs = (case xs of [] \<Rightarrow> None | x # _ \<Rightarrow> Some x)"

definition last_opt :: "'a list \<Rightarrow> 'a option" where
  "last_opt xs = (if xs = [] then None else Some (last xs))"

lemma hd_opt_simps [simp]: "hd_opt [] = None" "hd_opt (x # xs) = Some x"
  by (simp_all add: hd_opt_def)

lemma last_opt_simps [simp]: "last_opt [] = None" "last_opt (xs @ [x]) = Some x"
  by (simp_all add: last_opt_def)

lemma last_opt_Cons [simp]: "last_opt (x # xs) = Some (last (x # xs))"
  by (simp add: last_opt_def)

lemma hd_opt_append [simp]:
  "hd_opt (xs @ ys) = (if xs = [] then hd_opt ys else hd_opt xs)"
  by (cases xs) simp_all

lemma hd_opt_None [simp]: "hd_opt xs = None \<longleftrightarrow> xs = []"
  by (cases xs) simp_all

lemma last_opt_None [simp]: "last_opt xs = None \<longleftrightarrow> xs = []"
  by (simp add: last_opt_def)

lemma last_opt_rev: "last_opt (rev xs) = hd_opt xs"
  by (cases xs) (simp_all add: last_opt_def)

lemma hd_opt_rev: "hd_opt (rev xs) = last_opt xs"
  by (metis last_opt_rev rev_rev_ident)

lemma last_opt_SomeD: "last_opt xs = Some x \<Longrightarrow> xs \<noteq> [] \<and> x = last xs"
  by (auto simp: last_opt_def split: if_splits)

lemma hd_opt_SomeD: "hd_opt xs = Some x \<Longrightarrow> xs = x # tl xs"
  by (cases xs) simp_all

section \<open>The successor map of a list of nodes\<close>

text \<open>\<open>succ_in xs v\<close> is what a \<open>next\<close> field of the node \<open>v\<close> holds when the
  nodes \<open>xs\<close> are chained in this order.\<close>

fun succ_in :: "'a list \<Rightarrow> 'a \<Rightarrow> 'a option" where
  "succ_in [] v = None"
| "succ_in [x] v = None"
| "succ_in (x # y # zs) v = (if v = x then Some y else succ_in (y # zs) v)"

definition pred_in :: "'a list \<Rightarrow> 'a \<Rightarrow> 'a option" where
  "pred_in xs = succ_in (rev xs)"

lemma succ_in_notin [simp]: "v \<notin> set xs \<Longrightarrow> succ_in xs v = None"
  by (induction xs v rule: succ_in.induct) auto

lemma succ_in_Cons:
  "distinct (x # xs) \<Longrightarrow> succ_in (x # xs) v = (if v = x then hd_opt xs else succ_in xs v)"
  by (cases xs) auto

lemma succ_in_append:
  "distinct (as @ bs) \<Longrightarrow> succ_in (as @ bs) v =
    (if as \<noteq> [] \<and> v = last as then hd_opt bs
     else if v \<in> set as then succ_in as v else succ_in bs v)"
proof (induction as)
  case Nil
  then show ?case by simp
next
  case (Cons a as)
  have step: "succ_in (a # as @ bs) v = (if v = a then hd_opt (as @ bs) else succ_in (as @ bs) v)"
    using Cons.prems by (intro succ_in_Cons) simp
  have "succ_in (a # as) v = (if v = a then hd_opt as else succ_in as v)"
    using Cons.prems by (intro succ_in_Cons) simp
  with step Cons show ?case by auto
qed

lemma succ_in_last [simp]: "distinct xs \<Longrightarrow> xs \<noteq> [] \<Longrightarrow> succ_in xs (last xs) = None"
  using succ_in_append [of xs "[]" "last xs"] by simp

lemma succ_in_snoc:
  "distinct (xs @ [x]) \<Longrightarrow> succ_in (xs @ [x]) v =
    (if xs \<noteq> [] \<and> v = last xs then Some x else succ_in xs v)"
  by (auto simp: succ_in_append)

lemma succ_in_None_iff:
  "distinct xs \<Longrightarrow> v \<in> set xs \<Longrightarrow> succ_in xs v = None \<longleftrightarrow> v = last xs"
  by (induction xs v rule: succ_in.induct) auto

lemma succ_in_mem: "succ_in xs v = Some u \<Longrightarrow> u \<in> set xs \<and> v \<in> set xs"
  by (induction xs v rule: succ_in.induct) (auto split: if_splits)

lemma pred_in_notin [simp]: "v \<notin> set xs \<Longrightarrow> pred_in xs v = None"
  by (simp add: pred_in_def)

lemma pred_in_append:
  "distinct (as @ bs) \<Longrightarrow> pred_in (as @ bs) v =
    (if bs \<noteq> [] \<and> v = hd bs then last_opt as
     else if v \<in> set bs then pred_in bs v else pred_in as v)"
  using succ_in_append [of "rev bs" "rev as" v]
  by (auto simp: pred_in_def last_rev hd_opt_rev Int_commute)

lemma pred_in_Cons:
  "distinct (x # xs) \<Longrightarrow> pred_in (x # xs) v =
    (if xs \<noteq> [] \<and> v = hd xs then Some x else pred_in xs v)"
  using pred_in_append [of "[x]" xs v] by (auto simp: pred_in_def last_opt_def)

lemma pred_in_None_iff:
  "distinct xs \<Longrightarrow> v \<in> set xs \<Longrightarrow> pred_in xs v = None \<longleftrightarrow> v = hd xs"
  using succ_in_None_iff [of "rev xs" v] by (simp add: pred_in_def last_rev)

lemma pred_in_mem: "pred_in xs v = Some u \<Longrightarrow> u \<in> set xs \<and> v \<in> set xs"
  by (auto simp: pred_in_def dest: succ_in_mem)

text \<open>A chain is determined by its first node and its \<open>next\<close> fields.\<close>

lemma chain_unique:
  assumes "distinct xs" "distinct ys" "hd_opt xs = hd_opt ys"
    and "\<forall>v \<in> set xs. f v = succ_in xs v" "\<forall>v \<in> set ys. f v = succ_in ys v"
  shows "xs = ys"
  using assms
proof (induction xs arbitrary: ys)
  case Nil
  then show ?case by (cases ys) simp_all
next
  case (Cons x xs)
  then obtain zs where ys: "ys = x # zs" by (cases ys) auto
  have "f x = hd_opt xs" "f x = hd_opt zs"
    using Cons.prems unfolding ys by (auto simp: succ_in_Cons)
  then have heads: "hd_opt xs = hd_opt zs" by simp
  have "\<forall>v \<in> set xs. f v = succ_in xs v" "\<forall>v \<in> set zs. f v = succ_in zs v"
    using Cons.prems unfolding ys by (auto simp: succ_in_Cons)
  moreover have "distinct xs" "distinct zs"
    using Cons.prems unfolding ys by simp_all
  ultimately have "xs = zs" using heads Cons.IH by blast
  then show ?case unfolding ys by simp
qed

section \<open>Counting nodes at machine width\<close>

lemma unat_of_nat_size:
  "n < 2 ^ 64 \<Longrightarrow> unat (of_nat n :: c_size) = n"
  by (simp add: unat_of_nat take_bit_eq_mod)

lemma of_nat_size_eq_0:
  "n < 2 ^ 64 \<Longrightarrow> (of_nat n :: c_size) = 0 \<longleftrightarrow> n = 0"
  using unat_of_nat_size [of n] by (auto simp: unat_eq_0 [symmetric])

end
