(* ===== verification/Fifo.thy ===== *)
theory Fifo
  imports Prelude
begin

text \<open>
  The interface the two queue-like containers of the library share, and what a client
  may conclude from it alone. A container is a state \<open>'s\<close> related to the list of its
  elements; \<open>push\<close> and \<open>pop\<close> return the code's status (\<open>0\<close> or \<open>-1\<close>),
  and \<open>None\<close> for a call that does not return normally. \<open>QueueT\<close> and
  \<open>RingT\<close> interpret it.
\<close>

section \<open>A client: any sequence of pushes and pops\<close>

datatype 'a fifo_op = Push 'a | Pop

text \<open>The run returns the elements popped, the elements whose push was accepted, and the
  final state.\<close>

fun fifo_run ::
  "('a \<Rightarrow> 's \<Rightarrow> (int \<times> 's) option) \<Rightarrow> ('s \<Rightarrow> (int \<times> 'a option \<times> 's) option)
   \<Rightarrow> 'a fifo_op list \<Rightarrow> 's \<Rightarrow> ('a list \<times> 'a list \<times> 's) option" where
  "fifo_run push pop [] s = Some ([], [], s)"
| "fifo_run push pop (Push v # ops) s =
    (case push v s of
       None \<Rightarrow> None
     | Some (ret, s) \<Rightarrow>
        (case fifo_run push pop ops s of
           None \<Rightarrow> None
         | Some (outs, ins, s) \<Rightarrow> Some (outs, (if ret = 0 then [v] else []) @ ins, s)))"
| "fifo_run push pop (Pop # ops) s =
    (case pop s of
       None \<Rightarrow> None
     | Some (ret, out, s) \<Rightarrow>
        (case fifo_run push pop ops s of
           None \<Rightarrow> None
         | Some (outs, ins, s) \<Rightarrow>
            Some ((case out of None \<Rightarrow> [] | Some v \<Rightarrow> if ret = 0 then [v] else []) @ outs, ins, s)))"

section \<open>The interface\<close>

locale fifo =
  fixes rep :: "'s \<Rightarrow> 'a list \<Rightarrow> bool"
    and push :: "'a \<Rightarrow> 's \<Rightarrow> (int \<times> 's) option"
    and pop :: "'s \<Rightarrow> (int \<times> 'a option \<times> 's) option"
  assumes rep_unique: "rep s xs \<Longrightarrow> rep s ys \<Longrightarrow> xs = ys"
    and push_law: "rep s xs \<Longrightarrow>
      (\<exists>s'. push v s = Some (0, s') \<and> rep s' (xs @ [v])) \<or> push v s = Some (-1, s)"
    and pop_empty_law: "rep s [] \<Longrightarrow> \<exists>s'. pop s = Some (-1, None, s') \<and> rep s' []"
    and pop_law: "rep s (x # xs) \<Longrightarrow> \<exists>s'. pop s = Some (0, Some x, s') \<and> rep s' xs"
begin

text \<open>No interleaving of pushes and pops loses, duplicates or reorders an element: what came
  out, followed by what is still inside, is what was inside followed by what was accepted.\<close>

lemma run_order:
  "rep s xs \<Longrightarrow>
    \<exists>outs ins s' ys. fifo_run push pop ops s = Some (outs, ins, s') \<and> rep s' ys \<and>
      xs @ ins = outs @ ys"
proof (induction ops arbitrary: s xs)
  case Nil
  then show ?case by auto
next
  case (Cons op ops)
  show ?case
  proof (cases op)
    case (Push v)
    from push_law [OF Cons.prems, of v] show ?thesis
    proof
      assume "\<exists>s'. push v s = Some (0, s') \<and> rep s' (xs @ [v])"
      then obtain s1 where "push v s = Some (0, s1)" "rep s1 (xs @ [v])" by blast
      with Cons.IH [of s1 "xs @ [v]"] show ?thesis by (auto simp: Push)
    next
      assume "push v s = Some (-1, s)"
      with Cons.IH [OF Cons.prems] show ?thesis by (auto simp: Push)
    qed
  next
    case Pop
    show ?thesis
    proof (cases xs)
      case Nil
      with Cons.prems pop_empty_law obtain s1 where "pop s = Some (-1, None, s1)" "rep s1 []"
        by blast
      with Cons.IH [of s1 "[]"] show ?thesis by (auto simp: Pop Nil)
    next
      case (Cons x zs)
      with Cons.prems pop_law obtain s1 where "pop s = Some (0, Some x, s1)" "rep s1 zs"
        by blast
      with Cons.IH [of s1 zs] show ?thesis by (auto simp: Pop Cons)
    qed
  qed
qed

lemma run_returns: "rep s xs \<Longrightarrow> fifo_run push pop ops s \<noteq> None"
  using run_order by blast

text \<open>Draining: as many pops as there are elements return them all, in order.\<close>

lemma drain_order:
  "rep s xs \<Longrightarrow>
    \<exists>s'. fifo_run push pop (replicate (length xs) Pop) s = Some (xs, [], s') \<and> rep s' []"
proof (induction xs arbitrary: s)
  case Nil
  then show ?case by auto
next
  case (Cons x xs)
  then obtain s1 where "pop s = Some (0, Some x, s1)" "rep s1 xs"
    using pop_law by blast
  with Cons.IH [of s1] show ?case by auto
qed

end

text \<open>A container with a fixed capacity accepts exactly while it is not full.\<close>

locale bounded_fifo = fifo +
  fixes cap :: "'a \<Rightarrow> nat"
  assumes push_room: "rep s xs \<Longrightarrow> length xs < cap s \<Longrightarrow>
      \<exists>s'. push v s = Some (0, s') \<and> rep s' (xs @ [v]) \<and> cap s' = cap s"
    and push_full: "rep s xs \<Longrightarrow> \<not> length xs < cap s \<Longrightarrow> push v s = Some (-1, s)"
begin

lemma fill:
  "rep s xs \<Longrightarrow> length xs + length vs \<le> cap s \<Longrightarrow>
    \<exists>s'. fifo_run push pop (map Push vs) s = Some ([], vs, s') \<and> rep s' (xs @ vs) \<and> cap s' = cap s"
proof (induction vs arbitrary: s xs)
  case Nil
  then show ?case by auto
next
  case (Cons v vs)
  then obtain s1 where "push v s = Some (0, s1)" "rep s1 (xs @ [v])" "cap s1 = cap s"
    using push_room [of s xs v] by auto
  with Cons.IH [of s1 "xs @ [v]"] Cons.prems show ?case by auto
qed

end

end
