(* ===== verification/QueueT.thy ===== *)
theory QueueT
  imports Fifo
begin

text \<open>
  The intrusive FIFO queue of \<open>include/pcaio/queueT.h\<close> and \<open>queueT.c\<close>. The node
  field \<open>T##queue_next\<close> is the map \<open>qnext\<close>, one pointer per node, kept beside the
  struct's own fields; nodes are of any type \<open>'a\<close>, as in the C template. The mutex is
  the flag \<open>qmutex\<close> (held or not); the condition variable is the number of threads blocked
  on it. \<open>pthread_cond_wait\<close> is an argument: it gives the mutex up, lets other threads
  work on the queue, and returns its status with the queue as it is when the mutex is held
  again.
\<close>

section \<open>State\<close>

record 'a queue =
  qhead :: "'a option"
  qtail :: "'a option"
  qcount :: c_size
  qwaiters :: nat
  qmutex :: bool
  qnext :: "'a \<Rightarrow> 'a option"

definition QWAIT :: c_int where "QWAIT = 0x1"

section \<open>Operations\<close>

definition queue_init :: "'a queue \<Rightarrow> 'a queue" where
  "queue_init q = q\<lparr>qmutex := False, qwaiters := 0, qhead := None, qtail := None, qcount := 0\<rparr>"

definition queue_deinit :: "'a queue \<Rightarrow> 'a queue" where
  "queue_deinit q = q\<lparr>qhead := None, qtail := None, qcount := 0\<rparr>"

definition queue_lock :: "'a queue \<Rightarrow> 'a queue" where
  "queue_lock q = q\<lparr>qmutex := True\<rparr>"

definition queue_unlock :: "'a queue \<Rightarrow> 'a queue" where
  "queue_unlock q = q\<lparr>qmutex := False\<rparr>"

definition queue_signal :: "'a queue \<Rightarrow> 'a queue" where
  "queue_signal q = q\<lparr>qwaiters := qwaiters q - 1\<rparr>"

definition queue_broadcast :: "'a queue \<Rightarrow> 'a queue" where
  "queue_broadcast q = q\<lparr>qwaiters := 0\<rparr>"

definition queue_push :: "'a \<Rightarrow> 'a queue \<Rightarrow> int \<times> 'a queue" where
  "queue_push v q =
    (if qnext q v \<noteq> None \<or> Some v = qtail q then (-1, q)
     else
       let q = queue_lock q;
           q = (case qtail q of
                  None \<Rightarrow> q\<lparr>qhead := Some v, qtail := Some v\<rparr>
                | Some t \<Rightarrow> q\<lparr>qnext := (qnext q)(t := Some v), qtail := Some v\<rparr>);
           q = q\<lparr>qcount := qcount q + 1\<rparr>;
           q = q\<lparr>qnext := (qnext q)(v := None)\<rparr>;
           q = queue_signal q
       in (0, queue_unlock q))"

fun pushall_chain :: "'a list \<Rightarrow> 'a queue \<Rightarrow> fault + 'a queue" where
  "pushall_chain [] q = Inr q"
| "pushall_chain (v # vs) q =
    (case qtail q of
       None \<Rightarrow> Inl NullDeref
     | Some t \<Rightarrow> pushall_chain vs (q\<lparr>qnext := (qnext q)(t := Some v), qtail := Some v\<rparr>))"

text \<open>\<open>vs\<close> is the array \<open>v[0 .. count - 1]\<close>.\<close>

definition queue_pushall :: "'a list \<Rightarrow> 'a queue \<Rightarrow> fault + (int \<times> 'a queue)" where
  "queue_pushall vs q =
    (case vs of
       [] \<Rightarrow> Inr (-1, q)
     | v0 # rest \<Rightarrow>
        if \<exists>v \<in> set vs. qnext q v \<noteq> None \<or> Some v = qtail q then Inr (-1, q)
        else
          let q = queue_lock q;
              q = (if qtail q = None then q\<lparr>qtail := Some v0, qhead := Some v0\<rparr> else q)
          in case pushall_chain rest q of
               Inl e \<Rightarrow> Inl e
             | Inr q \<Rightarrow>
                let q = q\<lparr>qcount := qcount q + of_nat (length vs)\<rparr>
                in case qtail q of
                     None \<Rightarrow> Inl NullDeref
                   | Some t \<Rightarrow>
                      let q = q\<lparr>qnext := (qnext q)(t := None)\<rparr>;
                          q = queue_broadcast q
                      in Inr (0, queue_unlock q))"

text \<open>The wait loop of \<open>queue_pop\<close>: \<open>None\<close> is a call that never returns.\<close>

partial_function (option) queue_wait ::
  "('a queue \<Rightarrow> int \<times> 'a queue) \<Rightarrow> 'a queue \<Rightarrow> (int \<times> 'a queue) option" where
  "queue_wait cond_wait q =
    (if qhead q = None then
       (if fst (cond_wait q) \<noteq> 0 then Some (-1, snd (cond_wait q))
        else queue_wait cond_wait (snd (cond_wait q)))
     else Some (0, q))"

definition queue_take :: "'a queue \<Rightarrow> (int \<times> 'a option \<times> 'a queue) option" where
  "queue_take q =
    (case qhead q of
       None \<Rightarrow> None
     | Some v \<Rightarrow>
        let q = (if qnext q v = None then q\<lparr>qhead := None, qtail := None\<rparr>
                 else let q = q\<lparr>qhead := qnext q v\<rparr> in q\<lparr>qnext := (qnext q)(v := None)\<rparr>);
            q = q\<lparr>qcount := qcount q - 1\<rparr>
        in Some (0, Some v, queue_unlock q))"

definition queue_pop ::
  "('a queue \<Rightarrow> int \<times> 'a queue) \<Rightarrow> c_int \<Rightarrow> 'a queue \<Rightarrow> (int \<times> 'a option \<times> 'a queue) option" where
  "queue_pop cond_wait flags q =
    (let q = queue_lock q in
     if flags AND QWAIT \<noteq> 0 then
       (case queue_wait cond_wait q of
          None \<Rightarrow> None
        | Some (ret, q) \<Rightarrow>
           if ret \<noteq> 0 then Some (ret, None, queue_unlock q) else queue_take q)
     else if qhead q = None then Some (-1, None, queue_unlock q)
     else queue_take q)"

lemmas [op_defs] = queue_lock_def queue_unlock_def queue_signal_def queue_broadcast_def

section \<open>Representation\<close>

text \<open>The chain of nodes is the list \<open>xs\<close>.\<close>

definition queue_chain :: "'a queue \<Rightarrow> 'a list \<Rightarrow> bool" where
  "queue_chain q xs \<longleftrightarrow> distinct xs \<and> qhead q = hd_opt xs \<and> qtail q = last_opt xs \<and>
     (\<forall>v \<in> set xs. qnext q v = succ_in xs v)"

definition queue_rep :: "'a queue \<Rightarrow> 'a list \<Rightarrow> bool" where
  "queue_rep q xs \<longleftrightarrow> queue_chain q xs \<and> qcount q = of_nat (length xs) \<and> \<not> qmutex q"

lemmas [rep_defs] = queue_chain_def queue_rep_def

text \<open>Nothing outside \<open>us\<close> is written.\<close>

definition queue_frame :: "'a set \<Rightarrow> 'a queue \<Rightarrow> 'a queue \<Rightarrow> bool" where
  "queue_frame us q q' \<longleftrightarrow> (\<forall>u. u \<notin> us \<longrightarrow> qnext q' u = qnext q u)"

lemma queue_chain_unique: "queue_chain q xs \<Longrightarrow> queue_chain q ys \<Longrightarrow> xs = ys"
  by (rule chain_unique [of xs ys "qnext q"]) (simp_all add: queue_chain_def)

lemma queue_rep_unique: "queue_rep q xs \<Longrightarrow> queue_rep q ys \<Longrightarrow> xs = ys"
  by (auto simp: queue_rep_def dest: queue_chain_unique)

text \<open>The guard of \<open>push\<close> (a next pointer, or being the tail) sees every member.\<close>

lemma queue_member_guard:
  "queue_chain q xs \<Longrightarrow> v \<in> set xs \<Longrightarrow> qnext q v \<noteq> None \<or> Some v = qtail q"
  using succ_in_None_iff [of xs v] by (auto simp: queue_chain_def last_opt_def)

lemma queue_tail_member: "queue_chain q xs \<Longrightarrow> Some v = qtail q \<Longrightarrow> v \<in> set xs"
  by (auto simp: queue_chain_def last_opt_def split: if_splits)

lemma queue_push_guard:
  "queue_chain q xs \<Longrightarrow>
    (qnext q v \<noteq> None \<or> Some v = qtail q) \<longleftrightarrow> (v \<in> set xs \<or> qnext q v \<noteq> None)"
  using queue_member_guard queue_tail_member by metis

section \<open>Functional behaviour\<close>

lemma queue_init_rep: "queue_rep (queue_init q) []"
  by (simp add: queue_init_def rep_defs)

lemma queue_push_reject:
  "queue_rep q xs \<Longrightarrow> v \<in> set xs \<or> qnext q v \<noteq> None \<Longrightarrow> queue_push v q = (-1, q)"
  using queue_push_guard [of q xs v] by (auto simp: queue_rep_def queue_push_def)

lemma queue_push_accept:
  assumes rep: "queue_rep q xs" and new: "v \<notin> set xs" and det: "qnext q v = None"
  shows "\<exists>q'. queue_push v q = (0, q') \<and> queue_rep q' (xs @ [v]) \<and>
           queue_frame (set xs) q q' \<and> qwaiters q' = qwaiters q - 1"
proof -
  have guard: "\<not> (qnext q v \<noteq> None \<or> Some v = qtail q)"
    using queue_push_guard [of q xs v] assms by (auto simp: queue_rep_def)
  have dist: "distinct (xs @ [v])" using rep new by (simp add: rep_defs)
  show ?thesis
  proof (cases "xs = []")
    case True
    then have "qtail q = None" using rep by (simp add: rep_defs)
    with guard det True rep show ?thesis
      by (auto simp: queue_push_def op_defs rep_defs queue_frame_def Let_def)
  next
    case False
    then have tail: "qtail q = Some (last xs)" using rep by (simp add: rep_defs last_opt_def)
    have facts: "qhead q = hd_opt xs" "\<forall>u \<in> set xs. qnext q u = succ_in xs u"
      "qcount q = of_nat (length xs)" "last xs \<noteq> v" "last xs \<in> set xs"
      using rep False new by (auto simp: rep_defs)
    show ?thesis
      using guard det False tail dist facts new
      by (auto simp: queue_push_def op_defs rep_defs queue_frame_def Let_def succ_in_snoc last_opt_def)
  qed
qed

lemma queue_take_Cons:
  assumes "queue_chain q (x # xs)" "qcount q = of_nat (length (x # xs))"
  shows "\<exists>q'. queue_take q = Some (0, Some x, q') \<and> queue_rep q' xs \<and> qnext q' x = None \<and>
           queue_frame {x} q q' \<and> qwaiters q' = qwaiters q"
  using assms
  by (cases xs) (auto simp: queue_take_def op_defs rep_defs queue_frame_def Let_def last_opt_def)

text \<open>A queue that holds something is popped at once, whether or not the caller would wait.\<close>

lemma queue_pop_Cons:
  assumes "queue_rep q (x # xs)"
  shows "\<exists>q'. queue_pop cw flags q = Some (0, Some x, q') \<and> queue_rep q' xs \<and>
           qnext q' x = None \<and> queue_frame {x} q q' \<and> qwaiters q' = qwaiters q"
proof -
  have chain: "queue_chain (queue_lock q) (x # xs)"
    and count: "qcount (queue_lock q) = of_nat (length (x # xs))"
    using assms by (simp_all add: rep_defs op_defs)
  have head: "qhead (queue_lock q) = Some x" using chain by (simp add: rep_defs)
  have "queue_pop cw flags q = queue_take (queue_lock q)"
    by (simp add: queue_pop_def Let_def head queue_wait.simps)
  then show ?thesis
    using queue_take_Cons [OF chain count] by (simp add: queue_frame_def queue_lock_def)
qed

lemma queue_pop_Nil:
  "queue_rep q [] \<Longrightarrow> flags AND QWAIT = 0 \<Longrightarrow> queue_pop cw flags q = Some (-1, None, q)"
  by (simp add: queue_pop_def rep_defs op_defs Let_def)


section \<open>Pushing an array\<close>

lemma pushall_chain_spec:
  assumes "queue_chain q ws" "ws \<noteq> []" "distinct (ws @ vs)" "\<forall>v \<in> set vs. qnext q v = None"
  shows "\<exists>q'. pushall_chain vs q = Inr q' \<and> queue_chain q' (ws @ vs) \<and>
           queue_frame (set (ws @ vs)) q q' \<and> qcount q' = qcount q \<and> qmutex q' = qmutex q"
  using assms
proof (induction vs arbitrary: q ws)
  case Nil
  then show ?case by (simp add: queue_frame_def)
next
  case (Cons v vs)
  define q1 where "q1 = q\<lparr>qnext := (qnext q)(last ws := Some v), qtail := Some v\<rparr>"
  have tail: "qtail q = Some (last ws)"
    using Cons.prems by (simp add: queue_chain_def last_opt_def)
  have last_new: "last ws \<notin> set (v # vs)"
    using Cons.prems by (metis IntI distinct_append empty_iff last_in_set)
  have "queue_chain q1 (ws @ [v])"
    using Cons.prems last_new by (auto simp: queue_chain_def q1_def succ_in_snoc)
  moreover have "\<forall>u \<in> set vs. qnext q1 u = None"
    using Cons.prems last_new by (auto simp: q1_def)
  ultimately obtain q' where "pushall_chain vs q1 = Inr q'" "queue_chain q' ((ws @ [v]) @ vs)"
    "queue_frame (set ((ws @ [v]) @ vs)) q1 q'" "qcount q' = qcount q1" "qmutex q' = qmutex q1"
    using Cons.IH [of q1 "ws @ [v]"] Cons.prems by auto
  moreover have "queue_frame (set (ws @ v # vs)) q q1"
    using Cons.prems(2) by (simp add: queue_frame_def q1_def)
  ultimately show ?case
    by (auto simp: tail q1_def [symmetric] queue_frame_def) (simp_all add: q1_def)
qed

text \<open>The last two writes of \<open>pushall\<close> leave the chain as it is.\<close>

lemma pushall_finish:
  assumes chain: "queue_chain q xs" and "xs \<noteq> []"
  shows "\<exists>t. qtail q = Some t \<and> qnext q t = None \<and>
           (\<forall>n. queue_chain (q\<lparr>qcount := n, qnext := (qnext q)(t := None)\<rparr>) xs)"
proof (intro exI conjI allI)
  show "qtail q = Some (last xs)" using assms by (simp add: queue_chain_def last_opt_def)
  show none: "qnext q (last xs) = None" using assms by (simp add: queue_chain_def)
  then have "(qnext q)(last xs := None) = qnext q" by auto
  then show "\<And>n. queue_chain (q\<lparr>qcount := n, qnext := (qnext q)(last xs := None)\<rparr>) xs"
    using chain by (simp add: queue_chain_def)
qed

text \<open>One run of the code past its guards, in terms of the state after the chaining loop.\<close>

lemma queue_pushall_run:
  assumes guard: "\<not> (\<exists>u \<in> set (v # rest). qnext q u \<noteq> None \<or> Some u = qtail q)"
    and "pushall_chain rest (if qtail q = None
           then (queue_lock q)\<lparr>qtail := Some v, qhead := Some v\<rparr> else queue_lock q) = Inr q2"
    and "qtail q2 = Some t"
  shows "queue_pushall (v # rest) q = Inr (0, queue_unlock (queue_broadcast
           (q2\<lparr>qcount := qcount q2 + of_nat (length (v # rest)), qnext := (qnext q2)(t := None)\<rparr>)))"
proof -
  have "qtail (queue_lock q) = qtail q" by (simp add: op_defs)
  then show ?thesis
    using assms(2,3) unfolding queue_pushall_def list.case if_not_P [OF guard] Let_def by simp
qed

lemma queue_pushall_guard:
  "queue_chain q xs \<Longrightarrow> \<forall>v \<in> set vs. qnext q v = None \<Longrightarrow> set vs \<inter> set xs = {} \<Longrightarrow>
    \<not> (\<exists>v \<in> set vs. qnext q v \<noteq> None \<or> Some v = qtail q)"
  by (auto dest: queue_tail_member)

lemma queue_pushall_Nil: "queue_pushall [] q = Inr (-1, q)"
  by (simp add: queue_pushall_def)

lemma queue_pushall_into_empty:
  assumes rep: "queue_rep q []" and "vs \<noteq> []" "distinct vs"
    and det: "\<forall>v \<in> set vs. qnext q v = None"
  shows "\<exists>q'. queue_pushall vs q = Inr (0, q') \<and> queue_rep q' vs \<and>
           queue_frame (set vs) q q' \<and> qwaiters q' = 0"
proof -
  obtain v rest where vs: "vs = v # rest" using assms(2) by (cases vs) auto
  define q1 where "q1 = (queue_lock q)\<lparr>qtail := Some v, qhead := Some v\<rparr>"
  have "queue_chain q1 [v]"
    using det by (simp add: vs q1_def queue_chain_def op_defs)
  moreover have "\<forall>u \<in> set rest. qnext q1 u = None"
    using det by (simp add: vs q1_def op_defs)
  ultimately obtain q2 where q2: "pushall_chain rest q1 = Inr q2" "queue_chain q2 vs"
    "queue_frame (set vs) q1 q2" "qcount q2 = qcount q1"
    using pushall_chain_spec [of q1 "[v]" rest] assms(3) by (auto simp: vs)
  from pushall_finish [OF q2(2) assms(2)] obtain t where t: "qtail q2 = Some t" "qnext q2 t = None"
    "\<And>n. queue_chain (q2\<lparr>qcount := n, qnext := (qnext q2)(t := None)\<rparr>) vs"
    by auto
  have guard: "\<not> (\<exists>u \<in> set (v # rest). qnext q u \<noteq> None \<or> Some u = qtail q)"
    using rep det by (simp add: rep_defs vs)
  have empty: "qtail q = None" "qcount q1 = 0"
    using rep by (simp_all add: rep_defs op_defs q1_def)
  define q3 where "q3 = q2\<lparr>qcount := qcount q2 + of_nat (length vs), qnext := (qnext q2)(t := None)\<rparr>"
  have run: "queue_pushall vs q = Inr (0, queue_unlock (queue_broadcast q3))"
    using queue_pushall_run [OF guard, of q2 t] q2(1) t(1) empty(1)
    unfolding q1_def q3_def vs by simp
  have "queue_chain q3 vs" unfolding q3_def by (rule t(3))
  moreover have "qcount q3 = of_nat (length vs)"
    using empty(2) q2(4) by (simp add: q3_def)
  moreover have "queue_frame (set vs) q q3"
    using q2(3) t(2) by (auto simp: queue_frame_def q3_def q1_def op_defs)
  ultimately show ?thesis
    by (simp add: run) (simp add: op_defs rep_defs queue_frame_def)
qed

text \<open>On a queue that already holds something the first element of the array is skipped, and
  the count is one more than the number of nodes in the chain.\<close>

lemma queue_pushall_into_nonempty:
  assumes rep: "queue_rep q (x # xs)" and "distinct (x # xs @ v # rest)"
    and det: "\<forall>u \<in> set (v # rest). qnext q u = None"
  shows "\<exists>q'. queue_pushall (v # rest) q = Inr (0, q') \<and> queue_chain q' (x # xs @ rest) \<and>
           qcount q' = of_nat (length (x # xs @ rest)) + 1"
proof -
  define q1 where "q1 = queue_lock q"
  have chain: "queue_chain q1 (x # xs)"
    using rep by (simp add: q1_def op_defs rep_defs)
  moreover have "\<forall>u \<in> set rest. qnext q1 u = None"
    using det by (simp add: q1_def op_defs)
  ultimately obtain q2 where q2: "pushall_chain rest q1 = Inr q2" "queue_chain q2 (x # xs @ rest)"
    "qcount q2 = qcount q1"
    using pushall_chain_spec [of q1 "x # xs" rest] assms(2) by auto
  from pushall_finish [OF q2(2)] obtain t where t: "qtail q2 = Some t"
    "\<And>n. queue_chain (q2\<lparr>qcount := n, qnext := (qnext q2)(t := None)\<rparr>) (x # xs @ rest)"
    by auto
  have guard: "\<not> (\<exists>u \<in> set (v # rest). qnext q u \<noteq> None \<or> Some u = qtail q)"
    using queue_pushall_guard [of q "x # xs" "v # rest"] det rep assms(2) by (auto simp: queue_rep_def)
  have tail: "qtail q \<noteq> None" and count: "qcount q1 = of_nat (length (x # xs))"
    using rep by (auto simp: queue_chain_def queue_rep_def q1_def op_defs)
  define q3 where
    "q3 = q2\<lparr>qcount := qcount q2 + of_nat (length (v # rest)), qnext := (qnext q2)(t := None)\<rparr>"
  have run: "queue_pushall (v # rest) q = Inr (0, queue_unlock (queue_broadcast q3))"
    using queue_pushall_run [OF guard, of q2 t] q2(1) t(1) tail unfolding q1_def q3_def by simp
  have "queue_chain q3 (x # xs @ rest)" unfolding q3_def by (rule t(2))
  moreover have "qcount q3 = of_nat (length (x # xs @ rest)) + 1"
    using count q2(3) by (simp add: q3_def)
  ultimately show ?thesis
    by (simp add: run) (simp add: op_defs queue_chain_def)
qed

section \<open>The blocking pop\<close>

text \<open>The queue after \<open>n\<close> returns from \<open>pthread_cond_wait\<close>.\<close>

definition woken :: "('a queue \<Rightarrow> int \<times> 'a queue) \<Rightarrow> nat \<Rightarrow> 'a queue \<Rightarrow> 'a queue" where
  "woken cw n = ((\<lambda>q. snd (cw q)) ^^ n)"

lemma woken_simps [simp]:
  "woken cw 0 q = q" "woken cw (Suc n) q = woken cw n (snd (cw q))"
  by (simp_all add: woken_def funpow_Suc_right del: funpow.simps)

lemma queue_wait_after:
  "\<forall>i < n. qhead (woken cw i q) = None \<and> fst (cw (woken cw i q)) = 0 \<Longrightarrow>
    queue_wait cw q = queue_wait cw (woken cw n q)"
proof (induction n arbitrary: q)
  case 0
  then show ?case by simp
next
  case (Suc n)
  have "qhead q = None" "fst (cw q) = 0" using Suc.prems by (auto dest: spec [of _ 0])
  moreover have "queue_wait cw (snd (cw q)) = queue_wait cw (woken cw n (snd (cw q)))"
    using Suc.prems by (intro Suc.IH) fastforce
  ultimately show ?case by (simp add: queue_wait.simps [of cw q])
qed

lemma queue_wait_returns_only_if:
  assumes "queue_wait cw q = Some r"
  shows "\<exists>n. qhead (woken cw n q) \<noteq> None \<or> fst (cw (woken cw n q)) \<noteq> 0"
proof (rule queue_wait.raw_induct
    [where P = "\<lambda>cw q r. \<exists>n. qhead (woken cw n q) \<noteq> None \<or> fst (cw (woken cw n q)) \<noteq> 0", OF _ assms])
  fix wait cw q r
  assume IH: "\<And>cw q r. wait cw q = Some r \<Longrightarrow>
      \<exists>n. qhead (woken cw n q) \<noteq> None \<or> fst (cw (woken cw n q)) \<noteq> 0"
    and eq: "(if qhead q = None then
        (if fst (cw q) \<noteq> 0 then Some (-1, snd (cw q)) else wait cw (snd (cw q)))
      else Some (0, q)) = Some r"
  show "\<exists>n. qhead (woken cw n q) \<noteq> None \<or> fst (cw (woken cw n q)) \<noteq> 0"
  proof (cases "qhead q = None \<and> fst (cw q) = 0")
    case True
    with eq have "wait cw (snd (cw q)) = Some r" by simp
    from IH [OF this] obtain n where
      "qhead (woken cw (Suc n) q) \<noteq> None \<or> fst (cw (woken cw (Suc n) q)) \<noteq> 0" by auto
    then show ?thesis by blast
  next
    case False
    then have "qhead (woken cw 0 q) \<noteq> None \<or> fst (cw (woken cw 0 q)) \<noteq> 0" by auto
    then show ?thesis by blast
  qed
qed

lemma queue_wait_returns_if:
  assumes "qhead (woken cw n q) \<noteq> None \<or> fst (cw (woken cw n q)) \<noteq> 0"
  shows "queue_wait cw q \<noteq> None"
proof -
  define m where "m = (LEAST n. qhead (woken cw n q) \<noteq> None \<or> fst (cw (woken cw n q)) \<noteq> 0)"
  have m: "qhead (woken cw m q) \<noteq> None \<or> fst (cw (woken cw m q)) \<noteq> 0"
    unfolding m_def by (rule LeastI) (rule assms)
  have "\<forall>i < m. qhead (woken cw i q) = None \<and> fst (cw (woken cw i q)) = 0"
    unfolding m_def using not_less_Least by blast
  then have "queue_wait cw q = queue_wait cw (woken cw m q)" by (rule queue_wait_after)
  with m show ?thesis by (auto simp: queue_wait.simps [of cw "woken cw m q"])
qed

lemma queue_wait_returns_iff:
  "queue_wait cw q \<noteq> None \<longleftrightarrow>
    (\<exists>n. qhead (woken cw n q) \<noteq> None \<or> fst (cw (woken cw n q)) \<noteq> 0)"
proof
  assume "queue_wait cw q \<noteq> None"
  then obtain r where "queue_wait cw q = Some r" by auto
  then show "\<exists>n. qhead (woken cw n q) \<noteq> None \<or> fst (cw (woken cw n q)) \<noteq> 0"
    by (rule queue_wait_returns_only_if)
next
  assume "\<exists>n. qhead (woken cw n q) \<noteq> None \<or> fst (cw (woken cw n q)) \<noteq> 0"
  then show "queue_wait cw q \<noteq> None" by (elim exE) (rule queue_wait_returns_if)
qed

lemma queue_take_returns:
  "qhead q = Some v \<Longrightarrow> \<exists>ret out q'. queue_take q = Some (ret, out, q')"
  by (auto simp: queue_take_def Let_def)

lemma queue_wait_head: "queue_wait cw q = Some (0, q') \<Longrightarrow> qhead q' \<noteq> None"
proof (drule queue_wait.raw_induct
    [where P = "\<lambda>cw q r. fst r = 0 \<longrightarrow> qhead (snd r) \<noteq> None", rotated])
  fix wait and cw :: "'a queue \<Rightarrow> int \<times> 'a queue" and q and r :: "int \<times> 'a queue"
  assume IH: "\<And>cw q r. wait cw q = Some r \<Longrightarrow> fst r = 0 \<longrightarrow> qhead (snd r) \<noteq> None"
    and eq: "(if qhead q = None then
        (if fst (cw q) \<noteq> 0 then Some (-1, snd (cw q)) else wait cw (snd (cw q)))
      else Some (0, q)) = Some r"
  show "fst r = 0 \<longrightarrow> qhead (snd r) \<noteq> None"
    using eq IH [of cw "snd (cw q)" r] by (auto split: if_splits)
qed auto

section \<open>The queue is a FIFO\<close>

interpretation nonblocking: fifo queue_rep "\<lambda>v q. Some (queue_push v q)" "queue_pop cw 0" for cw
proof (unfold_locales, goal_cases)
  case (1 s xs ys)
  then show ?case by (rule queue_rep_unique)
next
  case (2 s xs v)
  then show ?case
    using queue_push_reject [of s xs v] queue_push_accept [of s xs v] by fastforce
next
  case (3 s)
  then show ?case using queue_pop_Nil [of s 0 cw] by auto
next
  case (4 s x xs)
  then show ?case using queue_pop_Cons [of s x xs cw 0] by auto
qed

section \<open>Properties\<close>

text \<open>\<open>queue_push\<close> appends the node at the tail, or returns \<open>-1\<close> and
  changes nothing; it refuses exactly the nodes that are already in the queue (its guard sees
  every member) or whose link is still in use. No other node's link is written, the count
  follows and the mutex is released.\<close>

theorem queue_push_spec:
  assumes "queue_rep q xs"
  shows "(fst (queue_push v q) = -1 \<longleftrightarrow> v \<in> set xs \<or> qnext q v \<noteq> None) \<and>
    (if v \<in> set xs \<or> qnext q v \<noteq> None then queue_push v q = (-1, q)
     else \<exists>q'. queue_push v q = (0, q') \<and> queue_rep q' (xs @ [v]) \<and> queue_frame (set xs) q q')"
proof (cases "v \<in> set xs \<or> qnext q v \<noteq> None")
  case True
  then show ?thesis using queue_push_reject [OF assms True] by simp
next
  case False
  then obtain q' where "queue_push v q = (0, q')" "queue_rep q' (xs @ [v])"
    "queue_frame (set xs) q q'"
    using queue_push_accept [OF assms, of v] by blast
  with False show ?thesis by simp
qed

theorem queue_push_spec_witness:
  "queue_rep \<lparr>qhead = Some 1, qtail = Some 2, qcount = 2, qwaiters = 0, qmutex = False,
      qnext = (\<lambda>_. None)(1 := Some 2)\<rparr> [1, 2 :: int] \<and>
    fst (queue_push 2 \<lparr>qhead = Some 1, qtail = Some (2::int), qcount = 2, qwaiters = 0,
      qmutex = False, qnext = (\<lambda>_. None)(1 := Some 2)\<rparr>) = -1"
proof -
  let ?q = "\<lparr>qhead = Some 1, qtail = Some 2, qcount = 2, qwaiters = 0, qmutex = False,
      qnext = (\<lambda>_. None)(1 := Some 2)\<rparr> :: int queue"
  have rep: "queue_rep ?q [1, 2]" by (simp add: rep_defs)
  then show ?thesis using queue_push_spec [OF rep, of 2] by simp
qed

text \<open>\<open>queue_pop\<close> on a non-empty queue takes the first node out whatever the
  flags, leaves that node detached (so that it can be pushed again) and every other link
  unchanged.\<close>

theorem queue_pop_spec:
  assumes "queue_rep q (x # xs)"
  shows "\<exists>q'. queue_pop cw flags q = Some (0, Some x, q') \<and> queue_rep q' xs \<and>
    queue_frame {x} q q' \<and> fst (queue_push x q') = 0"
proof -
  from queue_pop_Cons [OF assms, of cw flags] obtain q' where
    q': "queue_pop cw flags q = Some (0, Some x, q')" "queue_rep q' xs" "qnext q' x = None"
      "queue_frame {x} q q'" by blast
  have "x \<notin> set xs" using assms by (simp add: rep_defs)
  with q' queue_push_accept [of q' xs x] show ?thesis by force
qed

theorem queue_pop_spec_witness:
  "\<exists>q'. queue_pop (\<lambda>q. (0, q)) QWAIT
      \<lparr>qhead = Some 1, qtail = Some 2, qcount = 2, qwaiters = 0, qmutex = False,
       qnext = (\<lambda>_. None)(1 := Some (2::int))\<rparr> = Some (0, Some 1, q') \<and> queue_rep q' [2]"
  using queue_pop_spec [of "\<lparr>qhead = Some 1, qtail = Some 2, qcount = 2, qwaiters = 0,
      qmutex = False, qnext = (\<lambda>_. None)(1 := Some (2::int))\<rparr>" 1 "[2]" "\<lambda>q. (0, q)" QWAIT]
  by (auto simp: rep_defs)

text \<open>Property C21. First in, first out over any sequence of pushes and pops: every run
  returns, and the nodes popped followed by those left are the nodes there at the start
  followed by those whose push was accepted.\<close>

theorem queue_fifo_order:
  assumes "queue_rep q xs"
  shows "\<exists>outs ins q' ys.
    fifo_run (\<lambda>v q. Some (queue_push v q)) (queue_pop cw 0) ops q = Some (outs, ins, q') \<and>
    queue_rep q' ys \<and> xs @ ins = outs @ ys"
  using assms by (rule nonblocking.run_order)

theorem queue_fifo_order_witness:
  "\<exists>outs ins q' ys.
    fifo_run (\<lambda>v q. Some (queue_push v q)) (queue_pop (\<lambda>q. (0, q)) 0) [Push 7, Push 7, Pop]
      (queue_init \<lparr>qhead = None, qtail = None, qcount = 9, qwaiters = 0, qmutex = False,
        qnext = (\<lambda>_. None)\<rparr>) = Some (outs, ins, q') \<and>
    queue_rep q' ys \<and> [] @ ins = outs @ (ys :: int list)"
  by (rule queue_fifo_order) (rule queue_init_rep)



text \<open>\<open>queue_pushall\<close> into a queue that already holds a node returns success
  but loses the first element of the array: only the rest is chained, while the count grows by
  the whole array.\<close>

theorem queue_pushall_loses_first:
  assumes "queue_rep q xs" "xs \<noteq> []" "distinct (xs @ v # rest)"
    and "\<forall>u \<in> set (v # rest). qnext q u = None"
  shows "\<exists>q'. queue_pushall (v # rest) q = Inr (0, q') \<and> queue_chain q' (xs @ rest) \<and>
    qcount q' = of_nat (length (xs @ rest)) + 1"
proof -
  obtain x ys where "xs = x # ys" using assms(2) by (cases xs) auto
  with queue_pushall_into_nonempty [of q x ys v rest] assms show ?thesis by simp
qed

theorem queue_pushall_loses_first_witness:
  "\<exists>q'. queue_pushall [3, 4] \<lparr>qhead = Some 1, qtail = Some 2, qcount = 2, qwaiters = 0,
      qmutex = False, qnext = (\<lambda>_. None)(1 := Some (2::int))\<rparr> = Inr (0, q') \<and>
    queue_chain q' [1, 2, 4] \<and> qcount q' = 4"
  using queue_pushall_loses_first [of "\<lparr>qhead = Some 1, qtail = Some 2, qcount = 2,
      qwaiters = 0, qmutex = False, qnext = (\<lambda>_. None)(1 := Some (2::int))\<rparr>" "[1, 2]" 3 "[4]"]
  by (auto simp: rep_defs)

end
