(* ===== verification/Registry.thy ===== *)
theory Registry
  imports Prelude
begin

text \<open>
  The interface the rest of the program needs from the doubly linked list: a registry of
  nodes that can be entered, struck off from any position and taken from the front. A node
  that is not registered is \<open>detached\<close> when its links are NULL. \<open>ListT\<close> interprets
  the interface; \<open>Task\<close> (the list of all tasks) and \<open>Modepoll\<close> (the waiting events)
  are its clients.
\<close>

fun remove_each :: "('a \<Rightarrow> 's \<Rightarrow> int \<times> 's) \<Rightarrow> 'a list \<Rightarrow> 's \<Rightarrow> int list \<times> 's" where
  "remove_each remove [] s = ([], s)"
| "remove_each remove (v # vs) s =
    (case remove v s of (ret, s) \<Rightarrow>
      (case remove_each remove vs s of (rets, s) \<Rightarrow> (ret # rets, s)))"

locale registry =
  fixes rep :: "'s \<Rightarrow> 'a list \<Rightarrow> bool"
    and detached :: "'s \<Rightarrow> 'a \<Rightarrow> bool"
    and add :: "'a \<Rightarrow> 's \<Rightarrow> int \<times> 's"
    and remove :: "'a \<Rightarrow> 's \<Rightarrow> int \<times> 's"
    and take :: "'s \<Rightarrow> (int \<times> 'a option \<times> 's) option"
  assumes rep_unique: "rep s xs \<Longrightarrow> rep s ys \<Longrightarrow> xs = ys"
    and rep_distinct: "rep s xs \<Longrightarrow> distinct xs"
    and add_law: "rep s xs \<Longrightarrow> v \<notin> set xs \<Longrightarrow> detached s v \<Longrightarrow> length xs + 1 < 2 ^ 64 \<Longrightarrow>
      \<exists>s'. add v s = (0, s') \<and> rep s' (xs @ [v]) \<and>
           (\<forall>u. u \<notin> set xs \<longrightarrow> u \<noteq> v \<longrightarrow> detached s' u = detached s u)"
    and remove_law: "rep s xs \<Longrightarrow> v \<in> set xs \<Longrightarrow>
      \<exists>s'. remove v s = (0, s') \<and> rep s' (remove1 v xs) \<and> detached s' v \<and>
           (\<forall>u. u \<notin> set xs \<longrightarrow> detached s' u = detached s u)"
    and remove_absent_law: "rep s xs \<Longrightarrow> v \<notin> set xs \<Longrightarrow> detached s v \<Longrightarrow> remove v s = (-1, s)"
    and take_law: "rep s (x # xs) \<Longrightarrow>
      \<exists>s'. take s = Some (0, Some x, s') \<and> rep s' xs \<and> detached s' x \<and>
           (\<forall>u. u \<notin> set (x # xs) \<longrightarrow> detached s' u = detached s u)"
    and take_empty_law: "rep s [] \<Longrightarrow> take s = Some (-1, None, s)"
begin

text \<open>Entering a node and striking it off again restores the registry's contents.\<close>

lemma add_remove:
  assumes "rep s xs" "v \<notin> set xs" "detached s v" "length xs + 1 < 2 ^ 64"
  shows "\<exists>s'. remove v (snd (add v s)) = (0, s') \<and> rep s' xs \<and> detached s' v"
proof -
  from add_law [OF assms] obtain s1 where s1: "add v s = (0, s1)" "rep s1 (xs @ [v])" by blast
  with remove_law [of s1 "xs @ [v]" v] obtain s2 where
    "remove v s1 = (0, s2)" "rep s2 (remove1 v (xs @ [v]))" "detached s2 v" by auto
  with s1(1) assms(2) show ?thesis by (simp add: remove1_append)
qed

text \<open>Every node can be struck off exactly once, in any order.\<close>

lemma remove_all:
  "rep s xs \<Longrightarrow> distinct vs \<Longrightarrow> set vs \<subseteq> set xs \<Longrightarrow>
    \<exists>s'. remove_each remove vs s = (replicate (length vs) 0, s') \<and>
         rep s' (filter (\<lambda>x. x \<notin> set vs) xs)"
proof (induction vs arbitrary: s xs)
  case Nil
  then show ?case by auto
next
  case (Cons v vs)
  from Cons.prems remove_law [of s xs v] obtain s1 where
    s1: "remove v s = (0, s1)" "rep s1 (remove1 v xs)" by auto
  have dist: "distinct xs" using Cons.prems(1) by (rule rep_distinct)
  then have "set vs \<subseteq> set (remove1 v xs)" using Cons.prems by auto
  with Cons.IH [of s1 "remove1 v xs"] s1 Cons.prems obtain s2 where
    "remove_each remove vs s1 = (replicate (length vs) 0, s2)"
    "rep s2 (filter (\<lambda>x. x \<notin> set vs) (remove1 v xs))" by auto
  moreover have "filter (\<lambda>x. x \<notin> set vs) (remove1 v xs) = filter (\<lambda>x. x \<notin> set (v # vs)) xs"
    using dist by (simp add: distinct_remove1_removeAll removeAll_filter_not_eq conj_commute eq_commute)
  ultimately show ?case using s1(1) by simp
qed

text \<open>A node taken from the front is no longer registered, so striking it off fails and
  changes nothing.\<close>

lemma take_then_remove:
  assumes "rep s (x # xs)"
  shows "\<exists>s'. take s = Some (0, Some x, s') \<and> rep s' xs \<and> remove x s' = (-1, s')"
proof -
  from take_law [OF assms] obtain s' where
    s': "take s = Some (0, Some x, s')" "rep s' xs" "detached s' x" by blast
  moreover have "x \<notin> set xs" using rep_distinct [OF assms] by simp
  ultimately show ?thesis using remove_absent_law by blast
qed

end

end
