(* ===== verification/ListT.thy ===== *)
theory ListT
  imports Registry
begin

text \<open>
  The intrusive doubly linked list of \<open>include/pcaio/listT.h\<close> and \<open>listT.c\<close>. The
  node fields \<open>T##list_next\<close> and \<open>T##list_prev\<close> are the maps \<open>lnext\<close> and
  \<open>lprev\<close>, one pointer per node; the mutex is the flag \<open>lmutex\<close>.
\<close>

section \<open>State\<close>

record 'a plist =
  lhead :: "'a option"
  ltail :: "'a option"
  lcount :: c_size
  lmutex :: bool
  lnext :: "'a \<Rightarrow> 'a option"
  lprev :: "'a \<Rightarrow> 'a option"

section \<open>Operations\<close>

text \<open>The initialiser touches the mutex only: head, tail and count are the caller's.\<close>

definition list_init :: "'a plist \<Rightarrow> 'a plist" where
  "list_init l = l\<lparr>lmutex := False\<rparr>"

definition list_deinit :: "'a plist \<Rightarrow> 'a plist" where
  "list_deinit l = l\<lparr>lmutex := False\<rparr>"

definition list_lock :: "'a plist \<Rightarrow> 'a plist" where
  "list_lock l = l\<lparr>lmutex := True\<rparr>"

definition list_unlock :: "'a plist \<Rightarrow> 'a plist" where
  "list_unlock l = l\<lparr>lmutex := False\<rparr>"

definition list_append :: "'a \<Rightarrow> 'a plist \<Rightarrow> int \<times> 'a plist" where
  "list_append v l =
    (if lprev l v \<noteq> None \<or> lnext l v \<noteq> None then (-1, l)
     else
       let l = list_lock l;
           l = (case ltail l of
                  None \<Rightarrow> l\<lparr>lhead := Some v, ltail := Some v\<rparr>
                | Some t \<Rightarrow>
                   let l = l\<lparr>lprev := (lprev l)(v := Some t)\<rparr>;
                       l = l\<lparr>lnext := (lnext l)(t := Some v)\<rparr>
                   in l\<lparr>ltail := Some v\<rparr>);
           l = l\<lparr>lcount := lcount l + 1\<rparr>
       in (0, list_unlock l))"

definition list_delete :: "'a option \<Rightarrow> 'a plist \<Rightarrow> int \<times> 'a plist" where
  "list_delete vp l =
    (case vp of
       None \<Rightarrow> (-1, l)
     | Some v \<Rightarrow>
        if lcount l = 0 then (-1, l)
        else
          let l = list_lock l;
              r = (case (lprev l v, lnext l v) of
                     (None, None) \<Rightarrow>
                       if lhead l \<noteq> Some v \<or> ltail l \<noteq> Some v then None
                       else Some (l\<lparr>lhead := None, ltail := None\<rparr>)
                   | (Some p, None) \<Rightarrow>
                       if ltail l \<noteq> Some v then None
                       else
                         let l = l\<lparr>ltail := Some p\<rparr>;
                             l = l\<lparr>lnext := (lnext l)(p := None)\<rparr>
                         in Some (l\<lparr>lprev := (lprev l)(v := None)\<rparr>)
                   | (None, Some n) \<Rightarrow>
                       if lhead l \<noteq> Some v then None
                       else
                         let l = l\<lparr>lhead := Some n\<rparr>;
                             l = l\<lparr>lprev := (lprev l)(n := None)\<rparr>
                         in Some (l\<lparr>lnext := (lnext l)(v := None)\<rparr>)
                   | (Some p, Some n) \<Rightarrow>
                       let l = l\<lparr>lprev := (lprev l)(n := Some p)\<rparr>;
                           l = l\<lparr>lnext := (lnext l)(p := Some n)\<rparr>;
                           l = l\<lparr>lprev := (lprev l)(v := None)\<rparr>
                       in Some (l\<lparr>lnext := (lnext l)(v := None)\<rparr>))
          in case r of
               None \<Rightarrow> (-1, list_unlock l)
             | Some l \<Rightarrow> (0, list_unlock (l\<lparr>lcount := lcount l - 1\<rparr>)))"

text \<open>\<open>out\<close> tells whether the caller passed a place for the result.\<close>

definition list_pop :: "bool \<Rightarrow> 'a plist \<Rightarrow> fault + (int \<times> 'a option \<times> 'a plist)" where
  "list_pop out l =
    (if \<not> out \<or> lcount l = 0 then Inr (-1, None, l)
     else
       let l = list_lock l
       in case lhead l of
            None \<Rightarrow> Inl NullDeref
          | Some v \<Rightarrow>
             let l = (case lnext l v of
                        Some n \<Rightarrow> let l = l\<lparr>lprev := (lprev l)(n := None)\<rparr> in l\<lparr>lhead := Some n\<rparr>
                      | None \<Rightarrow> l\<lparr>lhead := None, ltail := None\<rparr>);
                 l = l\<lparr>lnext := (lnext l)(v := None)\<rparr>;
                 l = l\<lparr>lcount := lcount l - 1\<rparr>
             in Inr (0, Some v, list_unlock l))"

lemmas [op_defs] = list_lock_def list_unlock_def

section \<open>Representation\<close>

definition list_chain :: "'a plist \<Rightarrow> 'a list \<Rightarrow> bool" where
  "list_chain l xs \<longleftrightarrow> distinct xs \<and> lhead l = hd_opt xs \<and> ltail l = last_opt xs \<and>
     (\<forall>v \<in> set xs. lnext l v = succ_in xs v \<and> lprev l v = pred_in xs v)"

definition list_rep :: "'a plist \<Rightarrow> 'a list \<Rightarrow> bool" where
  "list_rep l xs \<longleftrightarrow> list_chain l xs \<and> lcount l = of_nat (length xs) \<and>
     length xs < 2 ^ 64 \<and> \<not> lmutex l"

definition list_detached :: "'a plist \<Rightarrow> 'a \<Rightarrow> bool" where
  "list_detached l v \<longleftrightarrow> lnext l v = None \<and> lprev l v = None"

definition list_frame :: "'a set \<Rightarrow> 'a plist \<Rightarrow> 'a plist \<Rightarrow> bool" where
  "list_frame us l l' \<longleftrightarrow> (\<forall>u. u \<notin> us \<longrightarrow> lnext l' u = lnext l u \<and> lprev l' u = lprev l u)"

lemmas [rep_defs] = list_chain_def list_rep_def list_detached_def list_frame_def

lemma list_chain_unique: "list_chain l xs \<Longrightarrow> list_chain l ys \<Longrightarrow> xs = ys"
  by (rule chain_unique [of xs ys "lnext l"]) (simp_all add: list_chain_def)

lemma list_rep_unique: "list_rep l xs \<Longrightarrow> list_rep l ys \<Longrightarrow> xs = ys"
  by (auto simp: list_rep_def dest: list_chain_unique)

lemma list_rep_count: "list_rep l xs \<Longrightarrow> lcount l = 0 \<longleftrightarrow> xs = []"
  by (simp add: list_rep_def of_nat_size_eq_0)

section \<open>Append\<close>

lemma pred_in_snoc:
  "distinct (xs @ [v]) \<Longrightarrow> pred_in (xs @ [v]) u = (if u = v then last_opt xs else pred_in xs u)"
  using pred_in_append [of xs "[v]" u] by (auto simp: pred_in_def)

lemma list_append_accept:
  assumes rep: "list_rep l xs" and new: "v \<notin> set xs" and det: "list_detached l v"
    and room: "length xs + 1 < 2 ^ 64"
  shows "\<exists>l'. list_append v l = (0, l') \<and> list_rep l' (xs @ [v]) \<and> list_frame (set (xs @ [v])) l l'"
proof (cases "xs = []")
  case True
  then have "ltail l = None" using rep by (simp add: rep_defs)
  with det True rep room show ?thesis
    by (auto simp: list_append_def op_defs rep_defs Let_def pred_in_def)
next
  case False
  have facts: "ltail l = Some (last xs)" "lhead l = hd_opt xs" "lcount l = of_nat (length xs)"
    "\<forall>u \<in> set xs. lnext l u = succ_in xs u \<and> lprev l u = pred_in xs u" "distinct (xs @ [v])"
    using rep False new by (auto simp: rep_defs last_opt_def)
  have "last xs \<in> set xs" "last xs \<noteq> v" using False new by auto
  with facts det False room new show ?thesis
    by (auto simp: list_append_def op_defs rep_defs Let_def succ_in_snoc pred_in_snoc last_opt_def)
qed

text \<open>The guard (both links NULL) sees every member of a list of two nodes or more.\<close>

lemma list_member_linked:
  "list_chain l xs \<Longrightarrow> v \<in> set xs \<Longrightarrow> list_detached l v \<longleftrightarrow> xs = [v]"
proof (cases xs)
  case Nil
  then show "v \<in> set xs \<Longrightarrow> ?thesis" by simp
next
  case (Cons x ys)
  assume "list_chain l xs" "v \<in> set xs"
  then have "list_detached l v \<longleftrightarrow> v = last xs \<and> v = hd xs" "distinct xs"
    by (auto simp: list_detached_def list_chain_def succ_in_None_iff pred_in_None_iff)
  with \<open>v \<in> set xs\<close> Cons show ?thesis by (auto split: if_splits)
qed

lemma list_append_reject: "\<not> list_detached l v \<Longrightarrow> list_append v l = (-1, l)"
  by (auto simp: list_append_def list_detached_def)

section \<open>Delete\<close>

text \<open>The chain without one of its nodes.\<close>

lemma succ_in_without:
  assumes "distinct (as @ v # bs)" "u \<in> set (as @ bs)"
  shows "succ_in (as @ bs) u = (if as \<noteq> [] \<and> u = last as then hd_opt bs else succ_in (as @ v # bs) u)"
  using assms succ_in_append [of as bs u] succ_in_append [of as "v # bs" u] succ_in_Cons [of v bs u]
  by auto

lemma pred_in_without:
  assumes "distinct (as @ v # bs)" "u \<in> set (as @ bs)"
  shows "pred_in (as @ bs) u = (if bs \<noteq> [] \<and> u = hd bs then last_opt as else pred_in (as @ v # bs) u)"
  using assms pred_in_append [of as bs u] pred_in_append [of as "v # bs" u] pred_in_Cons [of v bs u]
  by auto

lemma links_at:
  assumes "distinct (as @ v # bs)"
  shows "succ_in (as @ v # bs) v = hd_opt bs" "pred_in (as @ v # bs) v = last_opt as"
  using assms succ_in_append [of as "v # bs" v] succ_in_Cons [of v bs v] pred_in_append [of as "v # bs" v]
  by auto

text \<open>What \<open>list_delete\<close> writes, for a node between \<open>as\<close> and \<open>bs\<close>.\<close>

lemma list_delete_run:
  assumes "lnext l v = hd_opt bs" "lprev l v = last_opt as"
    and "lhead l = hd_opt (as @ [v])" "ltail l = last_opt (v # bs)" "lcount l \<noteq> 0"
    and "distinct (as @ v # bs)"
  shows "\<exists>l'. list_delete (Some v) l = (0, l') \<and>
    lhead l' = hd_opt (as @ bs) \<and> ltail l' = last_opt (as @ bs) \<and> lcount l' = lcount l - 1 \<and>
    \<not> lmutex l' \<and>
    lnext l' = (\<lambda>u. if u = v then None else if as \<noteq> [] \<and> u = last as then hd_opt bs else lnext l u) \<and>
    lprev l' = (\<lambda>u. if u = v then None else if bs \<noteq> [] \<and> u = hd bs then last_opt as else lprev l u)"
proof (cases as rule: rev_cases; cases bs)
  assume "as = []" "bs = []"
  with assms show ?thesis by (auto simp: list_delete_def op_defs Let_def fun_eq_iff)
next
  fix b bs' assume "as = []" "bs = b # bs'"
  with assms show ?thesis by (auto simp: list_delete_def op_defs Let_def fun_eq_iff)
next
  fix a as' assume "as = as' @ [a]" "bs = []"
  with assms show ?thesis by (auto simp: list_delete_def op_defs Let_def fun_eq_iff last_opt_def)
next
  fix a as' b bs' assume "as = as' @ [a]" "bs = b # bs'"
  with assms show ?thesis
    by (auto simp: list_delete_def op_defs Let_def fun_eq_iff last_opt_def)
qed

lemma list_delete_at:
  assumes rep: "list_rep l (as @ v # bs)"
  shows "\<exists>l'. list_delete (Some v) l = (0, l') \<and> list_rep l' (as @ bs) \<and> list_detached l' v \<and>
           list_frame (set (as @ v # bs)) l l'"
proof -
  have dist: "distinct (as @ v # bs)" using rep by (simp add: rep_defs)
  have cnt: "lcount l \<noteq> 0" "lcount l - 1 = of_nat (length (as @ bs))" "length (as @ bs) < 2 ^ 64"
    using rep list_rep_count [OF rep] by (auto simp: rep_defs)
  have at: "lnext l v = hd_opt bs" "lprev l v = last_opt as"
    using rep links_at [OF dist] by (simp_all add: rep_defs)
  have ends: "lhead l = hd_opt (as @ [v])" "ltail l = last_opt (v # bs)"
    using rep by (auto simp: rep_defs last_opt_def)
  have others: "\<And>u. u \<in> set (as @ bs) \<Longrightarrow>
      lnext l u = succ_in (as @ v # bs) u \<and> lprev l u = pred_in (as @ v # bs) u"
    using rep by (simp add: rep_defs)
  from list_delete_run [OF at ends cnt(1) dist] obtain l' where
    run: "list_delete (Some v) l = (0, l')" and
    post: "lhead l' = hd_opt (as @ bs)" "ltail l' = last_opt (as @ bs)" "lcount l' = lcount l - 1"
      "\<not> lmutex l'"
      "lnext l' = (\<lambda>u. if u = v then None else if as \<noteq> [] \<and> u = last as then hd_opt bs else lnext l u)"
      "lprev l' = (\<lambda>u. if u = v then None else if bs \<noteq> [] \<and> u = hd bs then last_opt as else lprev l u)"
    by blast
  have "list_rep l' (as @ bs)"
    using post(1-4) cnt dist succ_in_without [OF dist] pred_in_without [OF dist] others
    unfolding list_rep_def list_chain_def post(5,6) by auto
  moreover have "list_detached l' v \<and> list_frame (set (as @ v # bs)) l l'"
    using dist unfolding list_detached_def list_frame_def post(5,6) by auto
  ultimately show ?thesis using run by blast
qed

lemma list_delete_member:
  assumes rep: "list_rep l xs" and mem: "v \<in> set xs"
  shows "\<exists>l'. list_delete (Some v) l = (0, l') \<and> list_rep l' (remove1 v xs) \<and>
           list_detached l' v \<and> list_frame (set xs) l l'"
proof -
  from mem obtain as bs where xs: "xs = as @ v # bs" and "v \<notin> set as"
    by (auto dest: split_list_first)
  then have "remove1 v xs = as @ bs" by (simp add: remove1_append)
  with list_delete_at [of l as v bs] rep show ?thesis by (simp add: xs)
qed

lemma list_delete_absent:
  assumes "list_rep l xs" "v \<notin> set xs" "list_detached l v"
  shows "list_delete (Some v) l = (-1, l)"
proof -
  have "lhead l \<noteq> Some v \<or> ltail l \<noteq> Some v"
    using assms(1,2) by (cases xs) (auto simp: rep_defs)
  moreover have "l\<lparr>lmutex := False\<rparr> = l" using assms(1) by (simp add: rep_defs)
  ultimately show ?thesis
    using assms(3) by (auto simp: list_delete_def op_defs list_detached_def Let_def)
qed

section \<open>Pop\<close>

lemma list_pop_Cons:
  assumes rep: "list_rep l (x # xs)"
  shows "\<exists>l'. list_pop True l = Inr (0, Some x, l') \<and> list_rep l' xs \<and> list_detached l' x \<and>
           list_frame (set (x # xs)) l l'"
proof -
  have dist: "distinct (x # xs)" using rep by (simp add: rep_defs)
  have facts: "lcount l \<noteq> 0" "lcount l - 1 = of_nat (length xs)" "lhead l = Some x"
    "ltail l = last_opt (x # xs)" "lnext l x = hd_opt xs" "lprev l x = None"
    using rep list_rep_count [OF rep] links_at [of "[]" x xs] by (auto simp: rep_defs)
  have others: "\<And>u. u \<in> set xs \<Longrightarrow>
      lnext l u = succ_in xs u \<and> lprev l u = (if u = hd xs then Some x else pred_in xs u)"
    using rep dist by (auto simp: rep_defs succ_in_Cons pred_in_Cons)
  show ?thesis
  proof (cases xs)
    case Nil
    with facts rep show ?thesis by (auto simp: list_pop_def op_defs rep_defs Let_def)
  next
    case (Cons y ys)
    have "pred_in xs y = None" using dist pred_in_None_iff [of xs y] Cons by simp
    moreover have "\<not> lmutex l" "length xs < 2 ^ 64" using rep by (auto simp: rep_defs)
    ultimately show ?thesis
      using facts others dist Cons
      by (auto simp: list_pop_def op_defs rep_defs Let_def last_opt_def)
  qed
qed

lemma list_pop_Nil: "list_rep l [] \<Longrightarrow> list_pop out l = Inr (-1, None, l)"
  using list_rep_count [of l "[]"] by (simp add: list_pop_def)

section \<open>The list is a registry\<close>

lemma list_frame_detached:
  "list_frame us l l' \<Longrightarrow> u \<notin> us \<Longrightarrow> list_detached l' u = list_detached l u"
  by (simp add: list_frame_def list_detached_def)

interpretation plist: registry list_rep list_detached list_append "\<lambda>v. list_delete (Some v)"
  "\<lambda>l. returns (list_pop True l)"
proof (unfold_locales, goal_cases)
  case (1 s xs ys)
  then show ?case by (rule list_rep_unique)
next
  case (2 s xs)
  then show ?case by (simp add: rep_defs)
next
  case (3 s xs v)
  with list_append_accept [of s xs v] obtain l' where "list_append v s = (0, l')"
    "list_rep l' (xs @ [v])" "list_frame (set (xs @ [v])) s l'" by blast
  then show ?case by (auto dest: list_frame_detached)
next
  case (4 s xs v)
  with list_delete_member [of s xs v] show ?case by (fastforce dest: list_frame_detached)
next
  case (5 s xs v)
  then show ?case by (rule list_delete_absent)
next
  case (6 s x xs)
  with list_pop_Cons [of s x xs] obtain l' where "list_pop True s = Inr (0, Some x, l')"
    "list_rep l' xs" "list_detached l' x" "list_frame (set (x # xs)) s l'" by blast
  then show ?case by (auto dest: list_frame_detached)
next
  case (7 s)
  then show ?case by (simp add: list_pop_Nil)
qed

section \<open>Properties\<close>

text \<open>\<open>list_append\<close> enters a node whose links are both NULL at the tail and
  touches no other node outside the list; a node with a link in use is refused with no change.\<close>

theorem list_append_spec:
  assumes "list_rep l xs" "v \<notin> set xs" "length xs + 1 < 2 ^ 64"
  shows "if list_detached l v
    then \<exists>l'. list_append v l = (0, l') \<and> list_rep l' (xs @ [v]) \<and> list_frame (set (xs @ [v])) l l'
    else list_append v l = (-1, l)"
  using assms list_append_accept [of l xs v] list_append_reject [of l v] by simp

theorem list_append_spec_witness:
  "list_rep \<lparr>lhead = Some 5, ltail = Some 6, lcount = 2, lmutex = False,
      lnext = (\<lambda>_. None)(5 := Some 6), lprev = (\<lambda>_. None)(6 := Some 5)\<rparr> [5, 6 :: int] \<and>
   (\<exists>l'. list_append 7 \<lparr>lhead = Some 5, ltail = Some 6, lcount = 2, lmutex = False,
      lnext = (\<lambda>_. None)(5 := Some 6), lprev = (\<lambda>_. None)(6 := Some 5)\<rparr> = (0, l') \<and>
      list_rep l' [5, 6, 7 :: int])"
proof -
  let ?l = "\<lparr>lhead = Some 5, ltail = Some 6, lcount = 2, lmutex = False,
      lnext = (\<lambda>_. None)(5 := Some 6), lprev = (\<lambda>_. None)(6 := Some 5)\<rparr> :: int plist"
  have rep: "list_rep ?l [5, 6]" by (simp add: rep_defs pred_in_def)
  then show ?thesis using list_append_spec [OF rep, of 7] by (auto simp: list_detached_def)
qed

text \<open>Property C24. \<open>list_delete\<close> unlinks a member from any position (sole, first, middle,
  last), leaves it detached, and keeps the order of the others; a detached node that is not
  a member, and NULL, are refused with no change.\<close>

theorem list_delete_spec:
  assumes "list_rep l xs"
  shows "(v \<in> set xs \<longrightarrow> (\<exists>l'. list_delete (Some v) l = (0, l') \<and> list_rep l' (remove1 v xs) \<and>
      list_detached l' v \<and> list_frame (set xs) l l')) \<and>
    (v \<notin> set xs \<and> list_detached l v \<longrightarrow> list_delete (Some v) l = (-1, l)) \<and>
    list_delete None l = (-1, l)"
  using list_delete_member [OF assms, of v] list_delete_absent [OF assms, of v]
  by (auto simp: list_delete_def)

theorem list_delete_spec_witness:
  "\<exists>l'. list_delete (Some 6) \<lparr>lhead = Some 5, ltail = Some 7, lcount = 3, lmutex = False,
      lnext = (\<lambda>_. None)(5 := Some 6, 6 := Some 7),
      lprev = (\<lambda>_. None)(6 := Some 5, 7 := Some 6)\<rparr> = (0, l') \<and> list_rep l' [5, 7 :: int]"
proof -
  let ?l = "\<lparr>lhead = Some 5, ltail = Some 7, lcount = 3, lmutex = False,
      lnext = (\<lambda>_. None)(5 := Some 6, 6 := Some 7),
      lprev = (\<lambda>_. None)(6 := Some 5, 7 := Some 6)\<rparr> :: int plist"
  have rep: "list_rep ?l [5, 6, 7]" by (simp add: rep_defs pred_in_def)
  show ?thesis using list_delete_spec [OF rep, of 6] by auto
qed

text \<open>Popping the list empty: each \<open>list_pop\<close> returns the first node, the
  popped node is no longer registered (deleting it fails with no change), and an empty list is
  reported; no pop of a well-formed list dereferences NULL.\<close>

theorem list_pop_spec:
  assumes "list_rep l xs"
  shows "case xs of
      [] \<Rightarrow> list_pop True l = Inr (-1, None, l)
    | x # rest \<Rightarrow> \<exists>l'. list_pop True l = Inr (0, Some x, l') \<and> list_rep l' rest \<and>
        list_delete (Some x) l' = (-1, l')"
proof (cases xs)
  case Nil
  then show ?thesis using assms by (simp add: list_pop_Nil)
next
  case (Cons x rest)
  from list_pop_Cons [OF assms [unfolded Cons]] obtain l' where
    l': "list_pop True l = Inr (0, Some x, l')" "list_rep l' rest" "list_detached l' x" by blast
  have "x \<notin> set rest" using assms Cons by (simp add: rep_defs)
  then have "list_delete (Some x) l' = (-1, l')" using l' by (intro list_delete_absent)
  with l' Cons show ?thesis by simp
qed

theorem list_pop_spec_witness:
  "\<exists>l'. list_pop True \<lparr>lhead = Some 5, ltail = Some 6, lcount = 2, lmutex = False,
      lnext = (\<lambda>_. None)(5 := Some 6), lprev = (\<lambda>_. None)(6 := Some 5)\<rparr> = Inr (0, Some 5, l') \<and>
    list_rep l' [6 :: int]"
proof -
  let ?l = "\<lparr>lhead = Some 5, ltail = Some 6, lcount = 2, lmutex = False,
      lnext = (\<lambda>_. None)(5 := Some 6), lprev = (\<lambda>_. None)(6 := Some 5)\<rparr> :: int plist"
  have rep: "list_rep ?l [5, 6]" by (simp add: rep_defs pred_in_def)
  show ?thesis using list_pop_spec [OF rep] unfolding list.case by (elim exE conjE) (intro exI conjI)
qed

text \<open>Any set of members can be struck off in any order: every deletion
  succeeds and what is left is the list without them, in its order.\<close>

theorem list_delete_any_order:
  assumes "list_rep l xs" "distinct vs" "set vs \<subseteq> set xs"
  shows "\<exists>l'. remove_each (\<lambda>v. list_delete (Some v)) vs l = (replicate (length vs) 0, l') \<and>
    list_rep l' (filter (\<lambda>x. x \<notin> set vs) xs)"
  using assms by (rule plist.remove_all)

theorem list_delete_any_order_witness:
  "\<exists>l'. remove_each (\<lambda>v. list_delete (Some v)) [7, 5] \<lparr>lhead = Some 5, ltail = Some 7, lcount = 3,
      lmutex = False, lnext = (\<lambda>_. None)(5 := Some 6, 6 := Some 7),
      lprev = (\<lambda>_. None)(6 := Some 5, 7 := Some 6)\<rparr> = ([0, 0], l') \<and> list_rep l' [6 :: int]"
proof -
  let ?l = "\<lparr>lhead = Some 5, ltail = Some 7, lcount = 3, lmutex = False,
      lnext = (\<lambda>_. None)(5 := Some 6, 6 := Some 7),
      lprev = (\<lambda>_. None)(6 := Some 5, 7 := Some 6)\<rparr> :: int plist"
  have rep: "list_rep ?l [5, 6, 7]" by (simp add: rep_defs pred_in_def)
  show ?thesis using list_delete_any_order [OF rep, of "[7, 5]"] by (simp add: numeral_2_eq_2)
qed

text \<open>The guard of \<open>list_append\<close> misses the only node of a list: appending
  it again succeeds, links the node to itself, and leaves a structure that is no list at all.\<close>

theorem list_append_sole_member:
  assumes "list_rep l [v]"
  shows "\<exists>l'. list_append v l = (0, l') \<and> lnext l' v = Some v \<and> lcount l' = 2 \<and>
    \<not> (\<exists>ys. list_chain l' ys)"
proof -
  have facts: "lnext l v = None" "lprev l v = None" "ltail l = Some v" "lhead l = Some v"
    "lcount l = 1"
    using assms by (simp_all add: rep_defs pred_in_def)
  then obtain l' where l': "list_append v l = (0, l')" "lnext l' v = Some v" "lcount l' = 2"
    "ltail l' = Some v"
    by (auto simp: list_append_def op_defs Let_def)
  moreover have "\<not> list_chain l' ys" for ys
  proof
    assume "list_chain l' ys"
    with l'(2,4) have "ys \<noteq> []" "last ys = v" "distinct ys" "succ_in ys v = Some v"
      by (auto simp: list_chain_def last_opt_def split: if_splits)
    then show False using succ_in_last [of ys] by simp
  qed
  ultimately show ?thesis by blast
qed

theorem list_append_sole_member_witness:
  "\<exists>l'. list_append 5 \<lparr>lhead = Some 5, ltail = Some 5, lcount = 1, lmutex = False,
      lnext = (\<lambda>_. None), lprev = (\<lambda>_. None)\<rparr> = (0, l') \<and> lnext l' (5 :: int) = Some 5"
  using list_append_sole_member [of "\<lparr>lhead = Some 5, ltail = Some 5, lcount = 1, lmutex = False,
      lnext = (\<lambda>_. None), lprev = (\<lambda>_. None)\<rparr>" "5 :: int"]
  by (auto simp: rep_defs pred_in_def)

end
