(* ===== verification/ThreadLocal.thy ===== *)
theory ThreadLocal
  imports Prelude
begin

text \<open>
  Thread-specific storage, the template \<open>pcaio/threadlocalT.h\<close> and \<open>threadlocalT.c\<close>
  (instantiated for the current task in \<open>task.c\<close> and for the landing context in
  \<open>context.c\<close>). Threads are numbered; the pthread calls' error codes are arguments. The
  functions return the status, the new value of \<open>errno\<close> if they set it, and the state.
\<close>

type_synonym tid = nat

record 'v tls =
  tls_key :: bool                         \<comment> \<open>the key exists\<close>
  tls_slot :: "tid \<Rightarrow> 'v option"          \<comment> \<open>each thread's value, NULL at first\<close>

definition threadlocal_init :: "int \<Rightarrow> 'v tls \<Rightarrow> int \<times> int option \<times> 'v tls" where
  "threadlocal_init err s =
    (if err \<noteq> 0 then (-1, Some err, s)
     else (0, None, s\<lparr>tls_key := True, tls_slot := (\<lambda>_. None)\<rparr>))"

definition threadlocal_set ::
  "int \<Rightarrow> tid \<Rightarrow> 'v option \<Rightarrow> 'v tls \<Rightarrow> int \<times> int option \<times> 'v tls" where
  "threadlocal_set err i val s =
    (if err \<noteq> 0 then (-1, Some err, s)
     else (0, None, s\<lparr>tls_slot := (tls_slot s)(i := val)\<rparr>))"

text \<open>A key that was deleted has no values any more.\<close>

definition threadlocal_get :: "tid \<Rightarrow> 'v tls \<Rightarrow> 'v option" where
  "threadlocal_get i s = (if tls_key s then tls_slot s i else None)"

text \<open>Deleting the key takes the value away from every thread, not only from the caller.\<close>

definition threadlocal_delete :: "'v tls \<Rightarrow> 'v tls" where
  "threadlocal_delete s = s\<lparr>tls_key := False\<rparr>"

lemma threadlocal_get_set [simp]:
  "tls_key s \<Longrightarrow> threadlocal_get j (snd (snd (threadlocal_set 0 i v s))) =
    (if j = i then v else threadlocal_get j s)"
  by (simp add: threadlocal_get_def threadlocal_set_def)

lemma threadlocal_get_delete [simp]: "threadlocal_get j (threadlocal_delete s) = None"
  by (simp add: threadlocal_get_def threadlocal_delete_def)

end
