(* ===== verification/World.thy ===== *)
theory World
  imports QueueT ListT ThreadLocal
begin

text \<open>
  The data the tasks, the workers and the master share: \<open>struct pcaio_task\<close> (\<open>task.h\<close>),
  \<open>struct gather\<close> (\<open>gather.h\<close>) and the memory they live in. The link fields
  \<open>tasklist_next\<close>, \<open>tasklist_prev\<close> and \<open>taskqueue_next\<close> of the tasks are the maps
  inside \<open>tasks\<close> and \<open>taskq\<close> (\<open>ListT\<close>, \<open>QueueT\<close>); all other fields are the
  record below. The type \<open>'k\<close> is the type of saved machine contexts, whatever
  \<open>swapcontext\<close> keeps of a running task.
\<close>

section \<open>Constants\<close>

definition TASK_TERMINATED :: c_int where "TASK_TERMINATED = 0x1"

definition TASK_NOSCHEDULE :: c_int where "TASK_NOSCHEDULE = 0x2"

definition EINVAL :: int where "EINVAL = 22"

definition ENOMEM :: int where "ENOMEM = 12"

lemmas task_flags = TASK_TERMINATED_def TASK_NOSCHEDULE_def

section \<open>Structures\<close>

text \<open>\<open>ucontext_t\<close>: zeroed memory, a context made by \<open>makecontext\<close> with the two
  integer arguments of its entry function, or one saved by \<open>swapcontext\<close>.\<close>

datatype 'k ucontext = Blank | Entry c_uint c_uint | Saved 'k

text \<open>The internal termination hook: the code stores one function there.\<close>

datatype hook = gather_hook

record 'k pcaio_task =
  t_flags :: c_int
  t_context :: "'k ucontext"
  t_stack :: "addr option"        \<comment> \<open>\<open>context.uc_stack.ss_sp\<close>\<close>
  t_gather :: "addr option"
  t_terminated :: "hook option"
  t_status :: "addr option"
  t_func :: "addr option"
  t_callback :: "addr option"
  t_argc :: nat
  t_argv :: "addr list"

record gather =
  g_count :: c_ushort
  g_mutex :: bool                 \<comment> \<open>the mutex is initialised\<close>
  g_task :: "addr option"

text \<open>The memory: task blocks, task stacks and gather blocks that are allocated, the C ints the
  status pointers refer to, the two containers of the master's state, the two thread-specific
  storages, and \<open>errno\<close>.\<close>

record 'k world =
  heap :: "addr \<Rightarrow> 'k pcaio_task option"
  stacks :: "addr set"
  gathers :: "addr \<Rightarrow> gather option"
  ints :: "addr \<Rightarrow> c_int"
  tasks :: "addr plist"
  taskq :: "addr queue"
  tls_task :: "addr tls"
  tls_context :: "tid tls"
  errno :: int

section \<open>Access to a task\<close>

definition task_at :: "addr \<Rightarrow> ('k, 'z) world_scheme \<Rightarrow> fault + 'k pcaio_task" where
  "task_at t w = (case heap w t of None \<Rightarrow> Inl UseAfterFree | Some x \<Rightarrow> Inr x)"

definition task_put ::
  "addr \<Rightarrow> 'k pcaio_task \<Rightarrow> ('k, 'z) world_scheme \<Rightarrow> ('k, 'z) world_scheme" where
  "task_put t x w = w\<lparr>heap := (heap w)(t := Some x)\<rparr>"

lemma task_at_simps [simp]:
  "heap w t = Some x \<Longrightarrow> task_at t w = Inr x"
  "heap w t = None \<Longrightarrow> task_at t w = Inl UseAfterFree"
  by (simp_all add: task_at_def)

lemma task_put_simps [simp]:
  "heap (task_put t x w) = (heap w)(t := Some x)" "stacks (task_put t x w) = stacks w"
  "gathers (task_put t x w) = gathers w" "ints (task_put t x w) = ints w"
  "tasks (task_put t x w) = tasks w" "taskq (task_put t x w) = taskq w"
  "tls_task (task_put t x w) = tls_task w" "tls_context (task_put t x w) = tls_context w"
  "errno (task_put t x w) = errno w" "world.more (task_put t x w) = world.more w"
  by (simp_all add: task_put_def)

section \<open>Well-formed memory\<close>

text \<open>The task list \<open>L\<close> registers exactly the allocated tasks; the queue \<open>Q\<close> holds only
  allocated tasks; a task outside a container has NULL links there; NULL is not a task.\<close>

definition world_rep :: "('k, 'z) world_scheme \<Rightarrow> addr list \<Rightarrow> addr list \<Rightarrow> bool" where
  "world_rep w L Q \<longleftrightarrow>
     list_rep (tasks w) L \<and> queue_rep (taskq w) Q \<and>
     set L = {t. heap w t \<noteq> None} \<and> set Q \<subseteq> set L \<and> heap w 0 = None \<and>
     (\<forall>t. heap w t \<noteq> None \<longrightarrow> t \<notin> set Q \<longrightarrow> qnext (taskq w) t = None)"

lemma card_addr: "card (UNIV :: addr set) = 2 ^ 64"
  by (simp add: card_word)

text \<open>Distinct non-NULL addresses are fewer than \<open>2^64\<close>: the list's count never wraps.\<close>

lemma length_addrs:
  assumes "distinct (xs :: addr list)" "0 \<notin> set xs"
  shows "length xs + 1 \<le> 2 ^ 64"
proof -
  have "card (set xs) < card (UNIV :: addr set)"
    using assms(2) by (intro psubset_card_mono) auto
  with assms(1) show ?thesis by (simp add: card_addr distinct_card)
qed

lemma world_rep_len: "world_rep w L Q \<Longrightarrow> heap w t = None \<Longrightarrow> t \<noteq> 0 \<Longrightarrow> length L + 1 < 2 ^ 64"
proof -
  assume rep: "world_rep w L Q" and new: "heap w t = None" "t \<noteq> 0"
  then have "distinct (t # L)" "0 \<notin> set (t # L)" by (auto simp: world_rep_def rep_defs)
  then show "length L + 1 < 2 ^ 64" using length_addrs [of "t # L"] by simp
qed

lemma rep_count: "world_rep w L Q \<Longrightarrow> lcount (tasks w) = 0 \<longleftrightarrow> L = []"
proof -
  assume "world_rep w L Q"
  then have "distinct L" "0 \<notin> set L" "lcount (tasks w) = of_nat (length L)" by (auto simp: world_rep_def rep_defs)
  with length_addrs [of L] show ?thesis by (auto simp: of_nat_size_eq_0)
qed

section \<open>The memory at program start\<close>

text \<open>The static initialiser of \<open>state\<close> and zeroed storage: no task, empty containers.\<close>

definition world0 :: "'k world" where
  "world0 = \<lparr>heap = (\<lambda>_. None), stacks = {}, gathers = (\<lambda>_. None), ints = (\<lambda>_. 0),
     tasks = \<lparr>lhead = None, ltail = None, lcount = 0, lmutex = False,
       lnext = (\<lambda>_. None), lprev = (\<lambda>_. None)\<rparr>,
     taskq = \<lparr>qhead = None, qtail = None, qcount = 0, qwaiters = 0, qmutex = False,
       qnext = (\<lambda>_. None)\<rparr>,
     tls_task = \<lparr>tls_key = False, tls_slot = (\<lambda>_. None)\<rparr>,
     tls_context = \<lparr>tls_key = False, tls_slot = (\<lambda>_. None)\<rparr>, errno = 0\<rparr>"

lemma world0_rep: "world_rep world0 [] []"
  by (simp add: world_rep_def world0_def rep_defs)

lemma world0_unit: "world_rep (world0 :: unit world) [] []"
  by (rule world0_rep)

lemma world_rep_put:
  "heap w p \<noteq> None \<Longrightarrow> world_rep (task_put p t w) L Q \<longleftrightarrow> world_rep w L Q"
  by (auto simp: world_rep_def)

text \<open>The containers and the memory of tasks do not depend on the rest of the world.\<close>

lemma world_rep_cong:
  "heap w' = heap w \<Longrightarrow> tasks w' = tasks w \<Longrightarrow> taskq w' = taskq w \<Longrightarrow>
    world_rep w' L Q \<longleftrightarrow> world_rep w L Q"
  by (simp add: world_rep_def)

lemma world0_simps [simp]:
  "heap world0 t = None" "stacks world0 = {}" "gathers world0 g = None"
  by (simp_all add: world0_def)

end
