(* ===== verification/Task.thy ===== *)
theory Task
  imports World
begin

text \<open>
  Creation, start, end and disposal of a task: \<open>pcaio/task.c\<close>. The results of
  \<open>malloc\<close> and \<open>getcontext\<close> are arguments; the user's functions are the arguments
  \<open>run_cb\<close> (callbacks) and, in \<open>Worker\<close>, the program.
\<close>

section \<open>Splitting a pointer over two C ints\<close>

text \<open>\<open>makecontext\<close> passes \<open>int\<close>s only, so \<open>task_new\<close> splits the pointer and
  \<open>_taskmain\<close> puts it together again.\<close>

definition task_hi :: "addr \<Rightarrow> c_uint" where
  "task_hi p = ucast (drop_bit 32 p)"

definition task_lo :: "addr \<Rightarrow> c_uint" where
  "task_lo p = ucast (p AND 0xffffffff)"

definition task_ptr :: "c_uint \<Rightarrow> c_uint \<Rightarrow> addr" where
  "task_ptr p1 p2 = (push_bit 32 (ucast p1) OR ucast p2)"

section \<open>Operations\<close>

text \<open>\<open>while (argc) { t->argv[t->argc - argc] = va_arg(...); argc--; }\<close>; reading more
  variable arguments than were passed is undefined.\<close>

fun copy_args :: "nat \<Rightarrow> nat \<Rightarrow> addr list \<Rightarrow> addr list \<Rightarrow> fault + addr list" where
  "copy_args argc 0 va argv = Inr argv"
| "copy_args argc (Suc n) [] argv = Inl Indeterminate"
| "copy_args argc (Suc n) (a # va) argv = copy_args argc n va (argv[argc - Suc n := a])"

text \<open>The block \<open>malloc\<close> returns, zeroed: all fields, the container links included.\<close>

definition task_blank :: "nat \<Rightarrow> 'k pcaio_task" where
  "task_blank argc = \<lparr>t_flags = 0, t_context = Blank, t_stack = None, t_gather = None,
     t_terminated = None, t_status = None, t_func = None, t_callback = None, t_argc = 0,
     t_argv = replicate argc 0\<rparr>"

definition task_alloc :: "addr \<Rightarrow> nat \<Rightarrow> ('k, 'z) world_scheme \<Rightarrow> ('k, 'z) world_scheme" where
  "task_alloc p argc w =
    w\<lparr>heap := (heap w)(p := Some (task_blank argc)),
      tasks := (tasks w)\<lparr>lnext := (lnext (tasks w))(p := None), lprev := (lprev (tasks w))(p := None)\<rparr>,
      taskq := (taskq w)\<lparr>qnext := (qnext (taskq w))(p := None)\<rparr>\<rparr>"

definition heap_free :: "addr \<Rightarrow> ('k, 'z) world_scheme \<Rightarrow> ('k, 'z) world_scheme" where
  "heap_free p w = w\<lparr>heap := (heap w)(p := None)\<rparr>"

definition task_new ::
  "addr option \<Rightarrow> int \<Rightarrow> addr option \<Rightarrow> addr option \<Rightarrow> addr option \<Rightarrow> nat \<Rightarrow> addr list
   \<Rightarrow> ('k, 'z) world_scheme \<Rightarrow> fault + (addr option \<times> ('k, 'z) world_scheme)" where
  "task_new mem_task ctx_rc mem_stack func status argc va w =
    (if func = None then Inr (None, w\<lparr>errno := EINVAL\<rparr>)
     else case mem_task of
       None \<Rightarrow> Inr (None, w)
     | Some p \<Rightarrow>
        let w = task_alloc p argc w;
            t = (task_blank argc)\<lparr>t_flags := 0, t_func := func, t_status := status, t_argc := argc\<rparr>
        in and_then (copy_args argc argc va (t_argv t)) (\<lambda>argv.
          let t = t\<lparr>t_argv := argv\<rparr>
          in if ctx_rc \<noteq> 0 then Inr (None, heap_free p w)
             else case mem_stack of
               None \<Rightarrow> Inr (None, heap_free p w)
             | Some sp \<Rightarrow>
                let t = t\<lparr>t_stack := Some sp, t_context := Entry (task_hi p) (task_lo p)\<rparr>;
                    w = task_put p t w;
                    w = w\<lparr>stacks := insert sp (stacks w)\<rparr>;
                    w = w\<lparr>tasks := snd (list_append p (tasks w))\<rparr>
                in Inr (Some p, w)))"

definition task_free :: "addr option \<Rightarrow> ('k, 'z) world_scheme \<Rightarrow> fault + ('k, 'z) world_scheme" where
  "task_free tp w =
    (case tp of
       None \<Rightarrow> Inr w
     | Some p \<Rightarrow>
        and_then (task_at p w) (\<lambda>t.
          let w = (case t_stack t of None \<Rightarrow> w | Some sp \<Rightarrow> w\<lparr>stacks := stacks w - {sp}\<rparr>);
              w = w\<lparr>tasks := snd (list_delete (Some p) (tasks w))\<rparr>
          in Inr (heap_free p w)))"

text \<open>The dispatch of \<open>_taskmain\<close> on the number of arguments: the arguments of the call, or
  \<open>None\<close> when no branch is taken and \<open>exitstatus\<close> is never written.\<close>

definition taskmain_args :: "'k pcaio_task \<Rightarrow> addr list option" where
  "taskmain_args t =
    (let v = t_argv t in
     if t_argc t = 0 then Some []
     else if t_argc t = 1 then Some [v ! 0]
     else if t_argc t = 2 then Some [v ! 0, v ! 1]
     else if t_argc t = 3 then Some [v ! 0, v ! 1, v ! 2]
     else if t_argc t = 4 then Some [v ! 0, v ! 1, v ! 2, v ! 3]
     else if t_argc t = 5 then Some [v ! 0, v ! 1, v ! 2, v ! 3, v ! 4]
     else if t_argc t = 6 then Some [v ! 0, v ! 1, v ! 2, v ! 3, v ! 4, v ! 5]
     else None)"

definition write_status ::
  "addr option \<Rightarrow> c_int option \<Rightarrow> ('k, 'z) world_scheme \<Rightarrow> fault + ('k, 'z) world_scheme" where
  "write_status sp exitstatus w =
    (case sp of
       None \<Rightarrow> Inr w
     | Some a \<Rightarrow>
        (case exitstatus of
           None \<Rightarrow> Inl Indeterminate
         | Some e \<Rightarrow> Inr (w\<lparr>ints := (ints w)(a := e)\<rparr>)))"

text \<open>The end of \<open>_taskmain\<close>, from the return of the task's function on. The result is the
  landing context, if the thread has one.\<close>

definition taskmain_finish ::
  "(hook \<Rightarrow> addr \<Rightarrow> ('k, 'z) world_scheme \<Rightarrow> fault + ('k, 'z) world_scheme)
   \<Rightarrow> (addr \<Rightarrow> addr \<Rightarrow> ('k, 'z) world_scheme \<Rightarrow> fault + ('k, 'z) world_scheme)
   \<Rightarrow> tid \<Rightarrow> addr \<Rightarrow> c_int option \<Rightarrow> ('k, 'z) world_scheme
   \<Rightarrow> fault + (tid option \<times> ('k, 'z) world_scheme)" where
  "taskmain_finish run_hook run_cb i p exitstatus w =
    and_then (task_at p w) (\<lambda>t.
    let w = task_put p (t\<lparr>t_flags := t_flags t OR TASK_TERMINATED\<rparr>) w in
    and_then (write_status (t_status t) exitstatus w) (\<lambda>w.
    and_then (case t_terminated t of None \<Rightarrow> Inr w | Some h \<Rightarrow> run_hook h p w) (\<lambda>w.
    and_then (task_at p w) (\<lambda>t.
    and_then (case t_callback t of None \<Rightarrow> Inr w | Some cb \<Rightarrow> run_cb cb p w) (\<lambda>w.
    Inr (threadlocal_get i (tls_context w), w))))))"

section \<open>The pointer survives\<close>

lemma task_ptr_split: "task_ptr (task_hi p) (task_lo p) = p"
proof (rule bit_word_eqI)
  fix n assume n: "n < LENGTH(64)"
  have mask: "(0xffffffff :: addr) = mask 32" by (simp add: mask_eq_decr_exp)
  show "bit (task_ptr (task_hi p) (task_lo p)) n = bit p n"
    using n unfolding task_ptr_def task_hi_def task_lo_def mask
    by (auto simp: bit_simps)
qed

section \<open>Arguments\<close>

lemma copy_args_spec:
  "n \<le> length va \<Longrightarrow> n \<le> argc \<Longrightarrow> length argv = argc \<Longrightarrow>
    copy_args argc n va argv = Inr (take (argc - n) argv @ take n va)"
proof (induction n arbitrary: va argv)
  case 0
  then show ?case by simp
next
  case (Suc n)
  then obtain a rest where va: "va = a # rest" by (cases va) auto
  have "copy_args argc n rest (argv[argc - Suc n := a]) =
      Inr (take (argc - n) (argv[argc - Suc n := a]) @ take n rest)"
    using Suc.prems by (intro Suc.IH) (simp_all add: va)
  moreover have "take (argc - n) (argv[argc - Suc n := a]) = take (argc - Suc n) argv @ [a]"
  proof -
    have "argc - n = Suc (argc - Suc n)" "argc - Suc n < length argv" using Suc.prems by simp_all
    then show ?thesis by (simp add: take_Suc_conv_app_nth)
  qed
  ultimately show ?case by (simp add: va)
qed

lemma copy_args_all: "argc \<le> length va \<Longrightarrow> copy_args argc argc va (replicate argc 0) = Inr (take argc va)"
  using copy_args_spec [of argc va argc "replicate argc 0"] by simp

lemma copy_args_short: "length va < n \<Longrightarrow> copy_args argc n va argv = Inl Indeterminate"
  by (induction argc n va argv rule: copy_args.induct) auto

lemma taskmain_args_spec:
  assumes "length (t_argv t) = t_argc t"
  shows "taskmain_args t = (if t_argc t \<le> 6 then Some (t_argv t) else None)"
proof (cases "t_argc t \<le> 6")
  case False
  then show ?thesis by (simp add: taskmain_args_def)
next
  case True
  then have "t_argc t \<in> {0, 1, 2, 3, 4, 5, 6}" by auto
  moreover have "t_argv t = map (\<lambda>i. t_argv t ! i) [0..<t_argc t]"
    using map_nth [of "t_argv t"] assms by simp
  ultimately show ?thesis
    by (auto simp: taskmain_args_def Let_def upt_rec numeral_nat)
qed

section \<open>Allocation and disposal\<close>

lemma task_alloc_rep:
  assumes "world_rep w L Q" "heap w p = None" "p \<noteq> 0"
  shows "list_rep (tasks (task_alloc p n w)) L" "queue_rep (taskq (task_alloc p n w)) Q"
    "list_detached (tasks (task_alloc p n w)) p" "qnext (taskq (task_alloc p n w)) p = None"
proof -
  have "p \<notin> set L" "p \<notin> set Q" using assms by (auto simp: world_rep_def)
  then show "list_rep (tasks (task_alloc p n w)) L" "queue_rep (taskq (task_alloc p n w)) Q"
    "list_detached (tasks (task_alloc p n w)) p" "qnext (taskq (task_alloc p n w)) p = None"
    using assms(1) by (auto simp: world_rep_def task_alloc_def rep_defs)
qed

lemma world_rep_add:
  assumes rep: "world_rep w L Q" and new: "heap w p = None" "p \<noteq> 0"
  shows "world_rep (task_put p t (task_alloc p n w)
      \<lparr>stacks := S, tasks := snd (list_append p (tasks (task_alloc p n w)))\<rparr>) (L @ [p]) Q"
proof -
  note alloc = task_alloc_rep [OF rep new, of n]
  have "p \<notin> set L" using rep new by (auto simp: world_rep_def)
  with list_append_accept [OF alloc(1) _ alloc(3)] world_rep_len [OF rep new] obtain l' where
    "list_append p (tasks (task_alloc p n w)) = (0, l')" "list_rep l' (L @ [p])" by auto
  then show ?thesis
    using rep new alloc by (auto simp: world_rep_def task_alloc_def)
qed

text \<open>Every way \<open>task_new\<close> can fail, and its success.\<close>

definition task_new_ok :: "addr option \<Rightarrow> int \<Rightarrow> addr option \<Rightarrow> addr option \<Rightarrow> bool" where
  "task_new_ok mem_task ctx_rc mem_stack func \<longleftrightarrow>
     func \<noteq> None \<and> mem_task \<noteq> None \<and> ctx_rc = 0 \<and> mem_stack \<noteq> None"

text \<open>\<open>malloc\<close> returns blocks that are not allocated, and never NULL as a block.\<close>

definition fresh_task :: "addr option \<Rightarrow> ('k, 'z) world_scheme \<Rightarrow> bool" where
  "fresh_task m w \<longleftrightarrow> (case m of None \<Rightarrow> True | Some p \<Rightarrow> p \<noteq> 0 \<and> heap w p = None)"

definition fresh_stack :: "addr option \<Rightarrow> ('k, 'z) world_scheme \<Rightarrow> bool" where
  "fresh_stack m w \<longleftrightarrow> (case m of None \<Rightarrow> True | Some s \<Rightarrow> s \<notin> stacks w)"

lemma task_new_success:
  fixes w :: "('k, 'z) world_scheme"
  assumes rep: "world_rep w L Q" and "p \<noteq> 0" "heap w p = None" and "argc \<le> length va"
  shows "\<exists>w'. task_new (Some p) 0 (Some sp) (Some f) status argc va w = Inr (Some p, w') \<and>
    world_rep w' (L @ [p]) Q \<and> stacks w' = insert sp (stacks w) \<and>
    heap w' = (heap w)(p := Some \<lparr>t_flags = 0, t_context = Entry (task_hi p) (task_lo p),
      t_stack = Some sp, t_gather = None, t_terminated = None, t_status = status,
      t_func = Some f, t_callback = None, t_argc = argc, t_argv = take argc va\<rparr>)"
proof -
  define t :: "'k pcaio_task" where "t = \<lparr>t_flags = 0, t_context = Entry (task_hi p) (task_lo p),
      t_stack = Some sp, t_gather = None, t_terminated = None, t_status = status,
      t_func = Some f, t_callback = None, t_argc = argc, t_argv = take argc va\<rparr>"
  define w' where "w' = task_put p t (task_alloc p argc w)
      \<lparr>stacks := insert sp (stacks w), tasks := snd (list_append p (tasks (task_alloc p argc w)))\<rparr>"
  have "task_new (Some p) 0 (Some sp) (Some f) status argc va w = Inr (Some p, w')"
    using copy_args_all [OF assms(4)]
    by (simp add: task_new_def Let_def task_blank_def t_def w'_def task_alloc_def task_put_def)
  moreover have "world_rep w' (L @ [p]) Q"
    unfolding w'_def by (rule world_rep_add [OF assms(1,3,2)])
  moreover have "stacks w' = insert sp (stacks w)" "heap w' = (heap w)(p := Some t)"
    by (simp_all add: w'_def task_alloc_def task_put_def)
  ultimately show ?thesis unfolding t_def by blast
qed

lemma sample_task:
  "\<exists>w. task_new (Some 64) 0 (Some 128) (Some 7) status 0 [] (world0 :: unit world) = Inr (Some 64, w) \<and>
    world_rep w [64] [] \<and> stacks w = {128} \<and> tls_context w = tls_context (world0 :: unit world) \<and>
    heap w 64 = Some \<lparr>t_flags = 0, t_context = Entry (task_hi 64) (task_lo 64),
      t_stack = Some 128, t_gather = None, t_terminated = None, t_status = status,
      t_func = Some 7, t_callback = None, t_argc = 0, t_argv = []\<rparr>"
proof -
  have "\<exists>w :: unit world. task_new (Some 64) 0 (Some 128) (Some 7) status 0 [] world0 = Inr (Some 64, w) \<and>
    world_rep w [64] [] \<and> stacks w = {128} \<and>
    heap w = (heap world0)(64 := Some \<lparr>t_flags = 0, t_context = Entry (task_hi 64) (task_lo 64),
      t_stack = Some 128, t_gather = None, t_terminated = None, t_status = status,
      t_func = Some 7, t_callback = None, t_argc = 0, t_argv = []\<rparr>)"
    using task_new_success [OF world0_unit, of 64 0 "[]" 128 7 status] by simp
  then obtain w :: "unit world" where
    w: "task_new (Some 64) 0 (Some 128) (Some 7) status 0 [] world0 = Inr (Some 64, w)"
      "world_rep w [64] []" "stacks w = {128}" and
    h: "heap w = (heap world0)(64 := Some \<lparr>t_flags = 0, t_context = Entry (task_hi 64) (task_lo 64),
      t_stack = Some 128, t_gather = None, t_terminated = None, t_status = status,
      t_func = Some 7, t_callback = None, t_argc = 0, t_argv = []\<rparr>)"
    by blast
  have "tls_context w = tls_context (world0 :: unit world)"
    using w(1) by (auto simp: task_new_def Let_def task_alloc_def task_put_def)
  with w h show ?thesis by (intro exI [of _ w]) simp
qed

lemma world_rep_alloc_free:
  assumes "world_rep w L Q" "heap w p = None" "p \<noteq> 0"
  shows "world_rep (heap_free p (task_alloc p n w)) L Q"
  using assms task_alloc_rep [OF assms, of n]
  by (auto simp: world_rep_def heap_free_def task_alloc_def)

lemma heap_alloc_free: "heap w p = None \<Longrightarrow> heap (heap_free p (task_alloc p n w)) = heap w"
  by (auto simp: heap_free_def task_alloc_def fun_eq_iff)

lemma task_new_failure:
  assumes rep: "world_rep w L Q" and fresh: "fresh_task mt w" and args: "argc \<le> length va"
    and fail: "\<not> task_new_ok mt rc ms func"
  shows "\<exists>w'. task_new mt rc ms func status argc va w = Inr (None, w') \<and> world_rep w' L Q \<and>
    heap w' = heap w \<and> stacks w' = stacks w"
proof (cases "func = None")
  case True
  then show ?thesis using rep by (auto simp: task_new_def world_rep_def)
next
  case func: False
  show ?thesis
  proof (cases mt)
    case None
    with func rep show ?thesis by (auto simp: task_new_def)
  next
    case (Some p)
    with fresh have new: "heap w p = None" "p \<noteq> 0" by (auto simp: fresh_task_def)
    have "task_new mt rc ms func status argc va w = Inr (None, heap_free p (task_alloc p argc w))"
      using func Some fail copy_args_all [OF args]
      by (auto simp: task_new_def task_new_ok_def Let_def task_blank_def split: option.splits)
    with world_rep_alloc_free [OF rep new, of argc] heap_alloc_free [OF new(1), of argc] show ?thesis
      by (simp add: heap_free_def task_alloc_def)
  qed
qed

lemma task_free_member:
  assumes rep: "world_rep w L Q" and p: "p \<in> set L" "p \<notin> set Q" and t: "heap w p = Some t"
  shows "\<exists>w'. task_free (Some p) w = Inr w' \<and> world_rep w' (remove1 p L) Q \<and>
    heap w' = (heap w)(p := None) \<and>
    stacks w' = stacks w - (case t_stack t of None \<Rightarrow> {} | Some sp \<Rightarrow> {sp}) \<and>
    taskq w' = taskq w \<and> ints w' = ints w \<and> gathers w' = gathers w \<and>
    tls_task w' = tls_task w \<and> tls_context w' = tls_context w \<and> world.more w' = world.more w"
proof -
  have "list_rep (tasks w) L" and dist: "distinct L" using rep by (auto simp: world_rep_def rep_defs)
  with list_delete_member [OF this(1) p(1)] obtain l' where
    l': "list_delete (Some p) (tasks w) = (0, l')" "list_rep l' (remove1 p L)" by blast
  then show ?thesis
    using rep p t dist
    by (auto simp: task_free_def Let_def heap_free_def world_rep_def split: option.splits)
qed

lemma task_free_dead: "heap w p = None \<Longrightarrow> task_free (Some p) w = Inl UseAfterFree"
  by (simp add: task_free_def)

section \<open>The end of a task\<close>

lemma taskmain_finish_status_unset:
  "heap w p = Some t \<Longrightarrow> t_status t = Some a \<Longrightarrow>
    taskmain_finish run_hook run_cb i p None w = Inl Indeterminate"
  by (simp add: taskmain_finish_def write_status_def Let_def)

lemma taskmain_finish_plain:
  assumes "heap w p = Some t" "t_terminated t = None" "t_callback t = None"
  shows "taskmain_finish run_hook run_cb i p (Some e) w =
    Inr (threadlocal_get i (tls_context w),
      (case t_status t of None \<Rightarrow> id | Some a \<Rightarrow> ints_update (\<lambda>m. m(a := e)))
        (task_put p (t\<lparr>t_flags := t_flags t OR TASK_TERMINATED\<rparr>) w))"
  using assms
  by (simp add: taskmain_finish_def write_status_def Let_def split: option.splits)

section \<open>Properties\<close>

text \<open>A successful \<open>task_new\<close> registers the new task at the end of the task
  list, queues nothing, and stores the function, the status pointer and exactly the first
  \<open>argc\<close> variable arguments; its context starts \<open>_taskmain\<close> on this very task.\<close>

theorem task_new_creates:
  assumes "world_rep w L Q" "p \<noteq> 0" "heap w p = None" "argc \<le> length va"
  shows "\<exists>w' t. task_new (Some p) 0 (Some sp) (Some f) status argc va w = Inr (Some p, w') \<and>
    world_rep w' (L @ [p]) Q \<and> stacks w' = insert sp (stacks w) \<and> heap w' = (heap w)(p := Some t) \<and>
    t_flags t = 0 \<and> t_func t = Some f \<and> t_status t = status \<and> t_argv t = take argc va \<and>
    (\<exists>p1 p2. t_context t = Entry p1 p2 \<and> task_ptr p1 p2 = p)"
  using task_new_success [OF assms, of sp f status] task_ptr_split [of p]
  by (elim exE conjE) (intro exI conjI, assumption+, simp_all)

theorem task_new_creates_witness:
  "\<exists>w' t. task_new (Some 64) 0 (Some 128) (Some 7) None 2 [5, 6, 9] (world0 :: unit world) =
      Inr (Some 64, w') \<and> world_rep w' [64] [] \<and> heap w' = (heap world0)(64 := Some t) \<and>
      t_argv t = [5, 6]"
  using task_new_creates [OF world0_unit, of 64 2 "[5, 6, 9]" 128 7 None] by simp blast

text \<open>Property C33. When \<open>task_new\<close> fails, whatever the reason (no function, no memory for
  the task, \<open>getcontext\<close>, no memory for the stack), it returns NULL, nothing stays
  allocated, and the task list and the queue are as before.\<close>

theorem task_new_failure_leaks_nothing:
  assumes "world_rep w L Q" "fresh_task mt w" "argc \<le> length va" "\<not> task_new_ok mt rc ms func"
  shows "\<exists>w'. task_new mt rc ms func status argc va w = Inr (None, w') \<and> world_rep w' L Q \<and>
    heap w' = heap w \<and> stacks w' = stacks w"
  using assms by (rule task_new_failure)

theorem task_new_failure_leaks_nothing_witness:
  "\<exists>w'. task_new (Some 64) 0 None (Some 7) None 1 [5] (world0 :: unit world) = Inr (None, w') \<and>
    world_rep w' [] [] \<and> heap w' = heap world0 \<and> stacks w' = stacks world0"
  using task_new_failure_leaks_nothing [OF world0_unit, of "Some 64" 1 "[5]" 0 None "Some 7" None]
  by (simp add: fresh_task_def task_new_ok_def)

text \<open>\<open>task_free\<close> releases the task and its stack and strikes the task off
  the list, keeping the order of the others and the queue as it is; freeing it a second time is
  a use after free.\<close>

theorem task_free_spec:
  assumes "world_rep w L Q" "p \<in> set L" "p \<notin> set Q" "heap w p = Some t" "t_stack t = Some sp"
  shows "\<exists>w'. task_free (Some p) w = Inr w' \<and> world_rep w' (remove1 p L) Q \<and>
    heap w' = (heap w)(p := None) \<and> stacks w' = stacks w - {sp} \<and>
    task_free (Some p) w' = Inl UseAfterFree"
  using task_free_member [OF assms(1-4)] assms(5) task_free_dead by fastforce

theorem task_free_spec_witness:
  "\<exists>w w'. task_new (Some 64) 0 (Some 128) (Some 7) None 0 [] (world0 :: unit world) = Inr (Some 64, w) \<and>
    task_free (Some 64) w = Inr w' \<and> world_rep w' [] [] \<and> stacks w' = {}"
proof -
  from sample_task [of None] obtain w where
    w: "task_new (Some 64) 0 (Some 128) (Some 7) None 0 [] (world0 :: unit world) = Inr (Some 64, w)"
      "world_rep w [64] []" "stacks w = {128}" and
    t: "heap w 64 = Some \<lparr>t_flags = 0, t_context = Entry (task_hi 64) (task_lo 64),
      t_stack = Some 128, t_gather = None, t_terminated = None, t_status = None,
      t_func = Some 7, t_callback = None, t_argc = 0, t_argv = []\<rparr>"
    by blast
  from task_free_spec [OF w(2) _ _ t] w(1,3) show ?thesis by fastforce
qed

text \<open>\<open>_taskmain\<close> calls the function with exactly the task's arguments, in
  order, for up to six of them. With more, which \<open>task_new\<close> accepts, no branch calls the
  function, and a task with a status pointer then copies an exit status that was never
  written.\<close>

theorem taskmain_dispatch:
  assumes "length (t_argv t) = t_argc t"
  shows "(t_argc t \<le> 6 \<longrightarrow> taskmain_args t = Some (t_argv t)) \<and>
    (6 < t_argc t \<longrightarrow> taskmain_args t = None) \<and>
    (heap w p = Some t \<and> t_status t \<noteq> None \<longrightarrow>
      taskmain_finish run_hook run_cb i p None w = Inl Indeterminate)"
  using taskmain_args_spec [OF assms] taskmain_finish_status_unset by auto

theorem taskmain_dispatch_witness:
  "taskmain_args ((task_blank 7 :: unit pcaio_task)\<lparr>t_argc := 7\<rparr>) = None \<and>
   taskmain_args ((task_blank 3 :: unit pcaio_task)\<lparr>t_argc := 3\<rparr>) = Some [0, 0, 0]"
  using taskmain_dispatch [of "(task_blank 7 :: unit pcaio_task)\<lparr>t_argc := 7\<rparr>"]
    taskmain_dispatch [of "(task_blank 3 :: unit pcaio_task)\<lparr>t_argc := 3\<rparr>"]
  by (simp add: task_blank_def numeral_3_eq_3)

text \<open>When the function of a task without hooks returns, the task is flagged as
  terminated (its other fields and flags stay), its exit status is written where the creator
  asked and nowhere else, no container changes, and control goes to the thread's landing
  context.\<close>

theorem taskmain_finish_effects:
  assumes "world_rep w L Q" "heap w p = Some t" "t_terminated t = None" "t_callback t = None"
  shows "\<exists>w' t'. taskmain_finish run_hook run_cb i p (Some e) w =
      Inr (threadlocal_get i (tls_context w), w') \<and>
    world_rep w' L Q \<and> heap w' = (heap w)(p := Some t') \<and>
    t_flags t' AND TASK_TERMINATED \<noteq> 0 \<and> t_flags t' AND TASK_NOSCHEDULE = t_flags t AND TASK_NOSCHEDULE \<and>
    ints w' = (case t_status t of None \<Rightarrow> ints w | Some a \<Rightarrow> (ints w)(a := e))"
proof -
  let ?t' = "t\<lparr>t_flags := t_flags t OR TASK_TERMINATED\<rparr>"
  let ?w' = "(case t_status t of None \<Rightarrow> id | Some a \<Rightarrow> ints_update (\<lambda>m. m(a := e))) (task_put p ?t' w)"
  have run: "taskmain_finish run_hook run_cb i p (Some e) w = Inr (threadlocal_get i (tls_context w), ?w')"
    using taskmain_finish_plain [OF assms(2-4)] by simp
  have put: "world_rep (task_put p ?t' w) L Q" using assms(1,2) by (simp add: world_rep_put)
  have "heap ?w' = heap (task_put p ?t' w)" "tasks ?w' = tasks (task_put p ?t' w)"
    "taskq ?w' = taskq (task_put p ?t' w)"
    by (auto split: option.splits)
  with put have rep: "world_rep ?w' L Q"
    by (metis world_rep_cong [of ?w' "task_put p ?t' w"])
  have "(t_flags t OR TASK_TERMINATED) AND TASK_TERMINATED = TASK_TERMINATED"
    by (simp add: or.commute)
  then have flag: "t_flags ?t' AND TASK_TERMINATED \<noteq> 0" by (simp add: task_flags)
  have "(t_flags t OR TASK_TERMINATED) AND TASK_NOSCHEDULE = t_flags t AND TASK_NOSCHEDULE"
    by (simp add: bit.conj_disj_distrib2 task_flags)
  with run rep flag show ?thesis
    by (intro exI [of _ ?w'] exI [of _ ?t']) (auto split: option.splits)
qed

theorem taskmain_finish_effects_witness:
  "\<exists>w'. taskmain_finish (\<lambda>_ _. Inr) (\<lambda>_ _. Inr) 3 64 (Some 9)
      (snd (the (returns (task_new (Some 64) 0 (Some 128) (Some 7) (Some 32) 0 [] (world0 :: unit world))))) =
      Inr (None, w') \<and> ints w' 32 = 9"
proof -
  from sample_task [of "Some 32"] obtain w where
    w: "task_new (Some 64) 0 (Some 128) (Some 7) (Some 32) 0 [] (world0 :: unit world) = Inr (Some 64, w)"
      "world_rep w [64] []" "tls_context w = tls_context (world0 :: unit world)" and
    t: "heap w 64 = Some \<lparr>t_flags = 0, t_context = Entry (task_hi 64) (task_lo 64),
      t_stack = Some 128, t_gather = None, t_terminated = None, t_status = Some 32,
      t_func = Some 7, t_callback = None, t_argc = 0, t_argv = []\<rparr>"
    by blast
  have "threadlocal_get 3 (tls_context w) = None"
    using w(3) by (simp add: world0_def threadlocal_get_def)
  with taskmain_finish_effects [OF w(2) t, of "\<lambda>_ _. Inr" "\<lambda>_ _. Inr" 3 9] w(1)
  show ?thesis by auto
qed

end
