(* ===== verification/Api.thy ===== *)
theory Api
  imports Task
begin

text \<open>
  The public operations on tasks, \<open>pcaio/pcaio.c\<close>, as the thread \<open>i\<close> executes them:
  creating, scheduling and disposing tasks, the current task, and \<open>pcaio_relaxA\<close>, by which
  a task gives its worker back. \<open>pcaio_relaxA\<close> is cut where \<open>swapcontext\<close> leaves
  the task: the first half ends in \<open>Switched\<close> with the landing context it jumps to, the
  second half runs when a worker switches to the task again.
\<close>

section \<open>Creating, scheduling, disposing\<close>

definition pcaio_schedule :: "addr option \<Rightarrow> ('k, 'z) world_scheme \<Rightarrow> int \<times> ('k, 'z) world_scheme" where
  "pcaio_schedule tp w =
    (case tp of
       None \<Rightarrow> (-1, w)
     | Some p \<Rightarrow> (case queue_push p (taskq w) of (ret, q) \<Rightarrow> (ret, w\<lparr>taskq := q\<rparr>)))"

definition pcaio_fschedule ::
  "addr option \<Rightarrow> int \<Rightarrow> addr option \<Rightarrow> addr option \<Rightarrow> addr option \<Rightarrow> nat \<Rightarrow> addr list
   \<Rightarrow> ('k, 'z) world_scheme \<Rightarrow> fault + (addr option \<times> ('k, 'z) world_scheme)" where
  "pcaio_fschedule mem_task ctx_rc mem_stack func status argc va w =
    and_then (task_new mem_task ctx_rc mem_stack func status argc va w) (\<lambda>(tp, w).
      case tp of
        None \<Rightarrow> Inr (None, w)
      | Some p \<Rightarrow>
         (case queue_push p (taskq w) of (ret, q) \<Rightarrow>
            let w = w\<lparr>taskq := q\<rparr>
            in if ret \<noteq> 0 then and_then (task_free (Some p) w) (\<lambda>w. Inr (None, w))
               else Inr (Some p, w)))"

definition pcaio_task_new ::
  "addr option \<Rightarrow> int \<Rightarrow> addr option \<Rightarrow> addr option \<Rightarrow> addr option \<Rightarrow> nat \<Rightarrow> addr list
   \<Rightarrow> ('k, 'z) world_scheme \<Rightarrow> fault + (addr option \<times> ('k, 'z) world_scheme)" where
  "pcaio_task_new mem_task ctx_rc mem_stack func status argc va w =
    task_new mem_task ctx_rc mem_stack func status argc va w"

definition pcaio_task_callback ::
  "addr \<Rightarrow> addr option \<Rightarrow> ('k, 'z) world_scheme \<Rightarrow> fault + ('k, 'z) world_scheme" where
  "pcaio_task_callback p cb w =
    and_then (task_at p w) (\<lambda>t. Inr (task_put p (t\<lparr>t_callback := cb\<rparr>) w))"

definition pcaio_task_free ::
  "addr option \<Rightarrow> ('k, 'z) world_scheme \<Rightarrow> fault + (int \<times> ('k, 'z) world_scheme)" where
  "pcaio_task_free tp w =
    (if tp = None then Inr (-1, w) else and_then (task_free tp w) (\<lambda>w. Inr (0, w)))"

section \<open>The current task\<close>

definition pcaio_self :: "tid \<Rightarrow> ('k, 'z) world_scheme \<Rightarrow> addr option" where
  "pcaio_self i w = threadlocal_get i (tls_task w)"

datatype relax = Returned c_int | Switched tid

definition pcaio_relaxA ::
  "tid \<Rightarrow> int \<Rightarrow> 'k \<Rightarrow> c_int \<Rightarrow> ('k, 'z) world_scheme \<Rightarrow> fault + (relax \<times> ('k, 'z) world_scheme)" where
  "pcaio_relaxA i swap_rc k flags w =
    (case threadlocal_get i (tls_task w) of
       None \<Rightarrow> Inr (Returned (-1), w)
     | Some p \<Rightarrow>
        (case threadlocal_get i (tls_context w) of
           None \<Rightarrow> Inr (Returned (-1), w)
         | Some ctx \<Rightarrow>
            and_then (task_at p w) (\<lambda>t.
              let t = t\<lparr>t_flags := t_flags t OR flags\<rparr>
              in if swap_rc \<noteq> 0 then Inr (Returned (-1), task_put p t w)
                 else Inr (Switched ctx, task_put p (t\<lparr>t_context := Saved k\<rparr>) w))))"

definition pcaio_relaxA_resumed :: "('k, 'z) world_scheme \<Rightarrow> c_int \<times> ('k, 'z) world_scheme" where
  "pcaio_relaxA_resumed w = (0, w\<lparr>errno := 0\<rparr>)"

section \<open>Scheduling keeps the memory well formed\<close>

lemma world_rep_taskq:
  assumes "world_rep w L Q" "queue_rep q Q'" "set Q' \<subseteq> set L"
    and "\<forall>t. heap w t \<noteq> None \<longrightarrow> t \<notin> set Q' \<longrightarrow> qnext q t = None"
  shows "world_rep (w\<lparr>taskq := q\<rparr>) L Q'"
  using assms by (simp add: world_rep_def)

lemma world_rep_members: "world_rep w L Q \<Longrightarrow> p \<in> set L \<longleftrightarrow> heap w p \<noteq> None"
  by (simp add: world_rep_def)

lemma world_rep_queue: "world_rep w L Q \<Longrightarrow> queue_rep (taskq w) Q \<and> distinct Q"
  by (simp add: world_rep_def rep_defs)

text \<open>The queue's own guard is complete for tasks: a task is refused exactly when it is
  queued.\<close>

lemma schedule_queued:
  "world_rep w L Q \<Longrightarrow> p \<in> set Q \<Longrightarrow> pcaio_schedule (Some p) w = (-1, w)"
  using queue_push_reject [of "taskq w" Q p] by (simp add: pcaio_schedule_def world_rep_def)

lemma schedule_idle:
  assumes rep: "world_rep w L Q" and p: "heap w p \<noteq> None" "p \<notin> set Q"
  shows "\<exists>q. pcaio_schedule (Some p) w = (0, w\<lparr>taskq := q\<rparr>) \<and>
    world_rep (w\<lparr>taskq := q\<rparr>) L (Q @ [p])"
proof -
  have det: "qnext (taskq w) p = None" using rep p by (simp add: world_rep_def)
  from queue_push_accept [of "taskq w" Q p] rep p(2) det obtain q where
    q: "queue_push p (taskq w) = (0, q)" "queue_rep q (Q @ [p])" "queue_frame (set Q) (taskq w) q"
    by (auto simp: world_rep_def)
  have sub: "set (Q @ [p]) \<subseteq> set L" using rep p(1) by (auto simp: world_rep_def)
  have "\<forall>t. heap w t \<noteq> None \<longrightarrow> t \<notin> set (Q @ [p]) \<longrightarrow> qnext q t = None"
    using rep q(3) by (auto simp: world_rep_def queue_frame_def)
  with world_rep_taskq [OF rep q(2) sub] q(1) show ?thesis
    by (auto simp: pcaio_schedule_def)
qed

lemma schedule_idle_run:
  assumes "world_rep w L Q" "heap w p \<noteq> None" "p \<notin> set Q"
  obtains q where "pcaio_schedule (Some p) w = (0, w\<lparr>taskq := q\<rparr>)"
    "queue_push p (taskq w) = (0, q)" "world_rep (w\<lparr>taskq := q\<rparr>) L (Q @ [p])"
proof -
  from schedule_idle [OF assms] obtain q where
    q: "pcaio_schedule (Some p) w = (0, w\<lparr>taskq := q\<rparr>)" "world_rep (w\<lparr>taskq := q\<rparr>) L (Q @ [p])"
    by blast
  obtain r q' where push: "queue_push p (taskq w) = (r, q')" by (cases "queue_push p (taskq w)")
  with q(1) have "r = 0" "taskq (w\<lparr>taskq := q'\<rparr>) = taskq (w\<lparr>taskq := q\<rparr>)"
    by (simp_all add: pcaio_schedule_def)
  with push q that show thesis by simp
qed

text \<open>The worker side: what \<open>taskqueue_pop\<close> leaves.\<close>

lemma world_rep_pop:
  assumes rep: "world_rep w L (p # Q)"
  obtains q where "queue_pop cw f (taskq w) = Some (0, Some p, q)"
    "world_rep (w\<lparr>taskq := q\<rparr>) L Q"
proof -
  from rep have q0: "queue_rep (taskq w) (p # Q)" by (simp add: world_rep_def)
  from queue_pop_Cons [OF q0, of cw f] obtain q where
    q: "queue_pop cw f (taskq w) = Some (0, Some p, q)" "queue_rep q Q" "qnext q p = None"
      "queue_frame {p} (taskq w) q" by blast
  have sub: "set Q \<subseteq> set L" using rep by (auto simp: world_rep_def)
  have "\<forall>t. heap w t \<noteq> None \<longrightarrow> t \<notin> set Q \<longrightarrow> qnext q t = None"
  proof (intro allI impI)
    fix t assume t: "heap w t \<noteq> None" "t \<notin> set Q"
    show "qnext q t = None"
    proof (cases "t = p")
      case True then show ?thesis using q(3) by simp
    next
      case False
      then have "t \<notin> set (p # Q)" using t(2) by simp
      with rep t(1) have "qnext (taskq w) t = None" unfolding world_rep_def by blast
      with q(4) False show ?thesis by (simp add: queue_frame_def)
    qed
  qed
  with world_rep_taskq [OF rep q(2) sub] q(1) that show thesis by blast
qed

section \<open>The current task and \<open>relaxA\<close>\<close>

lemma relaxA_no_task:
  "threadlocal_get i (tls_task w) = None \<Longrightarrow> pcaio_relaxA i rc k f w = Inr (Returned (-1), w)"
  by (simp add: pcaio_relaxA_def)

lemma relaxA_no_landing:
  "threadlocal_get i (tls_context w) = None \<Longrightarrow> pcaio_relaxA i rc k f w = Inr (Returned (-1), w)"
  by (simp add: pcaio_relaxA_def split: option.splits)

lemma relaxA_switch:
  "threadlocal_get i (tls_task w) = Some p \<Longrightarrow> threadlocal_get i (tls_context w) = Some c \<Longrightarrow>
    heap w p = Some t \<Longrightarrow>
    pcaio_relaxA i 0 k f w =
      Inr (Switched c, task_put p (t\<lparr>t_flags := t_flags t OR f, t_context := Saved k\<rparr>) w)"
  by (simp add: pcaio_relaxA_def Let_def)

lemma relaxA_swap_failure:
  "threadlocal_get i (tls_task w) = Some p \<Longrightarrow> threadlocal_get i (tls_context w) = Some c \<Longrightarrow>
    heap w p = Some t \<Longrightarrow> rc \<noteq> 0 \<Longrightarrow>
    pcaio_relaxA i rc k f w = Inr (Returned (-1), task_put p (t\<lparr>t_flags := t_flags t OR f\<rparr>) w)"
  by (simp add: pcaio_relaxA_def Let_def)

lemma fschedule_success:
  assumes rep: "world_rep w L Q" and new: "p \<noteq> 0" "heap w p = None" and va: "argc \<le> length va"
  shows "\<exists>w' t. pcaio_fschedule (Some p) 0 (Some sp) (Some f) status argc va w = Inr (Some p, w') \<and>
    world_rep w' (L @ [p]) (Q @ [p]) \<and> heap w' = (heap w)(p := Some t) \<and>
    t_func t = Some f \<and> t_argv t = take argc va \<and> t_argc t = argc \<and> t_flags t = 0 \<and> t_status t = status \<and>
    t_terminated t = None \<and> t_callback t = None \<and> t_context t = Entry (task_hi p) (task_lo p)"
proof -
  from task_new_success [OF rep new va, of sp f status] obtain w1 t where
    w1: "task_new (Some p) 0 (Some sp) (Some f) status argc va w = Inr (Some p, w1)"
      "world_rep w1 (L @ [p]) Q" "heap w1 = (heap w)(p := Some t)"
      "t_func t = Some f" "t_argv t = take argc va" "t_argc t = argc" "t_flags t = 0" "t_status t = status"
      "t_terminated t = None" "t_callback t = None" "t_context t = Entry (task_hi p) (task_lo p)"
    by fastforce
  have "p \<notin> set Q" using rep new by (auto simp: world_rep_def)
  then obtain q where q: "queue_push p (taskq w1) = (0, q)" "world_rep (w1\<lparr>taskq := q\<rparr>) (L @ [p]) (Q @ [p])"
    using schedule_idle_run [OF w1(2), of p] w1(3) by auto
  then show ?thesis using w1 by (auto simp: pcaio_fschedule_def)
qed

lemma fschedule_failure:
  assumes "world_rep w L Q" "fresh_task mt w" "argc \<le> length va" "\<not> task_new_ok mt rc ms func"
  shows "\<exists>w'. pcaio_fschedule mt rc ms func status argc va w = Inr (None, w') \<and> world_rep w' L Q \<and>
    heap w' = heap w \<and> stacks w' = stacks w"
  using task_new_failure [OF assms, of status] by (auto simp: pcaio_fschedule_def)

text \<open>What \<open>pcaio_fschedule\<close> does not touch.\<close>

lemma task_new_frame:
  "task_new mt rc ms func status argc va w = Inr (tp, w') \<Longrightarrow>
    ints w' = ints w \<and> gathers w' = gathers w \<and> tls_task w' = tls_task w \<and> tls_context w' = tls_context w"
  by (auto simp: task_new_def Let_def and_then_Inr task_alloc_def heap_free_def split: if_splits option.splits)

lemma task_free_frame:
  "task_free tp w = Inr w' \<Longrightarrow>
    ints w' = ints w \<and> gathers w' = gathers w \<and> tls_task w' = tls_task w \<and> tls_context w' = tls_context w"
  by (auto simp: task_free_def Let_def and_then_Inr heap_free_def split: if_splits option.splits)

lemma fschedule_frame:
  assumes "pcaio_fschedule mt rc ms func status argc va w = Inr (tp, w')"
  shows "ints w' = ints w \<and> gathers w' = gathers w \<and> tls_task w' = tls_task w \<and> tls_context w' = tls_context w"
proof -
  from assms obtain tp1 w1 where w1: "task_new mt rc ms func status argc va w = Inr (tp1, w1)"
    by (auto simp: pcaio_fschedule_def and_then_Inr)
  note same = task_new_frame [OF w1]
  show ?thesis
  proof (cases tp1)
    case None
    then show ?thesis using assms w1 same by (simp add: pcaio_fschedule_def)
  next
    case (Some p)
    obtain r q where q: "queue_push p (taskq w1) = (r, q)" by (cases "queue_push p (taskq w1)")
    then show ?thesis
      using assms w1 same Some task_free_frame [of "Some p" "w1\<lparr>taskq := q\<rparr>"]
      by (auto simp: pcaio_fschedule_def Let_def and_then_Inr split: if_splits)
  qed
qed

section \<open>Properties\<close>

text \<open>\<open>pcaio_schedule\<close> puts a task that is not queued at the end of the
  queue and refuses, without any effect, a task that is queued already: no task is ever queued
  twice.\<close>

theorem schedule_spec:
  assumes "world_rep w L Q" "p \<in> set L"
  shows "(p \<in> set Q \<longrightarrow> pcaio_schedule (Some p) w = (-1, w)) \<and>
    (p \<notin> set Q \<longrightarrow> (\<exists>w'. pcaio_schedule (Some p) w = (0, w') \<and> world_rep w' L (Q @ [p]) \<and>
      heap w' = heap w \<and> tasks w' = tasks w))"
proof (intro conjI impI)
  show "pcaio_schedule (Some p) w = (-1, w)" if "p \<in> set Q"
    using schedule_queued [OF assms(1) that] .
next
  assume new: "p \<notin> set Q"
  have "heap w p \<noteq> None" using assms world_rep_members by blast
  from schedule_idle [OF assms(1) this new]
  show "\<exists>w'. pcaio_schedule (Some p) w = (0, w') \<and> world_rep w' L (Q @ [p]) \<and>
      heap w' = heap w \<and> tasks w' = tasks w" by fastforce
qed

theorem schedule_spec_witness:
  "\<exists>w w'. task_new (Some 64) 0 (Some 128) (Some 7) None 0 [] (world0 :: unit world) = Inr (Some 64, w) \<and>
    pcaio_schedule (Some 64) w = (0, w') \<and> world_rep w' [64] [64] \<and>
    pcaio_schedule (Some 64) w' = (-1, w')"
proof -
  from sample_task [of None] obtain w where
    w: "task_new (Some 64) 0 (Some 128) (Some 7) None 0 [] (world0 :: unit world) = Inr (Some 64, w)"
      "world_rep w [64] []" by blast
  from schedule_spec [OF w(2), of 64] obtain w' where
    w': "pcaio_schedule (Some 64) w = (0, w')" "world_rep w' [64] [64]" by auto
  from schedule_spec [OF w'(2), of 64] have "pcaio_schedule (Some 64) w' = (-1, w')" by simp
  with w w' show ?thesis by blast
qed

text \<open>\<open>pcaio_fschedule\<close> either creates a task and queues it behind every
  scheduled task, or, on any failure, returns NULL and leaves tasks, stacks, list and queue as
  they were.\<close>

theorem fschedule_spec:
  assumes "world_rep w L Q" "fresh_task mt w" "argc \<le> length va"
  shows "\<exists>w'. (if task_new_ok mt rc ms func
    then \<exists>p t. mt = Some p \<and> pcaio_fschedule mt rc ms func status argc va w = Inr (Some p, w') \<and>
      world_rep w' (L @ [p]) (Q @ [p]) \<and> heap w' = (heap w)(p := Some t) \<and>
      t_func t = func \<and> t_argv t = take argc va
    else pcaio_fschedule mt rc ms func status argc va w = Inr (None, w') \<and> world_rep w' L Q \<and>
      heap w' = heap w \<and> stacks w' = stacks w)"
proof (cases "task_new_ok mt rc ms func")
  case False
  with fschedule_failure [OF assms False] show ?thesis by auto
next
  case True
  then obtain p sp f where args: "mt = Some p" "rc = 0" "ms = Some sp" "func = Some f"
    by (auto simp: task_new_ok_def)
  with assms(2) have "p \<noteq> 0" "heap w p = None" by (simp_all add: fresh_task_def)
  from fschedule_success [OF assms(1) this assms(3), of sp f status] True args
  show ?thesis by auto
qed

theorem fschedule_spec_witness:
  "\<exists>w'. pcaio_fschedule (Some 64) 0 (Some 128) (Some 7) None 1 [5] (world0 :: unit world) =
      Inr (Some 64, w') \<and> world_rep w' [64] [64]"
  using fschedule_spec [OF world0_unit, of "Some 64" 1 "[5]" 0 "Some 128" "Some 7" None]
  by (simp add: fresh_task_def task_new_ok_def) blast

end
