(* ===== verification/Latch.thy ===== *)
theory Latch
  imports Prelude
begin

text \<open>
  The contract of a countdown latch: a set of participants still has to arrive; every arrival
  but the last leaves the waiter where it is, the last one releases it. \<open>Gather\<close>
  interprets it for \<open>gather_taskterminated\<close>.
\<close>

fun arrive_each :: "('t \<Rightarrow> 's \<Rightarrow> fault + 's) \<Rightarrow> 't list \<Rightarrow> 's \<Rightarrow> fault + 's" where
  "arrive_each arrive [] s = Inr s"
| "arrive_each arrive (t # ts) s = and_then (arrive t s) (arrive_each arrive ts)"

locale latch =
  fixes waiting :: "'s \<Rightarrow> 't set \<Rightarrow> bool"
    and released :: "'s \<Rightarrow> bool"
    and arrive :: "'t \<Rightarrow> 's \<Rightarrow> fault + 's"
  assumes waiting_not_released: "waiting s T \<Longrightarrow> \<not> released s"
    and arrive_law: "waiting s T \<Longrightarrow> t \<in> T \<Longrightarrow> T \<noteq> {t} \<Longrightarrow>
      \<exists>s'. arrive t s = Inr s' \<and> waiting s' (T - {t})"
    and last_law: "waiting s {t} \<Longrightarrow> \<exists>s'. arrive t s = Inr s' \<and> released s'"
begin

lemma arrive_some:
  "waiting s T \<Longrightarrow> distinct ts \<Longrightarrow> set ts \<subset> T \<Longrightarrow>
    \<exists>s'. arrive_each arrive ts s = Inr s' \<and> waiting s' (T - set ts)"
proof (induction ts arbitrary: s T)
  case Nil
  then show ?case by simp
next
  case (Cons t ts)
  then have "t \<in> T" "T \<noteq> {t}" by auto
  with arrive_law [OF Cons.prems(1)] obtain s1 where
    s1: "arrive t s = Inr s1" "waiting s1 (T - {t})" by blast
  have sub: "set ts \<subset> T - {t}" using Cons.prems(2,3) by auto
  have "distinct ts" using Cons.prems(2) by simp
  from Cons.IH [OF s1(2) this sub] obtain s2 where
    s2: "arrive_each arrive ts s1 = Inr s2" "waiting s2 (T - {t} - set ts)" by blast
  have "T - {t} - set ts = T - set (t # ts)" by auto
  with s1(1) s2 show ?case by simp
qed

text \<open>In whatever order the participants arrive, the waiter is released by the last
  arrival and by no earlier one.\<close>

lemma released_exactly_at_last:
  assumes "waiting s T" "distinct ts" "set ts = T" "ts \<noteq> []"
  shows "\<exists>s'. arrive_each arrive ts s = Inr s' \<and> released s'"
    and "m < length ts \<Longrightarrow> \<exists>s'. arrive_each arrive (take m ts) s = Inr s' \<and> \<not> released s'"
proof -
  from assms(4) obtain us t where ts: "ts = us @ [t]" by (metis rev_exhaust)
  have sub: "distinct us" "set us \<subset> T" "T - set us = {t}" using assms(2,3) by (auto simp: ts)
  from arrive_some [OF assms(1) sub(1,2)] obtain s1 where
    s1: "arrive_each arrive us s = Inr s1" "waiting s1 {t}" by (auto simp: sub(3))
  have app: "arrive_each arrive (us @ vs) s = and_then (arrive_each arrive us s) (arrive_each arrive vs)"
    for us vs s
  proof (induction us arbitrary: s)
    case (Cons u us)
    then show ?case by (cases "arrive u s") simp_all
  qed simp
  from last_law [OF s1(2)] s1(1) show "\<exists>s'. arrive_each arrive ts s = Inr s' \<and> released s'"
    by (auto simp: ts app)
  assume m: "m < length ts"
  have "card (set (take m ts)) < card (set ts)"
    using assms(2) m by (simp add: distinct_card)
  then have "set (take m ts) \<subset> T"
    using assms(3) set_take_subset [of m ts] by (metis less_irrefl psubsetI)
  from arrive_some [OF assms(1) _ this] assms(2) obtain s2 where
    "arrive_each arrive (take m ts) s = Inr s2" "waiting s2 (T - set (take m ts))" by auto
  then show "\<exists>s'. arrive_each arrive (take m ts) s = Inr s' \<and> \<not> released s'"
    using waiting_not_released by blast
qed

end

end
