(* ===== verification/Gather.thy ===== *)
theory Gather
  imports Api Latch
begin

text \<open>
  \<open>pcaio_gatherA\<close>: run several tasks and sleep until all of them have terminated
  (\<open>pcaio/gather.c\<close>). The \<open>struct gather\<close> is a local variable of the sleeping task:
  its block lives, at the address \<open>g\<close> of that task's stack, from the call to the return.
\<close>

section \<open>Operations\<close>

definition gather_at :: "addr option \<Rightarrow> ('k, 'z) world_scheme \<Rightarrow> fault + (addr \<times> gather)" where
  "gather_at gp w =
    (case gp of
       None \<Rightarrow> Inl NullDeref
     | Some g \<Rightarrow> (case gathers w g of None \<Rightarrow> Inl UseAfterFree | Some x \<Rightarrow> Inr (g, x)))"

definition gather_put :: "addr \<Rightarrow> gather option \<Rightarrow> ('k, 'z) world_scheme \<Rightarrow> ('k, 'z) world_scheme" where
  "gather_put g x w = w\<lparr>gathers := (gathers w)(g := x)\<rparr>"

text \<open>Locking a mutex that has been destroyed is undefined.\<close>

definition gather_taskterminated :: "addr \<Rightarrow> ('k, 'z) world_scheme \<Rightarrow> fault + ('k, 'z) world_scheme" where
  "gather_taskterminated p w =
    and_then (task_at p w) (\<lambda>t.
    and_then (gather_at (t_gather t) w) (\<lambda>(g, x).
      if \<not> g_mutex x then Inl UseAfterFree
      else
        let x = x\<lparr>g_count := g_count x - 1\<rparr>
        in if g_count x \<noteq> 0 then Inr (gather_put g (Some x) w)
           else
             let w = gather_put g (Some (x\<lparr>g_mutex := False\<rparr>)) w
             in Inr (snd (pcaio_schedule (g_task x) w))))"

definition gather_run_hook :: "hook \<Rightarrow> addr \<Rightarrow> ('k, 'z) world_scheme \<Rightarrow> fault + ('k, 'z) world_scheme" where
  "gather_run_hook h p w = (case h of gather_hook \<Rightarrow> gather_taskterminated p w)"

text \<open>The loop over the array; \<open>-1\<close> is the jump to \<open>failed\<close>.\<close>

fun gather_push :: "addr \<Rightarrow> addr list \<Rightarrow> ('k, 'z) world_scheme \<Rightarrow> fault + (int \<times> ('k, 'z) world_scheme)" where
  "gather_push g [] w = Inr (0, w)"
| "gather_push g (p # ps) w =
    and_then (task_at p w) (\<lambda>t.
      let w = task_put p (t\<lparr>t_gather := Some g, t_terminated := Some gather_hook\<rparr>) w
      in case queue_push p (taskq w) of (ret, q) \<Rightarrow>
           let w = w\<lparr>taskq := q\<rparr>
           in if ret \<noteq> 0 then Inr (-1, w) else gather_push g ps w)"

text \<open>\<open>ts\<close> is the array \<open>tasks[0 .. count - 1]\<close>; the \<open>int\<close> count is cut to the 16
  bits of \<open>g.count\<close>.\<close>

definition pcaio_gatherA ::
  "tid \<Rightarrow> addr \<Rightarrow> int \<Rightarrow> int \<Rightarrow> 'k \<Rightarrow> addr list \<Rightarrow> ('k, 'z) world_scheme
   \<Rightarrow> fault + (relax \<times> ('k, 'z) world_scheme)" where
  "pcaio_gatherA i g mutex_err swap_rc k ts w =
    (let x = \<lparr>g_count = of_nat (length ts), g_mutex = False, g_task = pcaio_self i w\<rparr>
     in if mutex_err \<noteq> 0 then Inr (Returned (-1), w\<lparr>errno := mutex_err\<rparr>)
        else
          let w = gather_put g (Some (x\<lparr>g_mutex := True\<rparr>)) w
          in and_then (gather_push g ts w) (\<lambda>(ret, w).
               if ret \<noteq> 0 then Inr (Returned (-1), gather_put g None w)
               else and_then (pcaio_relaxA i swap_rc k TASK_NOSCHEDULE w) (\<lambda>(r, w).
                 case r of
                   Switched c \<Rightarrow> Inr (Switched c, w)
                 | Returned e \<Rightarrow>
                     if e \<noteq> 0 then Inr (Returned (-1), gather_put g None w)
                     else Inr (Returned 0, gather_put g None w))))"

definition pcaio_gatherA_resumed :: "addr \<Rightarrow> ('k, 'z) world_scheme \<Rightarrow> c_int \<times> ('k, 'z) world_scheme" where
  "pcaio_gatherA_resumed g w = (let (ret, w) = pcaio_relaxA_resumed w in
     if ret \<noteq> 0 then (-1, gather_put g None w) else (0, gather_put g None w))"

lemma gather_put_simps [simp]:
  "heap (gather_put g x w) = heap w" "stacks (gather_put g x w) = stacks w"
  "gathers (gather_put g x w) = (gathers w)(g := x)" "ints (gather_put g x w) = ints w"
  "tasks (gather_put g x w) = tasks w" "taskq (gather_put g x w) = taskq w"
  "tls_task (gather_put g x w) = tls_task w" "tls_context (gather_put g x w) = tls_context w"
  "errno (gather_put g x w) = errno w" "world.more (gather_put g x w) = world.more w"
  by (simp_all add: gather_put_def)

lemma gather_put_rep [simp]: "world_rep (gather_put g x w) L Q \<longleftrightarrow> world_rep w L Q"
  by (rule world_rep_cong) simp_all

section \<open>Arming\<close>

text \<open>\<open>gather_armed\<close>: the tasks \<open>T\<close> still have to terminate before \<open>parent\<close>, asleep,
  is scheduled.\<close>

definition gather_armed ::
  "addr \<Rightarrow> addr \<Rightarrow> addr set \<Rightarrow> ('k, 'z) world_scheme \<Rightarrow> bool" where
  "gather_armed g parent T w \<longleftrightarrow>
     finite T \<and> T \<noteq> {} \<and> card T < 2 ^ 16 \<and>
     gathers w g = Some \<lparr>g_count = of_nat (card T), g_mutex = True, g_task = Some parent\<rparr> \<and>
     (\<forall>p \<in> T. \<exists>t. heap w p = Some t \<and> t_gather t = Some g \<and> t_terminated t = Some gather_hook)"

lemma of_nat_ushort_eq_0: "n < 2 ^ 16 \<Longrightarrow> (of_nat n :: c_ushort) = 0 \<longleftrightarrow> n = 0"
  by (simp add: word_of_nat_eq_0_iff) (metis gr_zeroI nat_dvd_not_less dvd_0_right)

text \<open>What the loop over the subtasks does to them: both fields are set, they are queued in the
  order of the array.\<close>

definition hooked :: "addr \<Rightarrow> 'k pcaio_task \<Rightarrow> 'k pcaio_task" where
  "hooked g t = t\<lparr>t_gather := Some g, t_terminated := Some gather_hook\<rparr>"

definition hooked_all :: "addr \<Rightarrow> addr set \<Rightarrow> (addr \<Rightarrow> 'k pcaio_task option) \<Rightarrow> addr \<Rightarrow> 'k pcaio_task option" where
  "hooked_all g T h p = (if p \<in> T then map_option (hooked g) (h p) else h p)"

lemma gather_push_step:
  assumes rep: "world_rep w L Q" and p: "p \<in> set L" "p \<notin> set Q"
  obtains w1 where "\<forall>ps. gather_push g (p # ps) w = gather_push g ps w1" "world_rep w1 L (Q @ [p])"
    "heap w1 = hooked_all g {p} (heap w)" "gathers w1 = gathers w" "stacks w1 = stacks w"
    "tls_task w1 = tls_task w" "tls_context w1 = tls_context w" "errno w1 = errno w" "ints w1 = ints w"
proof -
  from p(1) rep obtain t where t: "heap w p = Some t" by (auto simp: world_rep_members)
  let ?w = "task_put p (hooked g t) w"
  have rep1: "world_rep ?w L Q" using rep t by (simp add: world_rep_put)
  have "heap ?w p \<noteq> None" by simp
  from schedule_idle_run [OF rep1 this p(2)] obtain q where
    q: "queue_push p (taskq ?w) = (0, q)" "world_rep (?w\<lparr>taskq := q\<rparr>) L (Q @ [p])" by blast
  have run: "gather_push g (p # ps) w = gather_push g ps (?w\<lparr>taskq := q\<rparr>)" for ps :: "addr list"
    using t q(1) by (simp add: hooked_def)
  have h: "heap (?w\<lparr>taskq := q\<rparr>) = hooked_all g {p} (heap w)"
    using t by (auto simp: hooked_all_def fun_eq_iff)
  from run have "\<forall>ps. gather_push g (p # ps) w = gather_push g ps (?w\<lparr>taskq := q\<rparr>)" by blast
  then show thesis by (rule that [OF _ q(2) h]) simp_all
qed

lemma hooked_all_empty [simp]: "hooked_all g {} h = h"
  by (simp add: hooked_all_def fun_eq_iff)

lemma hooked_all_comp: "hooked_all g S (hooked_all g T h) = hooked_all g (T \<union> S) h"
  by (auto simp: hooked_all_def hooked_def fun_eq_iff map_option_case split: option.splits)

lemma gather_push_prefix:
  "world_rep w L Q \<Longrightarrow> distinct ts \<Longrightarrow> set ts \<subseteq> set L \<Longrightarrow> set ts \<inter> set Q = {} \<Longrightarrow>
    \<exists>w'. (\<forall>ps. gather_push g (ts @ ps) w = gather_push g ps w') \<and> world_rep w' L (Q @ ts) \<and>
      heap w' = hooked_all g (set ts) (heap w) \<and> gathers w' = gathers w \<and> ints w' = ints w \<and>
      tls_task w' = tls_task w \<and> tls_context w' = tls_context w"
proof (induction ts arbitrary: w Q)
  case Nil
  then show ?case by (intro exI [of _ w]) simp
next
  case (Cons p ts)
  have p: "p \<in> set L" "p \<notin> set Q" using Cons.prems(3,4) by auto
  obtain w1 where
    w1: "\<forall>ps. gather_push g (p # ps) w = gather_push g ps w1" "world_rep w1 L (Q @ [p])"
      "heap w1 = hooked_all g {p} (heap w)" "gathers w1 = gathers w" "ints w1 = ints w"
      "tls_task w1 = tls_task w" "tls_context w1 = tls_context w"
    by (rule gather_push_step [OF Cons.prems(1) p, of g]) (rule that)
  from Cons.IH [OF w1(2)] Cons.prems obtain w2 where
    w2: "\<And>ps. gather_push g (ts @ ps) w1 = gather_push g ps w2" "world_rep w2 L ((Q @ [p]) @ ts)"
      "heap w2 = hooked_all g (set ts) (heap w1)" "gathers w2 = gathers w1" "ints w2 = ints w1"
      "tls_task w2 = tls_task w1" "tls_context w2 = tls_context w1"
    by auto
  have "heap w2 = hooked_all g (set (p # ts)) (heap w)" using w1(3) w2(3) by (simp add: hooked_all_comp)
  with w1 w2 show ?case by (intro exI [of _ w2]) simp
qed

section \<open>Arming and arriving\<close>

lemma gather_put_prefix_run:
  assumes rep: "world_rep w L Q" and ts: "distinct ts" "set ts \<subseteq> set L" "set ts \<inter> set Q = {}"
  obtains w' where "\<forall>ps. gather_push g (ts @ ps) (gather_put g x w) = gather_push g ps w'"
    "world_rep w' L (Q @ ts)" "heap w' = hooked_all g (set ts) (heap w)"
    "gathers w' = (gathers w)(g := x)" "tls_task w' = tls_task w" "tls_context w' = tls_context w"
    "ints w' = ints w"
  using gather_push_prefix [of "gather_put g x w" L Q ts g] assms by auto

lemma gatherA_run:
  assumes rep: "world_rep w L Q"
    and me: "pcaio_self i w = Some parent" "threadlocal_get i (tls_context w) = Some c"
      "heap w parent = Some t"
    and ts: "distinct ts" "set ts \<subseteq> set L" "set ts \<inter> set Q = {}" "parent \<notin> set ts"
  shows "\<exists>w'. pcaio_gatherA i g 0 0 k ts w = Inr (Switched c, w') \<and> world_rep w' L (Q @ ts) \<and>
    heap w' = (hooked_all g (set ts) (heap w))
      (parent := Some (t\<lparr>t_flags := t_flags t OR TASK_NOSCHEDULE, t_context := Saved k\<rparr>)) \<and>
    gathers w' = (gathers w)(g := Some \<lparr>g_count = of_nat (length ts), g_mutex = True, g_task = Some parent\<rparr>) \<and>
    tls_task w' = tls_task w \<and> tls_context w' = tls_context w \<and> ints w' = ints w"
proof -
  let ?x = "\<lparr>g_count = of_nat (length ts), g_mutex = True, g_task = Some parent\<rparr>"
  obtain w1 where w1: "\<forall>ps. gather_push g (ts @ ps) (gather_put g (Some ?x) w) = gather_push g ps w1"
    "world_rep w1 L (Q @ ts)" "heap w1 = hooked_all g (set ts) (heap w)"
    "gathers w1 = (gathers w)(g := Some ?x)" "tls_task w1 = tls_task w" "tls_context w1 = tls_context w"
    "ints w1 = ints w"
    using gather_put_prefix_run [OF rep ts(1-3), of g "Some ?x"] by blast
  let ?t = "t\<lparr>t_flags := t_flags t OR TASK_NOSCHEDULE, t_context := Saved k\<rparr>"
  have parent: "heap w1 parent = Some t" using w1(3) me(3) ts(4) by (simp add: hooked_all_def)
  have push: "gather_push g ts (gather_put g (Some ?x) w) = Inr (0, w1)"
    using w1(1) [rule_format, of "[]"] by simp
  have sw: "pcaio_relaxA i 0 k TASK_NOSCHEDULE w1 = Inr (Switched c, task_put parent ?t w1)"
    using me w1(5,6) parent by (intro relaxA_switch) (simp_all add: pcaio_self_def)
  have "pcaio_gatherA i g 0 0 k ts w = Inr (Switched c, task_put parent ?t w1)"
    using push sw me(1) by (simp add: pcaio_gatherA_def)
  moreover have "world_rep (task_put parent ?t w1) L (Q @ ts)" using w1(2) parent by (simp add: world_rep_put)
  ultimately show ?thesis using w1 by (intro exI [of _ "task_put parent ?t w1"]) simp
qed

lemma gatherA_arms:
  assumes rep: "world_rep w L Q"
    and me: "pcaio_self i w = Some parent" "threadlocal_get i (tls_context w) = Some c"
      "heap w parent = Some t"
    and ts: "distinct ts" "set ts \<subseteq> set L" "set ts \<inter> set Q = {}" "parent \<notin> set ts" "ts \<noteq> []"
      "length ts < 2 ^ 16"
  shows "\<exists>w'. pcaio_gatherA i g 0 0 k ts w = Inr (Switched c, w') \<and> world_rep w' L (Q @ ts) \<and>
    gather_armed g parent (set ts) w' \<and>
    heap w' parent = Some (t\<lparr>t_flags := t_flags t OR TASK_NOSCHEDULE, t_context := Saved k\<rparr>)"
proof -
  from gatherA_run [OF rep me ts(1-4), of g k] obtain w' where
    w': "pcaio_gatherA i g 0 0 k ts w = Inr (Switched c, w')" "world_rep w' L (Q @ ts)"
      "heap w' = (hooked_all g (set ts) (heap w))
        (parent := Some (t\<lparr>t_flags := t_flags t OR TASK_NOSCHEDULE, t_context := Saved k\<rparr>))"
      "gathers w' = (gathers w)(g := Some \<lparr>g_count = of_nat (length ts), g_mutex = True, g_task = Some parent\<rparr>)"
    by blast
  have "\<exists>u. heap w' p = Some u \<and> t_gather u = Some g \<and> t_terminated u = Some gather_hook" if p: "p \<in> set ts" for p
  proof -
    from p ts(2) obtain u where "heap w p = Some u" using world_rep_members [OF rep] by fastforce
    moreover have "p \<noteq> parent" using p ts(4) by blast
    ultimately show ?thesis using w'(3) p by (simp add: hooked_all_def hooked_def)
  qed
  then have "gather_armed g parent (set ts) w'"
    using w'(4) ts by (auto simp: gather_armed_def distinct_card)
  with w' show ?thesis by simp
qed

lemma gather_arrive:
  assumes armed: "gather_armed g parent T w" and p: "p \<in> T" "T \<noteq> {p}"
  shows "\<exists>x. gather_taskterminated p w = Inr (gather_put g x w) \<and>
    gather_armed g parent (T - {p}) (gather_put g x w)"
proof -
  let ?n = "card T - 1"
  have fin: "finite T" and lt: "card T < 2 ^ 16" using armed by (auto simp: gather_armed_def)
  have card: "card (T - {p}) = ?n" using fin p(1) by simp
  have ne: "T - {p} \<noteq> {}" using p by auto
  then have "?n \<noteq> 0" using card fin by (metis card_0_eq finite_Diff)
  then have nz: "(of_nat ?n :: c_ushort) \<noteq> 0" using of_nat_ushort_eq_0 [of ?n] lt by simp
  have dec: "(of_nat (card T) :: c_ushort) - 1 = of_nat ?n"
    using fin p(1) by (metis One_nat_def Suc_pred add_diff_cancel_left' card_gt_0_iff empty_iff of_nat_Suc)
  from armed p(1) obtain t where
    t: "heap w p = Some t" "t_gather t = Some g" "gathers w g = Some \<lparr>g_count = of_nat (card T), g_mutex = True, g_task = Some parent\<rparr>"
    by (auto simp: gather_armed_def)
  let ?x = "Some \<lparr>g_count = of_nat ?n, g_mutex = True, g_task = Some parent\<rparr>"
  have "gather_taskterminated p w = Inr (gather_put g ?x w)"
    using t nz dec by (simp add: gather_taskterminated_def gather_at_def Let_def)
  moreover have "gather_armed g parent (T - {p}) (gather_put g ?x w)"
    using armed card ne lt fin by (auto simp: gather_armed_def)
  ultimately show ?thesis by blast
qed

lemma gather_arrive_last:
  assumes "gather_armed g parent {p} w"
  shows "\<exists>x. gather_taskterminated p w = Inr (snd (pcaio_schedule (Some parent) (gather_put g x w)))"
proof -
  from assms obtain t where
    t: "heap w p = Some t" "t_gather t = Some g" "gathers w g = Some \<lparr>g_count = 1, g_mutex = True, g_task = Some parent\<rparr>"
    by (auto simp: gather_armed_def)
  then have "gather_taskterminated p w = Inr (snd (pcaio_schedule (Some parent)
      (gather_put g (Some \<lparr>g_count = 0, g_mutex = False, g_task = Some parent\<rparr>) w)))"
    by (simp add: gather_taskterminated_def gather_at_def Let_def)
  then show ?thesis by blast
qed

section \<open>The latch\<close>

definition gather_waiting ::
  "addr \<Rightarrow> addr \<Rightarrow> addr list \<Rightarrow> addr list \<Rightarrow> ('k, 'z) world_scheme \<Rightarrow> addr set \<Rightarrow> bool" where
  "gather_waiting g parent L Q w T \<longleftrightarrow>
     world_rep w L Q \<and> gather_armed g parent T w \<and> parent \<in> set L \<and> parent \<notin> set Q"

definition gather_released :: "addr \<Rightarrow> addr list \<Rightarrow> addr list \<Rightarrow> ('k, 'z) world_scheme \<Rightarrow> bool" where
  "gather_released parent L Q w \<longleftrightarrow> world_rep w L (Q @ [parent])"

lemma world_rep_queue_unique: "world_rep w L Q \<Longrightarrow> world_rep w L' Q' \<Longrightarrow> Q' = Q"
  unfolding world_rep_def using queue_rep_unique by blast

interpretation gather: latch "gather_waiting g parent L Q" "gather_released parent L Q"
    gather_taskterminated
  for g parent L Q
proof unfold_locales
  fix w :: "('k, 'z) world_scheme" and T and p
  assume wait: "gather_waiting g parent L Q w T"
  then show "\<not> gather_released parent L Q w"
    by (auto simp: gather_waiting_def gather_released_def dest: world_rep_queue_unique)
  assume "p \<in> T" "T \<noteq> {p}"
  with wait gather_arrive [of g parent T w p]
  show "\<exists>w'. gather_taskterminated p w = Inr w' \<and> gather_waiting g parent L Q w' (T - {p})"
    by (auto simp: gather_waiting_def)
next
  fix w :: "('k, 'z) world_scheme" and p
  assume wait: "gather_waiting g parent L Q w {p}"
  then have rep: "world_rep w L Q" and parent: "heap w parent \<noteq> None" "parent \<notin> set Q"
    by (auto simp: gather_waiting_def world_rep_members)
  from wait gather_arrive_last [of g parent p w] obtain x where
    run: "gather_taskterminated p w = Inr (snd (pcaio_schedule (Some parent) (gather_put g x w)))"
    by (auto simp: gather_waiting_def)
  have "world_rep (gather_put g x w) L Q" "heap (gather_put g x w) parent \<noteq> None"
    using rep parent by simp_all
  from schedule_idle [OF this parent(2)] run
  show "\<exists>w'. gather_taskterminated p w = Inr w' \<and> gather_released parent L Q w'"
    by (auto simp: gather_released_def)
qed

section \<open>Failures\<close>

text \<open>When a task of the array is refused by the queue (it is queued already, or stands twice
  in the array), the tasks before it stay queued, with a pointer to the dead block.\<close>

lemma gatherA_refused:
  assumes rep: "world_rep w L Q"
    and ts: "distinct as" "set as \<subseteq> set L" "set as \<inter> set Q = {}"
    and b: "b \<in> set L" "b \<in> set Q \<union> set as"
  shows "\<exists>w'. pcaio_gatherA i g 0 rc k (as @ b # bs) w = Inr (Returned (-1), w') \<and>
    world_rep w' L (Q @ as) \<and> gathers w' g = None \<and>
    (\<forall>p \<in> set as. gather_taskterminated p w' = Inl UseAfterFree)"
proof -
  let ?x = "\<lparr>g_count = of_nat (length (as @ b # bs)), g_mutex = True, g_task = pcaio_self i w\<rparr>"
  obtain w1 where w1: "\<forall>ps. gather_push g (as @ ps) (gather_put g (Some ?x) w) = gather_push g ps w1"
    "world_rep w1 L (Q @ as)" "heap w1 = hooked_all g (set as) (heap w)"
    using gather_put_prefix_run [OF rep ts] by blast
  from world_rep_members [OF w1(2)] b(1) obtain t where t: "heap w1 b = Some t" by blast
  let ?w2 = "task_put b (hooked g t) w1"
  have rep2: "world_rep ?w2 L (Q @ as)" using w1(2) t by (simp add: world_rep_put)
  have "queue_push b (taskq ?w2) = (-1, taskq ?w2)"
    using queue_push_reject [of "taskq ?w2" "Q @ as" b] world_rep_queue [OF rep2] b(2) by auto
  then have "gather_push g (b # bs) w1 = Inr (-1, ?w2)" using t by (simp add: hooked_def)
  with w1(1) have run: "pcaio_gatherA i g 0 rc k (as @ b # bs) w = Inr (Returned (-1), gather_put g None ?w2)"
    by (simp add: pcaio_gatherA_def)
  have dead: "gather_taskterminated p (gather_put g None ?w2) = Inl UseAfterFree" if "p \<in> set as" for p
  proof -
    from that ts(2) have "heap w p \<noteq> None" using world_rep_members [OF rep] by blast
    then obtain u where u: "heap w p = Some u" by blast
    have "\<exists>v. heap ?w2 p = Some v \<and> t_gather v = Some g"
      using w1(3) u that by (auto simp: hooked_all_def hooked_def)
    then show ?thesis by (auto simp: gather_taskterminated_def gather_at_def)
  qed
  with run rep2 show ?thesis by auto
qed

text \<open>Gathering no task: the caller sleeps, and no task points to its latch.\<close>

lemma gatherA_none:
  assumes rep: "world_rep w L Q"
    and me: "pcaio_self i w = Some parent" "threadlocal_get i (tls_context w) = Some c"
      "heap w parent = Some t"
  shows "\<exists>w'. pcaio_gatherA i g 0 0 k [] w = Inr (Switched c, w') \<and> world_rep w' L Q \<and>
    heap w' = (heap w)(parent := Some (t\<lparr>t_flags := t_flags t OR TASK_NOSCHEDULE, t_context := Saved k\<rparr>))"
proof -
  let ?x = "\<lparr>g_count = 0, g_mutex = True, g_task = Some parent\<rparr>"
  let ?t = "t\<lparr>t_flags := t_flags t OR TASK_NOSCHEDULE, t_context := Saved k\<rparr>"
  have "pcaio_relaxA i 0 k TASK_NOSCHEDULE (gather_put g (Some ?x) w) =
      Inr (Switched c, task_put parent ?t (gather_put g (Some ?x) w))"
    using me by (intro relaxA_switch) (simp_all add: pcaio_self_def)
  then have "pcaio_gatherA i g 0 0 k [] w = Inr (Switched c, task_put parent ?t (gather_put g (Some ?x) w))"
    using me(1) by (simp add: pcaio_gatherA_def)
  then show ?thesis using rep me(3) by (simp add: world_rep_put)
qed

section \<open>A sample memory\<close>

text \<open>Three tasks, created one after the other; the first runs on thread 3.\<close>

lemma sample_gang:
  "\<exists>w :: unit world. world_rep w [64, 128, 192] [] \<and> pcaio_self 3 w = Some 64 \<and>
    threadlocal_get 3 (tls_context w) = Some 3 \<and> (\<exists>t. heap w 192 = Some t \<and> t_flags t = 0)"
proof -
  from sample_task [of None] obtain w1 t1 where
    w1: "world_rep (w1 :: unit world) [64] []" "heap w1 64 = Some t1" by blast
  have h1: "heap w1 128 = None" using world_rep_members [OF w1(1), of 128] by simp
  obtain w2 where w2: "world_rep (w2 :: unit world) [64, 128] []"
    using task_new_success [OF w1(1) _ h1, of 0 "[]" 256 7 None] by auto
  have h2: "heap w2 192 = None" using world_rep_members [OF w2(1), of 192] by simp
  obtain w3 where w3: "world_rep (w3 :: unit world) [64, 128, 192] []" "\<exists>t. heap w3 192 = Some t \<and> t_flags t = 0"
    using task_new_success [OF w2(1) _ h2, of 0 "[]" 512 7 None] by auto
  let ?w = "w3\<lparr>tls_task := \<lparr>tls_key = True, tls_slot = (\<lambda>_. Some 64)\<rparr>,
    tls_context := \<lparr>tls_key = True, tls_slot = (\<lambda>_. Some 3)\<rparr>\<rparr>"
  have "world_rep ?w [64, 128, 192] []"
    using w3 world_rep_cong [of ?w w3 "[64, 128, 192]" "[]"] by simp
  moreover have "pcaio_self 3 ?w = Some 64" "threadlocal_get 3 (tls_context ?w) = Some 3"
    by (simp_all add: pcaio_self_def threadlocal_get_def)
  moreover have "\<exists>t. heap ?w 192 = Some t \<and> t_flags t = 0" using w3(2) by simp
  ultimately show ?thesis by blast
qed

section \<open>Properties\<close>

text \<open>\<open>pcaio_gatherA\<close> on scheduled-by-nobody subtasks queues them all, in
  the order of the array, arms the latch with all of them, and leaves the worker with the caller
  asleep: saved, flagged not to be scheduled, and not in the queue.\<close>

theorem gather_suspends:
  assumes "world_rep w L Q" "pcaio_self i w = Some parent" "threadlocal_get i (tls_context w) = Some c"
    and "heap w parent = Some t" "distinct ts" "set ts \<subseteq> set L" "set ts \<inter> set Q = {}"
    and "parent \<notin> set ts" "ts \<noteq> []" "length ts < 2 ^ 16"
  shows "\<exists>w'. pcaio_gatherA i g 0 0 k ts w = Inr (Switched c, w') \<and> world_rep w' L (Q @ ts) \<and>
    gather_armed g parent (set ts) w' \<and>
    heap w' parent = Some (t\<lparr>t_flags := t_flags t OR TASK_NOSCHEDULE, t_context := Saved k\<rparr>)"
  using gatherA_arms [OF assms] .

theorem gather_suspends_witness:
  "\<exists>w w'. pcaio_self 3 (w :: unit world) = Some 64 \<and>
    pcaio_gatherA 3 1000 0 0 () [192, 128] w = Inr (Switched 3, w') \<and>
    world_rep w' [64, 128, 192] [192, 128] \<and> gather_armed 1000 64 {192, 128} w'"
proof -
  from sample_gang obtain w :: "unit world" where
    w: "world_rep w [64, 128, 192] []" "pcaio_self 3 w = Some 64"
      "threadlocal_get 3 (tls_context w) = Some 3" by blast
  from world_rep_members [OF w(1), of 64] obtain t where t: "heap w 64 = Some t" by auto
  from gather_suspends [OF w t, of "[192, 128]" 1000 "()"] w(2) show ?thesis by auto
qed

text \<open>Property C15. A caller asleep in \<open>pcaio_gatherA\<close> is scheduled by the last of its
  subtasks to terminate, in whatever order they terminate, and by no earlier one.\<close>

theorem gather_wakes_at_last:
  assumes "world_rep w L Q" "gather_armed g parent (set us) w" "parent \<in> set L" "parent \<notin> set Q"
    and "distinct us"
  shows "(\<exists>w'. arrive_each gather_taskterminated us w = Inr w' \<and> world_rep w' L (Q @ [parent])) \<and>
    (\<forall>m < length us. \<exists>w'. arrive_each gather_taskterminated (take m us) w = Inr w' \<and>
      \<not> world_rep w' L (Q @ [parent]))"
proof (intro conjI allI impI)
  have wait: "gather_waiting g parent L Q w (set us)" using assms by (simp add: gather_waiting_def)
  have ne: "us \<noteq> []" using assms(2) by (auto simp: gather_armed_def)
  show "\<exists>w'. arrive_each gather_taskterminated us w = Inr w' \<and> world_rep w' L (Q @ [parent])"
    using gather.released_exactly_at_last(1) [OF wait assms(5) refl ne]
    by (simp add: gather_released_def)
  show "\<exists>w'. arrive_each gather_taskterminated (take m us) w = Inr w' \<and>
      \<not> world_rep w' L (Q @ [parent])" if "m < length us" for m
    using gather.released_exactly_at_last(2) [OF wait assms(5) refl ne that]
    by (simp add: gather_released_def)
qed

theorem gather_wakes_at_last_witness:
  "\<exists>w w'. gather_armed 1000 64 {192, 128} (w :: unit world) \<and>
    arrive_each gather_taskterminated [128, 192] w = Inr w' \<and>
    world_rep w' [64, 128, 192] [192, 128, 64]"
proof -
  from sample_gang obtain w :: "unit world" where
    w: "world_rep w [64, 128, 192] []" "pcaio_self 3 w = Some 64"
      "threadlocal_get 3 (tls_context w) = Some 3" by blast
  from world_rep_members [OF w(1), of 64] obtain t where t: "heap w 64 = Some t" by auto
  from gatherA_arms [OF w t, of "[192, 128]" 1000 "()"] obtain w1 :: "unit world" where
    w1: "world_rep w1 [64, 128, 192] [192, 128]" "gather_armed 1000 64 {192, 128} w1" by auto
  have "{192, 128} = set [128 :: addr, 192]" by auto
  with gather_wakes_at_last [of w1 "[64, 128, 192]" "[192, 128]" 1000 64 "[128, 192]"] w1
  show ?thesis by auto
qed

text \<open>When \<open>pcaio_gatherA\<close> meets a subtask that is queued already (or stands
  twice in the array) it returns -1, but the subtasks before it stay queued and still point to
  the latch on the caller's stack, which is gone: the end of each of them is a use after
  free.\<close>

theorem gather_failure_dangles:
  assumes "world_rep w L Q" "distinct as" "set as \<subseteq> set L" "set as \<inter> set Q = {}"
    and "b \<in> set L" "b \<in> set Q \<union> set as"
  shows "\<exists>w'. pcaio_gatherA i g 0 rc k (as @ b # bs) w = Inr (Returned (-1), w') \<and>
    world_rep w' L (Q @ as) \<and> (\<forall>p \<in> set as. gather_taskterminated p w' = Inl UseAfterFree)"
  using gatherA_refused [OF assms, of i g rc k bs] by blast

theorem gather_failure_dangles_witness:
  "\<exists>w w'. pcaio_gatherA 3 1000 0 0 () [128, 128] (w :: unit world) = Inr (Returned (-1), w') \<and>
    world_rep w' [64, 128, 192] [128] \<and> gather_taskterminated 128 w' = Inl UseAfterFree"
proof -
  from sample_gang obtain w :: "unit world" where "world_rep w [64, 128, 192] []" by blast
  from gather_failure_dangles [OF this, of "[128]" 128 3 1000 0 "()" "[]"] show ?thesis by auto
qed

end
