(* ===== verification/Worker.thy ===== *)
theory Worker
  imports Gather
begin

text \<open>
  The worker thread, \<open>pcaio/worker.c\<close>, and what it runs. \<open>swapcontext(&landing,
  &t->context)\<close> is the argument \<open>run\<close> of the worker: it executes the task until
  something switches back to this thread's landing context. The second half of the theory
  defines that execution for a user program that is a step function on continuations \<open>'u\<close>.
  A landing context is named by its thread.
\<close>

section \<open>The worker\<close>

datatype wstat = Again | Exit int | Gone

definition tls_set_task :: "tid \<Rightarrow> addr option \<Rightarrow> ('k, 'z) world_scheme \<Rightarrow> ('k, 'z) world_scheme" where
  "tls_set_task i v w = w\<lparr>tls_task := snd (snd (threadlocal_set 0 i v (tls_task w)))\<rparr>"

definition worker_cleanup :: "('k, 'z) world_scheme \<Rightarrow> ('k, 'z) world_scheme" where
  "worker_cleanup w =
    w\<lparr>taskq := queue_unlock (taskq w), tls_task := threadlocal_delete (tls_task w),
      tls_context := threadlocal_delete (tls_context w)\<rparr>"

text \<open>From the return of \<open>swapcontext\<close> to the end of the loop's body.\<close>

definition worker_back ::
  "tid \<Rightarrow> addr \<Rightarrow> int \<Rightarrow> ('k, 'z) world_scheme \<Rightarrow> fault + (wstat \<times> ('k, 'z) world_scheme)" where
  "worker_back i p ret w =
    (let w = tls_set_task i None w
     in if ret \<noteq> 0 then Inr (Exit ENOMEM, w)
        else and_then (task_at p w) (\<lambda>t.
          if t_flags t AND TASK_TERMINATED \<noteq> 0 then
            and_then (task_free (Some p) w) (\<lambda>w. Inr (Again, w))
          else if t_flags t AND TASK_NOSCHEDULE \<noteq> 0 then
            Inr (Again, task_put p (t\<lparr>t_flags := t_flags t AND NOT TASK_NOSCHEDULE\<rparr>) w)
          else case queue_push p (taskq w) of (r, q) \<Rightarrow>
            let w = w\<lparr>taskq := q\<rparr> in if r \<noteq> 0 then Inr (Exit EINVAL, w) else Inr (Again, w)))"

text \<open>What \<open>swapcontext\<close> leaves: \<open>None\<close> when the task never gives the thread back, the
  status \<open>None\<close> when the thread ends inside the task.\<close>

definition worker_switch ::
  "tid \<Rightarrow> addr \<Rightarrow> (fault + (int option \<times> ('k, 'z) world_scheme)) option
   \<Rightarrow> (fault + (wstat \<times> ('k, 'z) world_scheme)) option" where
  "worker_switch i p r =
    (case r of
       None \<Rightarrow> None
     | Some (Inl e) \<Rightarrow> Some (Inl e)
     | Some (Inr (None, w)) \<Rightarrow> Some (Inr (Gone, w))
     | Some (Inr (Some ret, w)) \<Rightarrow> Some (worker_back i p ret w))"

text \<open>One round of the loop.\<close>

definition worker_iter ::
  "(addr queue \<Rightarrow> int \<times> addr queue)
   \<Rightarrow> (tid \<Rightarrow> addr \<Rightarrow> ('k, 'z) world_scheme \<Rightarrow> (fault + (int option \<times> ('k, 'z) world_scheme)) option)
   \<Rightarrow> tid \<Rightarrow> ('k, 'z) world_scheme \<Rightarrow> (fault + (wstat \<times> ('k, 'z) world_scheme)) option" where
  "worker_iter cond_wait run i w =
    (case queue_pop cond_wait QWAIT (taskq w) of
       None \<Rightarrow> None
     | Some (rc, tp, q) \<Rightarrow>
        if rc \<noteq> 0 then Some (Inr (Exit 0, w\<lparr>taskq := q\<rparr>))
        else case tp of
          None \<Rightarrow> Some (Inl NullDeref)
        | Some p \<Rightarrow>
           worker_switch i p (run i p (tls_set_task i (Some p) (w\<lparr>taskq := q\<rparr>))))"

partial_function (option) worker_loop ::
  "(addr queue \<Rightarrow> int \<times> addr queue)
   \<Rightarrow> (tid \<Rightarrow> addr \<Rightarrow> ('k, 'z) world_scheme \<Rightarrow> (fault + (int option \<times> ('k, 'z) world_scheme)) option)
   \<Rightarrow> tid \<Rightarrow> ('k, 'z) world_scheme \<Rightarrow> (fault + (int option \<times> ('k, 'z) world_scheme)) option" where
  "worker_loop cond_wait run i w =
    (case worker_iter cond_wait run i w of
       None \<Rightarrow> None
     | Some (Inl e) \<Rightarrow> Some (Inl e)
     | Some (Inr (Gone, w)) \<Rightarrow> Some (Inr (None, w))
     | Some (Inr (Exit r, w)) \<Rightarrow> Some (Inr (Some r, w))
     | Some (Inr (Again, w)) \<Rightarrow> worker_loop cond_wait run i w)"

definition worker ::
  "(addr queue \<Rightarrow> int \<times> addr queue)
   \<Rightarrow> (tid \<Rightarrow> addr \<Rightarrow> ('k, 'z) world_scheme \<Rightarrow> (fault + (int option \<times> ('k, 'z) world_scheme)) option)
   \<Rightarrow> int \<Rightarrow> tid \<Rightarrow> ('k, 'z) world_scheme \<Rightarrow> (fault + (int option \<times> ('k, 'z) world_scheme)) option" where
  "worker cond_wait run tls_err i w =
    (let w = w\<lparr>tls_context := snd (snd (threadlocal_set tls_err i (Some i) (tls_context w)))\<rparr>
     in case worker_loop cond_wait run i w of
          None \<Rightarrow> None
        | Some (Inl e) \<Rightarrow> Some (Inl e)
        | Some (Inr (None, w)) \<Rightarrow> Some (Inr (None, w))
        | Some (Inr (Some r, w)) \<Rightarrow> Some (Inr (Some r, worker_cleanup w)))"

section \<open>What it runs\<close>

text \<open>The operations of a task, each with the rest of the task as a function of what the
  operation returns.\<close>

datatype 'u uop =
    Return c_int
  | Relax c_int "c_int \<Rightarrow> 'u"
  | Gather addr "addr list" "c_int \<Rightarrow> 'u"
  | Schedule "addr option" "int \<Rightarrow> 'u"
  | Self "addr option \<Rightarrow> 'u"
  | Call nat "int \<Rightarrow> 'u"

text \<open>Where a saved task stands: inside its own call of \<open>relaxA\<close>, or inside the one of
  \<open>gatherA\<close>.\<close>

datatype 'u frame = Relaxed 'u | Gathered addr 'u

text \<open>What a task calls outside its own function: its termination callback, and functions that
  do not switch, by number.\<close>

record ('u, 'z) userland =
  u_callback :: "addr \<Rightarrow> addr \<Rightarrow> ('u frame, 'z) world_scheme \<Rightarrow> fault + ('u frame, 'z) world_scheme"
  u_call :: "tid \<Rightarrow> nat \<Rightarrow> ('u frame, 'z) world_scheme \<Rightarrow> fault + (int \<times> ('u frame, 'z) world_scheme)"

definition no_calls :: "('u, 'z) userland" where
  "no_calls = \<lparr>u_callback = (\<lambda>_ _. Inr), u_call = (\<lambda>_ _ w. Inr (0, w))\<rparr>"

text \<open>A task with its thread, from some point of its function to the next switch to the landing
  context. The last line of \<open>_taskmain\<close>, with no landing context, ends the thread.\<close>

partial_function (option) exec ::
  "('u \<Rightarrow> 'u uop)
   \<Rightarrow> ('u, 'z) userland
   \<Rightarrow> tid \<Rightarrow> addr \<Rightarrow> 'u \<Rightarrow> ('u frame, 'z) world_scheme
   \<Rightarrow> (fault + (int option \<times> ('u frame, 'z) world_scheme)) option" where
  "exec prog cb i p u w =
    (case prog u of
       Return e \<Rightarrow>
        Some (and_then (taskmain_finish gather_run_hook (u_callback cb) i p (Some e) w)
          (\<lambda>(landing, w). Inr (map_option (\<lambda>_. 0) landing, w)))
     | Relax f k \<Rightarrow>
        (case pcaio_relaxA i 0 (Relaxed (k 0)) f w of
           Inl e \<Rightarrow> Some (Inl e)
         | Inr (Switched c, w) \<Rightarrow> Some (Inr (Some 0, w))
         | Inr (Returned r, w) \<Rightarrow> exec prog cb i p (k r) w)
     | Gather g ts k \<Rightarrow>
        (case pcaio_gatherA i g 0 0 (Gathered g (k 0)) ts w of
           Inl e \<Rightarrow> Some (Inl e)
         | Inr (Switched c, w) \<Rightarrow> Some (Inr (Some 0, w))
         | Inr (Returned r, w) \<Rightarrow> exec prog cb i p (k r) w)
     | Schedule tp k \<Rightarrow>
        (case pcaio_schedule tp w of (r, w) \<Rightarrow> exec prog cb i p (k r) w)
     | Self k \<Rightarrow> exec prog cb i p (k (pcaio_self i w)) w
     | Call n k \<Rightarrow>
        (case u_call cb i n w of
           Inl e \<Rightarrow> Some (Inl e)
         | Inr (r, w) \<Rightarrow> exec prog cb i p (k r) w))"

text \<open>\<open>swapcontext\<close> to the task: its first run enters \<open>_taskmain\<close>, later ones return from
  the call it is saved in. \<open>start f args\<close> is the body of the function \<open>f\<close>.\<close>

definition task_run ::
  "('u \<Rightarrow> 'u uop) \<Rightarrow> (addr option \<Rightarrow> addr list \<Rightarrow> 'u)
   \<Rightarrow> ('u, 'z) userland
   \<Rightarrow> tid \<Rightarrow> addr \<Rightarrow> ('u frame, 'z) world_scheme
   \<Rightarrow> (fault + (int option \<times> ('u frame, 'z) world_scheme)) option" where
  "task_run prog start cb i p w =
    (case task_at p w of
       Inl e \<Rightarrow> Some (Inl e)
     | Inr t \<Rightarrow>
        (case t_context t of
           Blank \<Rightarrow> Some (Inl Indeterminate)
         | Entry p1 p2 \<Rightarrow>
            (let p = task_ptr p1 p2
             in case task_at p w of
                  Inl e \<Rightarrow> Some (Inl e)
                | Inr t \<Rightarrow>
                   (case taskmain_args t of
                      None \<Rightarrow>
                        Some (and_then (taskmain_finish gather_run_hook (u_callback cb) i p None w)
                          (\<lambda>(landing, w). Inr (map_option (\<lambda>_. 0) landing, w)))
                    | Some args \<Rightarrow> exec prog cb i p (start (t_func t) args) w))
         | Saved (Relaxed u) \<Rightarrow> (case pcaio_relaxA_resumed w of (r, w) \<Rightarrow> exec prog cb i p u w)
         | Saved (Gathered g u) \<Rightarrow> (case pcaio_gatherA_resumed g w of (r, w) \<Rightarrow> exec prog cb i p u w)))"

section \<open>Coming back\<close>

lemma tls_set_task_simps [simp]:
  "heap (tls_set_task i v w) = heap w" "stacks (tls_set_task i v w) = stacks w"
  "gathers (tls_set_task i v w) = gathers w" "ints (tls_set_task i v w) = ints w"
  "tasks (tls_set_task i v w) = tasks w" "taskq (tls_set_task i v w) = taskq w"
  "tls_context (tls_set_task i v w) = tls_context w" "errno (tls_set_task i v w) = errno w"
  "tls_key (tls_task (tls_set_task i v w)) = tls_key (tls_task w)"
  "world.more (tls_set_task i v w) = world.more w"
  by (simp_all add: tls_set_task_def threadlocal_set_def)

lemma tls_set_task_rep [simp]: "world_rep (tls_set_task i v w) L Q \<longleftrightarrow> world_rep w L Q"
  by (rule world_rep_cong) simp_all

lemma tls_set_task_self [simp]:
  "tls_key (tls_task w) \<Longrightarrow> pcaio_self i (tls_set_task i v w) = v"
  by (simp add: pcaio_self_def tls_set_task_def)

lemma back_terminated:
  assumes rep: "world_rep w L Q" and p: "p \<notin> set Q" "heap w p = Some t" "t_flags t AND TASK_TERMINATED \<noteq> 0"
  shows "\<exists>w'. worker_back i p 0 w = Inr (Again, w') \<and> world_rep w' (remove1 p L) Q \<and>
    heap w' = (heap w)(p := None) \<and> ints w' = ints w \<and> gathers w' = gathers w \<and>
    tls_key (tls_task w') = tls_key (tls_task w) \<and> tls_context w' = tls_context w"
proof -
  let ?w = "tls_set_task i None w"
  have "world_rep ?w L Q" "p \<in> set L" "heap ?w p = Some t"
    using rep p(2) world_rep_members [OF rep, of p] by simp_all
  from task_free_member [OF this(1,2) p(1) this(3)] obtain w' where
    "task_free (Some p) ?w = Inr w'" "world_rep w' (remove1 p L) Q" "heap w' = (heap w)(p := None)"
    "ints w' = ints w" "gathers w' = gathers w" "tls_task w' = tls_task ?w" "tls_context w' = tls_context w"
    by auto
  with p show ?thesis by (simp add: worker_back_def Let_def)
qed

lemma back_held:
  assumes "heap w p = Some t" "t_flags t AND TASK_TERMINATED = 0" "t_flags t AND TASK_NOSCHEDULE \<noteq> 0"
  shows "worker_back i p 0 w =
    Inr (Again, task_put p (t\<lparr>t_flags := t_flags t AND NOT TASK_NOSCHEDULE\<rparr>) (tls_set_task i None w))"
  using assms by (simp add: worker_back_def Let_def)

lemma back_ready:
  assumes rep: "world_rep w L Q" and p: "p \<notin> set Q" "heap w p = Some t"
    and flags: "t_flags t AND TASK_TERMINATED = 0" "t_flags t AND TASK_NOSCHEDULE = 0"
  shows "\<exists>w'. worker_back i p 0 w = Inr (Again, w') \<and> world_rep w' L (Q @ [p]) \<and>
    heap w' = heap w \<and> ints w' = ints w \<and> gathers w' = gathers w \<and>
    tls_key (tls_task w') = tls_key (tls_task w) \<and> tls_context w' = tls_context w"
proof -
  let ?w = "tls_set_task i None w"
  have "world_rep ?w L Q" "heap ?w p \<noteq> None" using rep p(2) by simp_all
  from schedule_idle_run [OF this p(1)] obtain q where
    "queue_push p (taskq ?w) = (0, q)" "world_rep (?w\<lparr>taskq := q\<rparr>) L (Q @ [p])" by blast
  with p(2) flags show ?thesis by (simp add: worker_back_def Let_def)
qed

lemma back_queued:
  assumes rep: "world_rep w L Q" and p: "p \<in> set Q" "heap w p = Some t"
    and flags: "t_flags t AND TASK_TERMINATED = 0" "t_flags t AND TASK_NOSCHEDULE = 0"
  shows "worker_back i p 0 w = Inr (Exit EINVAL, tls_set_task i None w)"
proof -
  let ?w = "tls_set_task i None w"
  have "queue_rep (taskq ?w) Q" using world_rep_queue [OF rep] by simp
  then have "queue_push p (taskq ?w) = (-1, taskq ?w)"
    using p(1) by (intro queue_push_reject) auto
  moreover have "?w\<lparr>taskq := taskq ?w\<rparr> = ?w" by simp
  ultimately show ?thesis using p(2) flags by (simp add: worker_back_def Let_def)
qed

section \<open>The front of the loop\<close>

lemma worker_iter_runs:
  assumes rep: "world_rep w L (p # Q)"
  obtains w1 where "world_rep w1 L Q" "heap w1 = heap w" "ints w1 = ints w" "gathers w1 = gathers w"
    "tls_context w1 = tls_context w" "tls_key (tls_task w1) = tls_key (tls_task w)"
    "tls_key (tls_task w) \<longrightarrow> pcaio_self i w1 = Some p"
    "worker_iter cw run i w = worker_switch i p (run i p w1)"
proof -
  from world_rep_pop [OF rep, of cw QWAIT] obtain q where
    q: "queue_pop cw QWAIT (taskq w) = Some (0, Some p, q)" "world_rep (w\<lparr>taskq := q\<rparr>) L Q" by blast
  let ?w = "tls_set_task i (Some p) (w\<lparr>taskq := q\<rparr>)"
  have "world_rep ?w L Q" using q(2) by simp
  then show thesis by (rule that) (simp_all add: worker_iter_def q(1))
qed

section \<open>Clean-up\<close>

lemma cleanup_self: "pcaio_self j (worker_cleanup w) = None"
  by (simp add: pcaio_self_def worker_cleanup_def)

lemma cleanup_relax: "pcaio_relaxA j rc k f (worker_cleanup w) = Inr (Returned (-1), worker_cleanup w)"
  using cleanup_self [of j w] by (intro relaxA_no_task) (simp add: pcaio_self_def)

section \<open>Properties\<close>

text \<open>When a task gives its worker back, the worker frees it if it has
  terminated, leaves it out of the queue (and takes the mark off) if it is held, and otherwise
  queues it behind all others; the task list and the queue stay well formed and the worker goes
  on.\<close>

theorem worker_back_spec:
  assumes "world_rep w L Q" "p \<notin> set Q" "heap w p = Some t"
  shows "\<exists>w'. worker_back i p 0 w = Inr (Again, w') \<and>
    (if t_flags t AND TASK_TERMINATED \<noteq> 0 then world_rep w' (remove1 p L) Q \<and> heap w' p = None
     else if t_flags t AND TASK_NOSCHEDULE \<noteq> 0 then world_rep w' L Q \<and>
       heap w' p = Some (t\<lparr>t_flags := t_flags t AND NOT TASK_NOSCHEDULE\<rparr>)
     else world_rep w' L (Q @ [p]) \<and> heap w' p = Some t)"
proof -
  have held: "world_rep (task_put p x (tls_set_task i None w)) L Q" for x
    using assms by (simp add: world_rep_put)
  consider "t_flags t AND TASK_TERMINATED \<noteq> 0"
    | "t_flags t AND TASK_TERMINATED = 0" "t_flags t AND TASK_NOSCHEDULE \<noteq> 0"
    | "t_flags t AND TASK_TERMINATED = 0" "t_flags t AND TASK_NOSCHEDULE = 0" by blast
  then show ?thesis
  proof cases
    case 1 then show ?thesis using back_terminated [OF assms 1, of i] by auto
  next
    case 2 then show ?thesis using back_held [OF assms(3) 2, of i] held by auto
  next
    case 3 then show ?thesis using back_ready [OF assms 3, of i] assms(3) by auto
  qed
qed

theorem worker_back_spec_witness:
  "\<exists>w w'. world_rep (w :: unit world) [64, 128, 192] [] \<and> worker_back 3 64 0 w = Inr (Again, w')"
proof -
  from sample_gang obtain w :: "unit world" where w: "world_rep w [64, 128, 192] []" by blast
  from world_rep_members [OF w, of 64] obtain t where "heap w 64 = Some t" by auto
  from worker_back_spec [OF w _ this, of 3] w show ?thesis by auto
qed

text \<open>A task that is in the queue when it yields (it scheduled itself, or somebody
  scheduled it while it ran) ends its worker with \<open>EINVAL\<close>; the worker's clean-up then
  deletes the storage keys of all threads, so that on every other thread the current task is
  lost and \<open>pcaio_relaxA\<close> fails.\<close>

theorem worker_panic_spec:
  assumes "world_rep w L Q" "p \<in> set Q" "heap w p = Some t" "t_flags t = 0"
  shows "\<exists>w'. worker_back i p 0 w = Inr (Exit EINVAL, w') \<and>
    (\<forall>j. pcaio_self j (worker_cleanup w') = None \<and>
      pcaio_relaxA j 0 k f (worker_cleanup w') = Inr (Returned (-1), worker_cleanup w'))"
  using back_queued [OF assms(1-3), of i] assms(4) cleanup_self cleanup_relax by auto

theorem worker_panic_spec_witness:
  "\<exists>w w1 w2. pcaio_schedule (Some 64) (w :: unit world) = (0, w1) \<and>
    worker_back 3 64 0 w1 = Inr (Exit EINVAL, w2) \<and> pcaio_self 4 (worker_cleanup w2) = None"
proof -
  from sample_task [of None] obtain w t where
    w: "world_rep (w :: unit world) [64] []" "heap w 64 = Some t" "t_flags t = 0" by fastforce
  obtain q where q: "pcaio_schedule (Some 64) w = (0, w\<lparr>taskq := q\<rparr>)"
    "world_rep (w\<lparr>taskq := q\<rparr>) [64] ([] @ [64])"
    by (rule schedule_idle_run [OF w(1), of 64]) (use w(2) in auto)
  have t: "heap (w\<lparr>taskq := q\<rparr>) 64 = Some t" using w(2) by simp
  from worker_panic_spec [OF q(2) _ t w(3), of 3] obtain w2 where
    "worker_back 3 64 0 (w\<lparr>taskq := q\<rparr>) = Inr (Exit EINVAL, w2)" "pcaio_self 4 (worker_cleanup w2) = None"
    by auto
  with q(1) show ?thesis by blast
qed

end
