(* ===== verification/Simulation.thy ===== *)
theory Simulation
  imports Prelude
begin

text \<open>
  Contracts between a detailed and an abstract system that both make deterministic steps: a
  simulation, and one whose abstract runs end. \<open>Rounds\<close> interprets them for the worker
  against a round-robin scheduler.
\<close>

fun iterate :: "('s \<Rightarrow> 's option) \<Rightarrow> nat \<Rightarrow> 's \<Rightarrow> 's option" where
  "iterate f 0 s = Some s"
| "iterate f (Suc n) s = (case f s of None \<Rightarrow> None | Some s \<Rightarrow> iterate f n s)"

lemma iterate_add:
  "iterate f (m + n) s = (case iterate f m s of None \<Rightarrow> None | Some s \<Rightarrow> iterate f n s)"
  by (induction m arbitrary: s) (simp_all split: option.splits)

locale simulation =
  fixes match :: "'c \<Rightarrow> 'a \<Rightarrow> bool"
    and cstep :: "'c \<Rightarrow> 'c option"
    and astep :: "'a \<Rightarrow> 'a option"
  assumes step_law: "match c a \<Longrightarrow> astep a = Some a' \<Longrightarrow> \<exists>c'. cstep c = Some c' \<and> match c' a'"
begin

lemma run_law:
  "match c a \<Longrightarrow> iterate astep n a = Some a' \<Longrightarrow> \<exists>c'. iterate cstep n c = Some c' \<and> match c' a'"
proof (induction n arbitrary: c a)
  case 0
  then show ?case by simp
next
  case (Suc n)
  from Suc.prems(2) obtain a1 where a1: "astep a = Some a1" "iterate astep n a1 = Some a'"
    by (auto split: option.splits)
  from step_law [OF Suc.prems(1) a1(1)] obtain c1 where c1: "cstep c = Some c1" "match c1 a1" by blast
  from Suc.IH [OF c1(2) a1(2)] c1(1) show ?case by simp
qed

end

text \<open>\<open>ends n a\<close> bounds the steps left, \<open>n\<close>.\<close>

locale ending_simulation = simulation match cstep astep
  for match :: "'c \<Rightarrow> 'a \<Rightarrow> bool" and cstep astep +
  fixes ends :: "nat \<Rightarrow> 'a \<Rightarrow> bool"
    and final :: "'a \<Rightarrow> bool"
  assumes progress: "ends n a \<Longrightarrow> \<not> final a \<Longrightarrow> \<exists>a' m. astep a = Some a' \<and> ends m a' \<and> m < n"
begin

lemma abstract_ends: "ends n a \<Longrightarrow> \<exists>k a' m. k \<le> n \<and> iterate astep k a = Some a' \<and> ends m a' \<and> final a'"
proof (induction n arbitrary: a rule: less_induct)
  case (less n)
  show ?case
  proof (cases "final a")
    case True
    with less.prems show ?thesis by (intro exI [of _ 0]) auto
  next
    case False
    from progress [OF less.prems False] obtain a1 m where
      a1: "astep a = Some a1" "ends m a1" "m < n" by blast
    from less.IH [OF a1(3,2)] obtain k a' m' where
      "k \<le> m" "iterate astep k a1 = Some a'" "ends m' a'" "final a'" by blast
    with a1(1,3) show ?thesis by (intro exI [of _ "Suc k"]) auto
  qed
qed

lemma concrete_ends:
  assumes "match c a" "ends n a"
  shows "\<exists>k c' a' m. k \<le> n \<and> iterate cstep k c = Some c' \<and> match c' a' \<and> ends m a' \<and> final a'"
proof -
  from abstract_ends [OF assms(2)] obtain k a' m where
    a': "k \<le> n" "iterate astep k a = Some a'" "ends m a'" "final a'" by blast
  from run_law [OF assms(1) a'(2)] a' show ?thesis by blast
qed

end

end
