(* ===== verification/Rounds.thy ===== *)
theory Rounds
  imports Worker Simulation
begin

text \<open>
  What one worker makes of tasks that compute, yield with \<open>pcaio_relaxA(0)\<close> and return: a
  round-robin scheduler. The abstract system is a list of jobs (task, status pointer, rest of
  its function) and the memory the status pointers point into; the worker's loop over the
  intrusive queue, the task list and the saved contexts simulates it step by step.
\<close>

section \<open>The abstract scheduler\<close>

type_synonym 'u job = "addr \<times> addr option \<times> 'u"

fun rr_step :: "('u \<Rightarrow> 'u uop) \<Rightarrow> 'u job list \<times> (addr \<Rightarrow> c_int) \<Rightarrow> ('u job list \<times> (addr \<Rightarrow> c_int)) option" where
  "rr_step prog ([], m) = None"
| "rr_step prog ((p, s, u) # js, m) =
    (case prog u of
       Return e \<Rightarrow> Some (js, case s of None \<Rightarrow> m | Some a \<Rightarrow> m(a := e))
     | Relax f k \<Rightarrow> if f = 0 then Some (js @ [(p, s, k 0)], m) else None
     | _ \<Rightarrow> None)"

inductive finishes :: "('u \<Rightarrow> 'u uop) \<Rightarrow> 'u \<Rightarrow> nat \<Rightarrow> c_int \<Rightarrow> bool" for prog where
  now: "prog u = Return e \<Longrightarrow> finishes prog u 0 e"
| later: "prog u = Relax 0 k \<Longrightarrow> finishes prog (k 0) n e \<Longrightarrow> finishes prog u (Suc n) e"

inductive_cases finishes_cases: "finishes prog u n e"

definition statuses :: "'u job list \<Rightarrow> addr set" where
  "statuses js = {a. \<exists>p u. (p, Some a, u) \<in> set js}"

text \<open>Every job returns, the jobs' exit values are those of \<open>R\<close>, and \<open>R\<close> is the memory
  once the remaining statuses are written; \<open>n\<close> bounds the steps left.\<close>

definition rr_ends :: "('u \<Rightarrow> 'u uop) \<Rightarrow> (addr \<Rightarrow> c_int) \<Rightarrow> nat \<Rightarrow> 'u job list \<times> (addr \<Rightarrow> c_int) \<Rightarrow> bool" where
  "rr_ends prog R n a \<longleftrightarrow>
     (\<exists>ns. list_all2 (\<lambda>(p, s, u) k. \<exists>e. finishes prog u k e \<and> (\<forall>x. s = Some x \<longrightarrow> R x = e)) (fst a) ns \<and>
       n = sum_list (map Suc ns)) \<and>
     (\<forall>x. x \<notin> statuses (fst a) \<longrightarrow> snd a x = R x)"

lemma statuses_Cons:
  "statuses ((p, s, u) # js) = (case s of None \<Rightarrow> {} | Some a \<Rightarrow> {a}) \<union> statuses js"
  by (auto simp: statuses_def split: option.splits)

lemma statuses_snoc: "statuses (js @ [(p, s, u)]) = statuses ((p, s, v) # js)"
  by (auto simp: statuses_def)

lemma rr_progress:
  assumes ends: "rr_ends prog R n a" and more: "fst a \<noteq> []"
  shows "\<exists>a' m. rr_step prog a = Some a' \<and> rr_ends prog R m a' \<and> m < n"
proof -
  obtain p s u js m where a: "a = ((p, s, u) # js, m)"
    using more by (metis (no_types) list.exhaust prod_cases3 surj_pair fst_conv)
  from ends obtain k ns e where
    ns: "finishes prog u k e" "\<forall>x. s = Some x \<longrightarrow> R x = e" "n = Suc k + sum_list (map Suc ns)"
      "list_all2 (\<lambda>(p, s, u) k. \<exists>e. finishes prog u k e \<and> (\<forall>x. s = Some x \<longrightarrow> R x = e)) js ns"
    by (auto simp: rr_ends_def a list_all2_Cons1)
  have mem: "\<forall>x. x \<notin> statuses ((p, s, u) # js) \<longrightarrow> m x = R x" using ends by (simp add: rr_ends_def a)
  from ns(1) show ?thesis
  proof (cases rule: finishes.cases)
    case now
    let ?m = "case s of None \<Rightarrow> m | Some x \<Rightarrow> m(x := e)"
    have "\<forall>x. x \<notin> statuses js \<longrightarrow> ?m x = R x"
      using mem ns(2) by (auto simp: statuses_Cons split: option.splits)
    then have "rr_ends prog R (sum_list (map Suc ns)) (js, ?m)" using ns(4) by (auto simp: rr_ends_def)
    moreover have "rr_step prog a = Some (js, ?m)" using now by (simp add: a)
    ultimately show ?thesis using ns(3) by (intro exI [of _ "(js, ?m)"]) auto
  next
    case (later c l)
    have "list_all2 (\<lambda>(p, s, u) k. \<exists>e. finishes prog u k e \<and> (\<forall>x. s = Some x \<longrightarrow> R x = e))
        (js @ [(p, s, c 0)]) (ns @ [l])"
      using ns(2,4) later by (auto intro!: list_all2_appendI)
    moreover have "\<forall>x. x \<notin> statuses (js @ [(p, s, c 0)]) \<longrightarrow> m x = R x"
      using mem by (simp add: statuses_snoc [of _ _ _ _ u])
    ultimately have "rr_ends prog R (sum_list (map Suc (ns @ [l]))) (js @ [(p, s, c 0)], m)"
      unfolding rr_ends_def by auto
    moreover have "rr_step prog a = Some (js @ [(p, s, c 0)], m)" using later by (simp add: a)
    ultimately show ?thesis using ns(3) later by (intro exI [of _ "(js @ [(p, s, c 0)], m)"]) auto
  qed
qed

section \<open>Correspondence\<close>

text \<open>A job is a queued task without hooks whose context, new or saved, continues with
  \<open>u\<close>.\<close>

fun job_rep :: "(addr option \<Rightarrow> addr list \<Rightarrow> 'u) \<Rightarrow> ('u frame, 'z) world_scheme \<Rightarrow> 'u job \<Rightarrow> bool" where
  "job_rep start w (p, s, u) \<longleftrightarrow>
     (\<exists>t. heap w p = Some t \<and> t_flags t = 0 \<and> t_status t = s \<and> t_terminated t = None \<and>
       t_callback t = None \<and>
       (t_context t = Saved (Relaxed u) \<or>
        (\<exists>args. t_context t = Entry (task_hi p) (task_lo p) \<and> taskmain_args t = Some args \<and>
          start (t_func t) args = u)))"

definition system_rep ::
  "(addr option \<Rightarrow> addr list \<Rightarrow> 'u) \<Rightarrow> tid \<Rightarrow> ('u frame, 'z) world_scheme
   \<Rightarrow> 'u job list \<times> (addr \<Rightarrow> c_int) \<Rightarrow> bool" where
  "system_rep start i w a \<longleftrightarrow>
     (\<exists>L. world_rep w L (map fst (fst a)) \<and> set L = fst ` set (fst a)) \<and>
     (\<forall>j \<in> set (fst a). job_rep start w j) \<and> ints w = snd a \<and>
     tls_key (tls_task w) \<and> threadlocal_get i (tls_context w) = Some i"

definition worker_step ::
  "(addr queue \<Rightarrow> int \<times> addr queue) \<Rightarrow> ('u \<Rightarrow> 'u uop) \<Rightarrow> (addr option \<Rightarrow> addr list \<Rightarrow> 'u)
   \<Rightarrow> ('u, 'z) userland
   \<Rightarrow> tid \<Rightarrow> ('u frame, 'z) world_scheme \<Rightarrow> ('u frame, 'z) world_scheme option" where
  "worker_step cw prog start cb i w =
    (case worker_iter cw (task_run prog start cb) i w of
       Some (Inr (Again, w')) \<Rightarrow> Some w'
     | _ \<Rightarrow> None)"

text \<open>The loop of \<open>worker\<close> is the iteration of this step.\<close>

lemma worker_loop_iterate:
  "iterate (worker_step cw prog start cb i) n w = Some w' \<Longrightarrow>
    worker_loop cw (task_run prog start cb) i w = worker_loop cw (task_run prog start cb) i w'"
proof (induction n arbitrary: w)
  case 0
  then show ?case by simp
next
  case (Suc n)
  then obtain w1 where w1: "worker_step cw prog start cb i w = Some w1"
    "iterate (worker_step cw prog start cb i) n w1 = Some w'" by (auto split: option.splits)
  then have "worker_iter cw (task_run prog start cb) i w = Some (Inr (Again, w1))"
    by (auto simp: worker_step_def split: option.splits sum.splits prod.splits wstat.splits)
  then have "worker_loop cw (task_run prog start cb) i w = worker_loop cw (task_run prog start cb) i w1"
    by (subst worker_loop.simps) simp
  with Suc.IH [OF w1(2)] show ?case by simp
qed

section \<open>One step\<close>

lemma job_rep_heap:
  assumes "job_rep start w (p, s, u)" "heap w' p = heap w p" shows "job_rep start w' (p, s, u)"
  using assms by simp

text \<open>A queued job is picked up where it stands; nothing but \<open>errno\<close> is touched.\<close>

lemma task_run_job:
  assumes "job_rep start w (p, s, u)"
  shows "\<exists>er. task_run prog start cb i p w = exec prog cb i p u (w\<lparr>errno := er\<rparr>)"
proof -
  from assms obtain t where t: "heap w p = Some t" and ctx:
    "t_context t = Saved (Relaxed u) \<or> (\<exists>args. t_context t = Entry (task_hi p) (task_lo p) \<and>
      taskmain_args t = Some args \<and> start (t_func t) args = u)" by auto
  from ctx show ?thesis
  proof
    assume "t_context t = Saved (Relaxed u)"
    with t have "task_run prog start cb i p w = exec prog cb i p u (w\<lparr>errno := 0\<rparr>)"
      by (simp add: task_run_def pcaio_relaxA_resumed_def)
    then show ?thesis by blast
  next
    assume "\<exists>args. t_context t = Entry (task_hi p) (task_lo p) \<and>
      taskmain_args t = Some args \<and> start (t_func t) args = u"
    with t have "task_run prog start cb i p w = exec prog cb i p u (w\<lparr>errno := errno w\<rparr>)"
      by (auto simp: task_run_def Let_def task_ptr_split)
    then show ?thesis by blast
  qed
qed

lemma exec_relax:
  assumes "prog u = Relax 0 k" "pcaio_self i w = Some p" "threadlocal_get i (tls_context w) = Some c"
    and "heap w p = Some t"
  shows "exec prog cb i p u w =
    Some (Inr (Some 0, task_put p (t\<lparr>t_context := Saved (Relaxed (k 0))\<rparr>) w))"
proof -
  have "pcaio_relaxA i 0 (Relaxed (k 0)) 0 w =
      Inr (Switched c, task_put p (t\<lparr>t_flags := t_flags t OR 0, t_context := Saved (Relaxed (k 0))\<rparr>) w)"
    using assms(2-4) by (intro relaxA_switch) (simp_all add: pcaio_self_def)
  with assms(1) show ?thesis by (simp add: exec.simps)
qed

lemma exec_return:
  assumes "prog u = Return e" "threadlocal_get i (tls_context w) = Some c" "heap w p = Some t"
    and "t_terminated t = None" "t_callback t = None"
  shows "exec prog cb i p u w = Some (Inr (Some 0,
    (case t_status t of None \<Rightarrow> id | Some a \<Rightarrow> ints_update (\<lambda>m. m(a := e)))
      (task_put p (t\<lparr>t_flags := t_flags t OR TASK_TERMINATED\<rparr>) w)))"
  using assms by (simp add: exec.simps taskmain_finish_plain)

lemma terminated_flag: "(0 OR TASK_TERMINATED) AND TASK_TERMINATED \<noteq> 0"
  by (simp add: task_flags)

lemma set_remove1_fst:
  "distinct (p # map fst js) \<Longrightarrow> set L = insert p (fst ` set js) \<Longrightarrow> distinct L \<Longrightarrow>
    set (remove1 p L) = fst ` set js"
  by auto

text \<open>The front of a round: the first job is taken off the queue and continued.\<close>

lemma system_pickup:
  assumes sys: "system_rep start i w ((p, s, u) # js, m)"
  obtains L w2 t where "world_rep w2 L (map fst js)" "distinct L" "set L = insert p (fst ` set js)"
    "p \<notin> fst ` set js" "heap w2 = heap w" "ints w2 = m" "tls_key (tls_task w2)"
    "threadlocal_get i (tls_context w2) = Some i" "pcaio_self i w2 = Some p"
    "heap w p = Some t" "t_flags t = 0" "t_status t = s" "t_terminated t = None" "t_callback t = None"
    "worker_iter cw (task_run prog start cb) i w = worker_switch i p (exec prog cb i p u w2)"
proof -
  from sys obtain L where L: "world_rep w L (p # map fst js)" "set L = insert p (fst ` set js)"
    by (auto simp: system_rep_def)
  from sys have job: "job_rep start w (p, s, u)"
    and env: "ints w = m" "tls_key (tls_task w)" "threadlocal_get i (tls_context w) = Some i"
    by (simp_all add: system_rep_def)
  have dist: "p \<notin> fst ` set js" using world_rep_queue [OF L(1)] by simp
  have distL: "distinct L" using L(1) by (simp add: world_rep_def rep_defs)
  obtain w1 where w1: "world_rep w1 L (map fst js)" "heap w1 = heap w" "ints w1 = ints w"
    "tls_context w1 = tls_context w" "tls_key (tls_task w1) = tls_key (tls_task w)"
    "tls_key (tls_task w) \<longrightarrow> pcaio_self i w1 = Some p" and
    iter: "worker_iter cw (task_run prog start cb) i w = worker_switch i p (task_run prog start cb i p w1)"
    by (rule worker_iter_runs [OF L(1), of i cw "task_run prog start cb"]) (rule that)
  have job1: "job_rep start w1 (p, s, u)" using job w1(2) by simp
  from task_run_job [OF job1, of prog cb i] obtain er where
    run: "task_run prog start cb i p w1 = exec prog cb i p u (w1\<lparr>errno := er\<rparr>)" by blast
  let ?w2 = "w1\<lparr>errno := er\<rparr>"
  have rep2: "world_rep ?w2 L (map fst js)" using w1(1) world_rep_cong [of ?w2 w1] by simp
  from job obtain t where t: "heap w p = Some t" "t_flags t = 0" "t_status t = s"
    "t_terminated t = None" "t_callback t = None" by auto
  show thesis
    by (rule that [OF rep2 distL L(2) dist _ _ _ _ _ t])
      (use w1 env iter run in \<open>simp_all add: pcaio_self_def\<close>)
qed

lemma job_rep_others:
  assumes "\<forall>j \<in> set js. job_rep start w j" "p \<notin> fst ` set js" "\<forall>q. q \<noteq> p \<longrightarrow> heap w' q = heap w q"
  shows "\<forall>j \<in> set js. job_rep start w' j"
proof
  fix j assume j: "j \<in> set js"
  obtain q r v where tup: "j = (q, r, v)" by (cases j)
  with j assms(2) have "q \<noteq> p" by force
  with assms(3) have same: "heap w' q = heap w q" by blast
  have "job_rep start w (q, r, v)" using assms(1) j unfolding tup by (rule bspec)
  then show "job_rep start w' j" unfolding tup by (rule job_rep_heap) (rule same)
qed

lemma step_relax:
  assumes sys: "system_rep start i w ((p, s, u) # js, m)" and prog: "prog u = Relax 0 k"
  shows "\<exists>w'. worker_step cw prog start cb i w = Some w' \<and>
    system_rep start i w' (js @ [(p, s, k 0)], m)"
proof -
  obtain L w2 t where w2: "world_rep w2 L (map fst js)" "distinct L" "set L = insert p (fst ` set js)"
    "p \<notin> fst ` set js" "heap w2 = heap w" "ints w2 = m" "tls_key (tls_task w2)"
    "threadlocal_get i (tls_context w2) = Some i" "pcaio_self i w2 = Some p" and
    t: "heap w p = Some t" "t_flags t = 0" "t_status t = s" "t_terminated t = None" "t_callback t = None" and
    iter: "worker_iter cw (task_run prog start cb) i w = worker_switch i p (exec prog cb i p u w2)"
    by (rule system_pickup [OF sys, of cw prog cb]) (rule that)
  let ?t = "t\<lparr>t_context := Saved (Relaxed (k 0))\<rparr>"
  let ?w3 = "task_put p ?t w2"
  have exec: "exec prog cb i p u w2 = Some (Inr (Some 0, ?w3))"
    using w2(5) t(1) by (intro exec_relax [of prog u k i w2 p i t cb] prog w2(9,8)) simp
  have rep3: "world_rep ?w3 L (map fst js)" using w2(1,5) t(1) by (simp add: world_rep_put)
  have p3: "p \<notin> set (map fst js)" "heap ?w3 p = Some ?t" using w2(4) by simp_all
  from back_ready [OF rep3 p3, of i] t(2) obtain w4 where
    w4: "worker_back i p 0 ?w3 = Inr (Again, w4)" "world_rep w4 L (map fst js @ [p])"
      "heap w4 = heap ?w3" "ints w4 = ints ?w3" "tls_key (tls_task w4) = tls_key (tls_task ?w3)"
      "tls_context w4 = tls_context ?w3"
    by auto
  have "worker_step cw prog start cb i w = Some w4"
    by (simp add: worker_step_def worker_switch_def iter exec w4(1))
  moreover have "\<forall>j \<in> set js. job_rep start w4 j"
    using sys w2(4,5) w4(3) by (intro job_rep_others [of js start w p w4]) (auto simp: system_rep_def)
  moreover have "job_rep start w4 (p, s, k 0)" using t w4(3) by simp
  ultimately show ?thesis
    using w4 w2(3,6-8) unfolding system_rep_def
    by (intro exI [of _ w4]) (auto intro!: exI [of _ L])
qed

lemma step_return:
  assumes sys: "system_rep start i w ((p, s, u) # js, m)" and prog: "prog u = Return e"
  shows "\<exists>w'. worker_step cw prog start cb i w = Some w' \<and>
    system_rep start i w' (js, case s of None \<Rightarrow> m | Some a \<Rightarrow> m(a := e))"
proof -
  obtain L w2 t where w2: "world_rep w2 L (map fst js)" "distinct L" "set L = insert p (fst ` set js)"
    "p \<notin> fst ` set js" "heap w2 = heap w" "ints w2 = m" "tls_key (tls_task w2)"
    "threadlocal_get i (tls_context w2) = Some i" "pcaio_self i w2 = Some p" and
    t: "heap w p = Some t" "t_flags t = 0" "t_status t = s" "t_terminated t = None" "t_callback t = None" and
    iter: "worker_iter cw (task_run prog start cb) i w = worker_switch i p (exec prog cb i p u w2)"
    by (rule system_pickup [OF sys, of cw prog cb]) (rule that)
  let ?t = "t\<lparr>t_flags := t_flags t OR TASK_TERMINATED\<rparr>"
  let ?w3 = "(case s of None \<Rightarrow> id | Some a \<Rightarrow> ints_update (\<lambda>m. m(a := e))) (task_put p ?t w2)"
  have "heap w2 p = Some t" using w2(5) t(1) by simp
  from exec_return [of prog u e i w2 i p t cb, OF prog w2(8) this t(4,5)]
  have exec: "exec prog cb i p u w2 = Some (Inr (Some 0, ?w3))" by (simp add: t(3))
  have same: "heap ?w3 = (heap w)(p := Some ?t)" "tasks ?w3 = tasks (task_put p ?t w2)"
    "taskq ?w3 = taskq (task_put p ?t w2)" "tls_key (tls_task ?w3)" "tls_context ?w3 = tls_context w2"
    "ints ?w3 = (case s of None \<Rightarrow> m | Some a \<Rightarrow> m(a := e))"
    using w2(5-7) by (simp_all split: option.splits)
  have "world_rep (task_put p ?t w2) L (map fst js)" using w2(1,5) t(1) by (simp add: world_rep_put)
  moreover have "heap ?w3 = heap (task_put p ?t w2)" using same(1) w2(5) by simp
  ultimately have rep3: "world_rep ?w3 L (map fst js)"
    using world_rep_cong [of ?w3 "task_put p ?t w2"] same(2,3) by blast
  have p3: "p \<notin> set (map fst js)" "heap ?w3 p = Some ?t" using w2(4) same(1) by simp_all
  have flag: "t_flags ?t AND TASK_TERMINATED \<noteq> 0" using terminated_flag t(2) by simp
  from back_terminated [OF rep3 p3 flag, of i] obtain w4 where
    w4: "worker_back i p 0 ?w3 = Inr (Again, w4)" "world_rep w4 (remove1 p L) (map fst js)"
      "heap w4 = (heap ?w3)(p := None)" "ints w4 = ints ?w3"
      "tls_key (tls_task w4) = tls_key (tls_task ?w3)" "tls_context w4 = tls_context ?w3"
    by auto
  have "worker_step cw prog start cb i w = Some w4"
    by (simp add: worker_step_def worker_switch_def iter exec w4(1))
  moreover have "\<forall>j \<in> set js. job_rep start w4 j"
    using sys w2(4) w4(3) same(1) by (intro job_rep_others [of js start w p w4]) (auto simp: system_rep_def)
  moreover have "set (remove1 p L) = fst ` set js" using w2(2-4) by auto
  ultimately show ?thesis
    using w4 same(4-6) w2(8) unfolding system_rep_def
    by (intro exI [of _ w4]) (auto intro!: exI [of _ "remove1 p L"])
qed

interpretation rounds: ending_simulation "system_rep start i" "worker_step cw prog start cb i"
    "rr_step prog" "rr_ends prog R" "\<lambda>a. fst a = []"
  for start i cw prog cb R
proof unfold_locales
  fix w :: "('a frame, 'b) world_scheme" and a a'
  assume sys: "system_rep start i w a" and step: "rr_step prog a = Some a'"
  obtain p s u js m where a: "a = ((p, s, u) # js, m)"
    using step by (cases "(prog, a)" rule: rr_step.cases) auto
  from step show "\<exists>w'. worker_step cw prog start cb i w = Some w' \<and> system_rep start i w' a'"
    unfolding a
    using step_relax [OF sys [unfolded a]] step_return [OF sys [unfolded a]]
    by (auto split: uop.splits if_splits)
next
  fix n a
  assume "rr_ends prog R n a" "fst a \<noteq> []"
  then show "\<exists>a' m. rr_step prog a = Some a' \<and> rr_ends prog R m a' \<and> m < n" by (rule rr_progress)
qed

section \<open>Rounds\<close>

lemma rr_ends_jobs:
  assumes "\<forall>(p, s, u) \<in> set js. \<exists>k e. finishes prog u k e \<and> (\<forall>x. s = Some x \<longrightarrow> R x = e)"
    and "\<forall>x. x \<notin> statuses js \<longrightarrow> m x = R x"
  shows "\<exists>n. rr_ends prog R n (js, m)"
proof -
  let ?P = "\<lambda>(p, s, u) k. \<exists>e. finishes prog u k e \<and> (\<forall>x. s = Some x \<longrightarrow> R x = e)"
  from assms(1) have "\<exists>ns. list_all2 ?P js ns"
  proof (induction js)
    case Nil
    then show ?case by (intro exI [of _ "[]"]) simp
  next
    case (Cons j js)
    then obtain ns where "list_all2 ?P js ns" by auto
    moreover obtain k where "?P j k" using Cons.prems by auto
    ultimately show ?case by (intro exI [of _ "k # ns"]) simp
  qed
  then obtain ns where ns: "list_all2 ?P js ns" by blast
  have "rr_ends prog R (sum_list (map Suc ns)) (js, m)"
    unfolding rr_ends_def fst_conv snd_conv using ns assms(2) by blast
  then show ?thesis by blast
qed

text \<open>What is left of a job after one step of it.\<close>

definition job_after :: "('u \<Rightarrow> 'u uop) \<Rightarrow> 'u job \<Rightarrow> 'u job list" where
  "job_after prog j = (case j of (p, s, u) \<Rightarrow> (case prog u of Relax f k \<Rightarrow> [(p, s, k 0)] | _ \<Rightarrow> []))"

definition short_job :: "('u \<Rightarrow> 'u uop) \<Rightarrow> 'u job \<Rightarrow> bool" where
  "short_job prog j \<longleftrightarrow> (case prog (snd (snd j)) of Return e \<Rightarrow> True | Relax f k \<Rightarrow> f = 0 | _ \<Rightarrow> False)"

lemma rr_revolution:
  "\<forall>j \<in> set js. short_job prog j \<Longrightarrow>
    \<exists>m'. iterate (rr_step prog) (length js) (js @ done, m) = Some (done @ concat (map (job_after prog) js), m')"
proof (induction js arbitrary: "done" m)
  case Nil
  then show ?case by simp
next
  case (Cons j js)
  obtain p s u where j: "j = (p, s, u)" by (cases j)
  from Cons.prems have "short_job prog j" and rest: "\<forall>j \<in> set js. short_job prog j" by simp_all
  then obtain m1 where step: "rr_step prog (j # js @ done, m) = Some (js @ done @ job_after prog j, m1)"
    by (cases "prog u") (auto simp: short_job_def job_after_def j)
  from Cons.IH [OF rest, of "done @ job_after prog j" m1] step show ?case by simp
qed

section \<open>A sample system\<close>

text \<open>Two tasks: one yields once and returns 5 (into address 32), the other returns at
  once.\<close>

definition prog2 :: "nat \<Rightarrow> nat uop" where
  "prog2 u = (if u = 0 then Return 5 else Relax 0 (\<lambda>_. u - 1))"

definition start2 :: "addr option \<Rightarrow> addr list \<Rightarrow> nat" where
  "start2 f args = (if f = Some 7 then 1 else 0)"

lemma sample_created:
  "\<exists>w :: nat frame world. world_rep w [64, 128] [] \<and> job_rep start2 w (64, Some 32, 1) \<and> job_rep start2 w (128, None, 0)"
proof -
  have new1: "heap (world0 :: nat frame world) 64 = None" by simp
  obtain w1 t1 where w1: "world_rep (w1 :: nat frame world) [64] []" "heap w1 = (heap world0)(64 := Some t1)"
    and t1: "t_flags t1 = 0" "t_status t1 = Some 32" "t_terminated t1 = None" "t_callback t1 = None"
      "t_context t1 = Entry (task_hi 64) (task_lo 64)" "t_func t1 = Some 7" "t_argc t1 = 0" "t_argv t1 = []"
    using task_new_success [OF world0_rep _ new1, of 0 "[]" 256 7 "Some 32"] by fastforce
  have new2: "heap w1 128 = None" using w1(2) by simp
  obtain w2 t2 where w2: "world_rep (w2 :: nat frame world) [64, 128] []" "heap w2 = (heap w1)(128 := Some t2)"
    and t2: "t_flags t2 = 0" "t_status t2 = None" "t_terminated t2 = None" "t_callback t2 = None"
      "t_context t2 = Entry (task_hi 128) (task_lo 128)" "t_func t2 = Some 9" "t_argc t2 = 0" "t_argv t2 = []"
    using task_new_success [OF w1(1) _ new2, of 0 "[]" 512 9 None] by fastforce
  have "job_rep start2 w2 (64, Some 32, 1)" "job_rep start2 w2 (128, None, 0)"
    using w1(2) w2(2) t1 t2 by (simp_all add: taskmain_args_def start2_def)
  with w2(1) show ?thesis by blast
qed

lemma sample_system:
  "\<exists>w :: nat frame world. system_rep start2 3 w ([(64, Some 32, 1), (128, None, 0)], ints w)"
proof -
  from sample_created obtain w2 :: "nat frame world" where
    w2: "world_rep w2 [64, 128] []" "job_rep start2 w2 (64, Some 32, 1)" "job_rep start2 w2 (128, None, 0)" by blast
  from w2(2,3) have h: "heap w2 64 \<noteq> None" "heap w2 128 \<noteq> None" by auto
  obtain q where q: "world_rep (w2\<lparr>taskq := q\<rparr>) [64, 128] ([] @ [64])"
    by (rule schedule_idle_run [OF w2(1) h(1)]) simp
  have h2: "heap (w2\<lparr>taskq := q\<rparr>) 128 \<noteq> None" using h(2) by simp
  obtain q2 where q2: "world_rep (w2\<lparr>taskq := q, taskq := q2\<rparr>) [64, 128] (([] @ [64]) @ [128])"
    by (rule schedule_idle_run [OF q h2]) simp_all
  let ?w = "w2\<lparr>taskq := q2, tls_task := \<lparr>tls_key = True, tls_slot = (\<lambda>_. None)\<rparr>,
    tls_context := \<lparr>tls_key = True, tls_slot = (\<lambda>_. Some 3)\<rparr>\<rparr>"
  have rep: "world_rep ?w [64, 128] [64, 128]"
    using q2 world_rep_cong [of ?w "w2\<lparr>taskq := q2\<rparr>" "[64, 128]" "[64, 128]"] by simp
  have "job_rep start2 ?w (64, Some 32, 1)" "job_rep start2 ?w (128, None, 0)" using w2(2,3) by auto
  then have "system_rep start2 3 ?w ([(64, Some 32, 1), (128, None, 0)], ints ?w)"
    unfolding system_rep_def using rep
    by (auto simp: threadlocal_get_def intro!: exI [of _ "[64, 128]"])
  then show ?thesis by blast
qed

lemma finishes2: "finishes prog2 0 0 5" "finishes prog2 1 1 5"
proof -
  show a: "finishes prog2 0 0 5" by (rule finishes.now) (simp add: prog2_def)
  show "finishes prog2 1 1 5"
    using finishes.later [of prog2 1 "\<lambda>_. 0" 0 5] a by (simp add: prog2_def)
qed

section \<open>Properties\<close>

text \<open>One worker completes its tasks: whenever every queued task returns after
  finitely many yields, the worker reaches, after finitely many rounds, a state in which the
  queue and the task list are empty, every task is freed, and every status pointer holds the
  exit value of its task, with nothing else written.\<close>

theorem worker_completes_all:
  assumes "system_rep start i w (js, m)"
    and "\<forall>(p, s, u) \<in> set js. \<exists>k e. finishes prog u k e \<and> (\<forall>x. s = Some x \<longrightarrow> R x = e)"
    and "\<forall>x. x \<notin> statuses js \<longrightarrow> m x = R x"
  shows "\<exists>n w'. iterate (worker_step cw prog start cb i) n w = Some w' \<and>
    world_rep w' [] [] \<and> (\<forall>p. heap w' p = None) \<and> ints w' = R"
proof -
  from rr_ends_jobs [OF assms(2,3)] obtain n where ends: "rr_ends prog R n (js, m)" by blast
  from rounds.concrete_ends [OF assms(1) ends, of cw cb] obtain k w' a k' where
    run: "iterate (worker_step cw prog start cb i) k w = Some w'"
    and a: "system_rep start i w' a" "rr_ends prog R k' a" "fst a = []" by blast
  from a(1,3) have rep: "world_rep w' [] []" by (auto simp: system_rep_def)
  have none: "\<forall>p. heap w' p = None" using world_rep_members [OF rep] by simp
  have "\<forall>x. snd a x = R x" using a(2,3) by (simp add: rr_ends_def statuses_def)
  moreover have "ints w' = snd a" using a(1) by (simp add: system_rep_def)
  ultimately have "ints w' = R" by (simp add: fun_eq_iff)
  with run rep none show ?thesis by blast
qed

theorem worker_completes_all_witness:
  "\<exists>w n w'. iterate (worker_step (\<lambda>q. (0, q)) prog2 start2 no_calls 3) n (w :: nat frame world) = Some w' \<and>
    heap w 64 \<noteq> None \<and> world_rep w' [] [] \<and> ints w' 32 = 5"
proof -
  from sample_system obtain w :: "nat frame world" where
    w: "system_rep start2 3 w ([(64, Some 32, 1), (128, None, 0)], ints w)" by blast
  have "heap w 64 \<noteq> None" using w by (auto simp: system_rep_def)
  moreover have fin: "\<forall>(p, s, u) \<in> set [(64 :: addr, Some (32 :: addr), 1), (128, None, 0)].
      \<exists>k e. finishes prog2 u k e \<and> (\<forall>x. s = Some x \<longrightarrow> ((ints w)(32 := 5)) x = e)"
    using finishes2 by auto
  have "\<forall>x. x \<notin> statuses [(64 :: addr, Some (32 :: addr), 1 :: nat), (128, None, 0)] \<longrightarrow>
      ints w x = ((ints w)(32 := 5)) x" by (simp add: statuses_def)
  from worker_completes_all [OF w fin this, of "\<lambda>q. (0, q)" no_calls] obtain n w' where
    "iterate (worker_step (\<lambda>q. (0, q)) prog2 start2 no_calls 3) n w = Some w'" "world_rep w' [] []"
    "ints w' = (ints w)(32 := 5)" by blast
  ultimately show ?thesis by (intro exI [of _ w] exI [of _ n] exI [of _ w']) simp
qed

text \<open>Property C14. The worker is fair: in as many rounds as there are tasks in the queue,
  every one of them runs exactly once; those that have yielded are queued again, in the order
  they had.\<close>

theorem worker_fair:
  assumes "system_rep start i w (js, m)" "\<forall>j \<in> set js. short_job prog j"
  shows "\<exists>w' m'. iterate (worker_step cw prog start cb i) (length js) w = Some w' \<and>
    system_rep start i w' (concat (map (job_after prog) js), m')"
proof -
  from rr_revolution [OF assms(2), of "[]" m] obtain m' where
    "iterate (rr_step prog) (length js) (js, m) = Some (concat (map (job_after prog) js), m')" by auto
  from rounds.run_law [OF assms(1) this, of cw cb] show ?thesis by blast
qed

theorem worker_fair_witness:
  "\<exists>w w' m'. iterate (worker_step (\<lambda>q. (0, q)) prog2 start2 no_calls 3) 2 (w :: nat frame world) = Some w' \<and>
    system_rep start2 3 w' ([(64, Some 32, 0)], m')"
proof -
  from sample_system obtain w :: "nat frame world" where
    w: "system_rep start2 3 w ([(64, Some 32, 1), (128, None, 0)], ints w)" by blast
  have "\<forall>j \<in> set [(64 :: addr, Some (32 :: addr), 1), (128, None, 0)]. short_job prog2 j"
    by (simp add: short_job_def prog2_def)
  from worker_fair [OF w this, of "\<lambda>q. (0, q)" no_calls] show ?thesis
    by (auto simp: job_after_def prog2_def numeral_2_eq_2)
qed

end
