(* ===== verification/Interleave.thy ===== *)
theory Interleave
  imports Rounds
begin

text \<open>
  Several workers at once. Every worker thread has a place in the code of \<open>worker\<close>, of the
  task it runs, or of \<open>pcaio_gatherA\<close>; a step of the system is a step of any one of them. A
  step is as long as the code is guarded by a mutex or works on data that only this thread may
  touch: one pop, one switch to a task, one operation of the task, one push, one look at a task
  that has come back. The steps are cut out of \<open>Worker.worker_iter\<close>, \<open>Worker.exec\<close> and
  \<open>Gather.pcaio_gatherA\<close>; \<open>round_alone\<close> puts them together again.
\<close>

section \<open>Places\<close>

text \<open>Inside a task \<open>p\<close>: in its function, or in the loop of \<open>pcaio_gatherA\<close> over the
  subtasks, with those still to be pushed.\<close>

datatype 'u place = Run addr 'u | Arming addr addr "addr list" "c_int \<Rightarrow> 'u"

text \<open>Inside \<open>worker\<close>, with its variable \<open>t\<close>: before or in \<open>taskqueue_pop\<close>; before
  \<open>swapcontext\<close>; away in a task; behind \<open>swapcontext\<close> with its status; after the loop; in a
  task that has ended the thread.\<close>

datatype 'u control =
    Looping
  | Fetched addr
  | Inside addr "'u place"
  | Landed addr int
  | Stopped int
  | Vanished

type_synonym ('u, 'z) moved = "fault + ('u control \<times> ('u frame, 'z) world_scheme)"

section \<open>Steps of a thread\<close>

text \<open>\<open>taskqueue_pop\<close>: \<open>None\<close> while the thread has to wait. A wait that ends has left
  the queue to the other threads and tests it again, so that only the taking of the first
  task counts.\<close>

definition fetch_step :: "tid \<Rightarrow> ('u frame, 'z) world_scheme \<Rightarrow> ('u, 'z) moved option" where
  "fetch_step i w =
    (if qhead (taskq w) = None then None
     else case queue_pop (\<lambda>q. (0, q)) QWAIT (taskq w) of
       None \<Rightarrow> None
     | Some (rc, tp, q) \<Rightarrow>
        if rc \<noteq> 0 then Some (Inr (Stopped 0, worker_cleanup (w\<lparr>taskq := q\<rparr>)))
        else case tp of
          None \<Rightarrow> Some (Inl NullDeref)
        | Some p \<Rightarrow> Some (Inr (Fetched p, tls_set_task i (Some p) (w\<lparr>taskq := q\<rparr>))))"

text \<open>The last lines of \<open>_taskmain\<close>: back to the landing context, or out of the thread.\<close>

definition landing_step :: "addr \<Rightarrow> fault + (tid option \<times> ('u frame, 'z) world_scheme) \<Rightarrow> ('u, 'z) moved" where
  "landing_step t r =
    and_then r (\<lambda>(landing, w).
      Inr (case landing of None \<Rightarrow> Vanished | Some c \<Rightarrow> Landed t 0, w))"

text \<open>\<open>swapcontext\<close> to the task.\<close>

definition enter_step ::
  "(addr option \<Rightarrow> addr list \<Rightarrow> 'u)
   \<Rightarrow> ('u, 'z) userland
   \<Rightarrow> tid \<Rightarrow> addr \<Rightarrow> ('u frame, 'z) world_scheme \<Rightarrow> ('u, 'z) moved" where
  "enter_step start cb i t w =
    and_then (task_at t w) (\<lambda>x.
      case t_context x of
        Blank \<Rightarrow> Inl Indeterminate
      | Entry p1 p2 \<Rightarrow>
         (let p = task_ptr p1 p2
          in and_then (task_at p w) (\<lambda>x.
            case taskmain_args x of
              None \<Rightarrow> landing_step t (taskmain_finish gather_run_hook (u_callback cb) i p None w)
            | Some args \<Rightarrow> Inr (Inside t (Run p (start (t_func x) args)), w)))
      | Saved (Relaxed u) \<Rightarrow> Inr (Inside t (Run t u), snd (pcaio_relaxA_resumed w))
      | Saved (Gathered g u) \<Rightarrow> Inr (Inside t (Run t u), snd (pcaio_gatherA_resumed g w)))"

text \<open>\<open>pcaio_relaxA\<close>, by itself or at the end of \<open>pcaio_gatherA\<close>.\<close>

definition relax_step ::
  "addr \<Rightarrow> (c_int \<Rightarrow> ('u frame, 'z) world_scheme \<Rightarrow> 'u place \<times> ('u frame, 'z) world_scheme)
   \<Rightarrow> fault + (relax \<times> ('u frame, 'z) world_scheme) \<Rightarrow> ('u, 'z) moved" where
  "relax_step t back r =
    and_then r (\<lambda>(r, w).
      case r of
        Switched c \<Rightarrow> Inr (Landed t 0, w)
      | Returned e \<Rightarrow> (case back e w of (pl, w) \<Rightarrow> Inr (Inside t pl, w)))"

definition gather_failed ::
  "addr \<Rightarrow> addr \<Rightarrow> (c_int \<Rightarrow> 'u) \<Rightarrow> ('u frame, 'z) world_scheme \<Rightarrow> 'u place \<times> ('u frame, 'z) world_scheme" where
  "gather_failed p g k w = (Run p (k (-1)), gather_put g None w)"

fun run_step ::
  "('u \<Rightarrow> 'u uop)
   \<Rightarrow> ('u, 'z) userland
   \<Rightarrow> tid \<Rightarrow> addr \<Rightarrow> 'u place \<Rightarrow> ('u frame, 'z) world_scheme \<Rightarrow> ('u, 'z) moved" where
  "run_step prog cb i t (Run p u) w =
    (case prog u of
       Return e \<Rightarrow> landing_step t (taskmain_finish gather_run_hook (u_callback cb) i p (Some e) w)
     | Relax f k \<Rightarrow> relax_step t (\<lambda>e w. (Run p (k e), w)) (pcaio_relaxA i 0 (Relaxed (k 0)) f w)
     | Gather g ts k \<Rightarrow>
        Inr (Inside t (Arming p g ts k),
          gather_put g (Some \<lparr>g_count = of_nat (length ts), g_mutex = True, g_task = pcaio_self i w\<rparr>) w)
     | Schedule tp k \<Rightarrow> (case pcaio_schedule tp w of (r, w) \<Rightarrow> Inr (Inside t (Run p (k r)), w))
     | Self k \<Rightarrow> Inr (Inside t (Run p (k (pcaio_self i w))), w)
     | Call n k \<Rightarrow> and_then (u_call cb i n w) (\<lambda>(r, w). Inr (Inside t (Run p (k r)), w)))"
| "run_step prog cb i t (Arming p g (q # qs) k) w =
    and_then (gather_push g [q] w) (\<lambda>(r, w).
      if r \<noteq> 0 then (case gather_failed p g k w of (pl, w) \<Rightarrow> Inr (Inside t pl, w))
      else Inr (Inside t (Arming p g qs k), w))"
| "run_step prog cb i t (Arming p g [] k) w =
    relax_step t (\<lambda>e w. if e \<noteq> 0 then gather_failed p g k w else (Run p (k 0), gather_put g None w))
      (pcaio_relaxA i 0 (Gathered g (k 0)) TASK_NOSCHEDULE w)"

text \<open>The end of the loop's body, or of the loop.\<close>

definition settle :: "fault + (wstat \<times> ('u frame, 'z) world_scheme) \<Rightarrow> ('u, 'z) moved" where
  "settle r =
    and_then r (\<lambda>(s, w).
      Inr (case s of
        Again \<Rightarrow> (Looping, w)
      | Exit r \<Rightarrow> (Stopped r, worker_cleanup w)
      | Gone \<Rightarrow> (Vanished, w)))"

definition land_step :: "tid \<Rightarrow> addr \<Rightarrow> int \<Rightarrow> ('u frame, 'z) world_scheme \<Rightarrow> ('u, 'z) moved" where
  "land_step i t ret w = settle (worker_back i t ret w)"

fun thread_step ::
  "('u \<Rightarrow> 'u uop) \<Rightarrow> (addr option \<Rightarrow> addr list \<Rightarrow> 'u)
   \<Rightarrow> ('u, 'z) userland
   \<Rightarrow> tid \<Rightarrow> 'u control \<Rightarrow> ('u frame, 'z) world_scheme \<Rightarrow> ('u, 'z) moved option" where
  "thread_step prog start cb i Looping w = fetch_step i w"
| "thread_step prog start cb i (Fetched t) w = Some (enter_step start cb i t w)"
| "thread_step prog start cb i (Inside t pl) w = Some (run_step prog cb i t pl w)"
| "thread_step prog start cb i (Landed t ret) w = Some (land_step i t ret w)"
| "thread_step prog start cb i (Stopped r) w = None"
| "thread_step prog start cb i Vanished w = None"

section \<open>Steps of the system\<close>

text \<open>The workers are numbered by their places in a list.\<close>

type_synonym ('u, 'z) system = "'u control list \<times> ('u frame, 'z) world_scheme"

inductive sys_step ::
  "('u \<Rightarrow> 'u uop) \<Rightarrow> (addr option \<Rightarrow> addr list \<Rightarrow> 'u)
   \<Rightarrow> ('u, 'z) userland
   \<Rightarrow> ('u, 'z) system \<Rightarrow> ('u, 'z) system \<Rightarrow> bool" for prog start cb where
  move: "i < length cs \<Longrightarrow> thread_step prog start cb i (cs ! i) w = Some (Inr (c, w')) \<Longrightarrow>
    sys_step prog start cb (cs, w) (cs[i := c], w')"

inductive_cases sys_step_cases: "sys_step prog start cb (cs, w) s"
inductive_simps sys_step_simps: "sys_step prog start cb (cs, w) s"

definition sys_faults ::
  "('u \<Rightarrow> 'u uop) \<Rightarrow> (addr option \<Rightarrow> addr list \<Rightarrow> 'u)
   \<Rightarrow> ('u, 'z) userland
   \<Rightarrow> ('u, 'z) system \<Rightarrow> bool" where
  "sys_faults prog start cb s \<longleftrightarrow>
    (\<exists>i < length (fst s). \<exists>e. thread_step prog start cb i (fst s ! i) (snd s) = Some (Inl e))"

definition sys_rests ::
  "('u \<Rightarrow> 'u uop) \<Rightarrow> (addr option \<Rightarrow> addr list \<Rightarrow> 'u)
   \<Rightarrow> ('u, 'z) userland
   \<Rightarrow> ('u, 'z) system \<Rightarrow> bool" where
  "sys_rests prog start cb s \<longleftrightarrow>
    (\<forall>i < length (fst s). thread_step prog start cb i (fst s ! i) (snd s) = None)"

text \<open>The run in which the threads step in a given order.\<close>

fun sys_run ::
  "('u \<Rightarrow> 'u uop) \<Rightarrow> (addr option \<Rightarrow> addr list \<Rightarrow> 'u)
   \<Rightarrow> ('u, 'z) userland
   \<Rightarrow> tid list \<Rightarrow> ('u, 'z) system \<Rightarrow> ('u, 'z) system option" where
  "sys_run prog start cb [] s = Some s"
| "sys_run prog start cb (i # is) (cs, w) =
    (if i < length cs then
       (case thread_step prog start cb i (cs ! i) w of
          Some (Inr (c, w)) \<Rightarrow> sys_run prog start cb is (cs[i := c], w)
        | _ \<Rightarrow> None)
     else None)"

lemma sys_run_steps: "sys_run prog start cb is s = Some s' \<Longrightarrow> (sys_step prog start cb)\<^sup>*\<^sup>* s s'"
proof (induction "is" arbitrary: s)
  case Nil
  then show ?case by simp
next
  case (Cons i "is")
  obtain cs w where s: "s = (cs, w)" by (cases s)
  from Cons.prems obtain c w1 where
    i: "i < length cs" "thread_step prog start cb i (cs ! i) w = Some (Inr (c, w1))"
      "sys_run prog start cb is (cs[i := c], w1) = Some s'"
    by (auto simp: s split: if_splits option.splits sum.splits)
  from sys_step.move [OF i(1,2)] Cons.IH [OF i(3)] show ?case
    unfolding s by (rule converse_rtranclp_into_rtranclp)
qed

section \<open>What a step leaves to the other threads\<close>

lemma self_other [simp]: "j \<noteq> i \<Longrightarrow> pcaio_self j (tls_set_task i v w) = pcaio_self j w"
  by (simp add: pcaio_self_def tls_set_task_def threadlocal_get_def threadlocal_set_def)

text \<open>The worker writes to its own thread's values only.\<close>

lemma back_self:
  assumes "worker_back i p ret w = Inr (s, w')" "j \<noteq> i"
  shows "pcaio_self j w' = pcaio_self j w"
  using assms
  by (auto simp: worker_back_def Let_def and_then_Inr pcaio_self_def tls_set_task_def threadlocal_get_def
      threadlocal_set_def task_free_def heap_free_def task_put_def split: if_splits option.splits prod.splits)

section \<open>Steps of one thread in memory\<close>

text \<open>Where a task continues when a worker switches to it.\<close>

definition resumes :: "(addr option \<Rightarrow> addr list \<Rightarrow> 'u) \<Rightarrow> addr \<Rightarrow> 'u frame pcaio_task \<Rightarrow> 'u \<Rightarrow> bool" where
  "resumes start p t u \<longleftrightarrow>
    t_context t = Saved (Relaxed u) \<or>
    (\<exists>args. t_context t = Entry (task_hi p) (task_lo p) \<and> taskmain_args t = Some args \<and>
      start (t_func t) args = u)"

lemma hooked_simps [simp]:
  "t_flags (hooked g t) = t_flags t" "t_callback (hooked g t) = t_callback t" "t_gather (hooked g t) = Some g"
  "t_terminated (hooked g t) = Some gather_hook" "t_context (hooked g t) = t_context t"
  "t_status (hooked g t) = t_status t" "t_func (hooked g t) = t_func t"
  by (simp_all add: hooked_def)

lemma resumes_hooked [simp]: "resumes start p (hooked g t) u \<longleftrightarrow> resumes start p t u"
  by (simp add: resumes_def taskmain_args_def hooked_def Let_def)

text \<open>A step of thread \<open>i\<close> leaves the other threads' current tasks, and all landing contexts.\<close>

definition local_to :: "tid \<Rightarrow> ('k, 'z) world_scheme \<Rightarrow> ('k, 'z) world_scheme \<Rightarrow> bool" where
  "local_to i w w' \<longleftrightarrow> tls_key (tls_task w') = tls_key (tls_task w) \<and> tls_context w' = tls_context w \<and>
    (\<forall>j. j \<noteq> i \<longrightarrow> pcaio_self j w' = pcaio_self j w)"

lemma self_memory [simp]:
  "pcaio_self j (w\<lparr>taskq := q\<rparr>) = pcaio_self j w" "pcaio_self j (w\<lparr>errno := e\<rparr>) = pcaio_self j w"
  "pcaio_self j (task_put p t w) = pcaio_self j w" "pcaio_self j (gather_put g x w) = pcaio_self j w"
  by (simp_all add: pcaio_self_def)

lemma local_to_trans: "local_to i w w' \<Longrightarrow> local_to i w' w'' \<Longrightarrow> local_to i w w''"
  by (simp add: local_to_def)

lemma local_toI: "tls_task w' = tls_task w \<Longrightarrow> tls_context w' = tls_context w \<Longrightarrow> local_to i w w'"
  by (simp add: local_to_def pcaio_self_def)

lemma rep_errno [simp]: "world_rep (w\<lparr>errno := e\<rparr>) L Q \<longleftrightarrow> world_rep w L Q"
  by (rule world_rep_cong) simp_all

lemma step_fetch:
  assumes "world_rep w L (p # Q)" "tls_key (tls_task w)"
  shows "\<exists>w'. thread_step prog start cb i Looping w = Some (Inr (Fetched p, w')) \<and> world_rep w' L Q \<and>
    heap w' = heap w \<and> gathers w' = gathers w \<and> pcaio_self i w' = Some p \<and> local_to i w w'"
proof -
  obtain q where q: "queue_pop (\<lambda>q. (0, q)) QWAIT (taskq w) = Some (0, Some p, q)"
    "world_rep (w\<lparr>taskq := q\<rparr>) L Q" by (rule world_rep_pop [OF assms(1)])
  have "qhead (taskq w) \<noteq> None" using assms(1) by (simp add: world_rep_def rep_defs)
  then have "thread_step prog start cb i Looping w =
      Some (Inr (Fetched p, tls_set_task i (Some p) (w\<lparr>taskq := q\<rparr>)))"
    by (simp add: fetch_step_def q(1))
  then show ?thesis using q(2) assms(2) by (auto simp: local_to_def)
qed

lemma step_enter:
  assumes "heap w p = Some t" "resumes start p t u"
  shows "\<exists>er. thread_step prog start cb i (Fetched p) w = Some (Inr (Inside p (Run p u), w\<lparr>errno := er\<rparr>))"
proof -
  from assms(2) consider "t_context t = Saved (Relaxed u)"
    | args where "t_context t = Entry (task_hi p) (task_lo p)" "taskmain_args t = Some args"
      "start (t_func t) args = u" unfolding resumes_def by blast
  then show ?thesis
  proof cases
    case 1
    with assms(1) have "thread_step prog start cb i (Fetched p) w = Some (Inr (Inside p (Run p u), w\<lparr>errno := 0\<rparr>))"
      by (simp add: enter_step_def pcaio_relaxA_resumed_def)
    then show ?thesis by blast
  next
    case 2
    with assms(1) have "thread_step prog start cb i (Fetched p) w = Some (Inr (Inside p (Run p u), w\<lparr>errno := errno w\<rparr>))"
      by (simp add: enter_step_def Let_def task_ptr_split)
    then show ?thesis by blast
  qed
qed

lemma step_gather:
  assumes "prog u = Gather g ts k" "pcaio_self i w = Some p"
  shows "thread_step prog start cb i (Inside p (Run p u)) w = Some (Inr (Inside p (Arming p g ts k),
    gather_put g (Some \<lparr>g_count = of_nat (length ts), g_mutex = True, g_task = Some p\<rparr>) w))"
  using assms by simp

lemma step_arm:
  assumes "world_rep w L Q" "q \<in> set L" "q \<notin> set Q"
  shows "\<exists>w'. thread_step prog start cb i (Inside p (Arming p g (q # ts) k)) w =
      Some (Inr (Inside p (Arming p g ts k), w')) \<and> world_rep w' L (Q @ [q]) \<and>
    heap w' = hooked_all g {q} (heap w) \<and> gathers w' = gathers w \<and> tls_task w' = tls_task w \<and>
    tls_context w' = tls_context w"
proof -
  obtain w' where w': "\<forall>ps. gather_push g (q # ps) w = gather_push g ps w'" "world_rep w' L (Q @ [q])"
    "heap w' = hooked_all g {q} (heap w)" "gathers w' = gathers w"
    "tls_task w' = tls_task w" "tls_context w' = tls_context w"
    by (rule gather_push_step [OF assms, of g]) (rule that)
  have "gather_push g [q] w = Inr (0, w')" using w'(1) [rule_format, of "[]"] by simp
  then show ?thesis using w'(2-6) by (simp del: gather_push.simps)
qed

lemma step_sleep:
  assumes "pcaio_self i w = Some p" "threadlocal_get i (tls_context w) = Some c" "heap w p = Some t"
  shows "thread_step prog start cb i (Inside p (Arming p g [] k)) w = Some (Inr (Landed p 0,
    task_put p (t\<lparr>t_flags := t_flags t OR TASK_NOSCHEDULE, t_context := Saved (Gathered g (k 0))\<rparr>) w))"
proof -
  have "pcaio_relaxA i 0 (Gathered g (k 0)) TASK_NOSCHEDULE w = Inr (Switched c,
      task_put p (t\<lparr>t_flags := t_flags t OR TASK_NOSCHEDULE, t_context := Saved (Gathered g (k 0))\<rparr>) w)"
    using assms by (intro relaxA_switch) (simp_all add: pcaio_self_def)
  then show ?thesis by (simp add: relax_step_def)
qed

text \<open>The end of the last subtask: the caller is scheduled.\<close>

lemma step_last:
  assumes rep: "world_rep w L Q" and q: "heap w q = Some t" "t_terminated t = Some gather_hook"
      "t_gather t = Some g" "t_callback t = None" "q \<noteq> p"
    and g: "gathers w g = Some \<lparr>g_count = 1, g_mutex = True, g_task = Some p\<rparr>"
    and p: "heap w p \<noteq> None" "p \<notin> set Q"
    and prog: "prog u = Return e" and land: "threadlocal_get i (tls_context w) = Some c"
  shows "\<exists>w'. thread_step prog start cb i (Inside q (Run q u)) w = Some (Inr (Landed q 0, w')) \<and>
    world_rep w' L (Q @ [p]) \<and> heap w' = (heap w)(q := Some (t\<lparr>t_flags := t_flags t OR TASK_TERMINATED\<rparr>)) \<and>
    tls_task w' = tls_task w \<and> tls_context w' = tls_context w"
proof -
  let ?t = "t\<lparr>t_flags := t_flags t OR TASK_TERMINATED\<rparr>"
  define w1 where "w1 = (case t_status t of None \<Rightarrow> id | Some a \<Rightarrow> ints_update (\<lambda>m. m(a := e))) (task_put q ?t w)"
  have w1: "heap w1 = (heap w)(q := Some ?t)" "gathers w1 = gathers w" "tasks w1 = tasks w" "taskq w1 = taskq w"
    "tls_task w1 = tls_task w" "tls_context w1 = tls_context w"
    by (simp_all add: w1_def split: option.splits)
  have stored: "write_status (t_status t) (Some e) (task_put q ?t w) = Inr w1"
    by (simp add: w1_def write_status_def split: option.splits)
  have "world_rep (task_put q ?t w) L Q" using rep q(1) by (simp add: world_rep_put)
  then have rep1: "world_rep w1 L Q" using world_rep_cong [of w1 "task_put q ?t w"] w1 by simp
  let ?w2 = "gather_put g (Some \<lparr>g_count = 0, g_mutex = False, g_task = Some p\<rparr>) w1"
  have rep2: "world_rep ?w2 L Q" "heap ?w2 p \<noteq> None" using rep1 w1(1) p(1) q(5) by simp_all
  obtain x where x: "pcaio_schedule (Some p) ?w2 = (0, ?w2\<lparr>taskq := x\<rparr>)" "world_rep (?w2\<lparr>taskq := x\<rparr>) L (Q @ [p])"
    by (rule schedule_idle_run [OF rep2 p(2)]) (rule that)
  have "gather_taskterminated q w1 = Inr (?w2\<lparr>taskq := x\<rparr>)"
    using q g w1(1,2) x(1) by (simp add: gather_taskterminated_def gather_at_def Let_def)
  then have "taskmain_finish gather_run_hook (u_callback cb) i q (Some e) w = Inr (Some c, ?w2\<lparr>taskq := x\<rparr>)"
    using q stored w1(1,6) land by (simp add: taskmain_finish_def Let_def gather_run_hook_def)
  then have "thread_step prog start cb i (Inside q (Run q u)) w = Some (Inr (Landed q 0, ?w2\<lparr>taskq := x\<rparr>))"
    by (simp add: prog landing_step_def)
  then show ?thesis using x(2) w1 by simp
qed

text \<open>A terminated task is freed.\<close>

lemma step_free:
  assumes "world_rep w L Q" "q \<notin> set Q" "heap w q = Some t" "t_flags t AND TASK_TERMINATED \<noteq> 0"
  shows "\<exists>w'. thread_step prog start cb i (Landed q 0) w = Some (Inr (Looping, w')) \<and>
    world_rep w' (remove1 q L) Q \<and> heap w' = (heap w)(q := None) \<and> gathers w' = gathers w \<and> local_to i w w'"
proof -
  from back_terminated [OF assms, of i] obtain w' where
    w': "worker_back i q 0 w = Inr (Again, w')" "world_rep w' (remove1 q L) Q" "heap w' = (heap w)(q := None)"
      "gathers w' = gathers w" "tls_key (tls_task w') = tls_key (tls_task w)" "tls_context w' = tls_context w"
    by blast
  have "pcaio_self j w' = pcaio_self j w" if "j \<noteq> i" for j using back_self [OF w'(1) that] .
  with w' show ?thesis by (auto simp: land_step_def settle_def local_to_def)
qed

section \<open>A sample\<close>

text \<open>Task 64 gathers task 128 and returns 7; task 128 returns 5. Neither has begun.\<close>

definition prog_gather :: "nat \<Rightarrow> nat uop" where
  "prog_gather u = (if u = 0 then Return 5 else if u = 1 then Gather 1000 [128] (\<lambda>_. 2) else Return 7)"

lemma sample_pair:
  "\<exists>w t t'. world_rep (w :: nat frame world) [64, 128] [64] \<and> tls_key (tls_task w) \<and>
    (\<forall>i. threadlocal_get i (tls_context w) = Some i) \<and>
    heap w 64 = Some t \<and> t_callback t = None \<and> t_terminated t = None \<and> resumes start2 64 t 1 \<and>
    heap w 128 = Some t' \<and> t_callback t' = None \<and> resumes start2 128 t' 0 \<and>
    t_flags t = 0 \<and> t_status t = None \<and> t_flags t' = 0 \<and> t_status t' = Some 32 \<and> t_terminated t' = None"
proof -
  have new1: "heap (world0 :: nat frame world) 64 = None" by simp
  obtain w1 t1 where w1: "world_rep (w1 :: nat frame world) [64] []" "heap w1 = (heap world0)(64 := Some t1)"
    and t1: "t_terminated t1 = None" "t_callback t1 = None" "t_flags t1 = 0" "t_status t1 = None"
      "t_context t1 = Entry (task_hi 64) (task_lo 64)" "t_func t1 = Some 7" "t_argc t1 = 0" "t_argv t1 = []"
    using task_new_success [OF world0_rep _ new1, of 0 "[]" 256 7 None] by fastforce
  have new2: "heap w1 128 = None" using w1(2) by simp
  obtain w2 t2 where w2: "world_rep (w2 :: nat frame world) [64, 128] []" "heap w2 = (heap w1)(128 := Some t2)"
    and t2: "t_callback t2 = None" "t_flags t2 = 0" "t_status t2 = Some 32" "t_terminated t2 = None"
      "t_context t2 = Entry (task_hi 128) (task_lo 128)" "t_func t2 = Some 9" "t_argc t2 = 0" "t_argv t2 = []"
    using task_new_success [OF w1(1) _ new2, of 0 "[]" 512 9 "Some 32"] by fastforce
  have h: "heap w2 64 \<noteq> None" using w1(2) w2(2) by simp
  obtain q where q: "world_rep (w2\<lparr>taskq := q\<rparr>) [64, 128] ([] @ [64])"
    by (rule schedule_idle_run [OF w2(1) h]) simp
  let ?w = "w2\<lparr>taskq := q, tls_task := \<lparr>tls_key = True, tls_slot = (\<lambda>_. None)\<rparr>,
    tls_context := \<lparr>tls_key = True, tls_slot = Some\<rparr>\<rparr>"
  have "world_rep ?w [64, 128] [64]" using q world_rep_cong [of ?w "w2\<lparr>taskq := q\<rparr>" "[64, 128]" "[64]"] by simp
  moreover have "resumes start2 64 t1 1" "resumes start2 128 t2 0"
    using t1 t2 by (simp_all add: resumes_def taskmain_args_def start2_def)
  ultimately show ?thesis
    using w1(2) w2(2) t1(1-4) t2(1-4)
    by (intro exI [of _ ?w] exI [of _ t1] exI [of _ t2]) (simp add: threadlocal_get_def)
qed

end
