(* ===== verification/Scheduler.thy ===== *)
theory Scheduler
  imports Interleave
begin

text \<open>
  Any number of workers on tasks that compute, yield, create tasks and return: in every interleaving no
  thread runs into a fault, no task is with two workers at once, and every run ends, with every
  task finished and every status stored.
\<close>

section \<open>The invariant for tasks that compute, yield and return\<close>

fun held :: "'u control \<Rightarrow> addr option" where
  "held (Fetched t) = Some t"
| "held (Inside t pl) = Some t"
| "held (Landed t ret) = Some t"
| "held c = None"

definition carried :: "'u control list \<Rightarrow> addr set" where
  "carried cs = {p. \<exists>i < length cs. held (cs ! i) = Some p}"

text \<open>No task is with two workers, or with one and in the queue.\<close>

definition exclusive :: "'u control list \<Rightarrow> addr list \<Rightarrow> bool" where
  "exclusive cs Q \<longleftrightarrow> distinct Q \<and>
    (\<forall>i < length cs. \<forall>p. held (cs ! i) = Some p \<longrightarrow>
      p \<notin> set Q \<and> (\<forall>j < length cs. held (cs ! j) = Some p \<longrightarrow> j = i))"

text \<open>A call that is \<open>pcaio_fschedule\<close> for a function \<open>f\<close> with these arguments and
  without a status pointer; \<open>malloc\<close> may fail.\<close>

definition creates :: "('u, 'z) userland \<Rightarrow> nat \<Rightarrow> addr \<Rightarrow> nat \<Rightarrow> addr list \<Rightarrow> bool" where
  "creates cb n f argc va \<longleftrightarrow> argc \<le> length va \<and>
    (\<forall>i w. \<exists>mt rc ms. fresh_task mt w \<and> u_call cb i n w =
      and_then (pcaio_fschedule mt rc ms (Some f) None argc va w)
        (\<lambda>(tp, w). Inr (case tp of None \<Rightarrow> 0 | Some p \<Rightarrow> uint p, w)))"

text \<open>\<open>halts prog start cb Ok u k\<close>: the rest \<open>u\<close> of a function returns, after at most
  \<open>k\<close> calls of \<open>pcaio_relaxA\<close>, \<open>pcaio_self\<close> and \<open>pcaio_fschedule\<close>, those of the tasks
  it creates counted in, a value that \<open>Ok\<close> accepts,
  and so do those tasks, with any value.\<close>

inductive halts ::
  "('u \<Rightarrow> 'u uop) \<Rightarrow> (addr option \<Rightarrow> addr list \<Rightarrow> 'u) \<Rightarrow> ('u, 'z) userland \<Rightarrow> (c_int \<Rightarrow> bool) \<Rightarrow> 'u \<Rightarrow> nat \<Rightarrow> bool"
  for prog start cb where
  returns: "prog u = Return e \<Longrightarrow> Ok e \<Longrightarrow> halts prog start cb Ok u k"
| relaxes: "prog u = Relax 0 f \<Longrightarrow> halts prog start cb Ok (f 0) k \<Longrightarrow> halts prog start cb Ok u (Suc k)"
| asks: "prog u = Self f \<Longrightarrow> (\<And>x. halts prog start cb Ok (f x) k) \<Longrightarrow> halts prog start cb Ok u (Suc k)"
| spawns: "prog u = Call n f \<Longrightarrow> creates cb n g argc va \<Longrightarrow> argc \<le> 6 \<Longrightarrow>
    halts prog start cb (\<lambda>_. True) (start (Some g) (take argc va)) l \<Longrightarrow>
    (\<And>r. halts prog start cb Ok (f r) k) \<Longrightarrow> halts prog start cb Ok u (k + l + 2)"

lemma finishes_halts: "finishes prog u k e \<Longrightarrow> Ok e \<Longrightarrow> halts prog start cb Ok u k"
  by (induction rule: finishes.induct) (auto intro: halts.intros)

text \<open>The value goes to the status pointer.\<close>

definition ends_in ::
  "('u \<Rightarrow> 'u uop) \<Rightarrow> (addr option \<Rightarrow> addr list \<Rightarrow> 'u) \<Rightarrow> ('u, 'z) userland \<Rightarrow> (addr \<Rightarrow> c_int \<Rightarrow> bool)
   \<Rightarrow> 'u \<Rightarrow> addr option \<Rightarrow> nat \<Rightarrow> bool" where
  "ends_in prog start cb Ok u s k \<longleftrightarrow> halts prog start cb (\<lambda>e. \<forall>x. s = Some x \<longrightarrow> Ok x e) u k"

text \<open>A task nobody runs, with \<open>k\<close> yields to come.\<close>

definition waits ::
  "('u \<Rightarrow> 'u uop) \<Rightarrow> (addr option \<Rightarrow> addr list \<Rightarrow> 'u) \<Rightarrow> ('u, 'z) userland \<Rightarrow> (addr \<Rightarrow> c_int \<Rightarrow> bool)
   \<Rightarrow> ('u frame, 'z) world_scheme \<Rightarrow> addr \<Rightarrow> nat \<Rightarrow> bool" where
  "waits prog start cb Ok w p k \<longleftrightarrow> (\<exists>s u. job_rep start w (p, s, u) \<and> ends_in prog start cb Ok u s k)"

text \<open>A task in its function.\<close>

definition works ::
  "('u \<Rightarrow> 'u uop) \<Rightarrow> (addr option \<Rightarrow> addr list \<Rightarrow> 'u) \<Rightarrow> ('u, 'z) userland \<Rightarrow> (addr \<Rightarrow> c_int \<Rightarrow> bool) \<Rightarrow> ('u frame, 'z) world_scheme \<Rightarrow> addr \<Rightarrow> 'u \<Rightarrow> nat \<Rightarrow> bool" where
  "works prog start cb Ok w p u k \<longleftrightarrow>
    (\<exists>t. heap w p = Some t \<and> t_flags t = 0 \<and> t_terminated t = None \<and> t_callback t = None \<and>
      ends_in prog start cb Ok u (t_status t) k)"

text \<open>Where a thread may stand, and how many steps its task needs at most until it is queued
  again or freed, and then till its end.\<close>

fun control_ok ::
  "('u \<Rightarrow> 'u uop) \<Rightarrow> (addr option \<Rightarrow> addr list \<Rightarrow> 'u) \<Rightarrow> ('u, 'z) userland \<Rightarrow> (addr \<Rightarrow> c_int \<Rightarrow> bool) \<Rightarrow> tid
   \<Rightarrow> ('u frame, 'z) world_scheme \<Rightarrow> 'u control \<Rightarrow> nat \<Rightarrow> bool" where
  "control_ok prog start cb Ok i w Looping n \<longleftrightarrow> n = 0"
| "control_ok prog start cb Ok i w (Fetched p) n \<longleftrightarrow>
     pcaio_self i w = Some p \<and> (\<exists>k. waits prog start cb Ok w p k \<and> n = 4 * k + 3)"
| "control_ok prog start cb Ok i w (Inside p pl) n \<longleftrightarrow>
     pcaio_self i w = Some p \<and> (\<exists>u k. pl = Run p u \<and> works prog start cb Ok w p u k \<and> n = 4 * k + 2)"
| "control_ok prog start cb Ok i w (Landed p ret) n \<longleftrightarrow>
     ret = 0 \<and> ((\<exists>k. waits prog start cb Ok w p k \<and> n = 4 * k + 5) \<or>
       (\<exists>t. heap w p = Some t \<and> t_flags t AND TASK_TERMINATED \<noteq> 0 \<and> n = 1))"
| "control_ok prog start cb Ok i w _ n \<longleftrightarrow> False"

text \<open>The status cells of the tasks that have not terminated yet.\<close>

definition cell_of :: "'k pcaio_task option \<Rightarrow> addr option" where
  "cell_of x = (case x of
     None \<Rightarrow> None
   | Some t \<Rightarrow> if t_flags t AND TASK_TERMINATED = 0 then t_status t else None)"

definition open_cells :: "('k, 'z) world_scheme \<Rightarrow> addr set" where
  "open_cells w = {x. \<exists>p. cell_of (heap w p) = Some x}"

lemma open_cells_others:
  assumes "\<And>q. q \<noteq> p \<Longrightarrow> heap w' q = heap w q"
  shows "open_cells w \<subseteq> open_cells w' \<union> {x. cell_of (heap w p) = Some x}"
    and "cell_of (heap w' p) = cell_of (heap w p) \<Longrightarrow> open_cells w' = open_cells w"
proof -
  show "open_cells w \<subseteq> open_cells w' \<union> {x. cell_of (heap w p) = Some x}"
  proof (rule subsetI)
    fix x assume "x \<in> open_cells w"
    then obtain q where q: "cell_of (heap w q) = Some x" by (auto simp: open_cells_def)
    show "x \<in> open_cells w' \<union> {x. cell_of (heap w p) = Some x}"
    proof (cases "q = p")
      case False
      with q assms [OF False] have "cell_of (heap w' q) = Some x" by simp
      then show ?thesis by (auto simp: open_cells_def)
    qed (use q in simp)
  qed
  assume same: "cell_of (heap w' p) = cell_of (heap w p)"
  have "cell_of (heap w' q) = cell_of (heap w q)" for q
    using assms [of q] same by (cases "q = p") simp_all
  then show "open_cells w' = open_cells w" by (simp add: open_cells_def)
qed

definition sys_inv ::
  "('u \<Rightarrow> 'u uop) \<Rightarrow> (addr option \<Rightarrow> addr list \<Rightarrow> 'u) \<Rightarrow> ('u, 'z) userland \<Rightarrow> (addr \<Rightarrow> c_int \<Rightarrow> bool)
   \<Rightarrow> addr list \<Rightarrow> addr list \<Rightarrow> nat list \<Rightarrow> nat list \<Rightarrow> ('u, 'z) system \<Rightarrow> bool" where
  "sys_inv prog start cb Ok L Q ks ns s \<longleftrightarrow>
    (case s of (cs, w) \<Rightarrow>
      world_rep w L Q \<and> set L = set Q \<union> carried cs \<and> exclusive cs Q \<and> tls_key (tls_task w) \<and>
      (\<forall>i < length cs. threadlocal_get i (tls_context w) = Some i) \<and>
      list_all2 (waits prog start cb Ok w) Q ks \<and>
      length ns = length cs \<and> (\<forall>i < length cs. control_ok prog start cb Ok i w (cs ! i) (ns ! i)) \<and>
      (\<forall>x. x \<notin> open_cells w \<longrightarrow> Ok x (ints w x)))"

text \<open>The number of steps left.\<close>

definition steps_left :: "nat list \<Rightarrow> nat list \<Rightarrow> nat" where
  "steps_left ks ns = sum_list (map (\<lambda>k. 4 * k + 4) ks) + sum_list ns"

lemma waits_cong: "heap w' p = heap w p \<Longrightarrow> waits prog start cb Ok w' p k \<longleftrightarrow> waits prog start cb Ok w p k"
  by (simp add: waits_def)

lemma works_cong: "heap w' p = heap w p \<Longrightarrow> works prog start cb Ok w' p u k \<longleftrightarrow> works prog start cb Ok w p u k"
  by (simp add: works_def)

lemma control_ok_cong:
  "(\<And>p. held c = Some p \<Longrightarrow> heap w' p = heap w p) \<Longrightarrow> pcaio_self i w' = pcaio_self i w \<Longrightarrow>
    control_ok prog start cb Ok i w' c n \<longleftrightarrow> control_ok prog start cb Ok i w c n"
  by (cases c) (simp_all add: waits_cong [of w' _ w] works_cong [of w' _ w])

section \<open>Passing tasks on\<close>

lemma held_update:
  "i < length cs \<Longrightarrow> held (cs[i := c] ! j) = (if j = i then held c else held (cs ! j))"
  by (simp add: nth_list_update)

lemma carriedI: "i < length cs \<Longrightarrow> held (cs ! i) = Some p \<Longrightarrow> p \<in> carried cs"
  by (auto simp: carried_def)

lemma exclusiveD:
  "exclusive cs Q \<Longrightarrow> i < length cs \<Longrightarrow> held (cs ! i) = Some p \<Longrightarrow> p \<notin> set Q"
  "exclusive cs Q \<Longrightarrow> i < length cs \<Longrightarrow> held (cs ! i) = Some p \<Longrightarrow> j < length cs \<Longrightarrow>
    held (cs ! j) = Some p \<Longrightarrow> j = i"
  unfolding exclusive_def by blast+

lemma held_keep: "held c = held (cs ! i) \<Longrightarrow> held (cs[i := c] ! j) = held (cs ! j)"
  by (cases "i < length cs") (auto simp: nth_list_update list_update_beyond)

lemma carried_keep: "held c = held (cs ! i) \<Longrightarrow> carried (cs[i := c]) = carried cs"
  by (simp add: carried_def held_keep)

lemma carried_update:
  assumes "i < length cs"
  shows "q \<in> carried (cs[i := c]) \<longleftrightarrow>
    held c = Some q \<or> (\<exists>j < length cs. j \<noteq> i \<and> held (cs ! j) = Some q)"
proof -
  have "q \<in> carried (cs[i := c]) \<longleftrightarrow> (\<exists>j < length cs. held (cs[i := c] ! j) = Some q)"
    by (simp add: carried_def)
  moreover have "held (cs[i := c] ! j) = Some q \<longleftrightarrow>
      j = i \<and> held c = Some q \<or> j \<noteq> i \<and> held (cs ! j) = Some q" for j
    using assms by (cases "j = i") simp_all
  ultimately show ?thesis using assms by blast
qed

lemma carried_split:
  assumes "i < length cs"
  shows "q \<in> carried cs \<longleftrightarrow>
    held (cs ! i) = Some q \<or> (\<exists>j < length cs. j \<noteq> i \<and> held (cs ! j) = Some q)"
  using carried_update [OF assms, of q "cs ! i"] by simp

lemma carried_take:
  assumes "i < length cs" "held (cs ! i) = None" "held c = Some p"
  shows "carried (cs[i := c]) = insert p (carried cs)"
proof (rule set_eqI)
  fix q
  show "q \<in> carried (cs[i := c]) \<longleftrightarrow> q \<in> insert p (carried cs)"
    unfolding insert_iff carried_update [OF assms(1)] carried_split [OF assms(1)] assms(2,3) by blast
qed

lemma carried_drop:
  assumes "i < length cs" "exclusive cs Q" "held (cs ! i) = Some p" "held c = None"
  shows "carried (cs[i := c]) = carried cs - {p}"
proof (rule set_eqI)
  fix q
  show "q \<in> carried (cs[i := c]) \<longleftrightarrow> q \<in> carried cs - {p}"
    unfolding Diff_iff carried_update [OF assms(1)] carried_split [OF assms(1)] assms(3,4)
    using exclusiveD(2) [OF assms(2,1,3)] by blast
qed

lemma exclusiveI:
  assumes "distinct Q" "\<And>j p. j < length cs \<Longrightarrow> held (cs ! j) = Some p \<Longrightarrow> p \<notin> set Q"
    and "\<And>j k p. j < length cs \<Longrightarrow> k < length cs \<Longrightarrow> held (cs ! j) = Some p \<Longrightarrow>
      held (cs ! k) = Some p \<Longrightarrow> k = j"
  shows "exclusive cs Q"
  using assms unfolding exclusive_def by blast

lemma exclusive_keep: "held c = held (cs ! i) \<Longrightarrow> exclusive (cs[i := c]) Q \<longleftrightarrow> exclusive cs Q"
  by (simp add: exclusive_def held_keep)

lemma exclusive_take:
  "i < length cs \<Longrightarrow> exclusive cs (p # Q) \<Longrightarrow> held (cs ! i) = None \<Longrightarrow> held c = Some p \<Longrightarrow>
    exclusive (cs[i := c]) Q"
  by (rule exclusiveI) (auto simp: held_update exclusive_def split: if_splits)

lemma exclusive_drop:
  "i < length cs \<Longrightarrow> exclusive cs Q \<Longrightarrow> held c = None \<Longrightarrow> exclusive (cs[i := c]) Q"
  by (rule exclusiveI) (auto simp: held_update exclusive_def split: if_splits)

lemma exclusive_queue:
  "i < length cs \<Longrightarrow> exclusive cs Q \<Longrightarrow> held (cs ! i) = Some p \<Longrightarrow> held c = None \<Longrightarrow>
    exclusive (cs[i := c]) (Q @ [p])"
  by (rule exclusiveI) (auto simp: held_update exclusive_def split: if_splits)

section \<open>A step of one thread\<close>

text \<open>Only one thread moves: the others stand where they stood, with their tasks and their
  thread-specific values untouched.\<close>

lemma sys_inv_update:
  assumes inv: "sys_inv prog start cb Ok L Q ks ns (cs, w)" and i: "i < length cs"
    and rep: "world_rep w' L' Q'" "set L' = set Q' \<union> carried (cs[i := c])" "exclusive (cs[i := c]) Q'"
    and tls: "tls_key (tls_task w')" "tls_context w' = tls_context w"
      "\<And>j. j \<noteq> i \<Longrightarrow> pcaio_self j w' = pcaio_self j w"
    and others: "\<And>j p. j < length cs \<Longrightarrow> j \<noteq> i \<Longrightarrow> held (cs ! j) = Some p \<Longrightarrow> heap w' p = heap w p"
    and queued: "list_all2 (waits prog start cb Ok w') Q' ks'"
    and ok: "control_ok prog start cb Ok i w' c m" and cells: "\<And>x. x \<notin> open_cells w' \<Longrightarrow> Ok x (ints w' x)"
  shows "sys_inv prog start cb Ok L' Q' ks' (ns[i := m]) (cs[i := c], w')"
proof -
  have len: "length ns = length cs" using inv by (simp add: sys_inv_def)
  have "control_ok prog start cb Ok j w' (cs[i := c] ! j) (ns[i := m] ! j)" if j: "j < length cs" for j
  proof (cases "j = i")
    case True
    then show ?thesis using ok i len by simp
  next
    case False
    have "control_ok prog start cb Ok j w (cs ! j) (ns ! j)" using inv j by (simp add: sys_inv_def)
    then have "control_ok prog start cb Ok j w' (cs ! j) (ns ! j)"
      using others [OF j False] tls(3) [OF False] by (subst control_ok_cong [of "cs ! j" w' w]) auto
    then show ?thesis using False by simp
  qed
  then show ?thesis
    using rep tls(1,2) queued cells inv by (simp add: sys_inv_def)
qed

lemma sys_inv_facts:
  assumes "sys_inv prog start cb Ok L Q ks ns (cs, w)"
  shows "world_rep w L Q" "set L = set Q \<union> carried cs" "exclusive cs Q" "tls_key (tls_task w)"
    "list_all2 (waits prog start cb Ok w) Q ks" "length ns = length cs"
    "\<And>i. i < length cs \<Longrightarrow> control_ok prog start cb Ok i w (cs ! i) (ns ! i)"
    "\<And>i. i < length cs \<Longrightarrow> threadlocal_get i (tls_context w) = Some i"
    "\<And>x. x \<notin> open_cells w \<Longrightarrow> Ok x (ints w x)"
  using assms by (auto simp: sys_inv_def)

lemma open_cells_cong: "heap w' = heap w \<Longrightarrow> open_cells w' = open_cells w"
  by (simp add: open_cells_def)

lemma waits_all_cong:
  "(\<And>q. q \<in> set Q \<Longrightarrow> heap w' q = heap w q) \<Longrightarrow>
    list_all2 (waits prog start cb Ok w') Q ks \<longleftrightarrow> list_all2 (waits prog start cb Ok w) Q ks"
  by (rule list.rel_cong) (simp_all add: waits_cong [of w' _ w])

lemma steps_left_update:
  "i < length ns \<Longrightarrow> steps_left ks (ns[i := m]) + ns ! i = steps_left ks ns + m"
  using elem_le_sum_list [of i ns] by (simp add: steps_left_def sum_list_update)

text \<open>A thread may move, and the invariant and the bound follow it; or it waits for an empty
  queue.\<close>

definition moves_on ::
  "('u \<Rightarrow> 'u uop) \<Rightarrow> (addr option \<Rightarrow> addr list \<Rightarrow> 'u) \<Rightarrow> ('u, 'z) userland \<Rightarrow> (addr \<Rightarrow> c_int \<Rightarrow> bool)
   \<Rightarrow> nat \<Rightarrow> tid \<Rightarrow> 'u control list \<Rightarrow> ('u, 'z) moved option \<Rightarrow> bool" where
  "moves_on prog start cb Ok n i cs r \<longleftrightarrow>
    (\<exists>c w L Q ks ns. r = Some (Inr (c, w)) \<and>
      sys_inv prog start cb Ok L Q ks ns (cs[i := c], w) \<and> steps_left ks ns < n)"

lemma moves_onI:
  "r = Some (Inr (c, w)) \<Longrightarrow> sys_inv prog start cb Ok L Q ks ns (cs[i := c], w) \<Longrightarrow> steps_left ks ns < n \<Longrightarrow>
    moves_on prog start cb Ok n i cs r"
  unfolding moves_on_def by blast

lemma fetch_moves:
  assumes inv: "sys_inv prog start cb Ok L Q ks ns (cs, w)" and i: "i < length cs" "cs ! i = Looping"
    and Q: "Q \<noteq> []"
  shows "moves_on prog start cb Ok (steps_left ks ns) i cs (fetch_step i w)"
proof -
  note facts = sys_inv_facts [OF inv]
  from Q obtain p Q' where pQ: "Q = p # Q'" by (cases Q) auto
  from facts(5) obtain k ks' where ks: "ks = k # ks'" "waits prog start cb Ok w p k"
    "list_all2 (waits prog start cb Ok w) Q' ks'" unfolding pQ by (auto simp: list_all2_Cons1)
  obtain q where q: "queue_pop (\<lambda>q. (0, q)) QWAIT (taskq w) = Some (0, Some p, q)"
    "world_rep (w\<lparr>taskq := q\<rparr>) L Q'"
    by (rule world_rep_pop [OF facts(1) [unfolded pQ]])
  let ?w = "tls_set_task i (Some p) (w\<lparr>taskq := q\<rparr>)"
  have "qhead (taskq w) \<noteq> None" using facts(1) pQ by (simp add: world_rep_def rep_defs)
  then have step: "fetch_step i w = Some (Inr (Fetched p, ?w))" by (simp add: fetch_step_def q(1))
  have held: "held (cs ! i) = None" by (simp add: i(2))
  have n0: "ns ! i = 0" using facts(7) [OF i(1)] by (simp add: i(2))
  have "sys_inv prog start cb Ok L Q' ks' (ns[i := 4 * k + 3]) (cs[i := Fetched p], ?w)"
  proof (rule sys_inv_update [OF inv i(1)])
    show "world_rep ?w L Q'" using q(2) by simp
    show "set L = set Q' \<union> carried (cs[i := Fetched p])"
      using facts(2) by (simp add: pQ carried_take [OF i(1) held])
    show "exclusive (cs[i := Fetched p]) Q'"
      using exclusive_take [OF i(1) _ held, of p Q' "Fetched p"] facts(3) by (simp add: pQ)
    show "list_all2 (waits prog start cb Ok ?w) Q' ks'" using ks(3) by (subst waits_all_cong [of _ _ w]) auto
    show "control_ok prog start cb Ok i ?w (Fetched p) (4 * k + 3)"
      using ks(2) facts(4) waits_cong [of ?w p w] by (simp add: pcaio_self_def tls_set_task_def)
    show "Ok x (ints ?w x)" if "x \<notin> open_cells ?w" for x
      using that facts(9) [of x] open_cells_cong [of ?w w] by simp
  qed (use facts(4) in \<open>simp_all add: pcaio_self_def tls_set_task_def threadlocal_get_def threadlocal_set_def\<close>)
  then show ?thesis
    by (rule moves_onI [OF step])
      (use n0 i(1) facts(6) steps_left_update [of i ns ks' "4 * k + 3"] in \<open>simp add: ks steps_left_def\<close>)
qed

text \<open>A step that neither takes a task nor gives one back, and writes to this task only.\<close>

lemma sys_inv_keep:
  assumes inv: "sys_inv prog start cb Ok L Q ks ns (cs, w)" and i: "i < length cs"
    and held: "held (cs ! i) = Some p" "held c = Some p"
    and rep: "world_rep w' L Q" and heap: "\<And>q. q \<noteq> p \<Longrightarrow> heap w' q = heap w q"
    and tls: "tls_task w' = tls_task w" "tls_context w' = tls_context w"
    and ok: "control_ok prog start cb Ok i w' c m" and cells: "\<And>x. x \<notin> open_cells w' \<Longrightarrow> Ok x (ints w' x)"
  shows "sys_inv prog start cb Ok L Q ks (ns[i := m]) (cs[i := c], w')"
proof -
  note facts = sys_inv_facts [OF inv]
  have same: "held c = held (cs ! i)" using held by simp
  show ?thesis
  proof (rule sys_inv_update [OF inv i rep])
    show "set L = set Q \<union> carried (cs[i := c])" using facts(2) carried_keep [OF same] by simp
    show "exclusive (cs[i := c]) Q" using facts(3) exclusive_keep [OF same] by simp
    show "list_all2 (waits prog start cb Ok w') Q ks"
      using facts(5) exclusiveD(1) [OF facts(3) i held(1)]
      by (subst waits_all_cong [of _ _ w]) (auto intro!: heap)
    show "heap w' q = heap w q" if "j < length cs" "j \<noteq> i" "held (cs ! j) = Some q" for j q
    proof (rule heap)
      show "q \<noteq> p" using exclusiveD(2) [OF facts(3) i held(1) that(1)] that(2,3) by auto
    qed
  qed (use facts(4) tls ok cells in \<open>simp_all add: pcaio_self_def\<close>)
qed

text \<open>The bound for a step of this kind.\<close>

lemma keep_moves:
  assumes "r = Some (Inr (c, w'))" "sys_inv prog start cb Ok L Q ks (ns[i := m]) (cs[i := c], w')"
    and "i < length ns" "m < ns ! i"
  shows "moves_on prog start cb Ok (steps_left ks ns) i cs r"
  using assms(1,2) by (rule moves_onI) (use assms(3,4) steps_left_update [of i ns ks m] in simp)

lemma waits_enters:
  assumes "waits prog start cb Ok w p k"
  shows "\<exists>u er. enter_step start cb i p w = Inr (Inside p (Run p u), w\<lparr>errno := er\<rparr>) \<and> works prog start cb Ok w p u k"
proof -
  from assms obtain s u where su: "job_rep start w (p, s, u)" "ends_in prog start cb Ok u s k"
    by (auto simp: waits_def)
  then obtain t where t: "heap w p = Some t" "t_flags t = 0" "t_status t = s" "t_terminated t = None"
      "t_callback t = None" and
    ctx: "t_context t = Saved (Relaxed u) \<or> (\<exists>args. t_context t = Entry (task_hi p) (task_lo p) \<and>
      taskmain_args t = Some args \<and> start (t_func t) args = u)" by auto
  have "works prog start cb Ok w p u k" using t su(2) by (simp add: works_def)
  moreover have "resumes start p t u" using ctx by (simp add: resumes_def)
  from step_enter [OF t(1) this, of _ cb i]
  have "\<exists>er. enter_step start cb i p w = Inr (Inside p (Run p u), w\<lparr>errno := er\<rparr>)" by simp
  ultimately show ?thesis by blast
qed

lemma enter_moves:
  assumes inv: "sys_inv prog start cb Ok L Q ks ns (cs, w)" and i: "i < length cs" "cs ! i = Fetched p"
  shows "moves_on prog start cb Ok (steps_left ks ns) i cs (Some (enter_step start cb i p w))"
proof -
  note facts = sys_inv_facts [OF inv]
  from facts(7) [OF i(1)] obtain k where
    self: "pcaio_self i w = Some p" and k: "waits prog start cb Ok w p k" "ns ! i = 4 * k + 3"
    by (auto simp: i(2))
  from waits_enters [OF k(1)] obtain u er where
    step: "enter_step start cb i p w = Inr (Inside p (Run p u), w\<lparr>errno := er\<rparr>)" "works prog start cb Ok w p u k"
    by blast
  let ?w = "w\<lparr>errno := er\<rparr>"
  have "sys_inv prog start cb Ok L Q ks (ns[i := 4 * k + 2]) (cs[i := Inside p (Run p u)], ?w)"
  proof (rule sys_inv_keep [OF inv i(1), where p = p])
    show "world_rep ?w L Q" using facts(1) world_rep_cong [of ?w w] by simp
    show "control_ok prog start cb Ok i ?w (Inside p (Run p u)) (4 * k + 2)"
      using step(2) self works_cong [of ?w p w] by (simp add: pcaio_self_def)
    show "Ok x (ints ?w x)" if "x \<notin> open_cells ?w" for x
      using that facts(9) [of x] open_cells_cong [of ?w w] by simp
  qed (simp_all add: i(2))
  then show ?thesis
    by (rule keep_moves [rotated]) (use step(1) k(2) i(1) facts(6) in simp_all)
qed

lemma relax_moves:
  assumes inv: "sys_inv prog start cb Ok L Q ks ns (cs, w)" and i: "i < length cs" "cs ! i = Inside p (Run p u)"
    and prog: "prog u = Relax 0 f"
  shows "moves_on prog start cb Ok (steps_left ks ns) i cs (Some (run_step prog cb i p (Run p u) w))"
proof -
  note facts = sys_inv_facts [OF inv]
  from facts(7) [OF i(1)] obtain k where self: "pcaio_self i w = Some p" and n: "ns ! i = 4 * k + 2"
    and works: "works prog start cb Ok w p u k" by (auto simp: i(2))
  from works obtain t where
    t: "heap w p = Some t" "t_flags t = 0" "t_terminated t = None" "t_callback t = None" and
    e: "halts prog start cb (\<lambda>e. \<forall>x. t_status t = Some x \<longrightarrow> Ok x e) u k"
    unfolding works_def ends_in_def by blast
  from e prog obtain l where l: "halts prog start cb (\<lambda>e. \<forall>x. t_status t = Some x \<longrightarrow> Ok x e) (f 0) l" "k = Suc l"
    by cases auto
  let ?w = "task_put p (t\<lparr>t_context := Saved (Relaxed (f 0))\<rparr>) w"
  have "pcaio_relaxA i 0 (Relaxed (f 0)) 0 w =
      Inr (Switched i, task_put p (t\<lparr>t_flags := t_flags t OR 0, t_context := Saved (Relaxed (f 0))\<rparr>) w)"
    using self facts(8) [OF i(1)] t(1) by (intro relaxA_switch) (simp_all add: pcaio_self_def)
  then have step: "run_step prog cb i p (Run p u) w = Inr (Landed p 0, ?w)"
    by (simp add: prog relax_step_def)
  have "sys_inv prog start cb Ok L Q ks (ns[i := 4 * l + 5]) (cs[i := Landed p 0], ?w)"
  proof (rule sys_inv_keep [OF inv i(1), where p = p])
    show "world_rep ?w L Q" using facts(1) t(1) by (simp add: world_rep_put)
    have "waits prog start cb Ok ?w p l"
      unfolding waits_def ends_in_def using l(1) t by (intro exI [of _ "t_status t"] exI [of _ "f 0"]) auto
    then show "control_ok prog start cb Ok i ?w (Landed p 0) (4 * l + 5)" by auto
    have "open_cells ?w = open_cells w"
      by (rule open_cells_others(2) [of p]) (use t in \<open>simp_all add: cell_of_def\<close>)
    then show "Ok x (ints ?w x)" if "x \<notin> open_cells ?w" for x
      using that facts(9) [of x] by simp
  qed (simp_all add: i(2))
  then show ?thesis
    by (rule keep_moves [rotated]) (use step n l(2) i(1) facts(6) in simp_all)
qed

lemma return_moves:
  assumes inv: "sys_inv prog start cb Ok L Q ks ns (cs, w)" and i: "i < length cs" "cs ! i = Inside p (Run p u)"
    and prog: "prog u = Return e"
  shows "moves_on prog start cb Ok (steps_left ks ns) i cs (Some (run_step prog cb i p (Run p u) w))"
proof -
  note facts = sys_inv_facts [OF inv]
  from facts(7) [OF i(1)] obtain k where n: "ns ! i = 4 * k + 2" and works: "works prog start cb Ok w p u k"
    by (auto simp: i(2))
  from works obtain t where
    t: "heap w p = Some t" "t_flags t = 0" "t_terminated t = None" "t_callback t = None" and
    e': "halts prog start cb (\<lambda>e. \<forall>x. t_status t = Some x \<longrightarrow> Ok x e) u k"
    unfolding works_def ends_in_def by blast
  from e' prog have e: "Ok x e" if "t_status t = Some x" for x using that by cases auto
  let ?t = "t\<lparr>t_flags := t_flags t OR TASK_TERMINATED\<rparr>"
  let ?w = "(case t_status t of None \<Rightarrow> id | Some a \<Rightarrow> ints_update (\<lambda>m. m(a := e))) (task_put p ?t w)"
  have step: "run_step prog cb i p (Run p u) w = Inr (Landed p 0, ?w)"
    by (simp add: prog landing_step_def taskmain_finish_plain [OF t(1,3,4)] facts(8) [OF i(1)])
  have same: "heap ?w = (heap w)(p := Some ?t)" "tasks ?w = tasks w" "taskq ?w = taskq w"
    "tls_task ?w = tls_task w" "tls_context ?w = tls_context w"
    "ints ?w = (case t_status t of None \<Rightarrow> ints w | Some a \<Rightarrow> (ints w)(a := e))"
    by (simp_all split: option.splits)
  have flag: "t_flags ?t AND TASK_TERMINATED \<noteq> 0" using terminated_flag t(2) by simp
  have "sys_inv prog start cb Ok L Q ks (ns[i := 1]) (cs[i := Landed p 0], ?w)"
  proof (rule sys_inv_keep [OF inv i(1), where p = p])
    have "world_rep (task_put p ?t w) L Q" using facts(1) t(1) by (simp add: world_rep_put)
    then show "world_rep ?w L Q" using world_rep_cong [of ?w "task_put p ?t w" L Q] same by simp
    show "control_ok prog start cb Ok i ?w (Landed p 0) 1"
      using same(1) flag by auto
    have cells: "open_cells w \<subseteq> open_cells ?w \<union> {x. t_status t = Some x}"
      using open_cells_others(1) [of p ?w w] same(1) t(1,2) by (simp add: cell_of_def)
    show "Ok x (ints ?w x)" if x: "x \<notin> open_cells ?w" for x
    proof (cases "t_status t = Some x")
      case True
      then show ?thesis using e by (simp add: same(6))
    next
      case False
      with x cells have "Ok x (ints w x)" by (intro facts(9)) auto
      with False show ?thesis unfolding same(6) by (auto split: option.splits)
    qed
  qed (use same in \<open>simp_all add: i(2)\<close>)
  then show ?thesis
    by (rule keep_moves [rotated]) (use step n i(1) facts(6) in simp_all)
qed

lemma taskmain_args_take:
  "t_argc t = argc \<Longrightarrow> t_argv t = take argc va \<Longrightarrow> argc \<le> 6 \<Longrightarrow> argc \<le> length va \<Longrightarrow>
    taskmain_args t = Some (take argc va)"
  using taskmain_args_spec [of t] by simp

text \<open>The outcome of a creation.\<close>

lemma create_outcome:
  assumes new: "creates cb n g argc va" and rep: "world_rep w L Q" and args: "argc \<le> 6"
  obtains (failed) r w' where "u_call cb i n w = Inr (r, w')" "world_rep w' L Q" "heap w' = heap w"
      "ints w' = ints w" "tls_task w' = tls_task w" "tls_context w' = tls_context w"
    | (created) q r w' where "u_call cb i n w = Inr (r, w')" "heap w q = None" "world_rep w' (L @ [q]) (Q @ [q])"
      "\<And>p. p \<noteq> q \<Longrightarrow> heap w' p = heap w p" "cell_of (heap w' q) = None"
      "job_rep start w' (q, None, start (Some g) (take argc va))"
      "ints w' = ints w" "tls_task w' = tls_task w" "tls_context w' = tls_context w"
proof -
  from new have len: "argc \<le> length va" by (simp add: creates_def)
  from new obtain mt rc ms where fresh: "fresh_task mt w" and
    call: "u_call cb i n w = and_then (pcaio_fschedule mt rc ms (Some g) None argc va w)
        (\<lambda>(tp, w). Inr (case tp of None \<Rightarrow> 0 | Some p \<Rightarrow> uint p, w))" unfolding creates_def by metis
  show thesis
  proof (cases "task_new_ok mt rc ms (Some g)")
    case False
    from fschedule_failure [OF rep fresh len False, of None] obtain w' where
      w': "pcaio_fschedule mt rc ms (Some g) None argc va w = Inr (None, w')" "world_rep w' L Q" "heap w' = heap w"
      by blast
    from failed [OF _ w'(2,3)] call w'(1) fschedule_frame [OF w'(1)] show thesis by simp
  next
    case True
    then obtain q sp where args': "mt = Some q" "rc = 0" "ms = Some sp" by (auto simp: task_new_ok_def)
    with fresh have q: "q \<noteq> 0" "heap w q = None" by (simp_all add: fresh_task_def)
    from fschedule_success [OF rep q len, of sp g None] obtain w' t where
      w': "pcaio_fschedule mt rc ms (Some g) None argc va w = Inr (Some q, w')" "world_rep w' (L @ [q]) (Q @ [q])"
        "heap w' = (heap w)(q := Some t)" and
      t: "t_func t = Some g" "t_argv t = take argc va" "t_argc t = argc" "t_flags t = 0" "t_status t = None"
        "t_terminated t = None" "t_callback t = None" "t_context t = Entry (task_hi q) (task_lo q)"
      unfolding args' by blast
    have "job_rep start w' (q, None, start (Some g) (take argc va))"
      using w'(3) t taskmain_args_take [OF t(3,2) args len] by simp
    moreover have "cell_of (heap w' q) = None" using w'(3) t(5) by (simp add: cell_of_def)
    ultimately show thesis
      using created [OF _ q(2) w'(2)] call w'(1,3) fschedule_frame [OF w'(1)] by simp
  qed
qed

lemma create_moves:
  assumes inv: "sys_inv prog start cb Ok L Q ks ns (cs, w)" and i: "i < length cs" "cs ! i = Inside p (Run p u)"
    and prog: "prog u = Call n f" and new: "creates cb n g argc va" "argc \<le> 6"
    and child: "halts prog start cb (\<lambda>_. True) (start (Some g) (take argc va)) l"
    and t: "heap w p = Some t" "t_flags t = 0" "t_terminated t = None" "t_callback t = None"
    and rest: "\<And>r. halts prog start cb (\<lambda>e. \<forall>x. t_status t = Some x \<longrightarrow> Ok x e) (f r) k"
    and bound: "ns ! i = 4 * (k + l + 2) + 2"
  shows "moves_on prog start cb Ok (steps_left ks ns) i cs (Some (run_step prog cb i p (Run p u) w))"
proof -
  note facts = sys_inv_facts [OF inv]
  from facts(7) [OF i(1)] have self: "pcaio_self i w = Some p" by (simp add: i(2))
  have works: "works prog start cb Ok w' p (f r) k" if "heap w' p = heap w p" for w' r
    using that t rest by (simp add: works_def ends_in_def)
  show ?thesis
  proof (cases rule: create_outcome [where i = i and start = start, OF new(1) facts(1) new(2)])
    case failed: (1 r w')
    have step: "run_step prog cb i p (Run p u) w = Inr (Inside p (Run p (f r)), w')" by (simp add: prog failed(1))
    have "sys_inv prog start cb Ok L Q ks (ns[i := 4 * k + 2]) (cs[i := Inside p (Run p (f r))], w')"
    proof (rule sys_inv_keep [OF inv i(1), where p = p])
      show "control_ok prog start cb Ok i w' (Inside p (Run p (f r))) (4 * k + 2)"
        using works [of w'] self failed(3,5) by (simp add: pcaio_self_def)
      show "Ok x (ints w' x)" if "x \<notin> open_cells w'" for x
        using that facts(9) [of x] open_cells_cong [OF failed(3)] failed(4) by simp
    qed (use failed in \<open>simp_all add: i(2)\<close>)
    then show ?thesis
      by (rule keep_moves [rotated]) (use step bound i(1) facts(6) in simp_all)
  next
    case created: (2 q r w')
    have step: "run_step prog cb i p (Run p u) w = Inr (Inside p (Run p (f r)), w')" by (simp add: prog created(1))
    have same: "held (Inside p (Run p (f r))) = held (cs ! i)" by (simp add: i(2))
    have "q \<notin> set L" using world_rep_members [OF facts(1), of q] created(2) by simp
    then have out: "q \<notin> set Q" "q \<notin> carried cs" using facts(2) by auto
    have ne: "x \<noteq> q" if "j < length cs" "held (cs ! j) = Some x" for j x
      using carriedI [OF that] out(2) by auto
    have pq: "p \<noteq> q" using t(1) created(2) by auto
    have "sys_inv prog start cb Ok (L @ [q]) (Q @ [q]) (ks @ [l]) (ns[i := 4 * k + 2])
        (cs[i := Inside p (Run p (f r))], w')"
    proof (rule sys_inv_update [OF inv i(1) created(3)])
      show "set (L @ [q]) = set (Q @ [q]) \<union> carried (cs[i := Inside p (Run p (f r))])"
        using facts(2) carried_keep [OF same] by auto
      have "exclusive cs (Q @ [q])"
        using facts(3) out ne by (auto simp: exclusive_def)
      then show "exclusive (cs[i := Inside p (Run p (f r))]) (Q @ [q])" using exclusive_keep [OF same] by blast
      have "waits prog start cb Ok w' q l"
        unfolding waits_def ends_in_def using created(6) child
        by (intro exI [of _ None] exI [of _ "start (Some g) (take argc va)"]) simp
      moreover have "list_all2 (waits prog start cb Ok w') Q ks"
        using facts(5) out(1) by (subst waits_all_cong [of _ _ w]) (auto intro!: created(4))
      ultimately show "list_all2 (waits prog start cb Ok w') (Q @ [q]) (ks @ [l])" by (simp add: list_all2_appendI)
      show "heap w' x = heap w x" if "j < length cs" "j \<noteq> i" "held (cs ! j) = Some x" for j x
        using created(4) ne that by blast
      show "control_ok prog start cb Ok i w' (Inside p (Run p (f r))) (4 * k + 2)"
        using works [of w'] self created(4) [OF pq] created(8) by (simp add: pcaio_self_def)
      have "open_cells w' = open_cells w"
        by (rule open_cells_others(2) [of q]) (use created(2,4,5) in \<open>simp_all add: cell_of_def\<close>)
      then show "Ok x (ints w' x)" if "x \<notin> open_cells w'" for x
        using that facts(9) [of x] created(7) by simp
    qed (use facts(4) created(8,9) in \<open>simp_all add: pcaio_self_def\<close>)
    then show ?thesis
      by (rule moves_onI [rotated])
        (use step bound i(1) facts(6) steps_left_update [of i ns ks "4 * k + 2"] in \<open>simp_all add: steps_left_def\<close>)
  qed
qed

lemma ask_moves:
  assumes inv: "sys_inv prog start cb Ok L Q ks ns (cs, w)" and i: "i < length cs" "cs ! i = Inside p (Run p u)"
    and prog: "prog u = Self f" and bound: "ns ! i = 4 * Suc k + 2"
    and rest: "\<And>x. works prog start cb Ok w p (f x) k"
  shows "moves_on prog start cb Ok (steps_left ks ns) i cs (Some (run_step prog cb i p (Run p u) w))"
proof -
  note facts = sys_inv_facts [OF inv]
  from facts(7) [OF i(1)] have self: "pcaio_self i w = Some p" by (simp add: i(2))
  have step: "run_step prog cb i p (Run p u) w = Inr (Inside p (Run p (f (Some p))), w)" by (simp add: prog self)
  have "sys_inv prog start cb Ok L Q ks (ns[i := 4 * k + 2]) (cs[i := Inside p (Run p (f (Some p)))], w)"
    by (rule sys_inv_keep [OF inv i(1), where p = p]) (use facts(1,9) self rest i(2) in simp_all)
  then show ?thesis
    by (rule keep_moves [rotated]) (use step bound i(1) facts(6) in simp_all)
qed

lemma run_moves:
  assumes inv: "sys_inv prog start cb Ok L Q ks ns (cs, w)" and i: "i < length cs" "cs ! i = Inside p pl"
  shows "moves_on prog start cb Ok (steps_left ks ns) i cs (Some (run_step prog cb i p pl w))"
proof -
  from sys_inv_facts(7) [OF inv i(1)] obtain u k where u: "pl = Run p u" "works prog start cb Ok w p u k"
    and n: "ns ! i = 4 * k + 2" by (auto simp: i(2))
  from u(2) obtain t where t: "heap w p = Some t" "t_flags t = 0" "t_terminated t = None" "t_callback t = None"
    and e: "halts prog start cb (\<lambda>e. \<forall>x. t_status t = Some x \<longrightarrow> Ok x e) u k"
    unfolding works_def ends_in_def by blast
  note at = i(2) [unfolded u(1)]
  from e show ?thesis
  proof (cases rule: halts.cases)
    case returns
    then show ?thesis unfolding u(1) by (intro return_moves [OF inv i(1) at])
  next
    case (relaxes f l)
    then show ?thesis unfolding u(1) by (intro relax_moves [OF inv i(1) at, of f])
  next
    case (asks f l)
    have "works prog start cb Ok w p (f x) l" for x using t asks(3) by (simp add: works_def ends_in_def)
    with ask_moves [OF inv i(1) at asks(2)] n asks(1) show ?thesis unfolding u(1) by simp
  next
    case (spawns n f g argc va l k')
    from create_moves [OF inv i(1) at spawns(2-5) t spawns(6)] n spawns(1) show ?thesis unfolding u(1) by simp
  qed
qed

lemma land_moves:
  assumes inv: "sys_inv prog start cb Ok L Q ks ns (cs, w)" and i: "i < length cs" "cs ! i = Landed p ret"
  shows "moves_on prog start cb Ok (steps_left ks ns) i cs (Some (land_step i p ret w))"
proof -
  note facts = sys_inv_facts [OF inv]
  from facts(7) [OF i(1)] have ret: "ret = 0" and what:
    "(\<exists>k. waits prog start cb Ok w p k \<and> ns ! i = 4 * k + 5) \<or>
     (\<exists>t. heap w p = Some t \<and> t_flags t AND TASK_TERMINATED \<noteq> 0 \<and> ns ! i = 1)"
    by (simp_all add: i(2))
  have held: "held (cs ! i) = Some p" "held (Looping :: 'a control) = None" by (simp_all add: i(2))
  note out = exclusiveD(1) [OF facts(3) i(1) held(1)]
  note gone = carried_drop [OF i(1) facts(3) held]
  from what show ?thesis
  proof
    assume "\<exists>k. waits prog start cb Ok w p k \<and> ns ! i = 4 * k + 5"
    then obtain k where k: "waits prog start cb Ok w p k" "ns ! i = 4 * k + 5" by blast
    then obtain t where t: "heap w p = Some t" "t_flags t = 0" by (auto simp: waits_def)
    from back_ready [OF facts(1) out t(1), of i] t(2) obtain w' where
      w': "worker_back i p 0 w = Inr (Again, w')" "world_rep w' L (Q @ [p])" "heap w' = heap w"
        "ints w' = ints w" "tls_key (tls_task w') = tls_key (tls_task w)" "tls_context w' = tls_context w"
      by auto
    have self: "pcaio_self j w' = pcaio_self j w" if "j \<noteq> i" for j
      using back_self [OF w'(1) that] .
    have step: "Some (land_step i p ret w) = Some (Inr (Looping, w'))"
      by (simp add: land_step_def settle_def ret w'(1))
    have "sys_inv prog start cb Ok L (Q @ [p]) (ks @ [k]) (ns[i := 0]) (cs[i := Looping], w')"
    proof (rule sys_inv_update [OF inv i(1) w'(2)])
      show "set L = set (Q @ [p]) \<union> carried (cs[i := Looping])"
        using facts(2) carriedI [OF i(1) held(1)] by (auto simp: gone)
      show "exclusive (cs[i := Looping]) (Q @ [p])" by (rule exclusive_queue [OF i(1) facts(3) held])
      show "list_all2 (waits prog start cb Ok w') (Q @ [p]) (ks @ [k])"
        using facts(5) k(1) waits_cong [of w' p w] w'(3)
        by (auto intro!: list_all2_appendI simp: waits_all_cong [of Q w' w])
      show "Ok x (ints w' x)" if "x \<notin> open_cells w'" for x
        using that facts(9) [of x] open_cells_cong [OF w'(3)] w'(4) by simp
    qed (use w' facts(4) self in simp_all)
    then show ?thesis
      by (rule moves_onI [OF step])
        (use k(2) i(1) facts(6) steps_left_update [of i ns ks 0] in \<open>simp add: steps_left_def\<close>)
  next
    assume "\<exists>t. heap w p = Some t \<and> t_flags t AND TASK_TERMINATED \<noteq> 0 \<and> ns ! i = 1"
    then obtain t where t: "heap w p = Some t" "t_flags t AND TASK_TERMINATED \<noteq> 0" "ns ! i = 1" by blast
    from back_terminated [OF facts(1) out t(1,2), of i] obtain w' where
      w': "worker_back i p 0 w = Inr (Again, w')" "world_rep w' (remove1 p L) Q"
        "heap w' = (heap w)(p := None)" "ints w' = ints w" "tls_key (tls_task w') = tls_key (tls_task w)"
        "tls_context w' = tls_context w" by auto
    have self: "pcaio_self j w' = pcaio_self j w" if "j \<noteq> i" for j
      using back_self [OF w'(1) that] .
    have step: "Some (land_step i p ret w) = Some (Inr (Looping, w'))"
      by (simp add: land_step_def settle_def ret w'(1))
    have "distinct L" using facts(1) by (simp add: world_rep_def rep_defs)
    then have L: "set (remove1 p L) = set Q \<union> carried (cs[i := Looping])"
      using facts(2) out by (auto simp: gone)
    have cells: "open_cells w' = open_cells w"
      by (rule open_cells_others(2) [of p]) (use t(1,2) w'(3) in \<open>simp_all add: cell_of_def\<close>)
    have "sys_inv prog start cb Ok (remove1 p L) Q ks (ns[i := 0]) (cs[i := Looping], w')"
    proof (rule sys_inv_update [OF inv i(1) w'(2) L])
      show "exclusive (cs[i := Looping]) Q" by (rule exclusive_drop [OF i(1) facts(3) held(2)])
      show "heap w' q = heap w q" if "j < length cs" "j \<noteq> i" "held (cs ! j) = Some q" for j q
        using exclusiveD(2) [OF facts(3) i(1) held(1) that(1)] that(2,3) w'(3) by auto
      show "list_all2 (waits prog start cb Ok w') Q ks"
        using facts(5) out w'(3) by (subst waits_all_cong [of _ _ w]) auto
      show "Ok x (ints w' x)" if "x \<notin> open_cells w'" for x
        using that facts(9) [of x] cells w'(4) by simp
    qed (use w' facts(4) self in simp_all)
    then show ?thesis
      by (rule moves_onI [OF step])
        (use t(3) i(1) facts(6) steps_left_update [of i ns ks 0] in simp)
  qed
qed

section \<open>Every interleaving\<close>

lemma thread_moves:
  assumes inv: "sys_inv prog start cb Ok L Q ks ns (cs, w)" and i: "i < length cs"
    and work: "Q \<noteq> [] \<or> held (cs ! i) \<noteq> None"
  shows "moves_on prog start cb Ok (steps_left ks ns) i cs (thread_step prog start cb i (cs ! i) w)"
proof (cases "cs ! i")
  case Looping
  then show ?thesis using fetch_moves [OF inv i Looping] work by simp
next
  case (Fetched p)
  then show ?thesis using enter_moves [OF inv i Fetched] by simp
next
  case (Inside p pl)
  then show ?thesis using run_moves [OF inv i Inside] by simp
next
  case (Landed p ret)
  then show ?thesis using land_moves [OF inv i Landed] by simp
qed (use sys_inv_facts(7) [OF inv i] in simp_all)

lemma thread_blocks:
  assumes inv: "sys_inv prog start cb Ok L [] ks ns (cs, w)" and i: "i < length cs" "held (cs ! i) = None"
  shows "cs ! i = Looping" "thread_step prog start cb i (cs ! i) w = None"
proof -
  show loop: "cs ! i = Looping" using i(2) sys_inv_facts(7) [OF inv i(1)] by (cases "cs ! i") simp_all
  have "qhead (taskq w) = None" using sys_inv_facts(1) [OF inv] by (simp add: world_rep_def rep_defs)
  then show "thread_step prog start cb i (cs ! i) w = None" unfolding loop by (simp add: fetch_step_def)
qed

text \<open>A state with the bound \<open>n\<close>.\<close>

definition sys_ok ::
  "('u \<Rightarrow> 'u uop) \<Rightarrow> (addr option \<Rightarrow> addr list \<Rightarrow> 'u) \<Rightarrow> ('u, 'z) userland \<Rightarrow> (addr \<Rightarrow> c_int \<Rightarrow> bool)
   \<Rightarrow> nat \<Rightarrow> ('u, 'z) system \<Rightarrow> bool" where
  "sys_ok prog start cb Ok n s \<longleftrightarrow> (\<exists>L Q ks ns. sys_inv prog start cb Ok L Q ks ns s \<and> steps_left ks ns = n)"

lemma sys_okE:
  assumes "sys_ok prog start cb Ok n (cs, w)"
  obtains L Q ks ns where "sys_inv prog start cb Ok L Q ks ns (cs, w)" "steps_left ks ns = n"
  using assms unfolding sys_ok_def by blast

text \<open>Preservation, with the bound going down.\<close>

lemma sys_ok_step:
  assumes "sys_step prog start cb s s'" "sys_ok prog start cb Ok n s"
  shows "\<exists>m < n. sys_ok prog start cb Ok m s'"
  using assms
proof (induction rule: sys_step.induct)
  case (move i cs w c w')
  from move(3) obtain L Q ks ns where inv: "sys_inv prog start cb Ok L Q ks ns (cs, w)" "steps_left ks ns = n"
    by (rule sys_okE)
  have "Q \<noteq> [] \<or> held (cs ! i) \<noteq> None" using thread_blocks(2) [OF _ move(1)] inv(1) move(2) by fastforce
  from thread_moves [OF inv(1) move(1) this] move(2) obtain L' Q' ks' ns' where
    "sys_inv prog start cb Ok L' Q' ks' ns' (cs[i := c], w')" "steps_left ks' ns' < n"
    by (auto simp: moves_on_def inv(2))
  then show ?case unfolding sys_ok_def by blast
qed

lemma sys_ok_run:
  "(sys_step prog start cb ^^ k) s s' \<Longrightarrow> sys_ok prog start cb Ok n s \<Longrightarrow> \<exists>m. sys_ok prog start cb Ok m s' \<and> m + k \<le> n"
proof (induction k arbitrary: s')
  case 0
  then show ?case by auto
next
  case (Suc k)
  from Suc.prems(1) obtain t where t: "(sys_step prog start cb ^^ k) s t" "sys_step prog start cb t s'" by auto
  from Suc.IH [OF t(1) Suc.prems(2)] obtain m where "sys_ok prog start cb Ok m t" "m + k \<le> n" by blast
  with sys_ok_step [OF t(2)] show ?case by fastforce
qed

lemma sys_ok_reach:
  assumes "(sys_step prog start cb)\<^sup>*\<^sup>* s s'" "sys_ok prog start cb Ok n s"
  shows "\<exists>m. sys_ok prog start cb Ok m s'"
  using assms sys_ok_run by (metis rtranclp_imp_relpowp)

text \<open>Progress: no fault, and rest only when everything is done.\<close>

lemma sys_ok_no_fault: "sys_ok prog start cb Ok n s \<Longrightarrow> \<not> sys_faults prog start cb s"
proof
  assume ok: "sys_ok prog start cb Ok n s" and fault: "sys_faults prog start cb s"
  obtain cs w where s: "s = (cs, w)" by (cases s)
  from fault obtain i e where i: "i < length cs" "thread_step prog start cb i (cs ! i) w = Some (Inl e)"
    by (auto simp: sys_faults_def s)
  from ok obtain L Q ks ns where inv: "sys_inv prog start cb Ok L Q ks ns (cs, w)" unfolding s by (rule sys_okE)
  have "Q \<noteq> [] \<or> held (cs ! i) \<noteq> None" using thread_blocks(2) [OF _ i(1)] inv i(2) by fastforce
  from thread_moves [OF inv i(1) this] i(2) show False by (simp add: moves_on_def)
qed

lemma sys_ok_rest:
  assumes "sys_ok prog start cb Ok n (cs, w)" "sys_rests prog start cb (cs, w)" "cs \<noteq> []"
  shows "world_rep w [] []" "\<And>c. c \<in> set cs \<Longrightarrow> c = Looping" "\<And>x. Ok x (ints w x)"
proof -
  from assms(1) obtain L Q ks ns where inv: "sys_inv prog start cb Ok L Q ks ns (cs, w)" by (rule sys_okE)
  note facts = sys_inv_facts [OF inv]
  have still: "thread_step prog start cb i (cs ! i) w = None" if "i < length cs" for i
    using assms(2) that by (simp add: sys_rests_def)
  have idle: "Q = [] \<and> held (cs ! i) = None" if "i < length cs" for i
  proof (rule ccontr)
    assume "\<not> (Q = [] \<and> held (cs ! i) = None)"
    then have "Q \<noteq> [] \<or> held (cs ! i) \<noteq> None" by blast
    from thread_moves [OF inv that this] still [OF that] show False by (simp add: moves_on_def)
  qed
  have Q: "Q = []" using idle [of 0] assms(3) by simp
  have "carried cs = {}" using idle by (auto simp: carried_def)
  with facts(2) Q have L: "L = []" by simp
  show rep: "world_rep w [] []" using facts(1) by (simp add: L Q)
  show "c = Looping" if "c \<in> set cs" for c
    using that thread_blocks(1) [OF inv [unfolded Q]] idle by (metis in_set_conv_nth)
  have "open_cells w = {}"
    using world_rep_members [OF rep] by (simp add: open_cells_def cell_of_def split: option.splits)
  then show "Ok x (ints w x)" for x using facts(9) by simp
qed

text \<open>Every run can be continued until it rests.\<close>

lemma sys_moves_or_rests:
  "\<not> sys_faults prog start cb s \<Longrightarrow> sys_rests prog start cb s \<or> (\<exists>s'. sys_step prog start cb s s')"
proof (rule disjCI)
  assume safe: "\<not> sys_faults prog start cb s" and stuck: "\<nexists>s'. sys_step prog start cb s s'"
  obtain cs w where s: "s = (cs, w)" by (cases s)
  show "sys_rests prog start cb s"
    unfolding sys_rests_def s fst_conv snd_conv
  proof (intro allI impI)
    fix i assume i: "i < length cs"
    show "thread_step prog start cb i (cs ! i) w = None"
    proof (rule ccontr)
      assume "thread_step prog start cb i (cs ! i) w \<noteq> None"
      then obtain r where r: "thread_step prog start cb i (cs ! i) w = Some r" by blast
      with safe i obtain x where "r = Inr x" by (cases r) (auto simp: sys_faults_def s)
      with r obtain c w' where "thread_step prog start cb i (cs ! i) w = Some (Inr (c, w'))" by (cases x) simp
      from sys_step.move [OF i this] stuck show False by (auto simp: s)
    qed
  qed
qed

lemma sys_ok_completes:
  "sys_ok prog start cb Ok n s \<Longrightarrow> \<exists>s'. (sys_step prog start cb)\<^sup>*\<^sup>* s s' \<and> sys_rests prog start cb s'"
proof (induction n arbitrary: s rule: less_induct)
  case (less n)
  from sys_moves_or_rests [OF sys_ok_no_fault [OF less.prems]] show ?case
  proof
    assume "\<exists>s'. sys_step prog start cb s s'"
    then obtain t where t: "sys_step prog start cb s t" by blast
    from sys_ok_step [OF t less.prems] obtain m where "m < n" "sys_ok prog start cb Ok m t" by blast
    from less.IH [OF this] t show ?thesis by (meson converse_rtranclp_into_rtranclp)
  qed blast
qed

lemma sys_ok_exclusive:
  assumes "sys_ok prog start cb Ok n (cs, w)"
  shows "\<exists>L Q. world_rep w L Q \<and> exclusive cs Q \<and> set L = set Q \<union> carried cs"
proof -
  from assms obtain L Q ks ns where "sys_inv prog start cb Ok L Q ks ns (cs, w)" by (rule sys_okE)
  from sys_inv_facts(1-3) [OF this] show ?thesis by blast
qed

lemma sys_steps_length:
  "(sys_step prog start cb)\<^sup>*\<^sup>* s s' \<Longrightarrow> length (fst s') = length (fst s)"
  by (induction rule: rtranclp_induct) (auto elim!: sys_step.cases)

section \<open>The start\<close>

text \<open>\<open>n\<close> workers that have stored their landing contexts, and the jobs \<open>js\<close> in the
  queue.\<close>

definition crew_rep ::
  "(addr option \<Rightarrow> addr list \<Rightarrow> 'u) \<Rightarrow> nat \<Rightarrow> ('u frame, 'z) world_scheme \<Rightarrow> 'u job list \<Rightarrow> bool" where
  "crew_rep start n w js \<longleftrightarrow>
    (\<exists>L. world_rep w L (map fst js) \<and> set L = fst ` set js) \<and> (\<forall>j \<in> set js. job_rep start w j) \<and>
    tls_key (tls_task w) \<and> (\<forall>i < n. threadlocal_get i (tls_context w) = Some i)"

lemma jobs_wait:
  assumes "\<forall>j \<in> set js. job_rep start w j" "\<forall>(p, s, u) \<in> set js. \<exists>k. ends_in prog start cb Ok u s k"
  shows "\<exists>ks. list_all2 (waits prog start cb Ok w) (map fst js) ks"
  using assms
proof (induction js)
  case Nil
  then show ?case by auto
next
  case (Cons j js)
  obtain p s u where j: "j = (p, s, u)" by (cases j)
  from Cons obtain ks where ks: "list_all2 (waits prog start cb Ok w) (map fst js) ks" by auto
  from Cons.prems obtain k where k: "ends_in prog start cb Ok u s k" by (auto simp: j)
  have "job_rep start w (p, s, u)" using Cons.prems(1) unfolding j by simp
  with k have "waits prog start cb Ok w p k" unfolding waits_def by blast
  with ks show ?case by (intro exI [of _ "k # ks"]) (simp add: j)
qed

lemma statuses_open:
  assumes "\<forall>j \<in> set js. job_rep start w j" "x \<notin> open_cells w" shows "x \<notin> statuses js"
proof
  assume "x \<in> statuses js"
  then obtain p u where "(p, Some x, u) \<in> set js" by (auto simp: statuses_def)
  with assms(1) have "job_rep start w (p, Some x, u)" by blast
  then have "cell_of (heap w p) = Some x" by (auto simp: cell_of_def)
  with assms(2) show False by (auto simp: open_cells_def)
qed

lemma carried_start: "carried (replicate n Looping) = {}" "exclusive (replicate n Looping) Q \<longleftrightarrow> distinct Q"
  by (auto simp: carried_def exclusive_def)

lemma crew_starts:
  assumes crew: "crew_rep start n w js" and jobs: "\<forall>(p, s, u) \<in> set js. \<exists>k. ends_in prog start cb Ok u s k"
    and rest: "\<forall>x. x \<notin> statuses js \<longrightarrow> Ok x (ints w x)"
  shows "\<exists>b. sys_ok prog start cb Ok b (replicate n Looping, w)"
proof -
  from crew obtain L where L: "world_rep w L (map fst js)" "set L = fst ` set js"
    by (auto simp: crew_rep_def)
  have reps: "\<forall>j \<in> set js. job_rep start w j" using crew by (simp add: crew_rep_def)
  from jobs_wait [OF reps jobs] obtain ks where
    ks: "list_all2 (waits prog start cb Ok w) (map fst js) ks" by blast
  have "sys_inv prog start cb Ok L (map fst js) ks (replicate n 0) (replicate n Looping, w)"
    using L ks crew rest statuses_open [OF reps] world_rep_queue [OF L(1)]
    by (auto simp: sys_inv_def carried_start crew_rep_def)
  then show ?thesis unfolding sys_ok_def by blast
qed

lemma sample_crew:
  "\<exists>w :: nat frame world. crew_rep start2 2 w [(64, Some 32, 1), (128, None, 0)]"
proof -
  from sample_system obtain w :: "nat frame world" where
    w: "system_rep start2 3 w ([(64, Some 32, 1), (128, None, 0)], ints w)" by blast
  let ?w = "w\<lparr>tls_context := \<lparr>tls_key = True, tls_slot = Some\<rparr>\<rparr>"
  from w obtain L where L: "world_rep w L [64, 128]" "set L = {64, 128}" by (auto simp: system_rep_def)
  have "world_rep ?w L [64, 128]" using L(1) world_rep_cong [of ?w w] by simp
  then have "crew_rep start2 2 ?w [(64, Some 32, 1), (128, None, 0)]"
    using w L(2) by (auto simp: crew_rep_def system_rep_def threadlocal_get_def intro!: exI [of _ L])
  then show ?thesis by blast
qed

text \<open>A task that creates another: the only block \<open>malloc\<close> has for it is at 192.\<close>

definition spawner :: "(nat, 'z) userland" where
  "spawner = \<lparr>u_callback = (\<lambda>_ _. Inr), u_call = (\<lambda>i n w.
     and_then (pcaio_fschedule (if heap w 192 = None then Some 192 else None) 0 (Some 4096) (Some 9) None 0 [] w)
       (\<lambda>(tp, w). Inr (case tp of None \<Rightarrow> 0 | Some p \<Rightarrow> uint p, w)))\<rparr>"

definition prog3 :: "nat \<Rightarrow> nat uop" where
  "prog3 u = (if u = 0 then Return 5 else Call 0 (\<lambda>_. 0))"

lemma creates3: "creates spawner 0 9 0 []"
  unfolding creates_def spawner_def
  by (intro conjI allI exI [of _ "if heap _ 192 = None then Some 192 else None"] exI [of _ 0] exI [of _ "Some 4096"])
    (simp_all add: fresh_task_def)

lemma halts3: "Ok 5 \<Longrightarrow> halts prog3 start2 spawner Ok 0 0" "\<exists>k. halts prog3 start2 spawner (\<lambda>e. e = 5) 1 k"
proof -
  have zero: "halts prog3 start2 spawner Ok 0 0" if "Ok 5" for Ok
    using that by (intro halts.returns [of prog3 0 5]) (simp_all add: prog3_def)
  then show "Ok 5 \<Longrightarrow> halts prog3 start2 spawner Ok 0 0" .
  have "halts prog3 start2 spawner (\<lambda>e. e = 5) 1 (0 + 0 + 2)"
  proof (rule halts.spawns [where f = "\<lambda>_. 0" and g = 9 and argc = 0 and va = "[]"])
    show "prog3 1 = Call 0 (\<lambda>_. 0)" by (simp add: prog3_def)
    show "creates spawner 0 9 0 []" by (rule creates3)
  qed (simp_all add: zero start2_def)
  then show "\<exists>k. halts prog3 start2 spawner (\<lambda>e. e = 5) 1 k" by blast
qed

section \<open>Properties\<close>

text \<open>Property C9. Several workers are safe on tasks that compute, yield, create tasks with
  \<open>pcaio_fschedule\<close> and return: whatever the order of their steps, and whether or not the
  allocations succeed, no thread runs into a fault, the task list and the queue stay well formed,
  and every task that still exists, created ones included, is either in the queue, once, or with
  exactly one worker.\<close>

theorem workers_safe:
  assumes "crew_rep start n w js" "\<forall>(p, s, u) \<in> set js. \<exists>k. halts prog start cb (\<lambda>_. True) u k"
    and "(sys_step prog start cb)\<^sup>*\<^sup>* (replicate n Looping, w) (cs, w')"
  shows "\<not> sys_faults prog start cb (cs, w') \<and>
    (\<exists>L Q. world_rep w' L Q \<and> exclusive cs Q \<and> set L = set Q \<union> carried cs)"
proof -
  have "\<forall>(p, s, u) \<in> set js. \<exists>k. ends_in prog start cb (\<lambda>_ _. True) u s k"
    using assms(2) by (simp add: ends_in_def)
  from crew_starts [OF assms(1) this] obtain b where
    "sys_ok prog start cb (\<lambda>_ _. True) b (replicate n Looping, w)" by auto
  from sys_ok_reach [OF assms(3) this] obtain m where
    ok: "sys_ok prog start cb (\<lambda>_ _. True) m (cs, w')" by blast
  show ?thesis using sys_ok_no_fault [OF ok] sys_ok_exclusive [OF ok] by blast
qed

theorem workers_safe_witness:
  "\<exists>w s. sys_step prog2 start2 no_calls ([Looping, Looping], w :: nat frame world) s \<and>
    \<not> sys_faults prog2 start2 no_calls s \<and> carried (fst s) = {64}"
proof -
  from sample_crew obtain w :: "nat frame world" where
    w: "crew_rep start2 2 w [(64, Some 32, 1), (128, None, 0)]" by blast
  have fin: "\<forall>(p, s, u) \<in> set [(64 :: addr, Some (32 :: addr), 1), (128, None, 0)]. \<exists>k. halts prog2 start2 no_calls (\<lambda>_. True) u k"
    using finishes2 finishes_halts [of prog2 _ _ _ "\<lambda>_. True"] by fastforce
  from w obtain L where L: "world_rep w L (64 # [128])" by (auto simp: crew_rep_def)
  obtain q where q: "queue_pop (\<lambda>q. (0, q)) QWAIT (taskq w) = Some (0, Some 64, q)"
    by (rule world_rep_pop [OF L])
  have "qhead (taskq w) \<noteq> None" using L by (simp add: world_rep_def rep_defs)
  with q have fetch: "thread_step prog2 start2 no_calls 0 ([Looping, Looping] ! 0) w =
      Some (Inr (Fetched 64, tls_set_task 0 (Some 64) (w\<lparr>taskq := q\<rparr>)))"
    by (simp add: fetch_step_def)
  from sys_step.move [OF _ fetch] have
    step: "sys_step prog2 start2 no_calls ([Looping, Looping], w)
      ([Fetched 64, Looping], tls_set_task 0 (Some 64) (w\<lparr>taskq := q\<rparr>))" by simp
  from workers_safe [OF w fin] step
  have "\<not> sys_faults prog2 start2 no_calls ([Fetched 64, Looping], tls_set_task 0 (Some 64) (w\<lparr>taskq := q\<rparr>))"
    by (simp add: numeral_2_eq_2 r_into_rtranclp)
  moreover have "carried [Fetched 64, Looping] = {64}" by (auto simp: carried_def less_Suc_eq)
  ultimately show ?thesis using step by (metis fst_conv)
qed

text \<open>Property C8. Several workers finish their tasks and the tasks these create, in every
  interleaving: no run is longer than a bound that depends on the tasks only, and when no thread
  can move any more, every worker waits in the queue, every task is freed and every status
  pointer holds the exit value of its task, whatever the order of the steps was.\<close>

theorem workers_finish:
  assumes "crew_rep start n w js" "n > 0"
    and "\<forall>(p, s, u) \<in> set js. \<exists>k. halts prog start cb (\<lambda>e. \<forall>x. s = Some x \<longrightarrow> R x = e) u k"
    and "\<forall>x. x \<notin> statuses js \<longrightarrow> ints w x = R x"
  shows "\<exists>b. (\<forall>k s. (sys_step prog start cb ^^ k) (replicate n Looping, w) s \<longrightarrow> k \<le> b) \<and>
    (\<exists>s. (sys_step prog start cb)\<^sup>*\<^sup>* (replicate n Looping, w) s \<and> sys_rests prog start cb s) \<and>
    (\<forall>cs w'. (sys_step prog start cb)\<^sup>*\<^sup>* (replicate n Looping, w) (cs, w') \<longrightarrow>
      sys_rests prog start cb (cs, w') \<longrightarrow>
      cs = replicate n Looping \<and> world_rep w' [] [] \<and> (\<forall>p. heap w' p = None) \<and> ints w' = R)"
proof -
  let ?Ok = "\<lambda>x e. R x = e"
  have "\<forall>(p, s, u) \<in> set js. \<exists>k. ends_in prog start cb ?Ok u s k" using assms(3) by (simp add: ends_in_def)
  from crew_starts [OF assms(1) this] assms(4) obtain b where
    ok: "sys_ok prog start cb ?Ok b (replicate n Looping, w)" by fastforce
  have "k \<le> b" if "(sys_step prog start cb ^^ k) (replicate n Looping, w) s" for k s
    using sys_ok_run [OF that ok] by auto
  moreover have "cs = replicate n Looping \<and> world_rep w' [] [] \<and> (\<forall>p. heap w' p = None) \<and> ints w' = R"
    if run: "(sys_step prog start cb)\<^sup>*\<^sup>* (replicate n Looping, w) (cs, w')"
      and rest: "sys_rests prog start cb (cs, w')" for cs w'
  proof -
    from sys_ok_reach [OF run ok] obtain m where ok': "sys_ok prog start cb ?Ok m (cs, w')" by blast
    have len: "length cs = n" using sys_steps_length [OF run] by simp
    then have "cs \<noteq> []" using assms(2) by auto
    note last = sys_ok_rest [OF ok' rest this]
    have "\<forall>p. heap w' p = None" using world_rep_members [OF last(1)] by simp
    then show ?thesis using last len by (auto intro: replicate_eqI)
  qed
  ultimately show ?thesis using sys_ok_completes [OF ok] by blast
qed

theorem workers_finish_witness:
  "\<exists>w cs w'. heap (w :: nat frame world) 64 \<noteq> None \<and>
    (sys_step prog3 start2 spawner)\<^sup>*\<^sup>* ([Looping, Looping], w) (cs, w') \<and>
    world_rep w' [] [] \<and> ints w' 32 = 5"
proof -
  from sample_crew obtain w :: "nat frame world" where
    w: "crew_rep start2 2 w [(64, Some 32, 1), (128, None, 0)]" by blast
  let ?R = "(ints w)(32 := 5)"
  have fin: "\<forall>(p, s, u) \<in> set [(64 :: addr, Some (32 :: addr), 1), (128, None, 0)].
      \<exists>k. halts prog3 start2 spawner (\<lambda>e. \<forall>x. s = Some x \<longrightarrow> ?R x = e) u k"
    using halts3(1) [of "\<lambda>_. True"] halts3(2) by auto
  have "\<forall>x. x \<notin> statuses [(64 :: addr, Some (32 :: addr), 1 :: nat), (128, None, 0)] \<longrightarrow> ints w x = ?R x"
    by (simp add: statuses_def)
  note all = workers_finish [OF w _ fin this]
  have two: "[Looping, Looping] = replicate 2 Looping" by (simp add: numeral_2_eq_2)
  from all obtain cs w' where
    run: "(sys_step prog3 start2 spawner)\<^sup>*\<^sup>* ([Looping, Looping], w) (cs, w')"
      "sys_rests prog3 start2 spawner (cs, w')"
    unfolding two by fastforce
  with all have "world_rep w' [] []" "ints w' = ?R" unfolding two by fastforce+
  moreover note run(1)
  moreover have "heap w 64 \<noteq> None" using w by (auto simp: crew_rep_def)
  ultimately show ?thesis by (intro exI [of _ w] exI [of _ cs] exI [of _ w']) simp
qed

end
