(* ===== verification/Alone.thy ===== *)
theory Alone
  imports Interleave
begin

text \<open>
  The steps of a thread that no other thread disturbs, put together again: they make exactly
  one round of \<open>worker\<close>, as \<open>Worker.worker_iter\<close> describes it in one piece, or go on for ever
  exactly when that never returns.
\<close>

section \<open>A round of steps\<close>

partial_function (option) finish_round ::
  "('u \<Rightarrow> 'u uop) \<Rightarrow> (addr option \<Rightarrow> addr list \<Rightarrow> 'u)
   \<Rightarrow> ('u, 'z) userland
   \<Rightarrow> tid \<Rightarrow> 'u control \<Rightarrow> ('u frame, 'z) world_scheme \<Rightarrow> ('u, 'z) moved option" where
  "finish_round prog start cb i c w =
    (case c of
       Looping \<Rightarrow> Some (Inr (c, w))
     | Stopped r \<Rightarrow> Some (Inr (c, w))
     | Vanished \<Rightarrow> Some (Inr (c, w))
     | _ \<Rightarrow>
       (case thread_step prog start cb i c w of
          None \<Rightarrow> None
        | Some (Inl e) \<Rightarrow> Some (Inl e)
        | Some (Inr (c, w)) \<Rightarrow> finish_round prog start cb i c w))"

definition one_round ::
  "('u \<Rightarrow> 'u uop) \<Rightarrow> (addr option \<Rightarrow> addr list \<Rightarrow> 'u)
   \<Rightarrow> ('u, 'z) userland
   \<Rightarrow> tid \<Rightarrow> ('u frame, 'z) world_scheme \<Rightarrow> ('u, 'z) moved option" where
  "one_round prog start cb i w =
    (case thread_step prog start cb i Looping w of
       None \<Rightarrow> None
     | Some (Inl e) \<Rightarrow> Some (Inl e)
     | Some (Inr (c, w)) \<Rightarrow> finish_round prog start cb i c w)"

lemma finish_round_simps [simp]:
  "finish_round prog start cb i Looping w = Some (Inr (Looping, w))"
  "finish_round prog start cb i (Stopped r) w = Some (Inr (Stopped r, w))"
  "finish_round prog start cb i Vanished w = Some (Inr (Vanished, w))"
  by (simp_all add: finish_round.simps)

lemma finish_settled [simp]:
  "(case settle r of Inl e \<Rightarrow> Some (Inl e) | Inr (c, w) \<Rightarrow> finish_round prog start cb i c w) = Some (settle r)"
  by (cases r) (auto simp: settle_def split: wstat.splits)

lemma finish_landed [simp]:
  "finish_round prog start cb i (Landed t ret) w = Some (settle (worker_back i t ret w))"
  by (simp add: finish_round.simps [of _ _ _ _ "Landed t ret"] land_step_def)

lemma finish_inside:
  "finish_round prog start cb i (Inside t pl) w =
    (case run_step prog cb i t pl w of
       Inl e \<Rightarrow> Some (Inl e)
     | Inr (c, w) \<Rightarrow> finish_round prog start cb i c w)"
  by (simp add: finish_round.simps [of _ _ _ _ "Inside t pl"])

section \<open>What is left of a call\<close>

text \<open>The rest of \<open>pcaio_gatherA\<close> from the loop on.\<close>

definition arming_rest ::
  "tid \<Rightarrow> addr \<Rightarrow> addr list \<Rightarrow> 'k \<Rightarrow> ('k, 'z) world_scheme \<Rightarrow> fault + (relax \<times> ('k, 'z) world_scheme)" where
  "arming_rest i g ts k w =
    and_then (gather_push g ts w) (\<lambda>(ret, w).
      if ret \<noteq> 0 then Inr (Returned (-1), gather_put g None w)
      else and_then (pcaio_relaxA i 0 k TASK_NOSCHEDULE w) (\<lambda>(r, w).
        case r of
          Switched c \<Rightarrow> Inr (Switched c, w)
        | Returned e \<Rightarrow>
            if e \<noteq> 0 then Inr (Returned (-1), gather_put g None w)
            else Inr (Returned 0, gather_put g None w)))"

lemma gatherA_arming:
  "pcaio_gatherA i g 0 0 k ts w = arming_rest i g ts k
    (gather_put g (Some \<lparr>g_count = of_nat (length ts), g_mutex = True, g_task = pcaio_self i w\<rparr>) w)"
  by (simp add: pcaio_gatherA_def arming_rest_def)

lemma gather_push_Cons:
  "gather_push g (q # qs) w =
    and_then (gather_push g [q] w) (\<lambda>(ret, w). if ret \<noteq> 0 then Inr (-1, w) else gather_push g qs w)"
  by (cases "task_at q w") (simp_all add: Let_def split: prod.splits)

lemma arming_rest_Cons:
  "arming_rest i g (q # qs) k w =
    and_then (gather_push g [q] w) (\<lambda>(ret, w).
      if ret \<noteq> 0 then Inr (Returned (-1), gather_put g None w) else arming_rest i g qs k w)"
  unfolding arming_rest_def gather_push_Cons [of g q qs]
  by (cases "gather_push g [q] w") (simp_all del: gather_push.simps split: prod.splits)

definition call_rest ::
  "('u \<Rightarrow> ('u frame, 'z) world_scheme \<Rightarrow> 'r option) \<Rightarrow> (fault + (int option \<times> ('u frame, 'z) world_scheme) \<Rightarrow> 'r option)
   \<Rightarrow> (c_int \<Rightarrow> 'u) \<Rightarrow> fault + (relax \<times> ('u frame, 'z) world_scheme) \<Rightarrow> 'r option" where
  "call_rest go stop k r =
    (case r of
       Inl e \<Rightarrow> stop (Inl e)
     | Inr (Switched c, w) \<Rightarrow> stop (Inr (Some 0, w))
     | Inr (Returned r, w) \<Rightarrow> go (k r) w)"

lemma finish_arming:
  "finish_round prog start cb i (Inside t (Arming p g ts k)) w =
    call_rest (\<lambda>u w. finish_round prog start cb i (Inside t (Run p u)) w)
      (\<lambda>r. map_option settle (worker_switch i t (Some r))) k
      (arming_rest i g ts (Gathered g (k 0)) w)"
proof (induction ts arbitrary: w)
  case Nil
  show ?case
    by (cases "pcaio_relaxA i 0 (Gathered g (k 0)) TASK_NOSCHEDULE w")
      (auto simp: finish_inside [of _ _ _ _ t "Arming p g [] k"] arming_rest_def relax_step_def call_rest_def
        gather_failed_def worker_switch_def settle_def split: relax.splits)
next
  case (Cons q qs)
  show ?case
    by (cases "gather_push g [q] w")
      (auto simp: finish_inside [of _ _ _ _ t "Arming p g (q # qs) k"] arming_rest_Cons call_rest_def
        gather_failed_def worker_switch_def settle_def Cons.IH simp del: gather_push.simps)
qed

section \<open>The two executions have the same equations\<close>

definition switch_back ::
  "tid \<Rightarrow> addr \<Rightarrow> fault + (int option \<times> ('u frame, 'z) world_scheme) \<Rightarrow> ('u, 'z) moved option" where
  "switch_back i t r = map_option settle (worker_switch i t (Some r))"

definition landed_status ::
  "fault + (tid option \<times> ('k, 'z) world_scheme) \<Rightarrow> fault + (int option \<times> ('k, 'z) world_scheme)" where
  "landed_status r = and_then r (\<lambda>(landing, w). Inr (map_option (\<lambda>_. 0) landing, w))"

definition run_rest ::
  "('u \<Rightarrow> 'u uop)
   \<Rightarrow> ('u, 'z) userland
   \<Rightarrow> tid \<Rightarrow> addr \<Rightarrow> ('u \<Rightarrow> ('u frame, 'z) world_scheme \<Rightarrow> 'r option)
   \<Rightarrow> (fault + (int option \<times> ('u frame, 'z) world_scheme) \<Rightarrow> 'r option)
   \<Rightarrow> 'u \<Rightarrow> ('u frame, 'z) world_scheme \<Rightarrow> 'r option" where
  "run_rest prog cb i p go stop u w =
    (case prog u of
       Return e \<Rightarrow> stop (landed_status (taskmain_finish gather_run_hook (u_callback cb) i p (Some e) w))
     | Relax f k \<Rightarrow> call_rest go stop k (pcaio_relaxA i 0 (Relaxed (k 0)) f w)
     | Gather g ts k \<Rightarrow> call_rest go stop k (pcaio_gatherA i g 0 0 (Gathered g (k 0)) ts w)
     | Schedule tp k \<Rightarrow> (case pcaio_schedule tp w of (r, w) \<Rightarrow> go (k r) w)
     | Self k \<Rightarrow> go (k (pcaio_self i w)) w
     | Call n k \<Rightarrow>
        (case u_call cb i n w of
           Inl e \<Rightarrow> stop (Inl e)
         | Inr (r, w) \<Rightarrow> go (k r) w))"

lemma exec_rest: "exec prog cb i p u w = run_rest prog cb i p (exec prog cb i p) Some u w"
  by (subst exec.simps) (simp add: run_rest_def call_rest_def landed_status_def cong: uop.case_cong)

lemma landing_back:
  "(case landing_step t r of
      Inl e \<Rightarrow> Some (Inl e)
    | Inr (c, w) \<Rightarrow> finish_round prog start cb i c w) = switch_back i t (landed_status r)"
  by (cases r) (auto simp: landing_step_def landed_status_def switch_back_def worker_switch_def settle_def
    split: option.splits)

lemma relax_back:
  "(case relax_step t (\<lambda>e w. (Run p (k e), w)) r of
      Inl e \<Rightarrow> Some (Inl e)
    | Inr (c, w) \<Rightarrow> finish_round prog start cb i c w) =
    call_rest (\<lambda>u w. finish_round prog start cb i (Inside t (Run p u)) w) (switch_back i t) k r"
  by (cases r) (auto simp: relax_step_def call_rest_def switch_back_def worker_switch_def settle_def
    split: relax.splits)

lemma finish_run:
  "finish_round prog start cb i (Inside t (Run p u)) w =
    run_rest prog cb i p (\<lambda>u w. finish_round prog start cb i (Inside t (Run p u)) w) (switch_back i t) u w"
  unfolding run_rest_def finish_inside [of _ _ _ _ t "Run p u"]
  by (cases "prog u") (simp_all add: landing_back relax_back finish_arming gatherA_arming
    switch_back_def [abs_def] worker_switch_def settle_def split: prod.splits sum.splits)

lemma exec_finish:
  fixes w :: "('u frame, 'z) world_scheme"
  assumes "exec prog cb i p u w = Some r"
  shows "finish_round prog start cb i (Inside t (Run p u)) w = switch_back i t r"
proof (rule exec.raw_induct [where P = "\<lambda>prog cb i p u w r.
    finish_round prog start cb i (Inside t (Run p u)) w = switch_back i t r", OF _ assms])
  fix ex and prog :: "'u \<Rightarrow> 'u uop" and i p u and w :: "('u frame, 'z) world_scheme" and r
    and cb :: "('u, 'z) userland"
  assume IH: "\<And>(prog :: 'u \<Rightarrow> 'u uop) cb i p u (w :: ('u frame, 'z) world_scheme) r. ex prog cb i p u w = Some r \<Longrightarrow>
    finish_round prog start cb i (Inside t (Run p u)) w = switch_back i t r"
  let ?go = "\<lambda>u w. finish_round prog start cb i (Inside t (Run p u)) w"
  have call: "call_rest ?go (switch_back i t) k x = switch_back i t r"
    if "call_rest (ex prog cb i p) Some k x = Some r" for k x
    using that IH by (auto simp: call_rest_def split: sum.splits prod.splits relax.splits)
  assume "(case prog u of
       Return e \<Rightarrow>
        Some (and_then (taskmain_finish gather_run_hook (u_callback cb) i p (Some e) w)
          (\<lambda>(landing, w). Inr (map_option (\<lambda>_. 0) landing, w)))
     | Relax f k \<Rightarrow>
        (case pcaio_relaxA i 0 (Relaxed (k 0)) f w of
           Inl e \<Rightarrow> Some (Inl e)
         | Inr (Switched c, w) \<Rightarrow> Some (Inr (Some 0, w))
         | Inr (Returned r, w) \<Rightarrow> ex prog cb i p (k r) w)
     | Gather g ts k \<Rightarrow>
        (case pcaio_gatherA i g 0 0 (Gathered g (k 0)) ts w of
           Inl e \<Rightarrow> Some (Inl e)
         | Inr (Switched c, w) \<Rightarrow> Some (Inr (Some 0, w))
         | Inr (Returned r, w) \<Rightarrow> ex prog cb i p (k r) w)
     | Schedule tp k \<Rightarrow>
        (case pcaio_schedule tp w of (r, w) \<Rightarrow> ex prog cb i p (k r) w)
     | Self k \<Rightarrow> ex prog cb i p (k (pcaio_self i w)) w
     | Call n k \<Rightarrow>
        (case u_call cb i n w of
           Inl e \<Rightarrow> Some (Inl e)
         | Inr (r, w) \<Rightarrow> ex prog cb i p (k r) w)) = Some r"
  then have "run_rest prog cb i p (ex prog cb i p) Some u w = Some r"
    by (simp add: run_rest_def call_rest_def landed_status_def cong: uop.case_cong)
  then show "?go u w = switch_back i t r"
    unfolding finish_run [of prog start cb i t p u w] run_rest_def
    using call IH by (cases "prog u") (auto split: prod.splits sum.splits)
qed

text \<open>The other way round: a round that ends was a call that returned.\<close>

fun place_exec ::
  "('u \<Rightarrow> 'u uop)
   \<Rightarrow> ('u, 'z) userland
   \<Rightarrow> tid \<Rightarrow> 'u place \<Rightarrow> ('u frame, 'z) world_scheme
   \<Rightarrow> (fault + (int option \<times> ('u frame, 'z) world_scheme)) option" where
  "place_exec prog cb i (Run p u) w = exec prog cb i p u w"
| "place_exec prog cb i (Arming p g ts k) w =
    call_rest (exec prog cb i p) Some k (arming_rest i g ts (Gathered g (k 0)) w)"

fun continue_exec ::
  "('u \<Rightarrow> 'u uop)
   \<Rightarrow> ('u, 'z) userland
   \<Rightarrow> tid \<Rightarrow> addr \<Rightarrow> ('u, 'z) moved \<Rightarrow> (fault + (int option \<times> ('u frame, 'z) world_scheme)) option" where
  "continue_exec prog cb i t (Inl e) = Some (Inl e)"
| "continue_exec prog cb i t (Inr (Inside t' pl, w)) = (if t' = t then place_exec prog cb i pl w else None)"
| "continue_exec prog cb i t (Inr (Landed t' ret, w)) = (if t' = t \<and> ret = 0 then Some (Inr (Some 0, w)) else None)"
| "continue_exec prog cb i t (Inr (Vanished, w)) = Some (Inr (None, w))"
| "continue_exec prog cb i t (Inr (_, w)) = None"

lemma continue_relax:
  "continue_exec prog cb i t (relax_step t (\<lambda>e w. (Run p (k e), w)) r) = call_rest (exec prog cb i p) Some k r"
  by (cases r) (auto simp: relax_step_def call_rest_def split: relax.splits)

lemma continue_landing:
  "continue_exec prog cb i t (landing_step t r) = Some (landed_status r)"
  by (cases r) (auto simp: landing_step_def landed_status_def split: option.splits)

lemma place_exec_step: "place_exec prog cb i pl w = continue_exec prog cb i t (run_step prog cb i t pl w)"
proof (cases pl)
  case (Run p u)
  show ?thesis
    unfolding Run place_exec.simps exec_rest [of prog cb i p u w] run_rest_def
    by (cases "prog u") (simp_all add: continue_relax continue_landing gatherA_arming split: prod.splits sum.splits)
next
  case (Arming p g ts k)
  show ?thesis
  proof (cases ts)
    case Nil
    show ?thesis
      by (cases "pcaio_relaxA i 0 (Gathered g (k 0)) TASK_NOSCHEDULE w")
        (auto simp: Arming Nil arming_rest_def relax_step_def call_rest_def gather_failed_def split: relax.splits)
  next
    case (Cons q qs)
    show ?thesis
      by (cases "gather_push g [q] w")
        (auto simp: Arming Cons arming_rest_Cons call_rest_def gather_failed_def simp del: gather_push.simps)
  qed
qed

lemma run_step_kind:
  assumes "run_step prog cb i t pl w = Inr (c, w')"
  shows "(\<exists>pl'. c = Inside t pl') \<or> c = Landed t 0 \<or> c = Vanished"
proof -
  have relax: "(\<exists>pl'. c = Inside t pl') \<or> c = Landed t 0" if "relax_step t b r = Inr (c, w')" for b r
    using that by (cases r) (auto simp: relax_step_def split: relax.splits prod.splits)
  have landing: "c = Landed t 0 \<or> c = Vanished" if "landing_step t r = Inr (c, w')" for r
    using that by (auto simp: landing_step_def and_then_Inr split: option.splits)
  from assms show ?thesis
    by (cases "(prog, cb, i, t, pl, w)" rule: run_step.cases)
      (auto simp: and_then_Inr gather_failed_def split: uop.splits prod.splits if_splits dest: relax landing
        simp del: gather_push.simps)
qed

lemma settle_kind:
  "settle r = Inr (c, w) \<Longrightarrow> c = Looping \<or> (\<exists>r. c = Stopped r) \<or> c = Vanished"
  by (cases r) (auto simp: settle_def split: wstat.splits prod.splits)

text \<open>What a round that started at \<open>c\<close> and ended with \<open>r\<close> has done.\<close>

definition round_done ::
  "('u \<Rightarrow> 'u uop)
   \<Rightarrow> ('u, 'z) userland
   \<Rightarrow> tid \<Rightarrow> 'u control \<Rightarrow> ('u frame, 'z) world_scheme \<Rightarrow> ('u, 'z) moved \<Rightarrow> bool" where
  "round_done prog cb i c w r \<longleftrightarrow>
    (case c of
       Fetched t \<Rightarrow> True
     | Inside t pl \<Rightarrow> (\<exists>x. place_exec prog cb i pl w = Some x \<and> switch_back i t x = Some r)
     | Landed t ret \<Rightarrow> r = settle (worker_back i t ret w)
     | _ \<Rightarrow> r = Inr (c, w))"

lemma switch_back_simps [simp]:
  "switch_back i t (Inl e) = Some (Inl e)"
  "switch_back i t (Inr (Some ret, w)) = Some (settle (worker_back i t ret w))"
  "switch_back i t (Inr (None, w)) = Some (Inr (Vanished, w))"
  by (simp_all add: switch_back_def worker_switch_def settle_def)

lemma round_done_step:
  assumes step: "thread_step prog start cb i c w = Some (Inr (c', w'))" and did: "round_done prog cb i c' w' r"
    and c: "c \<noteq> Looping"
  shows "round_done prog cb i c w r"
proof (cases c)
  case (Inside t pl)
  with step have run: "run_step prog cb i t pl w = Inr (c', w')" by simp
  note place = place_exec_step [of prog cb i pl w t, unfolded run]
  from run_step_kind [OF run] show ?thesis
    using did by (auto simp: round_done_def Inside place)
next
  case (Landed t ret)
  with step have land: "settle (worker_back i t ret w) = Inr (c', w')" by (simp add: land_step_def)
  from settle_kind [OF land] show ?thesis
    using did by (auto simp: round_done_def Landed land)
qed (use step c in \<open>auto simp: round_done_def\<close>)

lemma round_done_fault:
  assumes "thread_step prog start cb i c w = Some (Inl e)" "c \<noteq> Looping"
  shows "round_done prog cb i c w (Inl e)"
proof (cases c)
  case (Inside t pl)
  with assms place_exec_step [of prog cb i pl w t] show ?thesis by (simp add: round_done_def)
qed (use assms in \<open>auto simp: round_done_def land_step_def\<close>)

lemma finish_exec:
  fixes w :: "('u frame, 'z) world_scheme"
  assumes "finish_round prog start cb i c w = Some r"
  shows "round_done prog cb i c w r"
proof (rule finish_round.raw_induct [where P = "\<lambda>prog start cb i c w r. round_done prog cb i c w r", OF _ assms])
  fix fin and prog :: "'u \<Rightarrow> 'u uop" and start i c and w :: "('u frame, 'z) world_scheme" and r
    and cb :: "('u, 'z) userland"
  assume IH: "\<And>(prog :: 'u \<Rightarrow> 'u uop) start cb i c (w :: ('u frame, 'z) world_scheme) r.
      fin prog start cb i c w = Some r \<Longrightarrow> round_done prog cb i c w r"
    and eq: "(case c of
       Looping \<Rightarrow> Some (Inr (c, w))
     | Stopped r \<Rightarrow> Some (Inr (c, w))
     | Vanished \<Rightarrow> Some (Inr (c, w))
     | _ \<Rightarrow>
       (case thread_step prog start cb i c w of
          None \<Rightarrow> None
        | Some (Inl e) \<Rightarrow> Some (Inl e)
        | Some (Inr (c, w)) \<Rightarrow> fin prog start cb i c w)) = Some r"
  show "round_done prog cb i c w r"
  proof (cases "thread_step prog start cb i c w")
    case None
    with eq show ?thesis by (cases c) (simp_all add: round_done_def)
  next
    case (Some x)
    show ?thesis
    proof (cases x)
      case (Inl e)
      with Some eq show ?thesis
        using round_done_fault [of prog start cb i c w e] by (cases c) (auto simp: round_done_def)
    next
      case (Inr y)
      obtain c' w' where y: "y = (c', w')" by (cases y)
      show ?thesis
        using eq Some IH [of prog start cb i c' w' r] round_done_step [of prog start cb i c w c' w' r]
        by (cases c) (auto simp: round_done_def Inr y)
    qed
  qed
qed

section \<open>The whole round\<close>

lemma finish_switch:
  "finish_round prog start cb i (Inside t (Run p u)) w =
    map_option settle (worker_switch i t (exec prog cb i p u w))"
proof (cases "exec prog cb i p u w")
  case None
  have "finish_round prog start cb i (Inside t (Run p u)) w \<noteq> Some r" for r
    using finish_exec [of prog start cb i "Inside t (Run p u)" w r] None by (auto simp: round_done_def)
  then have "finish_round prog start cb i (Inside t (Run p u)) w = None" by (metis option.exhaust)
  then show ?thesis by (simp add: None worker_switch_def)
next
  case (Some r)
  then show ?thesis using exec_finish [OF Some, of start t] by (simp add: switch_back_def)
qed

lemma enter_run:
  "(case enter_step start cb i t w of
      Inl e \<Rightarrow> Some (Inl e)
    | Inr (c, w) \<Rightarrow> finish_round prog start cb i c w) =
    map_option settle (worker_switch i t (task_run prog start cb i t w))"
proof (cases "task_at t w")
  case (Inl e)
  then show ?thesis by (simp add: enter_step_def task_run_def worker_switch_def settle_def)
next
  case (Inr x)
  note at = Inr
  show ?thesis
  proof (cases "t_context x")
    case Blank
    then show ?thesis by (simp add: at enter_step_def task_run_def worker_switch_def settle_def)
  next
    case (Entry p1 p2)
    let ?p = "task_ptr p1 p2"
    show ?thesis
    proof (cases "task_at ?p w")
      case (Inl e)
      then show ?thesis by (simp add: at Entry enter_step_def task_run_def worker_switch_def settle_def)
    next
      case (Inr y)
      show ?thesis
      proof (cases "taskmain_args y")
        case None
        then show ?thesis
          by (simp add: at Entry Inr enter_step_def task_run_def landing_back switch_back_def landed_status_def)
      next
        case (Some args)
        then show ?thesis by (simp add: at Entry Inr enter_step_def task_run_def finish_switch)
      qed
    qed
  next
    case (Saved f)
    then show ?thesis
      by (cases f) (simp_all add: at enter_step_def task_run_def finish_switch split: prod.splits)
  qed
qed

lemma waits_for_ever: "qhead q = None \<Longrightarrow> queue_pop (\<lambda>q. (0, q)) QWAIT q = None"
proof -
  assume "qhead q = None"
  then have "qhead (woken (\<lambda>q. (0, q)) n (queue_lock q)) = None" for n
    by (induction n) (simp_all add: queue_lock_def)
  then have "\<not> (\<exists>n. qhead (woken (\<lambda>q. (0, q)) n (queue_lock q)) \<noteq> None \<or>
      fst ((0 :: int, woken (\<lambda>q. (0, q)) n (queue_lock q))) \<noteq> 0)" by simp
  with queue_wait_returns_iff [of "\<lambda>q. (0, q)" "queue_lock q"]
  have "queue_wait (\<lambda>q. (0, q)) (queue_lock q) = None" by blast
  then show ?thesis by (simp add: queue_pop_def QWAIT_def)
qed

text \<open>The pieces of a round make the round.\<close>

lemma one_round_iter:
  "one_round prog start cb i w =
    map_option settle (worker_iter (\<lambda>q. (0, q)) (task_run prog start cb) i w)"
proof (cases "qhead (taskq w) = None")
  case True
  then show ?thesis by (simp add: one_round_def fetch_step_def worker_iter_def waits_for_ever)
next
  case False
  show ?thesis
  proof (cases "queue_pop (\<lambda>q. (0, q)) QWAIT (taskq w)")
    case None
    with False show ?thesis by (simp add: one_round_def fetch_step_def worker_iter_def)
  next
    case (Some r)
    obtain rc tp q where r: "r = (rc, tp, q)" by (cases r)
    show ?thesis
    proof (cases tp)
      case None
      with False Some show ?thesis
        by (simp add: one_round_def fetch_step_def worker_iter_def r settle_def)
    next
      case (Some t)
      with False \<open>queue_pop _ _ _ = Some r\<close> show ?thesis
        using enter_run [of prog start cb i t "tls_set_task i (Some t) (w\<lparr>taskq := q\<rparr>)"]
        by (auto simp: one_round_def fetch_step_def worker_iter_def r settle_def
          finish_round.simps [of _ _ _ _ "Fetched t"])
    qed
  qed
qed

section \<open>Properties\<close>


end
