(* ===== verification/Races.thy ===== *)
theory Races
  imports Interleave
begin

text \<open>
  What \<open>pcaio_gatherA\<close> risks with a second worker: the subtasks are in the queue before the
  caller has left its own context, so that another worker can end the last of them and pick the
  caller up while the first worker is still inside it.
\<close>

section \<open>Two threads\<close>

lemma first_steps:
  "thread_step prog start cb 0 c w = Some (Inr (c', w')) \<Longrightarrow> sys_step prog start cb ([c, d], w) ([c', d], w')"
  using sys_step.move [of 0 "[c, d]" prog start cb w c' w'] by simp

lemma second_steps:
  "thread_step prog start cb 1 d w = Some (Inr (d', w')) \<Longrightarrow> sys_step prog start cb ([c, d], w) ([c, d'], w')"
  using sys_step.move [of 1 "[c, d]" prog start cb w d' w'] by simp

text \<open>The second thread runs the only subtask to its end and picks the caller up, whatever the
  first thread is doing.\<close>

lemma second_runs_child:
  assumes rep: "world_rep w L [q]" and key: "tls_key (tls_task w)" "threadlocal_get 1 (tls_context w) = Some 1"
    and q: "heap w q = Some t" "t_terminated t = Some gather_hook" "t_gather t = Some g" "t_callback t = None"
      "resumes start q t v" "prog v = Return e"
    and g: "gathers w g = Some \<lparr>g_count = 1, g_mutex = True, g_task = Some p\<rparr>"
    and p: "heap w p \<noteq> None" "q \<noteq> p"
  shows "\<exists>w'. (sys_step prog start cb)\<^sup>*\<^sup>* ([c, Looping], w) ([c, Fetched p], w') \<and>
    world_rep w' (remove1 q L) [] \<and> heap w' = (heap w)(q := None) \<and> pcaio_self 1 w' = Some p \<and> local_to 1 w w'"
proof -
  obtain w1 where w1: "thread_step prog start cb 1 Looping w = Some (Inr (Fetched q, w1))" "world_rep w1 L []"
    "heap w1 = heap w" "gathers w1 = gathers w" "local_to 1 w w1"
    using step_fetch [OF rep key(1), of prog start cb 1] by blast
  have "heap w1 q = Some t" using w1(3) q(1) by simp
  from step_enter [OF this q(5), of prog cb 1] obtain er where
    w2: "thread_step prog start cb 1 (Fetched q) w1 = Some (Inr (Inside q (Run q v), w1\<lparr>errno := er\<rparr>))" by blast
  let ?w2 = "w1\<lparr>errno := er\<rparr>"
  let ?t = "t\<lparr>t_flags := t_flags t OR TASK_TERMINATED\<rparr>"
  have "threadlocal_get 1 (tls_context ?w2) = Some 1" using w1(5) key(2) by (simp add: local_to_def)
  with step_last [of ?w2 L "[]" q t g p prog v e 1 1 start cb] w1 q g p obtain w3 where
    w3: "thread_step prog start cb 1 (Inside q (Run q v)) ?w2 = Some (Inr (Landed q 0, w3))" "world_rep w3 L [p]"
      "heap w3 = (heap w)(q := Some ?t)" "tls_task w3 = tls_task ?w2" "tls_context w3 = tls_context ?w2" by auto
  have flag: "t_flags ?t AND TASK_TERMINATED \<noteq> 0" by (simp add: task_flags word_ao_absorbs)
  have "q \<notin> set [p]" "heap w3 q = Some ?t" using p(2) w3(3) by simp_all
  from step_free [OF w3(2) this flag, of prog start cb 1] obtain w4 where
    w4: "thread_step prog start cb 1 (Landed q 0) w3 = Some (Inr (Looping, w4))" "world_rep w4 (remove1 q L) [p]"
      "heap w4 = (heap w3)(q := None)" "local_to 1 w3 w4" by blast
  have loc: "local_to 1 w w4"
    using w1(5) w3(4,5) w4(4) by (simp add: local_to_def pcaio_self_def)
  then have "tls_key (tls_task w4)" using key(1) by (simp add: local_to_def)
  from step_fetch [OF w4(2) this, of prog start cb 1] obtain w5 where
    w5: "thread_step prog start cb 1 Looping w4 = Some (Inr (Fetched p, w5))" "world_rep w5 (remove1 q L) []"
      "heap w5 = heap w4" "pcaio_self 1 w5 = Some p" "local_to 1 w4 w5" by blast
  have "(sys_step prog start cb)\<^sup>*\<^sup>* ([c, Looping], w) ([c, Fetched p], w5)"
    using second_steps [OF w1(1)] second_steps [OF w2] second_steps [OF w3(1)] second_steps [OF w4(1)]
      second_steps [OF w5(1)] by (meson r_into_rtranclp rtranclp.rtrancl_into_rtrancl)
  moreover have "heap w5 = (heap w)(q := None)" using w5(3) w4(3) w3(3) by simp
  ultimately show ?thesis using w5(2,4) local_to_trans [OF loc w5(5)] by blast
qed

text \<open>The first thread up to the end of the loop in \<open>pcaio_gatherA\<close>.\<close>

lemma first_arms:
  assumes rep: "world_rep w L [p]" "q \<in> set L" "q \<noteq> p"
    and key: "tls_key (tls_task w)"
    and p: "heap w p = Some t" "resumes start p t u" "prog u = Gather g [q] k"
  shows "\<exists>w'. (sys_step prog start cb)\<^sup>*\<^sup>* ([Looping, d], w) ([Inside p (Arming p g [] k), d], w') \<and>
    world_rep w' L [q] \<and> heap w' = hooked_all g {q} (heap w) \<and>
    gathers w' g = Some \<lparr>g_count = 1, g_mutex = True, g_task = Some p\<rparr> \<and>
    pcaio_self 0 w' = Some p \<and> local_to 0 w w'"
proof -
  obtain w1 where w1: "thread_step prog start cb 0 Looping w = Some (Inr (Fetched p, w1))" "world_rep w1 L []"
    "heap w1 = heap w" "pcaio_self 0 w1 = Some p" "local_to 0 w w1"
    using step_fetch [OF rep(1) key, of prog start cb 0] by blast
  have "heap w1 p = Some t" using w1(3) p(1) by simp
  from step_enter [OF this p(2), of prog cb 0] obtain er where
    w2: "thread_step prog start cb 0 (Fetched p) w1 = Some (Inr (Inside p (Run p u), w1\<lparr>errno := er\<rparr>))" by blast
  let ?w3 = "gather_put g (Some \<lparr>g_count = of_nat (length [q]), g_mutex = True, g_task = Some p\<rparr>) (w1\<lparr>errno := er\<rparr>)"
  have w3: "thread_step prog start cb 0 (Inside p (Run p u)) (w1\<lparr>errno := er\<rparr>) =
      Some (Inr (Inside p (Arming p g [q] k), ?w3))"
    using w1(4) p(3) by simp
  have "world_rep ?w3 L []" "q \<in> set L" "q \<notin> set []" using w1(2) rep(2) by simp_all
  from step_arm [OF this, of prog start cb 0 p g "[]" k] obtain w4 where
    w4: "thread_step prog start cb 0 (Inside p (Arming p g [q] k)) ?w3 = Some (Inr (Inside p (Arming p g [] k), w4))"
      "world_rep w4 L [q]" "heap w4 = hooked_all g {q} (heap ?w3)" "gathers w4 = gathers ?w3"
      "tls_task w4 = tls_task ?w3" "tls_context w4 = tls_context ?w3" by auto
  have "(sys_step prog start cb)\<^sup>*\<^sup>* ([Looping, d], w) ([Inside p (Arming p g [] k), d], w4)"
    using first_steps [OF w1(1)] first_steps [OF w2] first_steps [OF w3] first_steps [OF w4(1)]
    by (meson r_into_rtranclp rtranclp.rtrancl_into_rtrancl)
  moreover have "local_to 0 w w4" "pcaio_self 0 w4 = Some p"
    using w1(4,5) w4(5,6) by (simp_all add: local_to_def pcaio_self_def)
  ultimately show ?thesis using w4 w1(3) by (intro exI [of _ w4]) simp
qed

section \<open>Properties\<close>

text \<open>Property C35. With two workers \<open>pcaio_gatherA\<close> can run its caller twice at once: the
  second worker runs the subtask to its end while the first is still between the last push and
  \<open>swapcontext\<close>; the caller is scheduled and popped with its old context, and its function
  starts again on the second thread (on the same stack) although the first thread has not left
  it.\<close>

theorem gather_runs_twice:
  assumes "world_rep w L [p]" "q \<in> set L" "q \<noteq> p" "tls_key (tls_task w)" "threadlocal_get 1 (tls_context w) = Some 1"
    and "heap w p = Some t" "resumes start p t u" "prog u = Gather g [q] k"
    and "heap w q = Some t'" "t_callback t' = None" "resumes start q t' v" "prog v = Return e"
  shows "\<exists>w'. (sys_step prog start cb)\<^sup>*\<^sup>* ([Looping, Looping], w)
    ([Inside p (Arming p g [] k), Inside p (Run p u)], w')"
proof -
  from first_arms [where prog = prog and u = u and cb = cb and d = Looping, OF assms(1-4,6-8)] obtain w1 where
    w1: "(sys_step prog start cb)\<^sup>*\<^sup>* ([Looping, Looping], w) ([Inside p (Arming p g [] k), Looping], w1)"
      "world_rep w1 L [q]" "heap w1 = hooked_all g {q} (heap w)"
      "gathers w1 g = Some \<lparr>g_count = 1, g_mutex = True, g_task = Some p\<rparr>" "local_to 0 w w1" by blast
  have q1: "heap w1 q = Some (hooked g t')" "t_terminated (hooked g t') = Some gather_hook"
    "t_gather (hooked g t') = Some g" "t_callback (hooked g t') = None" "resumes start q (hooked g t') v"
    using w1(3) assms(9-11) by (simp_all add: hooked_all_def)
  have p1: "heap w1 p = Some t" using w1(3) assms(3,6) by (simp add: hooked_all_def)
  have key: "tls_key (tls_task w1)" "threadlocal_get 1 (tls_context w1) = Some 1"
    using w1(5) assms(4,5) by (simp_all add: local_to_def)
  have "heap w1 p \<noteq> None" using p1 by simp
  from second_runs_child [where prog = prog and v = v and cb = cb and c = "Inside p (Arming p g [] k)",
      OF w1(2) key q1 assms(12) w1(4) this assms(3)]
  obtain w2 where w2: "(sys_step prog start cb)\<^sup>*\<^sup>* ([Inside p (Arming p g [] k), Looping], w1)
      ([Inside p (Arming p g [] k), Fetched p], w2)" "heap w2 = (heap w1)(q := None)" by blast
  have "heap w2 p = Some t" using w2(2) p1 assms(3) by simp
  from step_enter [OF this assms(7), of prog cb 1] obtain er where
    "thread_step prog start cb 1 (Fetched p) w2 = Some (Inr (Inside p (Run p u), w2\<lparr>errno := er\<rparr>))" by blast
  from second_steps [OF this, of "Inside p (Arming p g [] k)"] w1(1) w2(1) show ?thesis
    by (meson rtranclp.rtrancl_into_rtrancl rtranclp_trans)
qed

theorem gather_runs_twice_witness:
  "\<exists>w w' k. (sys_step prog_gather start2 no_calls)\<^sup>*\<^sup>* ([Looping, Looping], w :: nat frame world)
    ([Inside 64 (Arming 64 1000 [] k), Inside 64 (Run 64 1)], w')"
proof -
  from sample_pair obtain w :: "nat frame world" and t t' where
    w: "world_rep w [64, 128] [64]" "tls_key (tls_task w)" "threadlocal_get 1 (tls_context w) = Some 1"
      "heap w 64 = Some t" "resumes start2 64 t 1" "heap w 128 = Some t'" "t_callback t' = None"
      "resumes start2 128 t' 0" by blast
  have prog: "prog_gather 1 = Gather 1000 [128] (\<lambda>_. 2)" "prog_gather 0 = Return 5"
    by (simp_all add: prog_gather_def)
  from gather_runs_twice [where prog = prog_gather and u = 1 and v = 0 and cb = no_calls,
      OF w(1) _ _ w(2-5) prog(1) w(6-8) prog(2)]
  show ?thesis by auto
qed

text \<open>Property C36. With two workers the caller of \<open>pcaio_gatherA\<close> can be gone before its first
  worker has looked at it: between \<open>swapcontext\<close> and the test of \<open>t->flags\<close> the second
  worker ends the subtask, resumes the caller, lets it return and frees it; the first worker then
  reads freed memory.\<close>

theorem gather_use_after_free:
  assumes "world_rep w L [p]" "q \<in> set L" "q \<noteq> p" "tls_key (tls_task w)"
    and "\<forall>i < 2. threadlocal_get i (tls_context w) = Some i"
    and "heap w p = Some t" "resumes start p t u" "prog u = Gather g [q] k"
    and "heap w q = Some t'" "t_callback t' = None" "resumes start q t' v" "prog v = Return e"
    and "t_terminated t = None" "t_callback t = None" "prog (k 0) = Return e'"
  shows "\<exists>w'. (sys_step prog start cb)\<^sup>*\<^sup>* ([Looping, Looping], w) ([Landed p 0, Looping], w') \<and>
    thread_step prog start cb 0 (Landed p 0) w' = Some (Inl UseAfterFree)"
proof -
  from first_arms [where prog = prog and u = u and cb = cb and d = Looping, OF assms(1-4,6-8)] obtain w1 where
    w1: "(sys_step prog start cb)\<^sup>*\<^sup>* ([Looping, Looping], w) ([Inside p (Arming p g [] k), Looping], w1)"
      "world_rep w1 L [q]" "heap w1 = hooked_all g {q} (heap w)"
      "gathers w1 g = Some \<lparr>g_count = 1, g_mutex = True, g_task = Some p\<rparr>" "pcaio_self 0 w1 = Some p"
      "local_to 0 w w1" by blast
  have p1: "heap w1 p = Some t" using w1(3) assms(3,6) by (simp add: hooked_all_def)
  let ?t = "t\<lparr>t_flags := t_flags t OR TASK_NOSCHEDULE, t_context := Saved (Gathered g (k 0))\<rparr>"
  let ?w2 = "task_put p ?t w1"
  have key1: "tls_key (tls_task w1)" "threadlocal_get 0 (tls_context w1) = Some 0"
    "threadlocal_get 1 (tls_context w1) = Some 1"
    using w1(6) assms(4,5) by (simp_all add: local_to_def)
  note sleep = first_steps [OF step_sleep [OF w1(5) key1(2) p1, of prog start cb g k], of Looping]
  have rep2: "world_rep ?w2 L [q]" using w1(2) p1 by (simp add: world_rep_put)
  have q2: "heap ?w2 q = Some (hooked g t')" "t_terminated (hooked g t') = Some gather_hook"
    "t_gather (hooked g t') = Some g" "t_callback (hooked g t') = None" "resumes start q (hooked g t') v"
    using w1(3) assms(3,9-11) by (simp_all add: hooked_all_def)
  have "tls_key (tls_task ?w2)" "threadlocal_get 1 (tls_context ?w2) = Some 1" "heap ?w2 p \<noteq> None"
    "gathers ?w2 g = Some \<lparr>g_count = 1, g_mutex = True, g_task = Some p\<rparr>" using key1 w1(4) by simp_all
  from second_runs_child [where prog = prog and v = v and cb = cb and c = "Landed p 0",
      OF rep2 this(1,2) q2 assms(12) this(4,3) assms(3)]
  obtain w3 where w3: "(sys_step prog start cb)\<^sup>*\<^sup>* ([Landed p 0, Looping], ?w2) ([Landed p 0, Fetched p], w3)"
      "world_rep w3 (remove1 q L) []" "heap w3 = (heap ?w2)(q := None)" "local_to 1 ?w2 w3" by blast
  have p3: "heap w3 p = Some ?t" using w3(3) assms(3) by simp
  let ?w4 = "gather_put g None (w3\<lparr>errno := 0\<rparr>)"
  have w4: "thread_step prog start cb 1 (Fetched p) w3 = Some (Inr (Inside p (Run p (k 0)), ?w4))"
    using p3 by (simp add: enter_step_def pcaio_gatherA_resumed_def pcaio_relaxA_resumed_def)
  have land4: "threadlocal_get (Suc 0) (tls_context w3) = Some 1" using w3(4) key1(3) by (simp add: local_to_def)
  have p4: "heap ?w4 p = Some ?t" "t_terminated ?t = None" "t_callback ?t = None"
    using p3 assms(13,14) by simp_all
  let ?t5 = "?t\<lparr>t_flags := t_flags ?t OR TASK_TERMINATED\<rparr>"
  define w5 where "w5 = (case t_status ?t of None \<Rightarrow> id | Some a \<Rightarrow> ints_update (\<lambda>m. m(a := e'))) (task_put p ?t5 ?w4)"
  have w5: "thread_step prog start cb 1 (Inside p (Run p (k 0))) ?w4 = Some (Inr (Landed p 0, w5))"
    by (simp add: assms(15) landing_step_def taskmain_finish_plain [OF p4] land4 w5_def)
  have "world_rep (task_put p ?t5 ?w4) (remove1 q L) []"
    using w3(2) p4(1) by (simp add: world_rep_put)
  then have rep5: "world_rep w5 (remove1 q L) []"
    by (rule iffD2 [OF world_rep_cong, rotated -1]) (simp_all add: w5_def split: option.splits)
  have p5: "heap w5 p = Some ?t5" "t_flags ?t5 AND TASK_TERMINATED \<noteq> 0"
    by (simp_all add: w5_def task_flags word_ao_absorbs split: option.splits)
  from step_free [OF rep5 _ p5, of prog start cb 1] obtain w6 where
    w6: "thread_step prog start cb 1 (Landed p 0) w5 = Some (Inr (Looping, w6))" "heap w6 p = None" by auto
  have "(sys_step prog start cb)\<^sup>*\<^sup>* ([Looping, Looping], w) ([Landed p 0, Looping], w6)"
    using w1(1) sleep w3(1) second_steps [OF w4] second_steps [OF w5] second_steps [OF w6(1)]
    by (meson rtranclp.rtrancl_into_rtrancl rtranclp_trans)
  moreover have "thread_step prog start cb 0 (Landed p 0) w6 = Some (Inl UseAfterFree)"
    using w6(2) by (simp add: land_step_def worker_back_def settle_def Let_def)
  ultimately show ?thesis by blast
qed

theorem gather_use_after_free_witness:
  "\<exists>w w'. (sys_step prog_gather start2 no_calls)\<^sup>*\<^sup>* ([Looping, Looping], w :: nat frame world) ([Landed 64 0, Looping], w') \<and>
    thread_step prog_gather start2 no_calls 0 (Landed 64 0) w' = Some (Inl UseAfterFree)"
proof -
  from sample_pair obtain w :: "nat frame world" and t t' where
    w: "world_rep w [64, 128] [64]" "tls_key (tls_task w)" "\<forall>i. threadlocal_get i (tls_context w) = Some i"
      "heap w 64 = Some t" "resumes start2 64 t 1" "heap w 128 = Some t'" "t_callback t' = None"
      "resumes start2 128 t' 0" "t_terminated t = None" "t_callback t = None" by blast
  have prog: "prog_gather 1 = Gather 1000 [128] (\<lambda>_. 2)" "prog_gather 0 = Return 5" "prog_gather 2 = Return 7"
    by (simp_all add: prog_gather_def)
  have crew: "\<forall>i < 2. threadlocal_get i (tls_context w) = Some i" using w(3) by blast
  from gather_use_after_free [where prog = prog_gather and u = 1 and v = 0 and k = "\<lambda>_. 2" and cb = no_calls,
      OF w(1) _ _ w(2) crew w(4,5) prog(1) w(6-8) prog(2) w(9,10) prog(3)]
  show ?thesis by auto
qed

end
