(* ===== verification/Forkjoin.thy ===== *)
theory Forkjoin
  imports Rounds "HOL-Library.Multiset"
begin

text \<open>
  What one worker makes of tasks that also gather others: the scheduler of \<open>Rounds\<close>, extended
  by sleeping tasks. The abstract system is the queue, the stack of the tasks asleep in
  \<open>pcaio_gatherA\<close> (the last to fall asleep first), the tasks that nobody has started yet, and
  the memory of the statuses. A job knows the latch it belongs to.
\<close>

section \<open>The abstract scheduler\<close>

text \<open>Task, status pointer, latch, rest of the function. \<open>G p\<close> is the address of the latch in
  the stack of \<open>p\<close>.\<close>

type_synonym 'u fjob = "addr \<times> addr option \<times> addr option \<times> 'u"

type_synonym 'u fj_state = "'u fjob list \<times> 'u fjob list \<times> 'u job list \<times> (addr \<Rightarrow> c_int)"

definition latch_of :: "'u fjob \<Rightarrow> addr option" where
  "latch_of j = fst (snd (snd j))"

definition members :: "addr \<Rightarrow> 'u fjob list \<Rightarrow> nat" where
  "members g js = length (filter (\<lambda>j. latch_of j = Some g) js)"

definition put_status :: "addr option \<Rightarrow> c_int \<Rightarrow> (addr \<Rightarrow> c_int) \<Rightarrow> addr \<Rightarrow> c_int" where
  "put_status s e m = (case s of None \<Rightarrow> m | Some a \<Rightarrow> m(a := e))"

text \<open>Picking the tasks of an array out of those not started, in the order of the array.\<close>

fun pick :: "addr list \<Rightarrow> addr \<Rightarrow> 'u job list \<Rightarrow> 'u fjob list option" where
  "pick [] g F = Some []"
| "pick (t # ts) g F =
    (case map_of F t of
       None \<Rightarrow> None
     | Some (s, u) \<Rightarrow> map_option (\<lambda>js. (t, s, Some g, u) # js) (pick ts g F))"

fun fj_step ::
  "(addr \<Rightarrow> addr) \<Rightarrow> ('u \<Rightarrow> 'u uop) \<Rightarrow> 'u fj_state \<Rightarrow> 'u fj_state option" where
  "fj_step G prog ([], S, F, m) = None"
| "fj_step G prog ((p, s, r, u) # Q, S, F, m) =
    (case prog u of
       Return e \<Rightarrow>
        (case r of
           None \<Rightarrow> Some (Q, S, F, put_status s e m)
         | Some g \<Rightarrow>
            if members g (Q @ S) \<noteq> 0 then Some (Q, S, F, put_status s e m)
            else Some (Q @ filter (\<lambda>j. G (fst j) = g) S, filter (\<lambda>j. G (fst j) \<noteq> g) S, F, put_status s e m))
     | Relax f k \<Rightarrow> if f = 0 then Some (Q @ [(p, s, r, k 0)], S, F, m) else None
     | Gather g ts k \<Rightarrow>
        (case pick ts g F of
           None \<Rightarrow> None
         | Some js \<Rightarrow>
            if g = G p \<and> ts \<noteq> [] \<and> distinct ts \<and> length ts < 2 ^ 16
            then Some (Q @ js, (p, s, r, k 0) # S, filter (\<lambda>j. fst j \<notin> set ts) F, m) else None)
     | _ \<Rightarrow> None)"

section \<open>Every job ends\<close>

text \<open>\<open>fj_ends G prog B R p u A n e\<close>: the rest \<open>u\<close> of the function of \<open>p\<close> gathers, with
  its subtasks and theirs, exactly the tasks \<open>A\<close>, takes \<open>n\<close> rounds together with them, and
  returns \<open>e\<close>; \<open>B\<close> gives status pointer and function of the tasks not started.\<close>

inductive fj_ends ::
  "(addr \<Rightarrow> addr) \<Rightarrow> ('u \<Rightarrow> 'u uop) \<Rightarrow> (addr \<Rightarrow> addr option \<times> 'u) \<Rightarrow> (addr \<Rightarrow> c_int)
   \<Rightarrow> addr \<Rightarrow> 'u \<Rightarrow> addr list \<Rightarrow> nat \<Rightarrow> c_int \<Rightarrow> bool" for G prog B R where
  returns: "prog u = Return e \<Longrightarrow> fj_ends G prog B R p u [] 0 e"
| relaxes: "prog u = Relax 0 k \<Longrightarrow> fj_ends G prog B R p (k 0) A n e \<Longrightarrow> fj_ends G prog B R p u A (Suc n) e"
| gathers: "prog u = Gather (G p) ts k \<Longrightarrow> ts \<noteq> [] \<Longrightarrow> length ts < 2 ^ 16 \<Longrightarrow>
    (\<And>t. t \<in> set ts \<Longrightarrow> fj_ends G prog B R t (snd (B t)) (As t) (ns t) (es t)) \<Longrightarrow>
    (\<And>t x. t \<in> set ts \<Longrightarrow> fst (B t) = Some x \<Longrightarrow> R x = es t) \<Longrightarrow>
    fj_ends G prog B R p (k 0) A n e \<Longrightarrow>
    fj_ends G prog B R p u (ts @ concat (map As ts) @ A) (Suc (n + sum_list (map (\<lambda>t. Suc (ns t)) ts))) e"

text \<open>The sleeping tasks wait for somebody, and for somebody who does not wait for them.\<close>

fun stacked :: "(addr \<Rightarrow> addr) \<Rightarrow> 'u fjob list \<Rightarrow> bool" where
  "stacked G [] = True"
| "stacked G (j # S) \<longleftrightarrow>
    (\<forall>g. latch_of j = Some g \<longrightarrow> (\<exists>i \<in> set S. G (fst i) = g)) \<and> stacked G S"

definition fj_inv :: "(addr \<Rightarrow> addr) \<Rightarrow> 'u fj_state \<Rightarrow> bool" where
  "fj_inv G a \<longleftrightarrow>
    (case a of (Q, S, F, m) \<Rightarrow>
      distinct (map fst Q @ map fst S @ map fst F) \<and> stacked G S \<and>
      (\<forall>j \<in> set Q. \<forall>g. latch_of j = Some g \<longrightarrow> (\<exists>i \<in> set S. G (fst i) = g)) \<and>
      (\<forall>i \<in> set S. members (G (fst i)) (Q @ S) \<noteq> 0))"

lemma members_simps [simp]:
  "members g [] = 0" "members g (as @ bs) = members g as + members g bs"
  "members g (j # js) = (if latch_of j = Some g then 1 else 0) + members g js"
  by (simp_all add: members_def)

lemma members_0: "members g js = 0 \<longleftrightarrow> (\<forall>j \<in> set js. latch_of j \<noteq> Some g)"
  by (auto simp: members_def filter_empty_conv)

text \<open>No deadlock: with an empty queue nobody sleeps.\<close>

lemma no_deadlock: "fj_inv G ([], S, F, m) \<Longrightarrow> inj G \<Longrightarrow> S = []"
proof (cases S)
  case (Cons i S')
  assume inv: "fj_inv G ([], S, F, m)" and inj: "inj G"
  from inv Cons have "members (G (fst i)) S \<noteq> 0" by (auto simp: fj_inv_def)
  then obtain j where j: "j \<in> set S" "latch_of j = Some (G (fst i))" by (auto simp: members_0)
  have later: "\<exists>i' \<in> set S'. G (fst i') = g" if "stacked G (i # S')" "j \<in> set (i # S')" "latch_of j = Some g" for j g
    using that by (induction S' arbitrary: i) auto
  from later [OF _ j(1)[unfolded Cons] j(2)] inv Cons obtain i' where
    "i' \<in> set S'" "G (fst i') = G (fst i)" by (auto simp: fj_inv_def)
  with inj have "i' \<in> set S'" "fst i' = fst i" by (auto dest: injD)
  moreover have "distinct (map fst S)" using inv by (simp add: fj_inv_def)
  ultimately show ?thesis using Cons by (auto simp: image_iff)
qed simp

section \<open>The bound goes down\<close>

text \<open>What the jobs still have to start, and how many rounds they need.\<close>

definition owed :: "(addr \<Rightarrow> addr list) \<Rightarrow> 'u fjob list \<Rightarrow> addr multiset" where
  "owed As js = sum_list (map (\<lambda>j. mset (As (fst j))) js)"

definition rounds_left :: "(addr \<Rightarrow> nat) \<Rightarrow> 'u fjob list \<Rightarrow> nat" where
  "rounds_left ns js = sum_list (map (\<lambda>j. Suc (ns (fst j))) js)"

definition fj_job ::
  "(addr \<Rightarrow> addr) \<Rightarrow> ('u \<Rightarrow> 'u uop) \<Rightarrow> (addr \<Rightarrow> addr option \<times> 'u) \<Rightarrow> (addr \<Rightarrow> c_int)
   \<Rightarrow> (addr \<Rightarrow> addr list) \<Rightarrow> (addr \<Rightarrow> nat) \<Rightarrow> 'u fjob \<Rightarrow> bool" where
  "fj_job G prog B R As ns j \<longleftrightarrow>
    (case j of (p, s, r, u) \<Rightarrow>
      \<exists>e. fj_ends G prog B R p u (As p) (ns p) e \<and> (\<forall>x. s = Some x \<longrightarrow> R x = e))"

definition fj_cells :: "'u fj_state \<Rightarrow> addr set" where
  "fj_cells a = (case a of (Q, S, F, m) \<Rightarrow>
    {x. \<exists>j \<in> set Q \<union> set S. fst (snd j) = Some x} \<union> statuses F)"

definition fj_bound ::
  "(addr \<Rightarrow> addr) \<Rightarrow> ('u \<Rightarrow> 'u uop) \<Rightarrow> (addr \<Rightarrow> addr option \<times> 'u) \<Rightarrow> (addr \<Rightarrow> c_int)
   \<Rightarrow> nat \<Rightarrow> 'u fj_state \<Rightarrow> bool" where
  "fj_bound G prog B R N a \<longleftrightarrow>
    inj G \<and> fj_inv G a \<and>
    (case a of (Q, S, F, m) \<Rightarrow>
      (\<forall>(p, s, u) \<in> set F. B p = (s, u)) \<and> (\<forall>x. x \<notin> fj_cells a \<longrightarrow> m x = R x) \<and>
      (\<exists>As ns. (\<forall>j \<in> set Q \<union> set S. fj_job G prog B R As ns j) \<and>
        owed As (Q @ S) = mset (map fst F) \<and> N = rounds_left ns (Q @ S)))"

lemma owed_simps [simp]:
  "owed As [] = {#}" "owed As (js @ is) = owed As js + owed As is"
  "owed As (j # js) = mset (As (fst j)) + owed As js"
  by (simp_all add: owed_def)

lemma rounds_left_simps [simp]:
  "rounds_left ns [] = 0" "rounds_left ns (js @ is) = rounds_left ns js + rounds_left ns is"
  "rounds_left ns (j # js) = Suc (ns (fst j)) + rounds_left ns js"
  by (simp_all add: rounds_left_def)

lemma split_sums:
  "owed As (filter P js) + owed As (filter (\<lambda>j. \<not> P j) js) = owed As js"
  "rounds_left ns (filter P js) + rounds_left ns (filter (\<lambda>j. \<not> P j) js) = rounds_left ns js"
  "members g (filter P js) + members g (filter (\<lambda>j. \<not> P j) js) = members g js"
  by (induction js) (auto simp: ac_simps)

lemma stacked_parent: "stacked G S \<Longrightarrow> j \<in> set S \<Longrightarrow> latch_of j = Some g \<Longrightarrow> \<exists>i \<in> set S. G (fst i) = g"
  by (induction S) auto

lemma stacked_wake:
  "stacked G S \<Longrightarrow> \<forall>j \<in> set S. latch_of j \<noteq> Some g \<Longrightarrow> stacked G (filter (\<lambda>j. G (fst j) \<noteq> g) S)"
proof (induction S)
  case (Cons j S)
  have "\<exists>i \<in> set (filter (\<lambda>j. G (fst j) \<noteq> g) S). G (fst i) = h" if "latch_of j = Some h" for h
  proof -
    from that Cons.prems obtain i where i: "i \<in> set S" "G (fst i) = h" and "h \<noteq> g" by auto
    then have "i \<in> set (filter (\<lambda>j. G (fst j) \<noteq> g) S)" by simp
    with i(2) show ?thesis by blast
  qed
  then show ?case using Cons by simp
qed simp

text \<open>A job leaves the queue: the others keep what they had.\<close>

lemma inv_done:
  assumes inv: "fj_inv G ((p, s, r, u) # Q, S, F, m)"
    and stay: "\<forall>g. r = Some g \<longrightarrow> members g (Q @ S) \<noteq> 0"
  shows "fj_inv G (Q, S, F, m')"
  using assms by (fastforce simp: fj_inv_def latch_of_def split: if_splits)

lemma inv_wake:
  assumes inv: "fj_inv G ((p, s, Some g, u) # Q, S, F, m)" and last: "members g (Q @ S) = 0"
  shows "fj_inv G (Q @ filter (\<lambda>j. G (fst j) = g) S, filter (\<lambda>j. G (fst j) \<noteq> g) S, F, m')"
proof -
  let ?W = "filter (\<lambda>j. G (fst j) = g) S" and ?S = "filter (\<lambda>j. G (fst j) \<noteq> g) S"
  have none: "\<forall>j \<in> set Q \<union> set S. latch_of j \<noteq> Some g" using last by (auto simp: members_0)
  have "mset (map fst Q @ map fst ?W @ map fst ?S @ map fst F) = mset (map fst Q @ map fst S @ map fst F)"
    using multiset_partition [of "mset S" "\<lambda>j. G (fst j) = g"]
    by (simp add: image_mset_union [symmetric] del: image_mset_union)
  moreover have "distinct (map fst Q @ map fst S @ map fst F)" using inv by (simp add: fj_inv_def)
  ultimately have "distinct (map fst Q @ map fst ?W @ map fst ?S @ map fst F)" by (metis mset_eq_imp_distinct_iff)
  then have "distinct (map fst (Q @ ?W) @ map fst ?S @ map fst F)" by (simp only: map_append append_assoc)
  moreover have "stacked G ?S" using inv none by (intro stacked_wake) (auto simp: fj_inv_def)
  moreover have "\<exists>i \<in> set ?S. G (fst i) = h" if "j \<in> set (Q @ ?W)" "latch_of j = Some h" for j h
  proof -
    have "\<exists>i \<in> set S. G (fst i) = h"
      using that inv stacked_parent [of G S j h] by (auto simp: fj_inv_def)
    then obtain i where i: "i \<in> set S" "G (fst i) = h" by blast
    have "h \<noteq> g" using none that by auto
    with i have "i \<in> set ?S" by simp
    with i(2) show ?thesis by blast
  qed
  moreover have "members (G (fst i)) ((Q @ ?W) @ ?S) \<noteq> 0" if "i \<in> set ?S" for i
    using inv that split_sums(3) [of "G (fst i)" "\<lambda>j. G (fst j) = g" S]
    by (auto simp: fj_inv_def latch_of_def)
  ultimately show ?thesis unfolding fj_inv_def prod.case by blast
qed

lemma fj_job_cong:
  "As' (fst j) = As (fst j) \<Longrightarrow> ns' (fst j) = ns (fst j) \<Longrightarrow>
    fj_job G prog B R As' ns' j \<longleftrightarrow> fj_job G prog B R As ns j"
  by (cases j) (simp add: fj_job_def)

lemma sums_cong:
  "(\<And>j. j \<in> set js \<Longrightarrow> As' (fst j) = As (fst j)) \<Longrightarrow> owed As' js = owed As js"
  "(\<And>j. j \<in> set js \<Longrightarrow> ns' (fst j) = ns (fst j)) \<Longrightarrow> rounds_left ns' js = rounds_left ns js"
  by (auto simp: owed_def rounds_left_def intro!: arg_cong [of _ _ sum_list] map_cong)

lemma fj_boundE:
  assumes "fj_bound G prog B R N ((p, s, r, u) # Q, S, F, m)"
  obtains As ns e where "\<forall>j \<in> set Q \<union> set S. fj_job G prog B R As ns j"
    "fj_ends G prog B R p u (As p) (ns p) e" "\<forall>x. s = Some x \<longrightarrow> R x = e"
    "owed As (((p, s, r, u) # Q) @ S) = mset (map fst F)" "N = rounds_left ns (((p, s, r, u) # Q) @ S)"
    "inj G" "fj_inv G ((p, s, r, u) # Q, S, F, m)" "\<forall>(p, s, u) \<in> set F. B p = (s, u)"
    "\<forall>x. x \<notin> fj_cells ((p, s, r, u) # Q, S, F, m) \<longrightarrow> m x = R x"
proof -
  from assms obtain As ns where
    a: "\<forall>j \<in> set ((p, s, r, u) # Q) \<union> set S. fj_job G prog B R As ns j"
      "owed As (((p, s, r, u) # Q) @ S) = mset (map fst F)" "N = rounds_left ns (((p, s, r, u) # Q) @ S)"
    and b: "inj G" "fj_inv G ((p, s, r, u) # Q, S, F, m)" "\<forall>(p, s, u) \<in> set F. B p = (s, u)"
      "\<forall>x. x \<notin> fj_cells ((p, s, r, u) # Q, S, F, m) \<longrightarrow> m x = R x"
    unfolding fj_bound_def prod.case by blast
  from a(1) obtain e where "fj_ends G prog B R p u (As p) (ns p) e" "\<forall>x. s = Some x \<longrightarrow> R x = e"
    by (auto simp: fj_job_def)
  moreover have "\<forall>j \<in> set Q \<union> set S. fj_job G prog B R As ns j" using a(1) by simp
  ultimately show thesis using that a(2,3) b by blast
qed

lemma bound_return:
  assumes bound: "fj_bound G prog B R N ((p, s, r, u) # Q, S, F, m)" and prog: "prog u = Return e"
    and Q': "mset (Q' @ S') = mset (Q @ S)" and inv: "fj_inv G (Q', S', F, put_status s e m)"
  shows "\<exists>M < N. fj_bound G prog B R M (Q', S', F, put_status s e m)"
proof -
  obtain As ns e' where jobs: "\<forall>j \<in> set Q \<union> set S. fj_job G prog B R As ns j"
    and e': "fj_ends G prog B R p u (As p) (ns p) e'" "\<forall>x. s = Some x \<longrightarrow> R x = e'"
    and owed: "owed As (((p, s, r, u) # Q) @ S) = mset (map fst F)"
    and N: "N = rounds_left ns (((p, s, r, u) # Q) @ S)" and inj: "inj G"
    and F: "\<forall>(p, s, u) \<in> set F. B p = (s, u)" and cells: "\<forall>x. x \<notin> fj_cells ((p, s, r, u) # Q, S, F, m) \<longrightarrow> m x = R x"
    by (rule fj_boundE [OF bound]) (rule that)
  from e'(1) prog have p: "As p = []" "ns p = 0" "e' = e" by (cases; simp)+
  have sets: "set Q' \<union> set S' = set Q \<union> set S" using mset_eq_setD [OF Q'] by simp
  have perm: "owed As (Q' @ S') = owed As (Q @ S)" "rounds_left ns (Q' @ S') = rounds_left ns (Q @ S)"
    using Q' by (simp_all only: owed_def rounds_left_def sum_mset_sum_list [symmetric] mset_map)
  have "put_status s e m x = R x" if x: "x \<notin> fj_cells (Q', S', F, put_status s e m)" for x
  proof (cases "s = Some x")
    case True
    then show ?thesis using e'(2) p(3) by (simp add: put_status_def)
  next
    case False
    with x sets have "x \<notin> fj_cells ((p, s, r, u) # Q, S, F, m)" by (auto simp: fj_cells_def)
    with cells False show ?thesis by (auto simp: put_status_def split: option.splits)
  qed
  then have "fj_bound G prog B R (rounds_left ns (Q' @ S')) (Q', S', F, put_status s e m)"
    using inj inv F jobs sets owed p(1) perm(1) unfolding fj_bound_def prod.case
    by (intro conjI exI [of _ As] exI [of _ ns]) auto
  moreover have "rounds_left ns (Q' @ S') < N" using perm(2) N p(2) by simp
  ultimately show ?thesis by blast
qed

lemma bound_relax:
  assumes bound: "fj_bound G prog B R N ((p, s, r, u) # Q, S, F, m)" and prog: "prog u = Relax 0 k"
  shows "\<exists>M < N. fj_bound G prog B R M (Q @ [(p, s, r, k 0)], S, F, m)"
proof -
  obtain As ns e where jobs: "\<forall>j \<in> set Q \<union> set S. fj_job G prog B R As ns j"
    and e: "fj_ends G prog B R p u (As p) (ns p) e" "\<forall>x. s = Some x \<longrightarrow> R x = e"
    and owed: "owed As (((p, s, r, u) # Q) @ S) = mset (map fst F)"
    and N: "N = rounds_left ns (((p, s, r, u) # Q) @ S)" and inj: "inj G"
    and inv: "fj_inv G ((p, s, r, u) # Q, S, F, m)" and F: "\<forall>(p, s, u) \<in> set F. B p = (s, u)"
    and cells: "\<forall>x. x \<notin> fj_cells ((p, s, r, u) # Q, S, F, m) \<longrightarrow> m x = R x"
    by (rule fj_boundE [OF bound]) (rule that)
  from e(1) prog obtain n where n: "fj_ends G prog B R p (k 0) (As p) n e" "ns p = Suc n"
    by cases auto
  have out: "\<forall>j \<in> set Q \<union> set S. fst j \<noteq> p" using inv by (auto simp: fj_inv_def)
  let ?ns = "ns(p := n)"
  have "fj_job G prog B R As ?ns j" if "j \<in> set Q \<union> set S" for j
  proof -
    have "fst j \<noteq> p" using that out by blast
    then show ?thesis using that jobs fj_job_cong [of As j As ?ns ns] by simp
  qed
  moreover have "fj_job G prog B R As ?ns (p, s, r, k 0)" using n(1) e(2) by (auto simp: fj_job_def)
  moreover have "rounds_left ?ns js = rounds_left ns js" if "set js \<subseteq> set Q \<union> set S" for js
    using that out by (intro sums_cong) auto
  then have rest: "rounds_left ?ns (Q @ [(p, s, r, k 0)] @ S) + 1 = N" using N n(2) by simp
  moreover have "fj_inv G (Q @ [(p, s, r, k 0)], S, F, m)" using inv by (auto simp: fj_inv_def latch_of_def)
  moreover have "\<forall>x. x \<notin> fj_cells (Q @ [(p, s, r, k 0)], S, F, m) \<longrightarrow> m x = R x"
    using cells by (simp add: fj_cells_def)
  ultimately have "fj_bound G prog B R (rounds_left ?ns ((Q @ [(p, s, r, k 0)]) @ S)) (Q @ [(p, s, r, k 0)], S, F, m)"
    using inj F owed unfolding fj_bound_def prod.case
    by (intro conjI exI [of _ As] exI [of _ ?ns]) (auto simp: ac_simps)
  moreover have "rounds_left ?ns ((Q @ [(p, s, r, k 0)]) @ S) < N" using rest by simp
  ultimately show ?thesis by blast
qed

text \<open>Starting subtasks.\<close>

definition started :: "(addr \<Rightarrow> addr option \<times> 'u) \<Rightarrow> addr \<Rightarrow> addr list \<Rightarrow> 'u fjob list" where
  "started B g ts = map (\<lambda>t. (t, fst (B t), Some g, snd (B t))) ts"

lemma pick_started:
  assumes F: "\<forall>(p, s, u) \<in> set F. B p = (s, u)" and ts: "set ts \<subseteq> fst ` set F"
  shows "pick ts g F = Some (started B g ts)"
proof -
  have look: "map_of F t = Some (B t)" if "t \<in> fst ` set F" for t
  proof -
    from that obtain y where y: "map_of F t = Some y" by (metis domIff dom_map_of_conv_image_fst not_None_eq)
    then have "(t, y) \<in> set F" by (rule map_of_SomeD)
    with F have "B t = y" by (cases y) auto
    with y show ?thesis by simp
  qed
  from ts show ?thesis by (induction ts) (auto simp: started_def look split: prod.splits)
qed

lemma distinct_sub_mset: "mset xs \<subseteq># mset ys \<Longrightarrow> distinct ys \<Longrightarrow> distinct xs"
  by (metis distinct_append ex_mset mset_append mset_eq_imp_distinct_iff subset_mset.add_diff_inverse)

lemma filter_rest:
  assumes "distinct xs" "mset ts + M = mset xs"
  shows "mset (filter (\<lambda>x. x \<notin> set ts) xs) = M"
proof -
  have ts: "distinct ts" using distinct_sub_mset [of ts xs] assms by (metis mset_subset_eq_add_left)
  have "count (mset (filter (\<lambda>x. x \<notin> set ts) xs)) x = count M x" for x
  proof -
    have "count (mset ts) x + count M x = count (mset xs) x" using assms(2) by (metis count_union)
    then show ?thesis
      using ts assms(1) by (auto simp: distinct_count_atmost_1 split: if_splits)
  qed
  then show ?thesis by (rule multiset_eqI)
qed

lemma owed_started: "owed As (started B g ts) = mset (concat (map As ts))"
  by (induction ts) (simp_all add: started_def owed_def)

lemma rounds_started: "rounds_left ns (started B g ts) = sum_list (map (\<lambda>t. Suc (ns t)) ts)"
  by (simp add: started_def rounds_left_def comp_def)

lemma members_started: "members h (started B g ts) = (if h = g then length ts else 0)"
  by (induction ts) (auto simp: started_def latch_of_def)

lemma fj_ends_gather:
  assumes "fj_ends G prog B R p u A n e" "prog u = Gather g ts k"
  obtains Bs bs es A' n' where "g = G p" "ts \<noteq> []" "length ts < 2 ^ 16"
    "\<And>t. t \<in> set ts \<Longrightarrow> fj_ends G prog B R t (snd (B t)) (Bs t) (bs t) (es t)"
    "\<And>t x. t \<in> set ts \<Longrightarrow> fst (B t) = Some x \<Longrightarrow> R x = es t"
    "fj_ends G prog B R p (k 0) A' n' e" "A = ts @ concat (map Bs ts) @ A'"
    "n = Suc (n' + sum_list (map (\<lambda>t. Suc (bs t)) ts))"
  using assms(1)
proof (cases rule: fj_ends.cases)
  case (gathers ts' k' Bs bs es A' n')
  have same: "ts' = ts" "k' = k" "g = G p" using gathers(3) assms(2) by simp_all
  show thesis by (rule that [of Bs bs es A' n']) (use gathers same in auto)
qed (use assms(2) in simp_all)

lemma inv_gather:
  assumes inv: "fj_inv G ((p, s, r, u) # Q, S, F, m)"
    and F': "F' = filter (\<lambda>j. fst j \<notin> set ts) F" "mset ts + mset (map fst F') = mset (map fst F)" and ts: "ts \<noteq> []"
  shows "fj_inv G (Q @ started B (G p) ts, (p, s, r, k 0) # S, F', m)"
proof -
  let ?K = "started B (G p) ts"
  have kids: "map fst ?K = ts" by (simp add: started_def comp_def)
  have "mset (map fst (Q @ ?K) @ map fst ((p, s, r, k 0) # S) @ map fst F') =
      mset (map fst ((p, s, r, u) # Q) @ map fst S @ map fst F)"
    using F'(2) by (simp add: kids ac_simps)
  moreover have "distinct (map fst ((p, s, r, u) # Q) @ map fst S @ map fst F)" using inv by (simp add: fj_inv_def)
  ultimately have dist: "distinct (map fst (Q @ ?K) @ map fst ((p, s, r, k 0) # S) @ map fst F')"
    by (metis mset_eq_imp_distinct_iff)
  have old: "\<exists>i \<in> set S. G (fst i) = g" if "j = (p, s, r, u) \<or> j \<in> set Q" "latch_of j = Some g" for j g
    using inv that by (auto simp: fj_inv_def)
  have "stacked G ((p, s, r, k 0) # S)"
    using inv old [of "(p, s, r, u)"] by (auto simp: fj_inv_def latch_of_def)
  moreover have "\<exists>i \<in> set ((p, s, r, k 0) # S). G (fst i) = g" if "j \<in> set (Q @ ?K)" "latch_of j = Some g" for j g
    using that old [of j g] by (auto simp: started_def latch_of_def)
  moreover have "members (G (fst i)) ((Q @ ?K) @ (p, s, r, k 0) # S) \<noteq> 0" if "i \<in> set ((p, s, r, k 0) # S)" for i
  proof (cases "i \<in> set S")
    case True
    then have "members (G (fst i)) (((p, s, r, u) # Q) @ S) \<noteq> 0" using inv by (auto simp: fj_inv_def)
    then show ?thesis by (auto simp: latch_of_def split: if_splits)
  next
    case False
    then show ?thesis using that ts by (simp add: members_started)
  qed
  ultimately show ?thesis using dist unfolding fj_inv_def prod.case by blast
qed

lemma cells_gather:
  assumes F: "\<forall>(p, s, u) \<in> set F. B p = (s, u)"
  shows "fj_cells ((p, s, r, u) # Q, S, F, m) \<subseteq>
    fj_cells (Q @ started B g ts, (p, s, r, v) # S, filter (\<lambda>j. fst j \<notin> set ts) F, m)"
proof
  fix x assume "x \<in> fj_cells ((p, s, r, u) # Q, S, F, m)"
  then consider "\<exists>j \<in> set ((p, s, r, u) # Q) \<union> set S. fst (snd j) = Some x" | q v where "(q, Some x, v) \<in> set F"
    by (auto simp: fj_cells_def statuses_def)
  then show "x \<in> fj_cells (Q @ started B g ts, (p, s, r, v) # S, filter (\<lambda>j. fst j \<notin> set ts) F, m)"
  proof cases
    case 2
    show ?thesis
    proof (cases "q \<in> set ts")
      case True
      have "fst (B q) = Some x" using F 2 by auto
      with True have "(q, Some x, Some g, snd (B q)) \<in> set (started B g ts)" by (auto simp: started_def)
      then show ?thesis by (force simp: fj_cells_def)
    next
      case False
      with 2 have "x \<in> statuses (filter (\<lambda>j. fst j \<notin> set ts) F)" by (auto simp: statuses_def)
      then show ?thesis by (simp add: fj_cells_def)
    qed
  qed (auto simp: fj_cells_def)
qed

lemma bound_gather:
  assumes bound: "fj_bound G prog B R N ((p, s, r, u) # Q, S, F, m)" and prog: "prog u = Gather g ts k"
  shows "\<exists>M < N. g = G p \<and> distinct ts \<and> set ts \<subseteq> fst ` set F \<and> length ts < 2 ^ 16 \<and>
    fj_step G prog ((p, s, r, u) # Q, S, F, m) =
      Some (Q @ started B g ts, (p, s, r, k 0) # S, filter (\<lambda>j. fst j \<notin> set ts) F, m) \<and>
    fj_bound G prog B R M (Q @ started B g ts, (p, s, r, k 0) # S, filter (\<lambda>j. fst j \<notin> set ts) F, m)"
proof -
  obtain As ns e where jobs: "\<forall>j \<in> set Q \<union> set S. fj_job G prog B R As ns j"
    and e: "fj_ends G prog B R p u (As p) (ns p) e" "\<forall>x. s = Some x \<longrightarrow> R x = e"
    and owed: "owed As (((p, s, r, u) # Q) @ S) = mset (map fst F)"
    and N: "N = rounds_left ns (((p, s, r, u) # Q) @ S)" and inj: "inj G"
    and inv: "fj_inv G ((p, s, r, u) # Q, S, F, m)" and F: "\<forall>(p, s, u) \<in> set F. B p = (s, u)"
    and cells: "\<forall>x. x \<notin> fj_cells ((p, s, r, u) # Q, S, F, m) \<longrightarrow> m x = R x"
    by (rule fj_boundE [OF bound]) (rule that)
  obtain Bs bs es A n where g: "g = G p" and ts: "ts \<noteq> []" "length ts < 2 ^ 16" and
    kids: "\<And>t. t \<in> set ts \<Longrightarrow> fj_ends G prog B R t (snd (B t)) (Bs t) (bs t) (es t)"
      "\<And>t x. t \<in> set ts \<Longrightarrow> fst (B t) = Some x \<Longrightarrow> R x = es t" and
    cont: "fj_ends G prog B R p (k 0) A n e" and
    split: "As p = ts @ concat (map Bs ts) @ A" "ns p = Suc (n + sum_list (map (\<lambda>t. Suc (bs t)) ts))"
    by (rule fj_ends_gather [of G prog B R p u "As p" "ns p" e g ts k, OF e(1) prog]) (rule that)
  have dist: "distinct (map fst ((p, s, r, u) # Q) @ map fst S @ map fst F)" using inv by (simp add: fj_inv_def)
  have owed1: "mset ts + (mset (concat (map Bs ts)) + mset A + owed As Q + owed As S) = mset (map fst F)"
    using owed split(1) by (simp add: ac_simps)
  have dts: "distinct ts"
    using distinct_sub_mset [of ts "map fst F"] dist owed1 by (metis distinct_append mset_subset_eq_add_left)
  have sub: "set ts \<subseteq> fst ` set F"
    using arg_cong [OF owed1, of set_mset] by auto
  let ?F = "filter (\<lambda>j. fst j \<notin> set ts) F"
  have F': "mset (map fst ?F) = mset (concat (map Bs ts)) + mset A + owed As Q + owed As S"
    using filter_rest [OF _ owed1] dist by (simp add: filter_map comp_def)
  have step: "fj_step G prog ((p, s, r, u) # Q, S, F, m) = Some (Q @ started B g ts, (p, s, r, k 0) # S, ?F, m)"
    using prog g ts dts by (simp add: pick_started [OF F sub])
  define As' where "As' x = (if x = p then A else if x \<in> set ts then Bs x else As x)" for x
  define ns' where "ns' x = (if x = p then n else if x \<in> set ts then bs x else ns x)" for x
  have out: "fst j \<noteq> p \<and> fst j \<notin> set ts" if "j \<in> set Q \<union> set S" for j
    using that dist sub by (fastforce simp: image_iff)
  have pts: "p \<notin> set ts" using dist sub by auto
  have "fj_job G prog B R As' ns' j" if j: "j \<in> set (Q @ started B g ts) \<union> set ((p, s, r, k 0) # S)" for j
  proof -
    consider "j \<in> set Q \<union> set S" | t where "t \<in> set ts" "j = (t, fst (B t), Some g, snd (B t))" | "j = (p, s, r, k 0)"
      using j by (auto simp: started_def)
    then show ?thesis
    proof cases
      case 1 then show ?thesis using out [OF 1] jobs fj_job_cong [of As' j As ns' ns] by (simp add: As'_def ns'_def)
    next
      case 2 then show ?thesis using kids pts by (auto simp: fj_job_def As'_def ns'_def)
    next
      case 3 then show ?thesis using cont e(2) by (auto simp: fj_job_def As'_def ns'_def)
    qed
  qed
  note kept = this
  have agree: "As' (fst j) = As (fst j)" "ns' (fst j) = ns (fst j)" if "j \<in> set Q \<union> set S" for j
    using out [OF that] by (simp_all add: As'_def ns'_def)
  have same: "owed As' js = owed As js" "rounds_left ns' js = rounds_left ns js" if "set js \<subseteq> set Q \<union> set S" for js
    using that agree by (intro sums_cong; blast)+
  have kid_sums: "map As' ts = map Bs ts" "map (\<lambda>t. Suc (ns' t)) ts = map (\<lambda>t. Suc (bs t)) ts"
    using pts by (auto simp: As'_def ns'_def)
  have p': "As' p = A" "ns' p = n" by (simp_all add: As'_def ns'_def)
  note kept
  moreover have "owed As' ((Q @ started B g ts) @ (p, s, r, k 0) # S) = mset (map fst ?F)"
    using same(1) [of Q] same(1) [of S] F' by (simp add: owed_started kid_sums p' ac_simps)
  moreover have less: "rounds_left ns' ((Q @ started B g ts) @ (p, s, r, k 0) # S) < N"
    using same(2) [of Q] same(2) [of S] by (simp add: rounds_started kid_sums p' N split(2))
  moreover have "fj_inv G (Q @ started B g ts, (p, s, r, k 0) # S, ?F, m)"
    using inv_gather [OF inv _ _ ts(1), of ?F B k] g F' owed1 by simp
  moreover have "m x = R x" if "x \<notin> fj_cells (Q @ started B g ts, (p, s, r, k 0) # S, ?F, m)" for x
    using that cells cells_gather [where B = B and ts = ts and g = g and v = "k 0" and p = p and s = s and r = r and
      u = u and Q = Q and S = S and m = m, OF F] by blast
  moreover have "\<forall>(p, s, u) \<in> set ?F. B p = (s, u)" using F by auto
  ultimately have "fj_bound G prog B R (rounds_left ns' ((Q @ started B g ts) @ (p, s, r, k 0) # S))
      (Q @ started B g ts, (p, s, r, k 0) # S, ?F, m)"
    using inj unfolding fj_bound_def prod.case by blast
  with step less g dts sub ts(2) show ?thesis by blast
qed

lemma fj_progress:
  assumes bound: "fj_bound G prog B R N a" and more: "fst a \<noteq> []"
  shows "\<exists>a' M. fj_step G prog a = Some a' \<and> fj_bound G prog B R M a' \<and> M < N"
proof -
  obtain Q0 S F m where a0: "a = (Q0, S, F, m)" by (cases a)
  with more obtain j Q where Q0: "Q0 = j # Q" by (cases Q0) auto
  obtain p s r u where "j = (p, s, r, u)" by (cases j)
  with a0 Q0 have a: "a = ((p, s, r, u) # Q, S, F, m)" by simp
  note bound' = bound [unfolded a]
  from bound' have inv: "fj_inv G ((p, s, r, u) # Q, S, F, m)" by (simp add: fj_bound_def)
  obtain A n e where "fj_ends G prog B R p u A n e" by (rule fj_boundE [OF bound']) (rule that)
  then show ?thesis
  proof (cases rule: fj_ends.cases)
    case returns
    show ?thesis
    proof (cases "\<exists>g. r = Some g \<and> members g (Q @ S) = 0")
      case True
      then obtain g where g: "r = Some g" "members g (Q @ S) = 0" by blast
      let ?Q = "Q @ filter (\<lambda>j. G (fst j) = g) S" and ?S = "filter (\<lambda>j. G (fst j) \<noteq> g) S"
      have "mset (?Q @ ?S) = mset (Q @ S)" using multiset_partition [of "mset S" "\<lambda>j. G (fst j) = g"] by simp
      from bound_return [OF bound' returns(3) this inv_wake [OF inv [unfolded g(1)] g(2)]] returns(3) g
      show ?thesis unfolding a by auto
    next
      case False
      then have "\<forall>g. r = Some g \<longrightarrow> members g (Q @ S) \<noteq> 0" by simp
      from bound_return [OF bound' returns(3) refl inv_done [OF inv this]] False returns(3)
      show ?thesis unfolding a by (auto split: option.splits)
    qed
  next
    case (relaxes k n)
    from bound_relax [OF bound' relaxes(2)] relaxes(2) show ?thesis unfolding a by auto
  next
    case (gathers ts k)
    from bound_gather [OF bound' gathers(3)] show ?thesis unfolding a by blast
  qed
qed

lemma fj_finished:
  assumes "fj_bound G prog B R N ([], S, F, m)" shows "S = []" "F = []" "m = R"
proof -
  show S: "S = []" using assms by (intro no_deadlock [of G S F m]) (simp_all add: fj_bound_def)
  from assms show F: "F = []" by (auto simp: fj_bound_def S)
  from assms show "m = R" by (auto simp: fj_bound_def S F fj_cells_def statuses_def)
qed

end
