(* ===== verification/Nested.thy ===== *)
theory Nested
  imports Interleave Forkjoin
begin

text \<open>
  The worker implements the scheduler of \<open>Forkjoin\<close>: every round of \<open>worker.c\<close> on tasks that
  yield, gather and return is a step of it, so that every task, however deep it is nested, runs
  to its end.
\<close>

section \<open>Correspondence\<close>

definition fj_resumes ::
  "(addr option \<Rightarrow> addr list \<Rightarrow> 'u) \<Rightarrow> (addr \<Rightarrow> addr) \<Rightarrow> addr \<Rightarrow> 'u frame pcaio_task \<Rightarrow> 'u \<Rightarrow> bool" where
  "fj_resumes start G p t u \<longleftrightarrow> resumes start p t u \<or> t_context t = Saved (Gathered (G p) u)"

text \<open>The fields of a task that belongs to a latch, or to none.\<close>

definition belongs :: "'k pcaio_task \<Rightarrow> addr option \<Rightarrow> bool" where
  "belongs t r \<longleftrightarrow> t_callback t = None \<and>
    (case r of
       None \<Rightarrow> t_terminated t = None
     | Some g \<Rightarrow> t_terminated t = Some gather_hook \<and> t_gather t = Some g)"

lemma belongs_simps [simp]:
  "belongs (t\<lparr>t_context := c\<rparr>) r \<longleftrightarrow> belongs t r" "belongs (t\<lparr>t_flags := f\<rparr>) r \<longleftrightarrow> belongs t r"
  "belongs (hooked g t) (Some g) \<longleftrightarrow> t_callback t = None"
  by (cases r; simp add: belongs_def)+

fun ready_rep :: "(addr option \<Rightarrow> addr list \<Rightarrow> 'u) \<Rightarrow> (addr \<Rightarrow> addr) \<Rightarrow> ('u frame, 'z) world_scheme \<Rightarrow> 'u fjob \<Rightarrow> bool" where
  "ready_rep start G w (p, s, r, u) \<longleftrightarrow>
    (\<exists>t. heap w p = Some t \<and> t_flags t = 0 \<and> t_status t = s \<and> belongs t r \<and> fj_resumes start G p t u)"

text \<open>A sleeping task, with \<open>n\<close> tasks to wait for.\<close>

fun asleep_rep :: "(addr \<Rightarrow> addr) \<Rightarrow> ('u frame, 'z) world_scheme \<Rightarrow> nat \<Rightarrow> 'u fjob \<Rightarrow> bool" where
  "asleep_rep G w n (p, s, r, u) \<longleftrightarrow> n < 2 ^ 16 \<and>
    (\<exists>t. heap w p = Some t \<and> t_flags t = 0 \<and> t_status t = s \<and> belongs t r \<and>
      t_context t = Saved (Gathered (G p) u)) \<and>
    gathers w (G p) = Some \<lparr>g_count = of_nat n, g_mutex = True, g_task = Some p\<rparr>"

definition fj_rep ::
  "(addr option \<Rightarrow> addr list \<Rightarrow> 'u) \<Rightarrow> (addr \<Rightarrow> addr) \<Rightarrow> tid \<Rightarrow> ('u frame, 'z) world_scheme \<Rightarrow> 'u fj_state \<Rightarrow> bool" where
  "fj_rep start G i w a \<longleftrightarrow>
    (case a of (Q, S, F, m) \<Rightarrow>
      (\<exists>L. world_rep w L (map fst Q) \<and> set L = fst ` (set Q \<union> set S) \<union> fst ` set F) \<and>
      (\<forall>j \<in> set Q. ready_rep start G w j) \<and>
      (\<forall>j \<in> set S. asleep_rep G w (members (G (fst j)) (Q @ S)) j) \<and>
      (\<forall>j \<in> set F. job_rep start w j) \<and> ints w = m \<and>
      tls_key (tls_task w) \<and> threadlocal_get i (tls_context w) = Some i)"

lemma ready_cong: "heap w' (fst j) = heap w (fst j) \<Longrightarrow> ready_rep start G w' j \<longleftrightarrow> ready_rep start G w j"
  by (cases j) simp

lemma asleep_cong:
  "heap w' (fst j) = heap w (fst j) \<Longrightarrow> gathers w' (G (fst j)) = gathers w (G (fst j)) \<Longrightarrow>
    asleep_rep G w' n j \<longleftrightarrow> asleep_rep G w n j"
  by (cases j) simp

lemma fresh_cong: "heap w' (fst j) = heap w (fst j) \<Longrightarrow> job_rep start w' j \<longleftrightarrow> job_rep start w j"
  by (cases j) simp

lemma asleep_ready: "asleep_rep G w n j \<Longrightarrow> ready_rep start G w j"
  by (cases j) (auto simp: fj_resumes_def)

section \<open>A round of the worker\<close>

text \<open>Picking up the first job: nothing but its own latch, now unused, is touched.\<close>

lemma fj_pickup:
  assumes rep: "fj_rep start G i w ((p, s, r, u) # Q, S, F, m)"
    and dist: "distinct (map fst ((p, s, r, u) # Q) @ map fst S @ map fst F)" and inj: "inj G"
  obtains L w2 t where "world_rep w2 L (map fst Q)" "set L = insert p (fst ` (set Q \<union> set S) \<union> fst ` set F)"
    "\<forall>j \<in> set Q. ready_rep start G w2 j"
    "\<forall>j \<in> set S. asleep_rep G w2 (members (G (fst j)) (((p, s, r, u) # Q) @ S)) j"
    "\<forall>j \<in> set F. job_rep start w2 j" "ints w2 = m" "tls_key (tls_task w2)"
    "threadlocal_get i (tls_context w2) = Some i" "pcaio_self i w2 = Some p"
    "heap w2 p = Some t" "t_flags t = 0" "t_status t = s" "belongs t r"
    "worker_iter cw (task_run prog start cb) i w = worker_switch i p (exec prog cb i p u w2)"
proof -
  from rep obtain L where L: "world_rep w L (p # map fst Q)"
    "set L = insert p (fst ` (set Q \<union> set S) \<union> fst ` set F)" by (auto simp: fj_rep_def)
  from rep obtain t where t: "heap w p = Some t" "t_flags t = 0" "t_status t = s" "belongs t r" "fj_resumes start G p t u"
    by (auto simp: fj_rep_def)
  obtain w1 where w1: "world_rep w1 L (map fst Q)" "heap w1 = heap w" "ints w1 = ints w" "gathers w1 = gathers w"
    "tls_context w1 = tls_context w" "tls_key (tls_task w1) = tls_key (tls_task w)"
    "tls_key (tls_task w) \<longrightarrow> pcaio_self i w1 = Some p" and
    iter: "worker_iter cw (task_run prog start cb) i w = worker_switch i p (task_run prog start cb i p w1)"
    by (rule worker_iter_runs [OF L(1), of i cw "task_run prog start cb"]) (rule that)
  have "\<exists>er g. task_run prog start cb i p w1 = exec prog cb i p u (w1\<lparr>errno := er, gathers := g\<rparr>) \<and>
      (\<forall>x. x \<noteq> G p \<longrightarrow> g x = gathers w x)"
  proof -
    from t(5) consider "t_context t = Saved (Relaxed u)" | "t_context t = Saved (Gathered (G p) u)"
      | args where "t_context t = Entry (task_hi p) (task_lo p)" "taskmain_args t = Some args" "start (t_func t) args = u"
      by (auto simp: fj_resumes_def resumes_def)
    then show ?thesis
    proof cases
      case 1
      then have "task_run prog start cb i p w1 = exec prog cb i p u (w1\<lparr>errno := 0, gathers := gathers w1\<rparr>)"
        using t(1) w1(2) by (simp add: task_run_def pcaio_relaxA_resumed_def)
      then show ?thesis using w1(4) by metis
    next
      case 2
      then have "task_run prog start cb i p w1 = exec prog cb i p u (w1\<lparr>errno := 0, gathers := (gathers w1)(G p := None)\<rparr>)"
        using t(1) w1(2)
        by (simp add: task_run_def pcaio_gatherA_resumed_def pcaio_relaxA_resumed_def gather_put_def)
      then show ?thesis using w1(4) by (intro exI conjI) auto
    next
      case 3
      then have "task_run prog start cb i p w1 = exec prog cb i p u (w1\<lparr>errno := errno w1, gathers := gathers w1\<rparr>)"
        using t(1) w1(2) by (simp add: task_run_def Let_def task_ptr_split)
      then show ?thesis using w1(4) by metis
    qed
  qed
  then obtain er g where run: "task_run prog start cb i p w1 = exec prog cb i p u (w1\<lparr>errno := er, gathers := g\<rparr>)"
    and g: "\<And>x. x \<noteq> G p \<Longrightarrow> g x = gathers w x" by blast
  let ?w2 = "w1\<lparr>errno := er, gathers := g\<rparr>"
  have sleep: "asleep_rep G ?w2 n j \<longleftrightarrow> asleep_rep G w n j" if "j \<in> set S" for j n
  proof (rule asleep_cong)
    have "fst j \<noteq> p" using that dist by auto
    then show "gathers ?w2 (G (fst j)) = gathers w (G (fst j))" using g inj by (auto dest: injD)
  qed (simp add: w1(2))
  show thesis
  proof (rule that [of ?w2 L t])
    show "world_rep ?w2 L (map fst Q)" using w1(1) world_rep_cong [of ?w2 w1] by simp
    show "\<forall>j \<in> set Q. ready_rep start G ?w2 j" using rep w1(2) ready_cong [of ?w2 _ w] by (simp add: fj_rep_def)
    show "\<forall>j \<in> set S. asleep_rep G ?w2 (members (G (fst j)) (((p, s, r, u) # Q) @ S)) j"
      using rep sleep unfolding fj_rep_def prod.case by blast
    show "\<forall>j \<in> set F. job_rep start ?w2 j" using rep w1(2) fresh_cong [of ?w2 _ w] by (simp add: fj_rep_def)
  qed (use rep w1 t run iter L(2) in \<open>simp_all add: fj_rep_def pcaio_self_def\<close>)
qed

lemma fj_repI:
  assumes "world_rep w L (map fst Q)" "set L = fst ` (set Q \<union> set S) \<union> fst ` set F"
    and "\<And>j. j \<in> set Q \<Longrightarrow> ready_rep start G w j"
    and "\<And>j. j \<in> set S \<Longrightarrow> asleep_rep G w (members (G (fst j)) (Q @ S)) j"
    and "\<And>j. j \<in> set F \<Longrightarrow> job_rep start w j"
    and "ints w = m" "tls_key (tls_task w)" "threadlocal_get i (tls_context w) = Some i"
  shows "fj_rep start G i w (Q, S, F, m)"
  using assms unfolding fj_rep_def prod.case by blast

lemma worker_stepI:
  assumes "worker_iter cw (task_run prog start cb) i w = worker_switch i p (exec prog cb i p u w2)"
    and "exec prog cb i p u w2 = Some (Inr (Some 0, w3))" "worker_back i p 0 w3 = Inr (Again, w4)"
  shows "worker_step cw prog start cb i w = Some w4"
  using assms by (simp add: worker_step_def worker_switch_def)

lemma sim_relax:
  assumes rep: "fj_rep start G i w ((p, s, r, u) # Q, S, F, m)"
    and inv: "fj_inv G ((p, s, r, u) # Q, S, F, m)" and inj: "inj G" and prog: "prog u = Relax 0 k"
  shows "\<exists>w'. worker_step cw prog start cb i w = Some w' \<and> fj_rep start G i w' (Q @ [(p, s, r, k 0)], S, F, m)"
proof -
  have dist: "distinct (map fst ((p, s, r, u) # Q) @ map fst S @ map fst F)" using inv by (simp add: fj_inv_def)
  obtain L w2 t where w2: "world_rep w2 L (map fst Q)" "set L = insert p (fst ` (set Q \<union> set S) \<union> fst ` set F)"
    "\<forall>j \<in> set Q. ready_rep start G w2 j"
    "\<forall>j \<in> set S. asleep_rep G w2 (members (G (fst j)) (((p, s, r, u) # Q) @ S)) j"
    "\<forall>j \<in> set F. job_rep start w2 j" "ints w2 = m" "tls_key (tls_task w2)"
    "threadlocal_get i (tls_context w2) = Some i" "pcaio_self i w2 = Some p" and
    t: "heap w2 p = Some t" "t_flags t = 0" "t_status t = s" "belongs t r" and
    iter: "worker_iter cw (task_run prog start cb) i w = worker_switch i p (exec prog cb i p u w2)"
    by (rule fj_pickup [OF rep dist inj, of cw prog cb]) (rule that)
  let ?t = "t\<lparr>t_context := Saved (Relaxed (k 0))\<rparr>"
  let ?w3 = "task_put p ?t w2"
  note exec = exec_relax [of prog u k i w2 p i t cb, OF prog w2(9,8) t(1)]
  have rep3: "world_rep ?w3 L (map fst Q)" using w2(1) t(1) by (simp add: world_rep_put)
  have p3: "p \<notin> set (map fst Q)" "heap ?w3 p = Some ?t" using dist by auto
  from back_ready [OF rep3 p3, of i] t(2) obtain w4 where
    w4: "worker_back i p 0 ?w3 = Inr (Again, w4)" "world_rep w4 L (map fst Q @ [p])"
      "heap w4 = heap ?w3" "ints w4 = ints ?w3" "gathers w4 = gathers ?w3"
      "tls_key (tls_task w4) = tls_key (tls_task ?w3)" "tls_context w4 = tls_context ?w3" by auto
  have others: "heap w4 q = heap w2 q" if "q \<in> fst ` set Q \<or> q \<in> fst ` set S \<or> q \<in> fst ` set F" for q
    using that dist w4(3) by auto
  have "fj_rep start G i w4 (Q @ [(p, s, r, k 0)], S, F, m)"
  proof (rule fj_repI)
    show "world_rep w4 L (map fst (Q @ [(p, s, r, k 0)]))" using w4(2) by simp
    show "ready_rep start G w4 j" if "j \<in> set (Q @ [(p, s, r, k 0)])" for j
    proof (cases "j \<in> set Q")
      case True
      then show ?thesis using w2(3) ready_cong [of w4 j w2 start G] others [of "fst j"] by simp
    next
      case False
      then show ?thesis using that t w4(3) by (auto simp: fj_resumes_def resumes_def)
    qed
    show "asleep_rep G w4 (members (G (fst j)) ((Q @ [(p, s, r, k 0)]) @ S)) j" if "j \<in> set S" for j
      using that w2(4) asleep_cong [of w4 j w2 G] others [of "fst j"] w4(5) by (auto simp: latch_of_def)
    show "job_rep start w4 j" if "j \<in> set F" for j
      using that w2(5) fresh_cong [of w4 j w2 start] others [of "fst j"] by simp
  qed (use w2 w4 in auto)
  with worker_stepI [OF iter exec w4(1)] show ?thesis by blast
qed

text \<open>The memory after the flag and the status of a task that returns \<open>e\<close> are set.\<close>

definition ended :: "addr \<Rightarrow> 'k pcaio_task \<Rightarrow> c_int \<Rightarrow> ('k, 'z) world_scheme \<Rightarrow> ('k, 'z) world_scheme" where
  "ended p t e w =
    (case t_status t of None \<Rightarrow> id | Some a \<Rightarrow> ints_update (\<lambda>m. m(a := e)))
      (task_put p (t\<lparr>t_flags := t_flags t OR TASK_TERMINATED\<rparr>) w)"

lemma ended_simps [simp]:
  "heap (ended p t e w) = (heap w)(p := Some (t\<lparr>t_flags := t_flags t OR TASK_TERMINATED\<rparr>))"
  "gathers (ended p t e w) = gathers w" "tls_task (ended p t e w) = tls_task w"
  "tls_context (ended p t e w) = tls_context w" "ints (ended p t e w) = put_status (t_status t) e (ints w)"
  "tasks (ended p t e w) = tasks w" "taskq (ended p t e w) = taskq w"
  by (simp_all add: ended_def put_status_def split: option.splits)

lemma ended_rep: "heap w p \<noteq> None \<Longrightarrow> world_rep (ended p t e w) L Q \<longleftrightarrow> world_rep w L Q"
  using world_rep_cong [of "ended p t e w" "task_put p (t\<lparr>t_flags := t_flags t OR TASK_TERMINATED\<rparr>) w" L Q]
    world_rep_put [of w p "t\<lparr>t_flags := t_flags t OR TASK_TERMINATED\<rparr>" L Q] by simp

lemma finish_plain:
  assumes "heap w p = Some t" "belongs t None"
  shows "taskmain_finish gather_run_hook cb i p (Some e) w = Inr (threadlocal_get i (tls_context w), ended p t e w)"
  using taskmain_finish_plain [of w p t gather_run_hook cb i e] assms by (simp add: belongs_def ended_def)

lemma finish_hooked:
  assumes "heap w p = Some t" "belongs t (Some g)" "gather_taskterminated p (ended p t e w) = Inr w'"
    and "heap w' = heap (ended p t e w)" "tls_context w' = tls_context w"
  shows "taskmain_finish gather_run_hook cb i p (Some e) w = Inr (threadlocal_get i (tls_context w), w')"
proof -
  have "write_status (t_status t) (Some e) (task_put p (t\<lparr>t_flags := t_flags t OR TASK_TERMINATED\<rparr>) w) = Inr (ended p t e w)"
    by (simp add: write_status_def ended_def split: option.splits)
  with assms show ?thesis
    by (simp add: taskmain_finish_def Let_def belongs_def gather_run_hook_def)
qed

lemma exec_end:
  assumes "prog u = Return e" "taskmain_finish gather_run_hook (u_callback cb) i p (Some e) w = Inr (Some c, w')"
  shows "exec prog cb i p u w = Some (Inr (Some 0, w'))"
  using assms by (simp add: exec.simps [of prog])

text \<open>A task that has ended is freed; the queue and the sleepers may have changed places
  meanwhile.\<close>

lemma sim_end:
  assumes iter: "worker_iter cw (task_run prog start cb) i w = worker_switch i p (exec prog cb i p u w2)"
    and exec: "exec prog cb i p u w2 = Some (Inr (Some 0, w3))"
    and L: "set L = insert p (fst ` (set Q' \<union> set S') \<union> fst ` set F)"
      "p \<notin> fst ` (set Q' \<union> set S') \<union> fst ` set F"
    and rep: "world_rep w3 L (map fst Q')" "heap w3 p = Some t" "t_flags t AND TASK_TERMINATED \<noteq> 0"
    and jobs: "\<And>j. j \<in> set Q' \<Longrightarrow> ready_rep start G w3 j"
      "\<And>j. j \<in> set S' \<Longrightarrow> asleep_rep G w3 (members (G (fst j)) (Q' @ S')) j"
      "\<And>j. j \<in> set F \<Longrightarrow> job_rep start w3 j"
    and env: "ints w3 = m'" "tls_key (tls_task w3)" "threadlocal_get i (tls_context w3) = Some i"
  shows "\<exists>w'. worker_step cw prog start cb i w = Some w' \<and> fj_rep start G i w' (Q', S', F, m')"
proof -
  have "p \<notin> set (map fst Q')" using L(2) by auto
  from back_terminated [OF rep(1) this rep(2,3), of i] obtain w4 where
    w4: "worker_back i p 0 w3 = Inr (Again, w4)" "world_rep w4 (remove1 p L) (map fst Q')"
      "heap w4 = (heap w3)(p := None)" "ints w4 = ints w3" "gathers w4 = gathers w3"
      "tls_key (tls_task w4) = tls_key (tls_task w3)" "tls_context w4 = tls_context w3" by blast
  have others: "heap w4 q = heap w3 q" if "q \<in> fst ` (set Q' \<union> set S') \<union> fst ` set F" for q
    using that L(2) w4(3) by auto
  have "distinct L" using rep(1) by (simp add: world_rep_def rep_defs)
  then have L': "set (remove1 p L) = fst ` (set Q' \<union> set S') \<union> fst ` set F" using L by auto
  have "fj_rep start G i w4 (Q', S', F, m')"
  proof (rule fj_repI [OF w4(2) L'])
    show "ready_rep start G w4 j" if "j \<in> set Q'" for j
      using that jobs(1) ready_cong [of w4 j w3 start G] others [of "fst j"] by simp
    show "asleep_rep G w4 (members (G (fst j)) (Q' @ S')) j" if "j \<in> set S'" for j
      using that jobs(2) asleep_cong [of w4 j w3 G] others [of "fst j"] w4(5) by auto
    show "job_rep start w4 j" if "j \<in> set F" for j
      using that jobs(3) fresh_cong [of w4 j w3 start] others [of "fst j"] by simp
  qed (use env w4 in auto)
  with worker_stepI [OF iter exec w4(1)] show ?thesis by blast
qed

lemma arrive_count:
  assumes "heap w p = Some t" "t_gather t = Some g" "Suc n < 2 ^ 16"
    and "gathers w g = Some \<lparr>g_count = of_nat (Suc n), g_mutex = True, g_task = Some p0\<rparr>"
  shows "gather_taskterminated p w =
    (if n \<noteq> 0 then Inr (gather_put g (Some \<lparr>g_count = of_nat n, g_mutex = True, g_task = Some p0\<rparr>) w)
     else Inr (snd (pcaio_schedule (Some p0)
       (gather_put g (Some \<lparr>g_count = 0, g_mutex = False, g_task = Some p0\<rparr>) w))))"
  using assms of_nat_ushort_eq_0 [of n]
  by (simp add: gather_taskterminated_def gather_at_def Let_def)

lemma ended_flag: "t_flags (t\<lparr>t_flags := t_flags t OR TASK_TERMINATED\<rparr>) AND TASK_TERMINATED \<noteq> 0"
  by (simp add: task_flags word_ao_absorbs)

text \<open>The end of a task no latch counts, possibly after a few calls that leave the memory alone.\<close>

lemma sim_return_after:
  assumes rep: "fj_rep start G i w ((p, s, None, u) # Q, S, F, m)"
    and inv: "fj_inv G ((p, s, None, u) # Q, S, F, m)" and inj: "inj G" and prog: "prog u' = Return e"
    and calls: "\<And>w2. ints w2 = m \<Longrightarrow> exec prog cb i p u w2 = exec prog cb i p u' w2"
  shows "\<exists>w'. worker_step cw prog start cb i w = Some w' \<and> fj_rep start G i w' (Q, S, F, put_status s e m)"
proof -
  have dist: "distinct (map fst ((p, s, None, u) # Q) @ map fst S @ map fst F)" using inv by (simp add: fj_inv_def)
  obtain L w2 t where w2: "world_rep w2 L (map fst Q)" "set L = insert p (fst ` (set Q \<union> set S) \<union> fst ` set F)"
    "\<forall>j \<in> set Q. ready_rep start G w2 j"
    "\<forall>j \<in> set S. asleep_rep G w2 (members (G (fst j)) (((p, s, None, u) # Q) @ S)) j"
    "\<forall>j \<in> set F. job_rep start w2 j" "ints w2 = m" "tls_key (tls_task w2)"
    "threadlocal_get i (tls_context w2) = Some i" "pcaio_self i w2 = Some p" and
    t: "heap w2 p = Some t" "t_flags t = 0" "t_status t = s" "belongs t None" and
    iter: "worker_iter cw (task_run prog start cb) i w = worker_switch i p (exec prog cb i p u w2)"
    by (rule fj_pickup [OF rep dist inj, of cw prog cb]) (rule that)
  let ?w3 = "ended p t e w2"
  have exec: "exec prog cb i p u w2 = Some (Inr (Some 0, ?w3))"
    unfolding calls [OF w2(6)]
    using finish_plain [OF t(1,4), of "u_callback cb" i e] w2(8) prog by (intro exec_end [of prog u' e cb i p w2 i ?w3]) simp_all
  have out: "p \<notin> fst ` (set Q \<union> set S) \<union> fst ` set F" using dist by auto
  have others: "heap ?w3 q = heap w2 q" if "q \<in> fst ` (set Q \<union> set S) \<union> fst ` set F" for q
    using that out by auto
  show ?thesis
  proof (rule sim_end [OF iter exec w2(2) out _ _ ended_flag [of t]])
    show "world_rep ?w3 L (map fst Q)" using w2(1) t(1) by (simp add: ended_rep)
    show "ready_rep start G ?w3 j" if "j \<in> set Q" for j
      using that w2(3) ready_cong [of ?w3 j w2 start G] others [of "fst j"] by simp
    show "asleep_rep G ?w3 (members (G (fst j)) (Q @ S)) j" if "j \<in> set S" for j
      using that w2(4) asleep_cong [of ?w3 j w2 G] others [of "fst j"] by (auto simp: latch_of_def)
    show "job_rep start ?w3 j" if "j \<in> set F" for j
      using that w2(5) fresh_cong [of ?w3 j w2 start] others [of "fst j"] by simp
  qed (use w2 t in simp_all)
qed

lemma sim_return_plain:
  assumes "fj_rep start G i w ((p, s, None, u) # Q, S, F, m)" "fj_inv G ((p, s, None, u) # Q, S, F, m)" "inj G"
    and "prog u = Return e"
  shows "\<exists>w'. worker_step cw prog start cb i w = Some w' \<and> fj_rep start G i w' (Q, S, F, put_status s e m)"
  using assms by (rule sim_return_after) simp

lemma sim_return_stay:
  assumes rep: "fj_rep start G i w ((p, s, Some g, u) # Q, S, F, m)"
    and inv: "fj_inv G ((p, s, Some g, u) # Q, S, F, m)" and inj: "inj G" and prog: "prog u = Return e"
    and stay: "members g (Q @ S) \<noteq> 0"
  shows "\<exists>w'. worker_step cw prog start cb i w = Some w' \<and> fj_rep start G i w' (Q, S, F, put_status s e m)"
proof -
  have dist: "distinct (map fst ((p, s, Some g, u) # Q) @ map fst S @ map fst F)" using inv by (simp add: fj_inv_def)
  obtain L w2 t where w2: "world_rep w2 L (map fst Q)" "set L = insert p (fst ` (set Q \<union> set S) \<union> fst ` set F)"
    "\<forall>j \<in> set Q. ready_rep start G w2 j"
    "\<forall>j \<in> set S. asleep_rep G w2 (members (G (fst j)) (((p, s, Some g, u) # Q) @ S)) j"
    "\<forall>j \<in> set F. job_rep start w2 j" "ints w2 = m" "tls_key (tls_task w2)"
    "threadlocal_get i (tls_context w2) = Some i" "pcaio_self i w2 = Some p" and
    t: "heap w2 p = Some t" "t_flags t = 0" "t_status t = s" "belongs t (Some g)" and
    iter: "worker_iter cw (task_run prog start cb) i w = worker_switch i p (exec prog cb i p u w2)"
    by (rule fj_pickup [OF rep dist inj, of cw prog cb]) (rule that)
  from inv obtain i0 where i0: "i0 \<in> set S" "G (fst i0) = g" by (auto simp: fj_inv_def latch_of_def)
  let ?n = "members g (Q @ S)" and ?p0 = "fst i0"
  have all: "members g (((p, s, Some g, u) # Q) @ S) = Suc ?n" by (simp add: latch_of_def)
  have "asleep_rep G w2 (Suc ?n) i0" using w2(4) i0 all by auto
  then have latch: "gathers w2 g = Some \<lparr>g_count = of_nat (Suc ?n), g_mutex = True, g_task = Some ?p0\<rparr>" "Suc ?n < 2 ^ 16"
    using i0(2) by (cases i0; simp)+
  let ?w3 = "gather_put g (Some \<lparr>g_count = of_nat ?n, g_mutex = True, g_task = Some ?p0\<rparr>) (ended p t e w2)"
  have "gather_taskterminated p (ended p t e w2) = Inr ?w3"
    using arrive_count [of "ended p t e w2" p _ g ?n ?p0] latch t(4) stay by (simp add: belongs_def)
  from finish_hooked [OF t(1,4) this, of "u_callback cb" i] w2(8)
  have exec: "exec prog cb i p u w2 = Some (Inr (Some 0, ?w3))" using prog by (intro exec_end [of prog u e cb i p w2 i ?w3]) simp_all
  have out: "p \<notin> fst ` (set Q \<union> set S) \<union> fst ` set F" using dist by auto
  have others: "heap ?w3 q = heap w2 q" if "q \<in> fst ` (set Q \<union> set S) \<union> fst ` set F" for q
    using that out by auto
  show ?thesis
  proof (rule sim_end [OF iter exec w2(2) out _ _ ended_flag [of t]])
    show "world_rep ?w3 L (map fst Q)" using w2(1) t(1) by (simp add: ended_rep)
    show "ready_rep start G ?w3 j" if "j \<in> set Q" for j
      using that w2(3) ready_cong [of ?w3 j w2 start G] others [of "fst j"] by simp
    show "asleep_rep G ?w3 (members (G (fst j)) (Q @ S)) j" if j: "j \<in> set S" for j
    proof (cases "G (fst j) = g")
      case True
      with i0(2) inj have "fst j = ?p0" by (metis injD)
      moreover have "asleep_rep G w2 (Suc ?n) j" using w2(4) j all True by auto
      moreover have "fst j \<noteq> p" using out j by auto
      ultimately show ?thesis using True latch(2) by (cases j) simp
    next
      case False
      then show ?thesis
        using j w2(4) asleep_cong [of ?w3 j w2 G] others [of "fst j"] by (auto simp: latch_of_def)
    qed
    show "job_rep start ?w3 j" if "j \<in> set F" for j
      using that w2(5) fresh_cong [of ?w3 j w2 start] others [of "fst j"] by simp
  qed (use w2 t in simp_all)
qed

lemma filter_only:
  "distinct (map fst S) \<Longrightarrow> i0 \<in> set S \<Longrightarrow> inj G \<Longrightarrow> filter (\<lambda>j. G (fst j) = G (fst i0)) S = [i0]"
proof (induction S)
  case (Cons j S)
  show ?case
  proof (cases "j = i0")
    case True
    have "\<forall>k \<in> set S. G (fst k) \<noteq> G (fst i0)"
      using Cons.prems(1) True by (auto simp: inj_eq [OF Cons.prems(3)] image_iff)
    then show ?thesis using True by (simp add: filter_empty_conv)
  next
    case False
    then have "i0 \<in> set S" using Cons.prems(2) by simp
    moreover from this have "G (fst j) \<noteq> G (fst i0)"
      using Cons.prems(1) by (auto simp: inj_eq [OF Cons.prems(3)] image_iff)
    ultimately show ?thesis using Cons by simp
  qed
qed simp

lemma sim_return_wake:
  assumes rep: "fj_rep start G i w ((p, s, Some g, u) # Q, S, F, m)"
    and inv: "fj_inv G ((p, s, Some g, u) # Q, S, F, m)" and inj: "inj G" and prog: "prog u = Return e"
    and last: "members g (Q @ S) = 0"
  shows "\<exists>w'. worker_step cw prog start cb i w = Some w' \<and>
    fj_rep start G i w' (Q @ filter (\<lambda>j. G (fst j) = g) S, filter (\<lambda>j. G (fst j) \<noteq> g) S, F, put_status s e m)"
proof -
  have dist: "distinct (map fst ((p, s, Some g, u) # Q) @ map fst S @ map fst F)" using inv by (simp add: fj_inv_def)
  obtain L w2 t where w2: "world_rep w2 L (map fst Q)" "set L = insert p (fst ` (set Q \<union> set S) \<union> fst ` set F)"
    "\<forall>j \<in> set Q. ready_rep start G w2 j"
    "\<forall>j \<in> set S. asleep_rep G w2 (members (G (fst j)) (((p, s, Some g, u) # Q) @ S)) j"
    "\<forall>j \<in> set F. job_rep start w2 j" "ints w2 = m" "tls_key (tls_task w2)"
    "threadlocal_get i (tls_context w2) = Some i" "pcaio_self i w2 = Some p" and
    t: "heap w2 p = Some t" "t_flags t = 0" "t_status t = s" "belongs t (Some g)" and
    iter: "worker_iter cw (task_run prog start cb) i w = worker_switch i p (exec prog cb i p u w2)"
    by (rule fj_pickup [OF rep dist inj, of cw prog cb]) (rule that)
  from inv obtain i0 where i0: "i0 \<in> set S" "g = G (fst i0)" by (auto simp: fj_inv_def latch_of_def)
  let ?p0 = "fst i0" and ?S = "filter (\<lambda>j. G (fst j) \<noteq> g) S"
  have only: "filter (\<lambda>j. G (fst j) = g) S = [i0]"
    using dist i0 inj by (simp add: filter_only)
  have one: "members g (((p, s, Some g, u) # Q) @ S) = Suc 0" using last by (simp add: latch_of_def)
  have sleep0: "asleep_rep G w2 (Suc 0) i0" using w2(4) i0 one by auto
  then have latch: "gathers w2 g = Some \<lparr>g_count = of_nat (Suc 0), g_mutex = True, g_task = Some ?p0\<rparr>"
    using i0(2) by (cases i0) simp
  let ?a = "gather_put g (Some \<lparr>g_count = 0, g_mutex = False, g_task = Some ?p0\<rparr>) (ended p t e w2)"
  have out: "p \<notin> fst ` (set Q \<union> set S) \<union> fst ` set F" using dist by auto
  have p0: "?p0 \<notin> set (map fst Q)" using i0(1) dist by auto
  have "heap w2 ?p0 \<noteq> None" using sleep0 by (cases i0) auto
  then have live: "heap ?a ?p0 \<noteq> None" by simp
  have repa: "world_rep ?a L (map fst Q)" using w2(1) t(1) by (simp add: ended_rep)
  obtain q where q: "pcaio_schedule (Some ?p0) ?a = (0, ?a\<lparr>taskq := q\<rparr>)" "world_rep (?a\<lparr>taskq := q\<rparr>) L (map fst Q @ [?p0])"
    by (rule schedule_idle_run [OF repa live p0]) (rule that)
  let ?w3 = "?a\<lparr>taskq := q\<rparr>"
  have "gather_taskterminated p (ended p t e w2) = Inr ?w3"
    using arrive_count [of "ended p t e w2" p _ g 0 ?p0] latch t(4) q(1) by (simp add: belongs_def)
  from finish_hooked [OF t(1,4) this, of "u_callback cb" i] w2(8)
  have exec: "exec prog cb i p u w2 = Some (Inr (Some 0, ?w3))"
    using prog by (intro exec_end [of prog u e cb i p w2 i ?w3]) simp_all
  have sets: "set (Q @ [i0]) \<union> set ?S = set Q \<union> set S"
  proof -
    have "set S = set (filter (\<lambda>j. G (fst j) = g) S) \<union> set ?S" by (rule set_eqI) auto
    then have "set S = {i0} \<union> set ?S" unfolding only by simp
    then show ?thesis by (simp only: set_append list.set) blast
  qed
  have others: "heap ?w3 (fst j) = heap w2 (fst j)" if "j \<in> set Q \<union> set S" for j
    using that out by auto
  have "\<exists>w'. worker_step cw prog start cb i w = Some w' \<and> fj_rep start G i w' (Q @ [i0], ?S, F, put_status s e m)"
  proof (rule sim_end [OF iter exec _ _ _ _ ended_flag [of t]])
    show "set L = insert p (fst ` (set (Q @ [i0]) \<union> set ?S) \<union> fst ` set F)" unfolding sets by (rule w2(2))
    show "p \<notin> fst ` (set (Q @ [i0]) \<union> set ?S) \<union> fst ` set F" unfolding sets by (rule out)
    show "world_rep ?w3 L (map fst (Q @ [i0]))" using q(2) by simp
    show "ready_rep start G ?w3 j" if j: "j \<in> set (Q @ [i0])" for j
    proof -
      have "ready_rep start G w2 j" using j w2(3) asleep_ready [OF sleep0, of start] by auto
      then show ?thesis using others [of j] j i0(1) ready_cong [of ?w3 j w2 start G] by auto
    qed
    show "asleep_rep G ?w3 (members (G (fst j)) ((Q @ [i0]) @ ?S)) j" if j: "j \<in> set ?S" for j
    proof -
      have ne: "g \<noteq> G (fst j)" using j by auto
      have "members (G (fst j)) [i0] + members (G (fst j)) ?S = members (G (fst j)) S"
        using split_sums(3) [of "G (fst j)" "\<lambda>j. G (fst j) = g" S] only by simp
      then have n: "members (G (fst j)) ((Q @ [i0]) @ ?S) = members (G (fst j)) (((p, s, Some g, u) # Q) @ S)"
        using ne by (simp add: latch_of_def)
      have jS: "j \<in> set S" using j by simp
      have same: "heap ?w3 (fst j) = heap w2 (fst j)" "gathers ?w3 (G (fst j)) = gathers w2 (G (fst j))"
        using others [of j] j by simp_all
      have "asleep_rep G w2 (members (G (fst j)) ((Q @ [i0]) @ ?S)) j"
        unfolding n by (rule bspec [OF w2(4) jS])
      then show ?thesis using asleep_cong [where G = G and j = j and w' = ?w3 and w = w2, OF same] by blast
    qed
    show "job_rep start ?w3 j" if "j \<in> set F" for j
    proof -
      have "heap ?w3 (fst j) = heap w2 (fst j)" using that out by auto
      then show ?thesis using that w2(5) fresh_cong [of ?w3 j w2 start] by simp
    qed
  qed (use w2 t in simp_all)
  then show ?thesis by (simp add: only)
qed

lemma held_flags: "(0 OR TASK_NOSCHEDULE :: c_int) AND TASK_TERMINATED = 0"
    "(0 OR TASK_NOSCHEDULE :: c_int) AND TASK_NOSCHEDULE \<noteq> 0"
    "(0 OR TASK_NOSCHEDULE :: c_int) AND NOT TASK_NOSCHEDULE = 0"
  by (simp_all add: task_flags)

text \<open>A task at its \<open>pcaio_gatherA\<close>, wherever it comes from.\<close>

lemma gather_sleeps:
  assumes w2: "world_rep w2 L (map fst Q)" "set L = insert p (fst ` (set Q \<union> set S) \<union> fst ` set F)"
    "\<forall>j \<in> set Q. ready_rep start G w2 j"
    "\<forall>j \<in> set S. asleep_rep G w2 (members (G (fst j)) (((p, s, r, u) # Q) @ S)) j"
    "\<forall>j \<in> set F. job_rep start w2 j" "ints w2 = m" "tls_key (tls_task w2)"
    "threadlocal_get i (tls_context w2) = Some i" "pcaio_self i w2 = Some p"
    and t: "heap w2 p = Some t" "t_flags t = 0" "t_status t = s" "belongs t r"
    and inv: "fj_inv G ((p, s, r, u) # Q, S, F, m)" and inj: "inj G" and prog: "prog u = Gather (G p) ts k"
    and F: "\<forall>(p, s, u) \<in> set F. B p = (s, u)"
    and ts: "distinct ts" "set ts \<subseteq> fst ` set F" "length ts < 2 ^ 16"
  shows "\<exists>w3 w4. exec prog cb i p u w2 = Some (Inr (Some 0, w3)) \<and> worker_back i p 0 w3 = Inr (Again, w4) \<and>
    fj_rep start G i w4 (Q @ started B (G p) ts, (p, s, r, k 0) # S, filter (\<lambda>j. fst j \<notin> set ts) F, m)"
proof -
  let ?g = "G p" and ?K = "started B (G p) ts" and ?F = "filter (\<lambda>j. fst j \<notin> set ts) F"
  have dist: "distinct (map fst ((p, s, r, u) # Q) @ map fst S @ map fst F)" using inv by (simp add: fj_inv_def)
  have kids: "map fst ?K = ts" by (simp add: started_def comp_def)
  have out: "p \<notin> fst ` (set Q \<union> set S)" "p \<notin> set ts" "p \<notin> fst ` set F" using dist ts(2) by auto
  have apart: "fst j \<notin> set ts" if "j \<in> set Q \<union> set S" for j using that dist ts(2) by (auto simp: image_iff)
  have tsL: "set ts \<subseteq> set L" "set ts \<inter> set (map fst Q) = {}" using w2(2) ts(2) dist by auto
  from gatherA_run [OF w2(1,9,8) t(1) ts(1) tsL out(2), of ?g "Gathered ?g (k 0)"] obtain w3 where
    w3: "pcaio_gatherA i ?g 0 0 (Gathered ?g (k 0)) ts w2 = Inr (Switched i, w3)" "world_rep w3 L (map fst Q @ ts)"
      "heap w3 = (hooked_all ?g (set ts) (heap w2))
        (p := Some (t\<lparr>t_flags := t_flags t OR TASK_NOSCHEDULE, t_context := Saved (Gathered ?g (k 0))\<rparr>))"
      "gathers w3 = (gathers w2)(?g := Some \<lparr>g_count = of_nat (length ts), g_mutex = True, g_task = Some p\<rparr>)"
      "tls_task w3 = tls_task w2" "tls_context w3 = tls_context w2" "ints w3 = ints w2" by blast
  have exec: "exec prog cb i p u w2 = Some (Inr (Some 0, w3))"
    using w3(1) by (simp add: exec.simps [of prog] prog)
  let ?t = "t\<lparr>t_context := Saved (Gathered ?g (k 0)), t_flags := 0\<rparr>"
  let ?w4 = "task_put p ?t (tls_set_task i None w3)"
  have p3: "heap w3 p = Some (t\<lparr>t_flags := 0 OR TASK_NOSCHEDULE, t_context := Saved (Gathered ?g (k 0))\<rparr>)"
    using w3(3) t(2) by simp
  have returned: "worker_back i p 0 w3 = Inr (Again, ?w4)"
    using back_held [OF p3, of i] held_flags by simp
  have heap4: "heap ?w4 q = (if q = p then Some ?t else hooked_all ?g (set ts) (heap w2) q)" for q
    using w3(3) by simp
  have same: "heap ?w4 q = heap w2 q" if "q \<noteq> p" "q \<notin> set ts" for q
    using heap4 [of q] that by (simp add: hooked_all_def)
  have nobody: "members ?g (((p, s, r, u) # Q) @ S) = 0"
  proof (rule ccontr)
    assume "members ?g (((p, s, r, u) # Q) @ S) \<noteq> 0"
    then obtain j where "j \<in> set ((p, s, r, u) # Q) \<union> set S" "latch_of j = Some ?g"
      by (auto simp: members_0 simp del: members_simps)
    then have "\<exists>i \<in> set S. G (fst i) = ?g"
      using inv stacked_parent [of G S j ?g] by (auto simp: fj_inv_def)
    then show False using out(1) by (auto simp: inj_eq [OF inj])
  qed
  have "fj_rep start G i ?w4 (Q @ ?K, (p, s, r, k 0) # S, ?F, m)"
  proof (rule fj_repI)
    have "world_rep w3 L (map fst (Q @ ?K))" using w3(2) kids by simp
    then show "world_rep ?w4 L (map fst (Q @ ?K))" using p3 by (simp add: world_rep_put)
    have "fst ` set ?K = set ts" using kids by (metis list.set_map)
    then show "set L = fst ` (set (Q @ ?K) \<union> set ((p, s, r, k 0) # S)) \<union> fst ` set ?F"
      using w2(2) ts(2) by (auto simp: image_Un)
    show "ready_rep start G ?w4 j" if j: "j \<in> set (Q @ ?K)" for j
    proof (cases "j \<in> set Q")
      case True
      then have "heap ?w4 (fst j) = heap w2 (fst j)" using out(1) apart [of j] by (intro same) auto
      then show ?thesis using w2(3) True ready_cong [of ?w4 j w2 start G] by simp
    next
      case False
      with j obtain q where q: "q \<in> set ts" "j = (q, fst (B q), Some ?g, snd (B q))" by (auto simp: started_def)
      with ts(2) obtain y where "(q, y) \<in> set F" by auto
      with F have "(q, B q) \<in> set F" by (cases y) auto
      moreover obtain a b where B: "B q = (a, b)" by (cases "B q")
      ultimately have "job_rep start w2 (q, a, b)" using w2(5) by auto
      then obtain t' where t': "heap w2 q = Some t'" "t_flags t' = 0" "t_status t' = fst (B q)" "t_callback t' = None"
        "resumes start q t' (snd (B q))" using B by (auto simp: resumes_def)
      have "heap ?w4 q = Some (hooked ?g t')" using heap4 [of q] t'(1) q(1) out(2) by (auto simp: hooked_all_def)
      then show ?thesis using t' q(2) by (simp add: fj_resumes_def)
    qed
    show "asleep_rep G ?w4 (members (G (fst j)) ((Q @ ?K) @ (p, s, r, k 0) # S)) j"
      if j: "j \<in> set ((p, s, r, k 0) # S)" for j
    proof (cases "j = (p, s, r, k 0)")
      case True
      have "members ?g ((Q @ ?K) @ (p, s, r, k 0) # S) = length ts"
        using nobody by (simp add: members_started latch_of_def split: if_splits)
      then show ?thesis using True t w3(4) ts(3) by simp
    next
      case False
      then have jS: "j \<in> set S" using j by simp
      then have ne: "fst j \<noteq> p" using out(1) by auto
      then have neG: "G (fst j) \<noteq> ?g" by (simp add: inj_eq [OF inj])
      then have n: "members (G (fst j)) ((Q @ ?K) @ (p, s, r, k 0) # S) = members (G (fst j)) (((p, s, r, u) # Q) @ S)"
        by (simp add: members_started latch_of_def)
      have h: "heap ?w4 (fst j) = heap w2 (fst j)" "gathers ?w4 (G (fst j)) = gathers w2 (G (fst j))"
        using same [OF ne] apart [of j] jS neG w3(4) by simp_all
      have "asleep_rep G w2 (members (G (fst j)) ((Q @ ?K) @ (p, s, r, k 0) # S)) j"
        unfolding n by (rule bspec [OF w2(4) jS])
      then show ?thesis using asleep_cong [where G = G and j = j and w' = ?w4 and w = w2, OF h] by blast
    qed
    show "job_rep start ?w4 j" if j: "j \<in> set ?F" for j
    proof -
      have "heap ?w4 (fst j) = heap w2 (fst j)" using j out(3) by (intro same) auto
      then show ?thesis using j w2(5) fresh_cong [of ?w4 j w2 start] by simp
    qed
  qed (use w2(6,7,8) w3 in simp_all)
  with exec returned show ?thesis by blast
qed

lemma sim_gather:
  assumes rep: "fj_rep start G i w ((p, s, r, u) # Q, S, F, m)"
    and inv: "fj_inv G ((p, s, r, u) # Q, S, F, m)" and inj: "inj G" and prog: "prog u = Gather (G p) ts k"
    and F: "\<forall>(p, s, u) \<in> set F. B p = (s, u)"
    and ts: "distinct ts" "set ts \<subseteq> fst ` set F" "length ts < 2 ^ 16"
  shows "\<exists>w'. worker_step cw prog start cb i w = Some w' \<and>
    fj_rep start G i w' (Q @ started B (G p) ts, (p, s, r, k 0) # S, filter (\<lambda>j. fst j \<notin> set ts) F, m)"
proof -
  have dist: "distinct (map fst ((p, s, r, u) # Q) @ map fst S @ map fst F)" using inv by (simp add: fj_inv_def)
  obtain L w2 t where w2: "world_rep w2 L (map fst Q)" "set L = insert p (fst ` (set Q \<union> set S) \<union> fst ` set F)"
    "\<forall>j \<in> set Q. ready_rep start G w2 j"
    "\<forall>j \<in> set S. asleep_rep G w2 (members (G (fst j)) (((p, s, r, u) # Q) @ S)) j"
    "\<forall>j \<in> set F. job_rep start w2 j" "ints w2 = m" "tls_key (tls_task w2)"
    "threadlocal_get i (tls_context w2) = Some i" "pcaio_self i w2 = Some p" and
    t: "heap w2 p = Some t" "t_flags t = 0" "t_status t = s" "belongs t r" and
    iter: "worker_iter cw (task_run prog start cb) i w = worker_switch i p (exec prog cb i p u w2)"
    by (rule fj_pickup [OF rep dist inj, of cw prog cb]) (rule that)
  from gather_sleeps [where prog = prog and B = B and cb = cb and k = k, OF w2 t inv inj prog F ts] worker_stepI [OF iter]
  show ?thesis by blast
qed

text \<open>All cases together.\<close>

lemma fj_round:
  assumes rep: "fj_rep start G i w a" and bound: "fj_bound G prog B R N a" and step: "fj_step G prog a = Some a'"
  shows "\<exists>w'. worker_step cw prog start cb i w = Some w' \<and> fj_rep start G i w' a'"
proof -
  obtain p s r u Q S F m where a: "a = ((p, s, r, u) # Q, S, F, m)"
    using step by (cases "(G, prog, a)" rule: fj_step.cases) auto
  note rep' = rep [unfolded a] and bound' = bound [unfolded a] and step' = step [unfolded a]
  have inv: "fj_inv G ((p, s, r, u) # Q, S, F, m)" and inj: "inj G"
    and F: "\<forall>(p, s, u) \<in> set F. B p = (s, u)" using bound' by (simp_all add: fj_bound_def)
  show ?thesis
  proof (cases "prog u")
    case (Return e)
    show ?thesis
    proof (cases r)
      case None
      note sim = sim_return_plain [where prog = prog and u = u and e = e, OF rep' [unfolded None] inv [unfolded None] inj Return]
      from sim step' Return None show ?thesis by auto
    next
      case (Some g)
      note args = rep' [unfolded Some] inv [unfolded Some] inj Return
      show ?thesis
      proof (cases "members g (Q @ S) = 0")
        case True
        from sim_return_wake [where prog = prog and u = u and e = e, OF args True] step' Return Some True
        show ?thesis by auto
      next
        case False
        from sim_return_stay [where prog = prog and u = u and e = e, OF args False] step' Return Some False
        show ?thesis by auto
      qed
    qed
  next
    case (Relax f k)
    with step' have "f = 0" "a' = (Q @ [(p, s, r, k 0)], S, F, m)" by (simp_all split: if_splits)
    with sim_relax [where prog = prog and u = u and k = k, OF rep' inv inj] Relax show ?thesis by simp
  next
    case (Gather g ts k)
    from bound_gather [OF bound' Gather] step' have
      g: "g = G p" "distinct ts" "set ts \<subseteq> fst ` set F" "length ts < 2 ^ 16"
      "a' = (Q @ started B g ts, (p, s, r, k 0) # S, filter (\<lambda>j. fst j \<notin> set ts) F, m)" by auto
    from sim_gather [where prog = prog and u = u and k = k, OF rep' inv inj Gather [unfolded g(1)] F g(2-4)] g show ?thesis by simp
  qed (use step' in simp_all)
qed

interpretation forkjoin: ending_simulation
    "\<lambda>w a. fj_rep start G i w a \<and> (\<exists>N. fj_bound G prog B R N a)" "worker_step cw prog start cb i"
    "fj_step G prog" "fj_bound G prog B R" "\<lambda>a. fst a = []"
  for start G i cw prog cb B R
proof unfold_locales
  fix w :: "('a frame, 'b) world_scheme" and a a'
  assume match: "fj_rep start G i w a \<and> (\<exists>N. fj_bound G prog B R N a)" and step: "fj_step G prog a = Some a'"
  then obtain N where bound: "fj_bound G prog B R N a" by blast
  have "fst a \<noteq> []" using step by (cases "(G, prog, a)" rule: fj_step.cases) auto
  from fj_progress [OF bound this] step have "\<exists>N. fj_bound G prog B R N a'" by auto
  with fj_round [OF _ bound step] match
  show "\<exists>w'. worker_step cw prog start cb i w = Some w' \<and> fj_rep start G i w' a' \<and> (\<exists>N. fj_bound G prog B R N a')"
    by blast
next
  fix n and a :: "'a fj_state"
  assume "fj_bound G prog B R n a" "fst a \<noteq> []"
  from fj_progress [OF this] show "\<exists>a' m. fj_step G prog a = Some a' \<and> fj_bound G prog B R m a' \<and> m < n" .
qed

text \<open>The jobs at the start: all of them queued, none asleep.\<close>

lemma fj_bound_start:
  assumes "inj G" "distinct (map fst js @ map fst F)" "\<forall>(p, s, u) \<in> set F. B p = (s, u)"
    and "\<forall>(p, s, u) \<in> set js. \<exists>e. fj_ends G prog B R p u (As p) (ns p) e \<and> (\<forall>x. s = Some x \<longrightarrow> R x = e)"
    and "mset (concat (map (\<lambda>(p, s, u). As p) js)) = mset (map fst F)"
    and "\<forall>x. x \<notin> statuses (js @ F) \<longrightarrow> m x = R x"
  shows "fj_bound G prog B R (sum_list (map (\<lambda>(p, s, u). Suc (ns p)) js))
    (map (\<lambda>(p, s, u). (p, s, None, u)) js, [], F, m)"
proof -
  let ?Q = "map (\<lambda>(p, s, u). (p, s, None :: addr option, u)) js" and ?N = "sum_list (map (\<lambda>(p, s, u). Suc (ns p)) js)"
  have plain: "map fst ?Q = map fst js" "owed As ?Q = mset (concat (map (\<lambda>(p, s, u). As p) js))"
    "rounds_left ns ?Q = ?N"
    by (induction js) auto
  have "fj_inv G (?Q, [], F, m)"
    unfolding fj_inv_def prod.case plain(1) using assms(2) by (auto simp: latch_of_def)
  moreover have "\<forall>j \<in> set ?Q \<union> set []. fj_job G prog B R As ns j" using assms(4) by (auto simp: fj_job_def)
  moreover have "fj_cells (?Q, [], F, m) = statuses (js @ F)"
    by (force simp: fj_cells_def statuses_def)
  ultimately show ?thesis
    using assms(1,3,5,6) plain unfolding fj_bound_def prod.case
    by (intro conjI exI [of _ As] exI [of _ ns]) simp_all
qed

text \<open>The sample gathers one task.\<close>

lemma sample_gather_ends:
  assumes "\<forall>x. fst (B 128) = Some x \<longrightarrow> R x = 5" "snd (B 128) = 0"
  shows "fj_ends (\<lambda>p. p + 936) prog_gather B R 64 1 [128] 2 7"
proof -
  let ?G = "\<lambda>p :: addr. p + 936"
  have child: "fj_ends ?G prog_gather B R 128 0 [] 0 5" by (rule fj_ends.returns) (simp add: prog_gather_def)
  have rest: "fj_ends ?G prog_gather B R 64 2 [] 0 7" by (rule fj_ends.returns) (simp add: prog_gather_def)
  have "fj_ends ?G prog_gather B R 64 1 ([128] @ concat (map (\<lambda>_ :: addr. []) [128]) @ [])
      (Suc (0 + sum_list (map (\<lambda>t :: addr. Suc ((\<lambda>_. 0) t)) [128]))) 7"
  proof (rule fj_ends.gathers [where k = "\<lambda>_. 2" and es = "\<lambda>_. 5"])
    show "prog_gather 1 = Gather (64 + 936) [128] (\<lambda>_. 2)" by (simp add: prog_gather_def)
  qed (use assms child rest in simp_all)
  then show ?thesis by (simp add: numeral_2_eq_2)
qed

section \<open>Completion\<close>

text \<open>One worker completes nested gathers: let every queued task, with the
  subtasks it gathers, theirs and so on, return after finitely many yields, and let the tasks
  that are not queued be exactly the ones that get gathered. Then after at most as many rounds as
  all of them take together, the queue and the task list are empty, every task is freed, every
  status pointer holds the exit value of its task, and nothing else is written: no wake-up is
  lost, none comes too early, nobody waits for ever.\<close>

theorem gather_completes_all:
  assumes "fj_rep start G i w (map (\<lambda>(p, s, u). (p, s, None, u)) js, [], F, m)"
    and "inj G" "distinct (map fst js @ map fst F)" "\<forall>(p, s, u) \<in> set F. B p = (s, u)"
    and "\<forall>(p, s, u) \<in> set js. \<exists>e. fj_ends G prog B R p u (As p) (ns p) e \<and> (\<forall>x. s = Some x \<longrightarrow> R x = e)"
    and "mset (concat (map (\<lambda>(p, s, u). As p) js)) = mset (map fst F)"
    and "\<forall>x. x \<notin> statuses (js @ F) \<longrightarrow> m x = R x"
  shows "\<exists>n w'. n \<le> sum_list (map (\<lambda>(p, s, u). Suc (ns p)) js) \<and>
    iterate (worker_step cw prog start cb i) n w = Some w' \<and>
    world_rep w' [] [] \<and> (\<forall>p. heap w' p = None) \<and> ints w' = R"
proof -
  let ?Q = "map (\<lambda>(p, s, u). (p, s, None :: addr option, u)) js" and ?N = "sum_list (map (\<lambda>(p, s, u). Suc (ns p)) js)"
  have bound: "fj_bound G prog B R ?N (?Q, [], F, m)" by (rule fj_bound_start [OF assms(2-7)])
  then have "fj_rep start G i w (?Q, [], F, m) \<and> (\<exists>N. fj_bound G prog B R N (?Q, [], F, m))" using assms(1) by blast
  from forkjoin.concrete_ends [OF this bound, of cw cb] obtain k w' a N' where
    run: "k \<le> ?N" "iterate (worker_step cw prog start cb i) k w = Some w'"
    and a: "fj_rep start G i w' a" "fj_bound G prog B R N' a" "fst a = []" by blast
  obtain S' F' m' where a': "a = ([], S', F', m')" using a(3) by (cases a) simp
  note final = fj_finished [OF a(2) [unfolded a']]
  have rep: "world_rep w' [] []" "ints w' = R" using a(1) final by (auto simp: fj_rep_def a')
  with world_rep_members [OF rep(1)] run show ?thesis by auto
qed

theorem gather_completes_all_witness:
  "\<exists>w n w'. iterate (worker_step (\<lambda>q. (0, q)) prog_gather start2 no_calls 3) n (w :: nat frame world) = Some w' \<and>
    heap w 64 \<noteq> None \<and> n \<le> 3 \<and> world_rep w' [] [] \<and> ints w' 32 = 5"
proof -
  from sample_pair obtain w :: "nat frame world" and t t' where
    w: "world_rep w [64, 128] [64]" "tls_key (tls_task w)" "\<forall>i. threadlocal_get i (tls_context w) = Some i"
      "heap w 64 = Some t" "t_callback t = None" "t_terminated t = None" "resumes start2 64 t 1"
      "heap w 128 = Some t'" "t_callback t' = None" "resumes start2 128 t' 0"
      "t_flags t = 0" "t_status t = None" "t_flags t' = 0" "t_status t' = Some 32" "t_terminated t' = None" by blast
  let ?G = "\<lambda>p :: addr. p + 936" and ?B = "\<lambda>p :: addr. (Some (32 :: addr), 0 :: nat)" and ?R = "(ints w)(32 := 5)"
  let ?js = "[(64 :: addr, None :: addr option, 1 :: nat)]" and ?F = "[(128 :: addr, Some (32 :: addr), 0 :: nat)]"
  have rep: "fj_rep start2 ?G 3 w (map (\<lambda>(p, s, u). (p, s, None, u)) ?js, [], ?F, ints w)"
    unfolding fj_rep_def prod.case
  proof (intro conjI exI [of _ "[64, 128]"])
    show "\<forall>j \<in> set ?F. job_rep start2 w j" using w by (auto simp: resumes_def)
  qed (use w in \<open>auto simp: belongs_def fj_resumes_def\<close>)
  have ends: "fj_ends ?G prog_gather ?B ?R 64 1 [128] 2 7" by (rule sample_gather_ends) simp_all
  have "inj ?G" by (simp add: inj_def)
  moreover have "\<forall>(p, s, u) \<in> set ?js. \<exists>e. fj_ends ?G prog_gather ?B ?R p u [128] 2 e \<and> (\<forall>x. s = Some x \<longrightarrow> ?R x = e)"
    using ends by auto
  ultimately obtain n w' where "n \<le> sum_list (map (\<lambda>(p, s, u). Suc 2) ?js)"
    "iterate (worker_step (\<lambda>q. (0, q)) prog_gather start2 no_calls 3) n w = Some w'" "world_rep w' [] []" "ints w' = ?R"
    using gather_completes_all [where As = "\<lambda>_. [128]" and ns = "\<lambda>_. 2" and cw = "\<lambda>q. (0, q)" and
      cb = no_calls and B = ?B and R = ?R and prog = prog_gather, OF rep]
    by (auto simp: statuses_def)
  then show ?thesis using w(4) by (intro exI [of _ w] exI [of _ n] exI [of _ w']) simp
qed

end
