(* ===== verification/Threadpool.thy ===== *)
theory Threadpool
  imports Prelude
begin

text \<open>
  The pool of worker threads: \<open>pcaio/threadpool.h\<close> and \<open>threadpool.c\<close>. The pthread
  calls are arguments: they work on an environment \<open>'e\<close> (the threads, and whatever these do
  meanwhile) and return their error code. The functions return the status, the value stored in
  \<open>errno\<close> if any, the pool and the environment.
\<close>

section \<open>State and environment\<close>

type_synonym pthread = nat

record threadpool =
  tp_starter :: "addr option"
  tp_taskq :: "addr option"
  tp_count :: c_ushort
  tp_threads :: "pthread list option"
  tp_mutex :: bool

record 'e pthreads =
  pt_create :: "'e \<Rightarrow> int \<times> pthread \<times> 'e"
  pt_cancel :: "pthread \<Rightarrow> 'e \<Rightarrow> int \<times> 'e"
  pt_join :: "pthread \<Rightarrow> 'e \<Rightarrow> int \<times> 'e"
  pt_kill :: "pthread \<Rightarrow> int \<Rightarrow> 'e \<Rightarrow> int \<times> 'e"

section \<open>Operations\<close>

definition threadpool_init ::
  "bool \<Rightarrow> int \<Rightarrow> c_ushort \<Rightarrow> addr option \<Rightarrow> addr option \<Rightarrow> threadpool option
   \<Rightarrow> int \<times> int option \<times> threadpool option" where
  "threadpool_init mem mutex_err maxworkers starter q tp =
    (case tp of
       None \<Rightarrow> (-1, None, None)
     | Some p \<Rightarrow>
        if \<not> mem then (-1, None, Some p)
        else if mutex_err \<noteq> 0 then (-1, Some mutex_err, Some p)
        else (0, None, Some (p\<lparr>tp_mutex := True, tp_threads := Some (replicate (unat maxworkers) 0),
               tp_starter := starter, tp_taskq := q, tp_count := 0\<rparr>)))"

definition threadpool_deinit :: "threadpool option \<Rightarrow> int \<times> threadpool option" where
  "threadpool_deinit tp =
    (case tp of
       None \<Rightarrow> (-1, None)
     | Some p \<Rightarrow>
        if tp_count p \<noteq> 0 then (-1, Some p)
        else (0, Some (p\<lparr>tp_mutex := False, tp_threads := None\<rparr>)))"

text \<open>\<open>for (i = tp->count; i < target; i++)\<close>, with \<open>target - i\<close> rounds left.\<close>

fun scaleup_loop ::
  "'e pthreads \<Rightarrow> nat \<Rightarrow> nat \<Rightarrow> threadpool \<Rightarrow> 'e \<Rightarrow> fault + (int \<times> int option \<times> threadpool \<times> 'e)" where
  "scaleup_loop pt i 0 tp e = Inr (0, None, tp, e)"
| "scaleup_loop pt i (Suc k) tp e =
    (case tp_threads tp of
       None \<Rightarrow> Inl NullDeref
     | Some arr \<Rightarrow>
        if length arr \<le> i then Inl OutOfBounds
        else case pt_create pt e of (err, h, e) \<Rightarrow>
          if err \<noteq> 0 then Inr (-1, Some err, tp, e)
          else scaleup_loop pt (i + 1) k
            (tp\<lparr>tp_threads := Some (arr[i := h]), tp_count := tp_count tp + 1\<rparr>) e)"

definition scaleup ::
  "'e pthreads \<Rightarrow> c_ushort \<Rightarrow> threadpool \<Rightarrow> 'e \<Rightarrow> fault + (int \<times> int option \<times> threadpool \<times> 'e)" where
  "scaleup pt count tp e =
    (let target = unat (tp_count tp) + unat count
     in scaleup_loop pt (unat (tp_count tp)) (target - unat (tp_count tp)) tp e)"

text \<open>\<open>for (i = tp->count - 1; i >= target; i--)\<close>: the third argument is \<open>i + 1\<close>.\<close>

fun cancel_loop :: "'e pthreads \<Rightarrow> nat \<Rightarrow> nat \<Rightarrow> threadpool \<Rightarrow> 'e \<Rightarrow> fault + (int \<times> 'e)" where
  "cancel_loop pt target 0 tp e = Inr (0, e)"
| "cancel_loop pt target (Suc i) tp e =
    (if i < target then Inr (0, e)
     else case tp_threads tp of
       None \<Rightarrow> Inl NullDeref
     | Some arr \<Rightarrow>
        if length arr \<le> i then Inl OutOfBounds
        else case pt_cancel pt (arr ! i) e of (err, e) \<Rightarrow>
          if err \<noteq> 0 then Inr (err, e) else cancel_loop pt target i tp e)"

fun join_loop ::
  "'e pthreads \<Rightarrow> nat \<Rightarrow> nat \<Rightarrow> threadpool \<Rightarrow> 'e \<Rightarrow> fault + (int \<times> threadpool \<times> 'e)" where
  "join_loop pt target 0 tp e = Inr (0, tp, e)"
| "join_loop pt target (Suc i) tp e =
    (if i < target then Inr (0, tp, e)
     else case tp_threads tp of
       None \<Rightarrow> Inl NullDeref
     | Some arr \<Rightarrow>
        if length arr \<le> i then Inl OutOfBounds
        else case pt_join pt (arr ! i) e of (err, e) \<Rightarrow>
          if err \<noteq> 0 then Inr (err, tp, e)
          else join_loop pt target i (tp\<lparr>tp_count := tp_count tp - 1\<rparr>) e)"

definition scaledown ::
  "'e pthreads \<Rightarrow> c_ushort \<Rightarrow> threadpool \<Rightarrow> 'e \<Rightarrow> fault + (int \<times> int option \<times> threadpool \<times> 'e)" where
  "scaledown pt count tp e =
    (if tp_count tp < count then Inr (-1, None, tp, e)
     else
       let target = unat (tp_count tp) - unat count
       in and_then (cancel_loop pt target (unat (tp_count tp)) tp e) (\<lambda>(err, e).
            if err \<noteq> 0 then Inr (-1, Some err, tp, e)
            else and_then (join_loop pt target (unat (tp_count tp)) tp e) (\<lambda>(err, tp, e).
              if err \<noteq> 0 then Inr (-1, Some err, tp, e) else Inr (0, None, tp, e))))"

definition threadpool_scale ::
  "'e pthreads \<Rightarrow> c_ushort \<Rightarrow> threadpool \<Rightarrow> 'e \<Rightarrow> fault + (int \<times> int option \<times> threadpool \<times> 'e)" where
  "threadpool_scale pt count tp e =
    (if count < tp_count tp then scaledown pt (tp_count tp - count) tp e
     else if tp_count tp < count then scaleup pt (count - tp_count tp) tp e
     else Inr (0, None, tp, e))"

text \<open>\<open>for (i = 0; i < p->count; i++)\<close>, with \<open>n\<close> rounds left.\<close>

fun kill_loop :: "'e pthreads \<Rightarrow> int \<Rightarrow> nat \<Rightarrow> nat \<Rightarrow> threadpool \<Rightarrow> 'e \<Rightarrow> fault + (int \<times> 'e)" where
  "kill_loop pt sig i 0 tp e = Inr (0, e)"
| "kill_loop pt sig i (Suc n) tp e =
    (case tp_threads tp of
       None \<Rightarrow> Inl NullDeref
     | Some arr \<Rightarrow>
        if length arr \<le> i then Inl OutOfBounds
        else case pt_kill pt (arr ! i) sig e of (rc, e) \<Rightarrow>
          if rc \<noteq> 0 then Inr (-1, e) else kill_loop pt sig (i + 1) n tp e)"

definition threadpool_killall :: "'e pthreads \<Rightarrow> int \<Rightarrow> threadpool \<Rightarrow> 'e \<Rightarrow> fault + (int \<times> 'e)" where
  "threadpool_killall pt sig tp e = kill_loop pt sig 0 (unat (tp_count tp)) tp e"

section \<open>What the pool relies on\<close>

text \<open>The documented behaviour of the pthread calls, for a reading \<open>live\<close> of the threads that
  have been created and not yet joined: a failing call changes nothing there, a successful
  \<open>create\<close> adds a new thread, a successful \<open>join\<close> takes its thread away, and
  \<open>cancel\<close> neither adds nor takes.\<close>

definition pthread_laws :: "'e pthreads \<Rightarrow> ('e \<Rightarrow> pthread set) \<Rightarrow> bool" where
  "pthread_laws pt live \<longleftrightarrow>
     (\<forall>e. case pt_create pt e of (err, h, e') \<Rightarrow>
        if err = 0 then h \<notin> live e \<and> live e' = insert h (live e) else live e' = live e) \<and>
     (\<forall>h e. live (snd (pt_cancel pt h e)) = live e) \<and>
     (\<forall>h e. case pt_join pt h e of (err, e') \<Rightarrow>
        live e' = (if err = 0 then live e - {h} else live e))"

lemma law_create:
  "pthread_laws pt live \<Longrightarrow> pt_create pt e = (err, h, e') \<Longrightarrow>
    if err = 0 then h \<notin> live e \<and> live e' = insert h (live e) else live e' = live e"
  unfolding pthread_laws_def by (metis (mono_tags, lifting) case_prod_conv)

lemma law_cancel: "pthread_laws pt live \<Longrightarrow> pt_cancel pt h e = (err, e') \<Longrightarrow> live e' = live e"
  unfolding pthread_laws_def by (metis snd_conv)

lemma law_join:
  "pthread_laws pt live \<Longrightarrow> pt_join pt h e = (err, e') \<Longrightarrow>
    live e' = (if err = 0 then live e - {h} else live e)"
  unfolding pthread_laws_def by (metis (mono_tags, lifting) case_prod_conv)

text \<open>The pool holds the threads \<open>ts\<close>, in the first slots of its array, and they are
  alive.\<close>

definition pool_rep :: "('e \<Rightarrow> pthread set) \<Rightarrow> nat \<Rightarrow> threadpool \<Rightarrow> pthread list \<Rightarrow> 'e \<Rightarrow> bool" where
  "pool_rep live cap tp ts e \<longleftrightarrow>
     (\<exists>arr. tp_threads tp = Some arr \<and> length arr = cap \<and> take (length ts) arr = ts) \<and>
     length ts \<le> cap \<and> cap < 2 ^ 16 \<and> unat (tp_count tp) = length ts \<and> distinct ts \<and> set ts \<subseteq> live e"

section \<open>Scaling up\<close>

lemma pool_rep_create:
  assumes rep: "pool_rep live cap tp ts e" and room: "length ts < cap"
    and arr: "tp_threads tp = Some arr" and new: "h \<notin> live e" "live e' = insert h (live e)"
  shows "pool_rep live cap (tp\<lparr>tp_threads := Some (arr[length ts := h]), tp_count := tp_count tp + 1\<rparr>)
    (ts @ [h]) e'"
proof -
  have facts: "length arr = cap" "take (length ts) arr = ts" "cap < 2 ^ 16"
    "unat (tp_count tp) = length ts" "distinct ts" "set ts \<subseteq> live e"
    using rep arr by (auto simp: pool_rep_def)
  have "take (Suc (length ts)) (arr[length ts := h]) = ts @ [h]"
    using facts(1,2) room by (simp add: take_Suc_conv_app_nth)
  moreover have "unat (tp_count tp + 1) = Suc (length ts)"
    using facts(3,4) room by (simp add: unat_word_ariths)
  moreover have "h \<notin> set ts" using facts(6) new(1) by auto
  ultimately show ?thesis using facts room new by (auto simp: pool_rep_def)
qed

lemma scaleup_loop_spec:
  "pthread_laws pt live \<Longrightarrow> pool_rep live cap tp ts e \<Longrightarrow> length ts + k \<le> cap \<Longrightarrow>
    \<exists>ret err tp' e' us. scaleup_loop pt (length ts) k tp e = Inr (ret, err, tp', e') \<and>
      pool_rep live cap tp' (ts @ us) e' \<and> live e' = live e \<union> set us \<and> set us \<inter> live e = {} \<and>
      length us \<le> k \<and> (ret = 0 \<longleftrightarrow> length us = k) \<and> (ret \<noteq> 0 \<longrightarrow> ret = -1 \<and> err \<noteq> None)"
proof (induction k arbitrary: tp ts e)
  case 0
  then show ?case by (intro exI [of _ "0 :: int"] exI [of _ "None"] exI [of _ tp] exI [of _ e] exI [of _ "[]"]) simp
next
  case (Suc k)
  from Suc.prems(2) obtain arr where arr: "tp_threads tp = Some arr" "length arr = cap"
    by (auto simp: pool_rep_def)
  obtain err h e1 where c: "pt_create pt e = (err, h, e1)" by (cases "pt_create pt e")
  show ?case
  proof (cases "err = 0")
    case False
    then have live: "live e1 = live e" using law_create [OF Suc.prems(1) c] by simp
    then have "pool_rep live cap tp ts e1" using Suc.prems(2) by (simp add: pool_rep_def)
    with False arr c Suc.prems(3) live show ?thesis
      by (intro exI [of _ "-1 :: int"] exI [of _ "Some err"] exI [of _ tp] exI [of _ e1] exI [of _ "[]"]) simp
  next
    case True
    let ?tp = "tp\<lparr>tp_threads := Some (arr[length ts := h]), tp_count := tp_count tp + 1\<rparr>"
    from law_create [OF Suc.prems(1) c] True have h: "h \<notin> live e" "live e1 = insert h (live e)" by simp_all
    have rep1: "pool_rep live cap ?tp (ts @ [h]) e1"
      using pool_rep_create [OF Suc.prems(2) _ arr(1) h] Suc.prems(3) by simp
    have room: "length (ts @ [h]) + k \<le> cap" using Suc.prems(3) by simp
    from Suc.IH [OF Suc.prems(1) rep1 room] obtain ret err' tp' e' us where
      ih: "scaleup_loop pt (length (ts @ [h])) k ?tp e1 = Inr (ret, err', tp', e')"
        "pool_rep live cap tp' ((ts @ [h]) @ us) e'" "live e' = live e1 \<union> set us" "set us \<inter> live e1 = {}" "length us \<le> k"
        "ret = 0 \<longleftrightarrow> length us = k" "ret \<noteq> 0 \<longrightarrow> ret = -1 \<and> err' \<noteq> None"
      by blast
    have "scaleup_loop pt (length ts) (Suc k) tp e = Inr (ret, err', tp', e')"
      using True arr c ih(1) Suc.prems(3) by simp
    with ih h show ?thesis
      by (intro exI [of _ ret] exI [of _ err'] exI [of _ tp'] exI [of _ e'] exI [of _ "h # us"]) simp
  qed
qed

section \<open>Scaling down\<close>

lemma cancel_loop_spec:
  "pthread_laws pt live \<Longrightarrow> tp_threads tp = Some arr \<Longrightarrow> n \<le> length arr \<Longrightarrow>
    \<exists>err e'. cancel_loop pt target n tp e = Inr (err, e') \<and> live e' = live e"
proof (induction n arbitrary: e)
  case 0
  then show ?case by simp
next
  case (Suc n)
  obtain err e1 where c: "pt_cancel pt (arr ! n) e = (err, e1)" by (cases "pt_cancel pt (arr ! n) e")
  have "live e1 = live e" using law_cancel [OF Suc.prems(1) c] .
  moreover from Suc.IH [OF Suc.prems(1,2)] Suc.prems(3) obtain err' e2 where
    "cancel_loop pt target n tp e1 = Inr (err', e2)" "live e2 = live e1" by fastforce
  ultimately show ?case using Suc.prems c by auto
qed

lemma pool_rep_join:
  assumes rep: "pool_rep live cap tp (ts @ [h]) e" and "live e' = live e - {h}"
  shows "pool_rep live cap (tp\<lparr>tp_count := tp_count tp - 1\<rparr>) ts e'"
proof -
  have "unat (tp_count tp) = Suc (length ts)" using rep by (simp add: pool_rep_def)
  then have "unat (tp_count tp - 1) = length ts" by (simp add: unat_sub_if')
  moreover obtain arr where arr: "tp_threads tp = Some arr" "length arr = cap" "take (Suc (length ts)) arr = ts @ [h]"
    using rep by (auto simp: pool_rep_def)
  have "take (length ts) arr = take (length ts) (take (Suc (length ts)) arr)" by simp
  then have "take (length ts) arr = ts" by (simp add: arr(3))
  ultimately show ?thesis using rep assms(2) arr by (auto simp: pool_rep_def)
qed

lemma join_loop_spec:
  "pthread_laws pt live \<Longrightarrow> pool_rep live cap tp ts e \<Longrightarrow> target \<le> length ts \<Longrightarrow>
    \<exists>err tp' e' m. join_loop pt target (length ts) tp e = Inr (err, tp', e') \<and>
      target \<le> m \<and> m \<le> length ts \<and> pool_rep live cap tp' (take m ts) e' \<and>
      live e' = live e - set (drop m ts) \<and> (err = 0 \<longleftrightarrow> m = target)"
proof (induction ts arbitrary: tp e rule: rev_induct)
  case Nil
  then show ?case by (intro exI [of _ "0 :: int"] exI [of _ tp] exI [of _ e] exI [of _ "0 :: nat"]) simp
next
  case (snoc h ts)
  from snoc.prems(2) obtain arr where
    arr: "tp_threads tp = Some arr" "length arr = cap" "take (Suc (length ts)) arr = ts @ [h]"
    and len: "length ts < cap" by (auto simp: pool_rep_def)
  have "arr ! length ts = take (Suc (length ts)) arr ! length ts" by simp
  then have at: "arr ! length ts = h" by (simp add: arr(3))
  show ?case
  proof (cases "length ts < target")
    case True
    with snoc.prems show ?thesis
      by (intro exI [of _ "0 :: int"] exI [of _ tp] exI [of _ e] exI [of _ "Suc (length ts)"]) simp
  next
    case stay: False
    obtain err e1 where c: "pt_join pt h e = (err, e1)" by (cases "pt_join pt h e")
    note law = law_join [OF snoc.prems(1) c]
    show ?thesis
    proof (cases "err = 0")
      case False
      then have "pool_rep live cap tp (ts @ [h]) e1" using snoc.prems(2) law by (simp add: pool_rep_def)
      with False stay arr at c len law snoc.prems(3) show ?thesis
        by (intro exI [of _ err] exI [of _ tp] exI [of _ e1] exI [of _ "Suc (length ts)"]) auto
    next
      case True
      let ?tp = "tp\<lparr>tp_count := tp_count tp - 1\<rparr>"
      from law True have live1: "live e1 = live e - {h}" by simp
      have "pool_rep live cap ?tp ts e1" using pool_rep_join [OF snoc.prems(2) live1] .
      from snoc.IH [OF snoc.prems(1) this] stay obtain err' tp' e' m where
        ih: "join_loop pt target (length ts) ?tp e1 = Inr (err', tp', e')" "target \<le> m" "m \<le> length ts"
          "pool_rep live cap tp' (take m ts) e'" "live e' = live e1 - set (drop m ts)"
          "err' = 0 \<longleftrightarrow> m = target" by auto
      have "join_loop pt target (length (ts @ [h])) tp e = Inr (err', tp', e')"
        using True stay arr at c len ih(1) by simp
      with ih live1 show ?thesis
        by (intro exI [of _ err'] exI [of _ tp'] exI [of _ e'] exI [of _ m]) auto
    qed
  qed
qed

section \<open>Scaling\<close>

lemma scaleup_spec:
  assumes laws: "pthread_laws pt live" and rep: "pool_rep live cap tp ts e"
    and n: "length ts < unat n" "unat n \<le> cap"
  shows "\<exists>ret err tp' e' us. scaleup pt (n - tp_count tp) tp e = Inr (ret, err, tp', e') \<and>
    pool_rep live cap tp' (ts @ us) e' \<and> live e' = live e \<union> set us \<and> set us \<inter> live e = {} \<and>
    length (ts @ us) \<le> unat n \<and> (ret = 0 \<longleftrightarrow> length (ts @ us) = unat n) \<and> (ret \<noteq> 0 \<longrightarrow> ret = -1)"
proof -
  have count: "unat (tp_count tp) = length ts" using rep by (simp add: pool_rep_def)
  then have "unat (n - tp_count tp) = unat n - length ts" using n(1) by (simp add: unat_sub_if')
  then have run: "scaleup pt (n - tp_count tp) tp e = scaleup_loop pt (length ts) (unat n - length ts) tp e"
    by (simp add: scaleup_def count Let_def)
  have "length ts + (unat n - length ts) \<le> cap" using n by simp
  from scaleup_loop_spec [OF laws rep this] obtain ret err tp' e' us where
    "scaleup_loop pt (length ts) (unat n - length ts) tp e = Inr (ret, err, tp', e')"
    "pool_rep live cap tp' (ts @ us) e'" "live e' = live e \<union> set us" "set us \<inter> live e = {}"
    "length us \<le> unat n - length ts" "ret = 0 \<longleftrightarrow> length us = unat n - length ts"
    "ret \<noteq> 0 \<longrightarrow> ret = -1 \<and> err \<noteq> None" by blast
  with n(1) run show ?thesis
    by (intro exI [of _ ret] exI [of _ err] exI [of _ tp'] exI [of _ e'] exI [of _ us]) auto
qed

lemma scaledown_spec:
  assumes laws: "pthread_laws pt live" and rep: "pool_rep live cap tp ts e" and n: "unat n < length ts"
  shows "\<exists>ret err tp' e' m. scaledown pt (tp_count tp - n) tp e = Inr (ret, err, tp', e') \<and>
    pool_rep live cap tp' (take m ts) e' \<and> live e' = live e - set (drop m ts) \<and>
    unat n \<le> m \<and> m \<le> length ts \<and> (ret = 0 \<longrightarrow> m = unat n) \<and> (ret \<noteq> 0 \<longrightarrow> ret = -1)"
proof -
  from rep obtain arr where arr: "tp_threads tp = Some arr" "length ts \<le> length arr"
    and count: "unat (tp_count tp) = length ts" by (auto simp: pool_rep_def)
  have diff: "unat (tp_count tp - n) = length ts - unat n" using n count by (simp add: unat_sub_if')
  then have guard: "\<not> tp_count tp < tp_count tp - n" using count by (simp add: word_less_nat_alt)
  have target: "length ts - (length ts - unat n) = unat n" using n by simp
  obtain err e1 where
    c: "cancel_loop pt (unat n) (length ts) tp e = Inr (err, e1)" "live e1 = live e"
    using cancel_loop_spec [OF laws arr(1,2)] by blast
  then have rep1: "pool_rep live cap tp ts e1" using rep by (simp add: pool_rep_def)
  show ?thesis
  proof (cases "err = 0")
    case False
    then have "scaledown pt (tp_count tp - n) tp e = Inr (-1, Some err, tp, e1)"
      using c(1) guard count diff target by (simp add: scaledown_def Let_def)
    with rep1 c(2) n show ?thesis
      by (intro exI [of _ "-1 :: int"] exI [of _ "Some err"] exI [of _ tp] exI [of _ e1] exI [of _ "length ts"]) simp
  next
    case True
    have le: "unat n \<le> length ts" using n by simp
    from join_loop_spec [OF laws rep1 le] obtain err' tp' e' m where
      j: "join_loop pt (unat n) (length ts) tp e1 = Inr (err', tp', e')" "unat n \<le> m" "m \<le> length ts"
        "pool_rep live cap tp' (take m ts) e'" "live e' = live e1 - set (drop m ts)" "err' = 0 \<longleftrightarrow> m = unat n"
      by blast
    have "scaledown pt (tp_count tp - n) tp e =
        Inr (if err' \<noteq> 0 then (-1, Some err', tp', e') else (0, None, tp', e'))"
      using c(1) j(1) True guard count diff target by (simp add: scaledown_def Let_def)
    with j c(2) show ?thesis
      by (cases "err' = 0") (fastforce intro!: exI [of _ m])+
  qed
qed

text \<open>Whatever fails, \<open>count\<close> stays the number of live threads of the pool.\<close>

lemma scale_spec:
  assumes laws: "pthread_laws pt live" and rep: "pool_rep live cap tp ts e" and n: "unat n \<le> cap"
  shows "\<exists>ret err tp' e' ts'. threadpool_scale pt n tp e = Inr (ret, err, tp', e') \<and>
    pool_rep live cap tp' ts' e' \<and> live e' - set ts' = live e - set ts \<and>
    (ret = 0 \<longrightarrow> length ts' = unat n) \<and> (ret \<noteq> 0 \<longrightarrow> ret = -1) \<and>
    min (unat n) (length ts) \<le> length ts' \<and> length ts' \<le> max (unat n) (length ts) \<and>
    take (length ts') ts = take (length ts) ts'"
proof -
  have count: "unat (tp_count tp) = length ts" using rep by (simp add: pool_rep_def)
  consider "length ts < unat n" | "unat n < length ts" | "unat n = length ts" by linarith
  then show ?thesis
  proof cases
    case 1
    then have "threadpool_scale pt n tp e = scaleup pt (n - tp_count tp) tp e"
      using count by (simp add: threadpool_scale_def word_less_nat_alt)
    moreover obtain ret err tp' e' us where
      u: "scaleup pt (n - tp_count tp) tp e = Inr (ret, err, tp', e')" "pool_rep live cap tp' (ts @ us) e'"
        "live e' = live e \<union> set us" "set us \<inter> live e = {}" "length (ts @ us) \<le> unat n"
        "ret = 0 \<longleftrightarrow> length (ts @ us) = unat n" "ret \<noteq> 0 \<longrightarrow> ret = -1"
      using scaleup_spec [OF laws rep 1 n] by blast
    moreover have "live e' - set (ts @ us) = live e - set ts" using u(3,4) by auto
    ultimately show ?thesis using 1
      by (intro exI [of _ ret] exI [of _ err] exI [of _ tp'] exI [of _ e'] exI [of _ "ts @ us"]) auto
  next
    case 2
    then have "threadpool_scale pt n tp e = scaledown pt (tp_count tp - n) tp e"
      using count by (simp add: threadpool_scale_def word_less_nat_alt)
    moreover obtain ret err tp' e' m where
      d: "scaledown pt (tp_count tp - n) tp e = Inr (ret, err, tp', e')" "pool_rep live cap tp' (take m ts) e'"
        "live e' = live e - set (drop m ts)" "unat n \<le> m" "m \<le> length ts"
        "ret = 0 \<longrightarrow> m = unat n" "ret \<noteq> 0 \<longrightarrow> ret = -1"
      using scaledown_spec [OF laws rep 2] by blast
    moreover have "live e' - set (take m ts) = live e - set ts"
      using d(3) set_append [of "take m ts" "drop m ts"] by auto
    ultimately show ?thesis using 2
      by (intro exI [of _ ret] exI [of _ err] exI [of _ tp'] exI [of _ e'] exI [of _ "take m ts"]) auto
  next
    case 3
    then have "n = tp_count tp" using count by (simp add: word_unat_eq_iff)
    then have "threadpool_scale pt n tp e = Inr (0, None, tp, e)" by (simp add: threadpool_scale_def)
    with 3 rep show ?thesis
      by (intro exI [of _ "0 :: int"] exI [of _ None] exI [of _ tp] exI [of _ e] exI [of _ ts]) simp
  qed
qed

text \<open>There is no guard against more threads than the array has slots.\<close>

lemma scaleup_overruns:
  assumes "pool_rep live cap tp ts e" "length ts = cap" "0 < unat n"
  shows "scaleup pt n tp e = Inl OutOfBounds"
proof -
  from assms(3) obtain k where "unat n = Suc k" by (cases "unat n") auto
  with assms(1,2) show ?thesis by (auto simp: scaleup_def Let_def pool_rep_def)
qed

section \<open>When no call fails\<close>

text \<open>What every successful \<open>create\<close> builds up, and what \<open>cancel\<close> and \<open>join\<close> keep.\<close>

lemma scaleup_loop_runs:
  assumes "\<And>i e. P i e \<Longrightarrow> \<exists>h e'. pt_create pt e = (0, h, e') \<and> P (Suc i) e'"
  shows "P i e \<Longrightarrow> tp_threads tp = Some arr \<Longrightarrow> i + k \<le> length arr \<Longrightarrow>
    \<exists>tp' e' arr'. scaleup_loop pt i k tp e = Inr (0, None, tp', e') \<and> P (i + k) e' \<and>
      tp_count tp' = tp_count tp + of_nat k \<and> tp_threads tp' = Some arr' \<and> length arr' = length arr"
proof (induction k arbitrary: i e tp arr)
  case 0
  then show ?case by simp
next
  case (Suc k)
  from assms [OF Suc.prems(1)] obtain h e1 where e1: "pt_create pt e = (0, h, e1)" "P (Suc i) e1" by blast
  let ?tp = "tp\<lparr>tp_threads := Some (arr[i := h]), tp_count := tp_count tp + 1\<rparr>"
  from Suc.IH [OF e1(2), of ?tp "arr[i := h]"] Suc.prems(3) obtain tp' e' arr' where
    "scaleup_loop pt (Suc i) k ?tp e1 = Inr (0, None, tp', e')" "P (Suc i + k) e'"
    "tp_count tp' = tp_count tp + 1 + of_nat k" "tp_threads tp' = Some arr'" "length arr' = length arr" by auto
  with Suc.prems e1(1) show ?case by (simp add: ac_simps)
qed

lemma scale_up_runs:
  assumes "\<And>i e. P i e \<Longrightarrow> \<exists>h e'. pt_create pt e = (0, h, e') \<and> P (Suc i) e'"
    and "P 0 e" "tp_count tp = 0" "tp_threads tp = Some arr" "unat n \<le> length arr"
  shows "\<exists>tp' e' arr'. threadpool_scale pt n tp e = Inr (0, None, tp', e') \<and> P (unat n) e' \<and>
    tp_count tp' = n \<and> tp_threads tp' = Some arr' \<and> length arr' = length arr"
proof (cases "n = 0")
  case True
  with assms(2-4) show ?thesis by (simp add: threadpool_scale_def)
next
  case False
  then have "threadpool_scale pt n tp e = scaleup_loop pt 0 (unat n) tp e"
    using assms(3) by (simp add: threadpool_scale_def scaleup_def Let_def word_gt_0)
  with scaleup_loop_runs [of P pt 0 e tp arr "unat n", OF assms(1)] assms(2-5) show ?thesis by simp
qed

lemma cancel_loop_runs:
  assumes "\<And>h e. P e \<Longrightarrow> \<exists>e'. pt_cancel pt h e = (0, e') \<and> P e'"
  shows "P e \<Longrightarrow> tp_threads tp = Some arr \<Longrightarrow> i \<le> length arr \<Longrightarrow>
    \<exists>e'. cancel_loop pt t i tp e = Inr (0, e') \<and> P e'"
proof (induction i arbitrary: e)
  case (Suc i)
  from assms [OF Suc.prems(1), of "arr ! i"] obtain e1 where e1: "pt_cancel pt (arr ! i) e = (0, e1)" "P e1" by blast
  with Suc.IH [OF e1(2)] Suc.prems show ?case by simp
qed simp

lemma join_loop_runs:
  assumes "\<And>h e. P e \<Longrightarrow> \<exists>e'. pt_join pt h e = (0, e') \<and> P e'"
  shows "P e \<Longrightarrow> tp_threads tp = Some arr \<Longrightarrow> i \<le> length arr \<Longrightarrow>
    \<exists>tp' e'. join_loop pt 0 i tp e = Inr (0, tp', e') \<and> P e' \<and> tp_count tp' = tp_count tp - of_nat i"
proof (induction i arbitrary: e tp)
  case (Suc i)
  from assms [OF Suc.prems(1), of "arr ! i"] obtain e1 where e1: "pt_join pt (arr ! i) e = (0, e1)" "P e1" by blast
  with Suc.IH [OF e1(2), of "tp\<lparr>tp_count := tp_count tp - 1\<rparr>"] Suc.prems show ?case by (simp add: algebra_simps)
qed simp

lemma scale_down_runs:
  assumes "\<And>h e. P e \<Longrightarrow> \<exists>e'. pt_cancel pt h e = (0, e') \<and> P e'" "\<And>h e. P e \<Longrightarrow> \<exists>e'. pt_join pt h e = (0, e') \<and> P e'"
    and "P e" "tp_threads tp = Some arr" "unat (tp_count tp) \<le> length arr"
  shows "\<exists>tp' e'. threadpool_scale pt 0 tp e = Inr (0, None, tp', e') \<and> P e' \<and> tp_count tp' = 0"
proof (cases "tp_count tp = 0")
  case True
  with assms(3) show ?thesis by (simp add: threadpool_scale_def)
next
  case False
  let ?n = "unat (tp_count tp)"
  from cancel_loop_runs [of P pt e tp arr ?n 0, OF assms(1,3-5)] obtain e1 where
    e1: "cancel_loop pt 0 ?n tp e = Inr (0, e1)" "P e1" by blast
  from join_loop_runs [of P pt e1 tp arr ?n, OF assms(2) e1(2) assms(4,5)] obtain tp' e' where
    "join_loop pt 0 ?n tp e1 = Inr (0, tp', e')" "P e'" "tp_count tp' = 0" by auto
  with False e1(1) show ?thesis by (simp add: threadpool_scale_def scaledown_def word_gt_0)
qed

section \<open>Properties\<close>

text \<open>Property C30. \<open>threadpool_scale\<close> to a size within the array: on success the pool has
  exactly that many threads; on any failure of a pthread call it returns -1, and \<open>count\<close> and
  the array still name exactly the pool's live threads, so that none leaks and the call can be
  repeated. The threads kept are the oldest ones.\<close>

theorem threadpool_scale_spec:
  assumes "pthread_laws pt live" "pool_rep live cap tp ts e" "unat n \<le> cap"
  shows "\<exists>ret err tp' e' ts'. threadpool_scale pt n tp e = Inr (ret, err, tp', e') \<and>
    pool_rep live cap tp' ts' e' \<and> live e' - set ts' = live e - set ts \<and>
    (ret = 0 \<longrightarrow> length ts' = unat n) \<and> (ret \<noteq> 0 \<longrightarrow> ret = -1) \<and>
    take (length ts') ts = take (length ts) ts'"
  using scale_spec [OF assms] by blast

text \<open>An instance of the pthread calls: the environment is the list of live threads and the
  next handle; creation fails once five handles have been given out.\<close>

definition pthreads5 :: "(pthread list \<times> nat) pthreads" where
  "pthreads5 = \<lparr>pt_create = (\<lambda>(l, n). if n < 5 then (0, n, (n # filter (\<lambda>h. h \<noteq> n) l, n + 1)) else (11, 0, (l, n))),
     pt_cancel = (\<lambda>h e. (0, e)),
     pt_join = (\<lambda>h (l, n). (0, (filter (\<lambda>x. x \<noteq> h) l, n))),
     pt_kill = (\<lambda>h s e. (0, e))\<rparr>"

definition live5 :: "pthread list \<times> nat \<Rightarrow> pthread set" where
  "live5 e = {h \<in> set (fst e). h < snd e}"

lemma pthreads5_laws: "pthread_laws pthreads5 live5"
  by (auto simp: pthread_laws_def pthreads5_def live5_def less_Suc_eq)

theorem threadpool_scale_spec_witness:
  "\<exists>tp. threadpool_init True 0 4 (Some 1) (Some 2) (Some \<lparr>tp_starter = None, tp_taskq = None,
      tp_count = 0, tp_threads = None, tp_mutex = False\<rparr>) = (0, None, Some tp) \<and>
    (\<exists>ret err tp' e' ts'. threadpool_scale pthreads5 3 tp ([], 1) = Inr (ret, err, tp', e') \<and>
      pool_rep live5 4 tp' ts' e' \<and> live5 e' = set ts')"
proof -
  let ?tp = "\<lparr>tp_starter = Some 1, tp_taskq = Some 2, tp_count = 0, tp_threads = Some [0, 0, 0, 0],
    tp_mutex = True\<rparr>"
  have rep: "pool_rep live5 4 ?tp [] ([], 1)" by (simp add: pool_rep_def)
  have fits: "unat (3 :: c_ushort) \<le> 4" by simp
  obtain ret err tp' e' ts' where
    "threadpool_scale pthreads5 3 ?tp ([], 1) = Inr (ret, err, tp', e')" "pool_rep live5 4 tp' ts' e'"
    "live5 e' - set ts' = live5 ([], 1) - set []"
    using threadpool_scale_spec [OF pthreads5_laws rep fits] by blast
  moreover have "set ts' \<subseteq> live5 e'" using calculation(2) by (simp add: pool_rep_def)
  moreover have "live5 ([], 1) = {}" by (simp add: live5_def)
  moreover have "threadpool_init True 0 4 (Some 1) (Some 2) (Some \<lparr>tp_starter = None, tp_taskq = None,
      tp_count = 0, tp_threads = None, tp_mutex = False\<rparr>) = (0, None, Some ?tp)"
    by (simp add: threadpool_init_def) (simp add: eval_nat_numeral)
  ultimately show ?thesis by blast
qed

end
