(* ===== verification/Master.thy ===== *)
theory Master
  imports Gather Threadpool
begin

text \<open>
  The master: the global \<open>state\<close>, start-up, main loop and shutdown (\<open>pcaio/master.h\<close>,
  \<open>master.c\<close>), the installation of modules and the entry point \<open>pcaio\<close>
  (\<open>pcaio/pcaio.c\<close>). The state record extends the memory of \<open>World\<close> by the remaining
  fields of \<open>struct master\<close> and the installed \<open>struct pcaio_module\<close>s. The modules'
  functions, the pthread calls (which here work on the whole state, since the workers run
  meanwhile) and \<open>usleep\<close> are arguments.
\<close>

section \<open>State\<close>

definition MODULES_MAX :: nat where "MODULES_MAX = 8"

definition MOD_PANIC :: c_int where "MOD_PANIC = 0x1"

definition TIMEOUT_SHORT :: c_uint where "TIMEOUT_SHORT = 5000"

definition TIMEOUT_LONG :: c_uint where "TIMEOUT_LONG = 50000"

datatype tickstatus = PMSIDLE | PMSPANIC | PMSAGAIN

text \<open>\<open>struct pcaio_module\<close>: of the function pointers only whether they are set.\<close>

record pcaio_module =
  m_flags :: c_int
  m_init :: bool
  m_dtor :: bool
  m_tick :: bool

record 'k master = "'k world" +
  workers :: c_ushort
  cancel :: bool
  pool :: threadpool
  modulescount :: c_uchar
  modules :: "addr option list"
  module_mem :: "addr \<Rightarrow> pcaio_module option"

record 's modfuns =
  f_init :: "addr \<Rightarrow> 's \<Rightarrow> int \<times> 's"
  f_dtor :: "addr \<Rightarrow> 's \<Rightarrow> int \<times> 's"
  f_tick :: "addr \<Rightarrow> c_uint \<Rightarrow> 's \<Rightarrow> fault + (tickstatus \<times> 's)"

text \<open>The results of \<open>calloc\<close>, \<open>pthread_mutex_init\<close> and the two
  \<open>pthread_key_create\<close>s, and the addresses of \<open>worker\<close> and \<open>state.taskq\<close>.\<close>

record initenv =
  ie_mem :: bool
  ie_mutex_err :: int
  ie_task_key_err :: int
  ie_context_key_err :: int
  ie_worker :: addr
  ie_taskq :: addr

definition set_errno :: "int option \<Rightarrow> ('k, 'z) world_scheme \<Rightarrow> ('k, 'z) world_scheme" where
  "set_errno e w = (case e of None \<Rightarrow> w | Some x \<Rightarrow> w\<lparr>errno := x\<rparr>)"

definition module_at :: "nat \<Rightarrow> ('k, 'z) master_scheme \<Rightarrow> fault + (addr \<times> pcaio_module)" where
  "module_at i s =
    (if length (modules s) \<le> i then Inl OutOfBounds
     else case modules s ! i of
       None \<Rightarrow> Inl NullDeref
     | Some m \<Rightarrow> (case module_mem s m of None \<Rightarrow> Inl UseAfterFree | Some x \<Rightarrow> Inr (m, x)))"

definition module_put :: "addr \<Rightarrow> pcaio_module \<Rightarrow> ('k, 'z) master_scheme \<Rightarrow> ('k, 'z) master_scheme" where
  "module_put m x s = s\<lparr>module_mem := (module_mem s)(m := Some x)\<rparr>"

section \<open>Installation\<close>

definition pcaio_module_install ::
  "addr \<Rightarrow> ('k, 'z) master_scheme \<Rightarrow> fault + (int \<times> ('k, 'z) master_scheme)" where
  "pcaio_module_install m s =
    (if unat (modulescount s) = MODULES_MAX then Inr (-1, s)
     else case module_mem s m of
       None \<Rightarrow> Inl UseAfterFree
     | Some x \<Rightarrow>
        let s = module_put m (x\<lparr>m_flags := 0\<rparr>) s;
            i = unat (modulescount s)
        in if length (modules s) \<le> i then Inl OutOfBounds
           else Inr (0, s\<lparr>modules := (modules s)[i := Some m], modulescount := modulescount s + 1\<rparr>))"

section \<open>Start and end\<close>

lemma modulescount_bound: "unat (modulescount s) < 256"
  using unsigned_less [of "modulescount s"] by simp

text \<open>The loops over the installed modules read \<open>modulescount\<close> in every round.\<close>

function init_modules ::
  "('k, 'z) master_scheme modfuns \<Rightarrow> nat \<Rightarrow> ('k, 'z) master_scheme \<Rightarrow> fault + (int \<times> ('k, 'z) master_scheme)" where
  "init_modules mf i s =
    (if unat (modulescount s) \<le> i then Inr (0, s)
     else and_then (module_at i s) (\<lambda>(m, x).
       if \<not> m_init x then init_modules mf (i + 1) s
       else case f_init mf m s of (rc, s) \<Rightarrow>
         if rc \<noteq> 0 then Inr (-1, s) else init_modules mf (i + 1) s))"
  by pat_completeness auto
termination
proof (relation "measure (\<lambda>(mf, i, s). 256 - i)", goal_cases)
  case 1
  show ?case by simp
next
  case (2 mf i s m x)
  then show ?case using modulescount_bound [of s] by simp
next
  case (3 mf i s m x rc s')
  then show ?case using modulescount_bound [of s] by simp
qed

function dtor_modules ::
  "('k, 'z) master_scheme modfuns \<Rightarrow> nat \<Rightarrow> ('k, 'z) master_scheme \<Rightarrow> fault + ('k, 'z) master_scheme" where
  "dtor_modules mf i s =
    (if unat (modulescount s) \<le> i then Inr s
     else and_then (module_at i s) (\<lambda>(m, x).
       dtor_modules mf (i + 1) (if m_dtor x then snd (f_dtor mf m s) else s)))"
  by pat_completeness auto
termination
proof (relation "measure (\<lambda>(mf, i, s). 256 - i)", goal_cases)
  case 1
  show ?case by simp
next
  case (2 mf i s m x)
  then show ?case using modulescount_bound [of s] by simp
qed

definition master_init ::
  "('k, 'z) master_scheme modfuns \<Rightarrow> initenv \<Rightarrow> c_ushort \<Rightarrow> ('k, 'z) master_scheme
   \<Rightarrow> fault + (int \<times> ('k, 'z) master_scheme)" where
  "master_init mf env n s =
    (if workers s \<noteq> 0 then Inr (-1, s)
     else
       let s = s\<lparr>tasks := list_init (tasks s), taskq := queue_init (taskq s)\<rparr>;
           giveup = (\<lambda>s. s\<lparr>tasks := list_deinit (tasks s), taskq := queue_deinit (taskq s)\<rparr>);
           failed = (\<lambda>s. giveup (case threadpool_deinit (Some (pool s)) of
             (_, None) \<Rightarrow> s | (_, Some p) \<Rightarrow> s\<lparr>pool := p\<rparr>))
       in case threadpool_init (ie_mem env) (ie_mutex_err env) n (Some (ie_worker env))
              (Some (ie_taskq env)) (Some (pool s)) of
            (_, _, None) \<Rightarrow> Inl NullDeref
          | (ret, err, Some p) \<Rightarrow>
             let s = set_errno err (s\<lparr>pool := p\<rparr>)
             in if ret \<noteq> 0 then Inr (-1, giveup s)
                else case threadlocal_init (ie_task_key_err env) (tls_task s) of (ret, err, k) \<Rightarrow>
                  let s = set_errno err (s\<lparr>tls_task := k\<rparr>)
                  in if ret \<noteq> 0 then Inr (-1, failed s)
                     else case threadlocal_init (ie_context_key_err env) (tls_context s) of (ret, err, k) \<Rightarrow>
                       let s = set_errno err (s\<lparr>tls_context := k\<rparr>)
                       in if ret \<noteq> 0 then Inr (-1, failed s)
                          else and_then (init_modules mf 0 s) (\<lambda>(ret, s).
                            if ret \<noteq> 0 then Inr (-1, failed s)
                            else Inr (0, s\<lparr>workers := n, cancel := False\<rparr>)))"

text \<open>\<open>memset(&state, 0, sizeof(state))\<close>; the link fields belong to the nodes.\<close>

definition state_zero :: "('k, 'z) master_scheme \<Rightarrow> ('k, 'z) master_scheme" where
  "state_zero s =
    s\<lparr>tasks := (tasks s)\<lparr>lhead := None, ltail := None, lcount := 0, lmutex := False\<rparr>,
      taskq := (taskq s)\<lparr>qhead := None, qtail := None, qcount := 0, qwaiters := 0, qmutex := False\<rparr>,
      workers := 0, cancel := False,
      pool := \<lparr>tp_starter = None, tp_taskq = None, tp_count = 0, tp_threads = None, tp_mutex = False\<rparr>,
      modulescount := 0, modules := replicate MODULES_MAX None\<rparr>"

definition master_deinit ::
  "('k, 'z) master_scheme modfuns \<Rightarrow> ('k, 'z) master_scheme \<Rightarrow> fault + (int \<times> ('k, 'z) master_scheme)" where
  "master_deinit mf s =
    (let s = s\<lparr>tls_task := threadlocal_delete (tls_task s), tls_context := threadlocal_delete (tls_context s)\<rparr>;
         s = (case threadpool_deinit (Some (pool s)) of (_, None) \<Rightarrow> s | (_, Some p) \<Rightarrow> s\<lparr>pool := p\<rparr>);
         s = s\<lparr>tasks := list_deinit (tasks s), taskq := queue_deinit (taskq s)\<rparr>
     in and_then (dtor_modules mf 0 s) (\<lambda>s. Inr (0, (state_zero s)\<lparr>cancel := True\<rparr>)))"

section \<open>The main loop\<close>

text \<open>One pass over the modules; the flag is the local variable \<open>any\<close>.\<close>

function tick_modules ::
  "('k, 'z) master_scheme modfuns \<Rightarrow> c_uint \<Rightarrow> nat \<Rightarrow> bool \<Rightarrow> ('k, 'z) master_scheme
   \<Rightarrow> fault + (bool \<times> ('k, 'z) master_scheme)" where
  "tick_modules mf toutus i any s =
    (if unat (modulescount s) \<le> i then Inr (any, s)
     else and_then (module_at i s) (\<lambda>(m, x).
       if m_flags x AND MOD_PANIC = 0 \<and> m_tick x then
         and_then (f_tick mf m toutus s) (\<lambda>(st, s).
           case st of
             PMSIDLE \<Rightarrow> tick_modules mf toutus (i + 1) any s
           | PMSAGAIN \<Rightarrow> tick_modules mf toutus (i + 1) True s
           | PMSPANIC \<Rightarrow>
              (case module_mem s m of
                 None \<Rightarrow> Inl UseAfterFree
               | Some x \<Rightarrow>
                  tick_modules mf toutus (i + 1) any (module_put m (x\<lparr>m_flags := m_flags x OR MOD_PANIC\<rparr>) s)))
       else tick_modules mf toutus (i + 1) any s))"
  by pat_completeness auto
termination
proof (relation "measure (\<lambda>(mf, t, i, any, s). 256 - i)", goal_cases)
  case 1
  show ?case by simp
next
  case (2 mf t i any s)
  then show ?case using modulescount_bound [of s] by simp
next
  case (3 mf t i any s)
  then show ?case using modulescount_bound [of s] by simp
next
  case (4 mf t i any s)
  then show ?case using modulescount_bound [of s] by simp
next
  case (5 mf t i any s)
  then show ?case using modulescount_bound [of s] by simp
qed

declare init_modules.simps [simp del] dtor_modules.simps [simp del] tick_modules.simps [simp del]

partial_function (option) master_loop ::
  "('k, 'z) master_scheme modfuns \<Rightarrow> (c_uint \<Rightarrow> ('k, 'z) master_scheme \<Rightarrow> ('k, 'z) master_scheme)
   \<Rightarrow> bool \<Rightarrow> ('k, 'z) master_scheme \<Rightarrow> (fault + ('k, 'z) master_scheme) option" where
  "master_loop mf sleep any s =
    (if \<not> cancel s \<and> lcount (tasks s) \<noteq> 0 then
       (case tick_modules mf (if any then TIMEOUT_SHORT else TIMEOUT_LONG) 0 False
               (if any then s else sleep TIMEOUT_LONG s) of
          Inl e \<Rightarrow> Some (Inl e)
        | Inr (any, s) \<Rightarrow> master_loop mf sleep any s)
     else Some (Inr s))"

text \<open>\<open>while (tasklist_pop(&state.tasks, &t) == 0) task_free(t);\<close>\<close>

partial_function (option) master_free ::
  "('k, 'z) world_scheme \<Rightarrow> (fault + ('k, 'z) world_scheme) option" where
  "master_free w =
    (case list_pop True (tasks w) of
       Inl e \<Rightarrow> Some (Inl e)
     | Inr (rc, tp, l) \<Rightarrow>
        if rc \<noteq> 0 then Some (Inr (w\<lparr>tasks := l\<rparr>))
        else (case task_free tp (w\<lparr>tasks := l\<rparr>) of
            Inl e \<Rightarrow> Some (Inl e)
          | Inr w \<Rightarrow> master_free w))"

definition scale_pool ::
  "('k, 'z) master_scheme pthreads \<Rightarrow> c_ushort \<Rightarrow> ('k, 'z) master_scheme
   \<Rightarrow> fault + (int \<times> ('k, 'z) master_scheme)" where
  "scale_pool pt n s =
    and_then (threadpool_scale pt n (pool s) s) (\<lambda>(ret, err, tp, s).
      Inr (ret, set_errno err (s\<lparr>pool := tp\<rparr>)))"

definition master ::
  "('k, 'z) master_scheme modfuns \<Rightarrow> ('k, 'z) master_scheme pthreads
   \<Rightarrow> (c_uint \<Rightarrow> ('k, 'z) master_scheme \<Rightarrow> ('k, 'z) master_scheme) \<Rightarrow> tid
   \<Rightarrow> ('k, 'z) master_scheme \<Rightarrow> (fault + (int \<times> ('k, 'z) master_scheme)) option" where
  "master mf pt sleep i s =
    (case scale_pool pt (workers s) s of
       Inl e \<Rightarrow> Some (Inl e)
     | Inr (rc, s) \<Rightarrow>
        if rc \<noteq> 0 then Some (Inr (-1, s))
        else
          let s = s\<lparr>tls_context := snd (snd (threadlocal_set 0 i None (tls_context s)))\<rparr>
          in case master_loop mf sleep True s of
               None \<Rightarrow> None
             | Some (Inl e) \<Rightarrow> Some (Inl e)
             | Some (Inr s) \<Rightarrow>
                (case scale_pool pt 0 s of
                   Inl e \<Rightarrow> Some (Inl e)
                 | Inr (rc, s) \<Rightarrow>
                    (case master_free s of
                       None \<Rightarrow> None
                     | Some (Inl e) \<Rightarrow> Some (Inl e)
                     | Some (Inr s) \<Rightarrow> Some (Inr (if rc \<noteq> 0 then -1 else 0, s)))))"

section \<open>The entry point\<close>

text \<open>The signal handler may run at any time; all it does is this.\<close>

definition signal_handler :: "('k, 'z) master_scheme \<Rightarrow> ('k, 'z) master_scheme" where
  "signal_handler s = s\<lparr>cancel := True\<rparr>"

text \<open>\<open>ts\<close> is the array \<open>tasks[0 .. count - 1]\<close>.\<close>

definition pcaio ::
  "('k, 'z) master_scheme modfuns \<Rightarrow> ('k, 'z) master_scheme pthreads
   \<Rightarrow> (c_uint \<Rightarrow> ('k, 'z) master_scheme \<Rightarrow> ('k, 'z) master_scheme) \<Rightarrow> initenv \<Rightarrow> int \<Rightarrow> int \<Rightarrow> tid
   \<Rightarrow> c_ushort \<Rightarrow> addr list
   \<Rightarrow> ('k, 'z) master_scheme \<Rightarrow> (fault + (int \<times> ('k, 'z) master_scheme)) option" where
  "pcaio mf pt sleep env sigempty_rc sigaction_rc i n ts s =
    (if ts = [] then Some (Inr (-1, s))
     else case master_init mf env n s of
       Inl e \<Rightarrow> Some (Inl e)
     | Inr (rc, s) \<Rightarrow>
        if rc \<noteq> 0 then Some (Inr (-1, s))
        else if sigempty_rc \<noteq> 0 then Some (Inr (-1, s))
        else if sigaction_rc \<noteq> 0 then Some (Inr (-1, s))
        else case queue_pushall ts (taskq s) of
          Inl e \<Rightarrow> Some (Inl e)
        | Inr (rc, q) \<Rightarrow>
           let s = s\<lparr>taskq := q\<rparr>
           in if rc \<noteq> 0 then Some (Inr (-1, s))
              else case master mf pt sleep i s of
                None \<Rightarrow> None
              | Some (Inl e) \<Rightarrow> Some (Inl e)
              | Some (Inr (status, s)) \<Rightarrow>
                 (case master_deinit mf s of
                    Inl e \<Rightarrow> Some (Inl e)
                  | Inr (_, s) \<Rightarrow> Some (Inr (status, s))))"

text \<open>The static initialiser of \<open>state\<close>, over a memory \<open>w\<close>.\<close>

definition state_static :: "'k world \<Rightarrow> 'k master" where
  "state_static w = world.extend w (master.fields 0 True
     \<lparr>tp_starter = None, tp_taskq = None, tp_count = 0, tp_threads = None, tp_mutex = False\<rparr>
     0 (replicate MODULES_MAX None) (\<lambda>_. None))"

lemma state_static_simps [simp]:
  "heap (state_static w) = heap w" "tasks (state_static w) = tasks w" "taskq (state_static w) = taskq w"
  "stacks (state_static w) = stacks w" "workers (state_static w) = 0" "cancel (state_static w) = True"
  "modulescount (state_static w) = 0" "modules (state_static w) = replicate MODULES_MAX None"
  by (simp_all add: state_static_def world.extend_def master.fields_def)

lemma state_static_rep [simp]: "world_rep (state_static w) L Q \<longleftrightarrow> world_rep w L Q"
  by (simp add: world_rep_def)

section \<open>Freeing what is left\<close>

text \<open>Between the workers' end and the return of \<open>master\<close> only the list counts: it holds
  exactly the tasks that are still allocated.\<close>

definition draining :: "('k, 'z) world_scheme \<Rightarrow> addr list \<Rightarrow> bool" where
  "draining w L \<longleftrightarrow> list_rep (tasks w) L \<and> set L = {t. heap w t \<noteq> None}"

definition task_stacks :: "('k, 'z) world_scheme \<Rightarrow> addr set" where
  "task_stacks w = {sp. \<exists>p t. heap w p = Some t \<and> t_stack t = Some sp}"

lemma world_rep_draining: "world_rep w L Q \<Longrightarrow> draining w L"
  by (simp add: world_rep_def draining_def)

lemma free_popped:
  assumes rep: "list_rep (tasks w) xs" "list_detached (tasks w) p" "p \<notin> set xs"
    and t: "heap w p = Some t"
  shows "task_free (Some p) w = Inr (heap_free p
    (w\<lparr>stacks := stacks w - (case t_stack t of None \<Rightarrow> {} | Some sp \<Rightarrow> {sp})\<rparr>))"
proof -
  have del: "list_delete (Some p) (tasks w) = (-1, tasks w)"
    using list_delete_absent [OF rep(1,3,2)] .
  show ?thesis using t del by (cases "t_stack t") (simp_all add: task_free_def Let_def heap_free_def)
qed

lemma task_stacks_remove:
  assumes t: "heap w p = Some t" and h: "heap w' = (heap w)(p := None)"
  shows "task_stacks w = task_stacks w' \<union> (case t_stack t of None \<Rightarrow> {} | Some sp \<Rightarrow> {sp})"
proof (intro equalityI subsetI)
  fix x assume "x \<in> task_stacks w"
  then obtain q u where q: "heap w q = Some u" "t_stack u = Some x" by (auto simp: task_stacks_def)
  show "x \<in> task_stacks w' \<union> (case t_stack t of None \<Rightarrow> {} | Some sp \<Rightarrow> {sp})"
  proof (cases "q = p")
    case True with q t show ?thesis by simp
  next
    case False with q h show ?thesis by (auto simp: task_stacks_def)
  qed
next
  fix x assume "x \<in> task_stacks w' \<union> (case t_stack t of None \<Rightarrow> {} | Some sp \<Rightarrow> {sp})"
  then show "x \<in> task_stacks w"
    using t h by (auto simp: task_stacks_def split: option.splits if_splits)
qed

lemma free_one:
  assumes drain: "draining w (p # L)"
  obtains w' where "master_free w = master_free w'" "draining w' L"
    "stacks w' - task_stacks w' = stacks w - task_stacks w"
    "taskq w' = taskq w" "ints w' = ints w" "gathers w' = gathers w"
proof -
  from drain have rep: "list_rep (tasks w) (p # L)" and dom: "insert p (set L) = {t. heap w t \<noteq> None}"
    by (simp_all add: draining_def)
  from list_pop_Cons [OF rep] obtain l where
    l: "list_pop True (tasks w) = Inr (0, Some p, l)" "list_rep l L" "list_detached l p" by blast
  have p: "p \<notin> set L" using rep by (simp add: rep_defs)
  from dom obtain t where t: "heap w p = Some t" by auto
  let ?w = "w\<lparr>tasks := l\<rparr>"
  let ?sp = "case t_stack t of None \<Rightarrow> {} | Some sp \<Rightarrow> {sp}"
  let ?w' = "heap_free p (?w\<lparr>stacks := stacks ?w - ?sp\<rparr>)"
  have "task_free (Some p) ?w = Inr ?w'"
    using free_popped [of ?w L p t] l p t by simp
  then have run: "master_free w = master_free ?w'"
    by (subst master_free.simps) (simp add: l(1))
  have dr: "draining ?w' L" using l(2) dom p by (auto simp: draining_def heap_free_def)
  have "heap ?w' = (heap w)(p := None)" by (simp add: heap_free_def)
  with t have all: "task_stacks w = task_stacks ?w' \<union> ?sp"
    by (rule task_stacks_remove)
  show thesis
    by (rule that [OF run dr]) (use all in \<open>auto simp: heap_free_def split: option.splits\<close>)
qed

lemma master_free_spec:
  "draining w L \<Longrightarrow> \<exists>w'. master_free w = Some (Inr w') \<and> draining w' [] \<and>
    stacks w' = stacks w - task_stacks w \<and> taskq w' = taskq w \<and> ints w' = ints w \<and> gathers w' = gathers w"
proof (induction L arbitrary: w)
  case Nil
  then have rep: "list_rep (tasks w) []" and none: "\<forall>p. heap w p = None" by (auto simp: draining_def)
  have "master_free w = Some (Inr (w\<lparr>tasks := tasks w\<rparr>))"
    by (subst master_free.simps) (simp add: list_pop_Nil [OF rep])
  moreover have "task_stacks w = {}" using none by (simp add: task_stacks_def)
  ultimately show ?case using Nil by (intro exI [of _ w]) simp
next
  case (Cons p L)
  obtain w1 where w1: "master_free w = master_free w1" "draining w1 L"
    "stacks w1 - task_stacks w1 = stacks w - task_stacks w" "taskq w1 = taskq w" "ints w1 = ints w"
    "gathers w1 = gathers w"
    by (rule free_one [OF Cons.prems]) (rule that)
  from Cons.IH [OF w1(2)] w1 show ?case by auto
qed

lemma draining_none: "draining w [] \<longleftrightarrow> list_rep (tasks w) [] \<and> (\<forall>p. heap w p = None)"
  by (auto simp: draining_def)

section \<open>Ticks\<close>

definition installed :: "('k, 'z) master_scheme \<Rightarrow> addr list \<Rightarrow> bool" where
  "installed s ms \<longleftrightarrow> length (modules s) = MODULES_MAX \<and> length ms \<le> MODULES_MAX \<and>
     unat (modulescount s) = length ms \<and> take (length ms) (modules s) = map Some ms \<and>
     (\<forall>m \<in> set ms. module_mem s m \<noteq> None)"

text \<open>The modules' ticks leave the installation alone.\<close>

definition ticks_keep :: "('k, 'z) master_scheme modfuns \<Rightarrow> bool" where
  "ticks_keep mf \<longleftrightarrow> (\<forall>m t s st s'. f_tick mf m t s = Inr (st, s') \<longrightarrow>
     modulescount s' = modulescount s \<and> modules s' = modules s \<and> module_mem s' = module_mem s)"

definition module_ready :: "('k, 'z) master_scheme \<Rightarrow> addr \<Rightarrow> bool" where
  "module_ready s m \<longleftrightarrow> (case module_mem s m of None \<Rightarrow> False
     | Some x \<Rightarrow> m_flags x AND MOD_PANIC = 0 \<and> m_tick x)"

definition module_panic :: "addr \<Rightarrow> ('k, 'z) master_scheme \<Rightarrow> ('k, 'z) master_scheme" where
  "module_panic m s = (case module_mem s m of None \<Rightarrow> s
     | Some x \<Rightarrow> module_put m (x\<lparr>m_flags := m_flags x OR MOD_PANIC\<rparr>) s)"

text \<open>The specification of a pass: these modules tick, in this order.\<close>

fun tick_each ::
  "('k, 'z) master_scheme modfuns \<Rightarrow> c_uint \<Rightarrow> addr list \<Rightarrow> bool \<Rightarrow> ('k, 'z) master_scheme
   \<Rightarrow> fault + (bool \<times> ('k, 'z) master_scheme)" where
  "tick_each mf t [] any s = Inr (any, s)"
| "tick_each mf t (m # ms) any s =
    and_then (f_tick mf m t s) (\<lambda>(st, s).
      tick_each mf t ms (any \<or> st = PMSAGAIN) (if st = PMSPANIC then module_panic m s else s))"

lemma installed_at:
  assumes "installed s ms" "i < length ms"
  obtains x where "module_at i s = Inr (ms ! i, x)" "module_mem s (ms ! i) = Some x"
proof -
  from assms have "take (length ms) (modules s) ! i = map Some ms ! i" "i < length (modules s)"
    by (simp_all add: installed_def)
  then have "modules s ! i = Some (ms ! i)" using assms(2) by simp
  moreover obtain x where "module_mem s (ms ! i) = Some x"
    using assms(1) nth_mem [OF assms(2)] unfolding installed_def by blast
  ultimately show thesis using that assms(2) \<open>i < length (modules s)\<close> by (simp add: module_at_def)
qed

lemma installed_keep:
  "installed s ms \<Longrightarrow> modulescount s' = modulescount s \<Longrightarrow> modules s' = modules s \<Longrightarrow>
    (\<forall>m. module_mem s m \<noteq> None \<longrightarrow> module_mem s' m \<noteq> None) \<Longrightarrow> installed s' ms"
  by (simp add: installed_def)

lemma module_panic_keep:
  "installed s ms \<Longrightarrow> installed (module_panic m s) ms"
  by (auto simp: installed_def module_panic_def module_put_def split: option.splits)

lemma module_panic_ready:
  "module_ready (module_panic m s) u \<longleftrightarrow> module_ready s u \<and> u \<noteq> m"
  by (auto simp: module_panic_def module_ready_def module_put_def MOD_PANIC_def
      bit.conj_disj_distrib2 split: option.splits)

lemma tick_modules_from:
  "i \<le> length ms \<Longrightarrow> installed s ms \<Longrightarrow> distinct ms \<Longrightarrow> ticks_keep mf \<Longrightarrow>
    tick_modules mf t i any s = tick_each mf t (filter (module_ready s) (drop i ms)) any s"
proof (induction "length ms - i" arbitrary: i any s)
  case 0
  then show ?case by (simp add: tick_modules.simps [of mf t i] installed_def)
next
  case (Suc n)
  then have i: "i < length ms" by simp
  then have more: "\<not> unat (modulescount s) \<le> i" using Suc.prems(2) by (simp add: installed_def)
  let ?m = "ms ! i"
  have drop: "drop i ms = ?m # drop (i + 1) ms" using i by (simp add: Cons_nth_drop_Suc)
  have rest: "?m \<notin> set (drop (i + 1) ms)"
    using Suc.prems(3) distinct_drop [of ms i] by (simp add: drop)
  obtain x where x: "module_at i s = Inr (?m, x)" "module_mem s ?m = Some x"
    using installed_at [OF Suc.prems(2) i] by blast
  have IH: "tick_modules mf t (i + 1) any' s' = tick_each mf t (filter (module_ready s') (drop (i + 1) ms)) any' s'"
    if "installed s' ms" for any' s'
    using Suc.hyps(1) [of "i + 1"] Suc.hyps(2) Suc.prems(3,4) i that by simp
  show ?case
  proof (cases "module_ready s ?m")
    case False
    then have "\<not> (m_flags x AND MOD_PANIC = 0 \<and> m_tick x)" using x(2) by (simp add: module_ready_def)
    then have "tick_modules mf t i any s = tick_modules mf t (i + 1) any s"
      using more x by (auto simp: tick_modules.simps [of mf t i])
    with False IH [OF Suc.prems(2)] show ?thesis by (simp add: drop)
  next
    case ready: True
    show ?thesis
    proof (cases "f_tick mf ?m t s")
      case (Inl e)
      then show ?thesis using ready more x
        by (simp add: tick_modules.simps [of mf t i] module_ready_def drop)
    next
      case (Inr r)
      obtain st s1 where tick: "f_tick mf ?m t s = Inr (st, s1)" using Inr by (cases r) auto
      with Suc.prems(4) have keep: "modulescount s1 = modulescount s" "modules s1 = modules s"
        "module_mem s1 = module_mem s" unfolding ticks_keep_def by blast+
      have inst: "installed s1 ms" using installed_keep [OF Suc.prems(2) keep(1,2)] keep(3) by simp
      have same: "module_ready s1 = module_ready s" using keep(3) by (simp add: module_ready_def fun_eq_iff)
      have x1: "module_mem s1 ?m = Some x" using x(2) keep(3) by simp
      have panic: "module_put ?m (x\<lparr>m_flags := m_flags x OR MOD_PANIC\<rparr>) s1 = module_panic ?m s1"
        using x(2) keep(3) by (simp add: module_panic_def)
      have later: "filter (module_ready (module_panic ?m s1)) (drop (i + 1) ms) =
          filter (module_ready s) (drop (i + 1) ms)"
        using rest by (intro filter_cong) (auto simp: module_panic_ready same)
      have run: "tick_modules mf t i any s = (case st of
            PMSIDLE \<Rightarrow> tick_modules mf t (i + 1) any s1
          | PMSAGAIN \<Rightarrow> tick_modules mf t (i + 1) True s1
          | PMSPANIC \<Rightarrow> tick_modules mf t (i + 1) any (module_panic ?m s1))"
        using ready more x tick x1
        by (simp add: tick_modules.simps [of mf t i] module_ready_def panic split: tickstatus.split)
      show ?thesis
        using ready tick IH [OF inst] IH [OF module_panic_keep [OF inst]] same later
        by (cases st) (simp_all add: run drop)
    qed
  qed
qed

lemma tick_modules_spec:
  "installed s ms \<Longrightarrow> distinct ms \<Longrightarrow> ticks_keep mf \<Longrightarrow>
    tick_modules mf t 0 any s = tick_each mf t (filter (module_ready s) ms) any s"
  using tick_modules_from [of 0 ms s mf t any] by simp

lemma tick_each_ready:
  "ticks_keep mf \<Longrightarrow> tick_each mf t ms any s = Inr (any', s') \<Longrightarrow> module_ready s' m \<Longrightarrow> module_ready s m"
proof (induction ms arbitrary: any s)
  case Nil
  then show ?case by simp
next
  case (Cons u ms)
  from Cons.prems(2) obtain st s1 where s1: "f_tick mf u t s = Inr (st, s1)"
    "tick_each mf t ms (any \<or> st = PMSAGAIN) (if st = PMSPANIC then module_panic u s1 else s1) = Inr (any', s')"
    by (auto simp: and_then_Inr)
  have "module_ready (if st = PMSPANIC then module_panic u s1 else s1) m"
    using Cons.IH [OF Cons.prems(1) s1(2) Cons.prems(3)] .
  then have "module_ready s1 m" by (simp add: module_panic_ready split: if_splits)
  moreover have "module_mem s1 = module_mem s" using Cons.prems(1) s1(1) unfolding ticks_keep_def by blast
  ultimately show ?case by (simp add: module_ready_def)
qed

section \<open>Start-up\<close>

lemma init_modules_quiet:
  "i \<le> length ms \<Longrightarrow> installed s ms \<Longrightarrow> \<forall>m s. f_init mf m s = (0, s) \<Longrightarrow> init_modules mf i s = Inr (0, s)"
proof (induction "length ms - i" arbitrary: i)
  case 0
  then show ?case by (simp add: init_modules.simps [of mf i] installed_def)
next
  case (Suc n)
  then have i: "i < length ms" by simp
  obtain x where x: "module_at i s = Inr (ms ! i, x)" using installed_at [OF Suc.prems(2) i] by blast
  have "init_modules mf (i + 1) s = Inr (0, s)"
    using Suc.hyps(1) [of "i + 1"] Suc.hyps(2) Suc.prems i by simp
  with x Suc.prems(2,3) i show ?case by (simp add: init_modules.simps [of mf i] installed_def)
qed

definition env_fine :: "initenv \<Rightarrow> bool" where
  "env_fine env \<longleftrightarrow> ie_mem env \<and> ie_mutex_err env = 0 \<and> ie_task_key_err env = 0 \<and> ie_context_key_err env = 0"

text \<open>The modules' \<open>init\<close> functions may change the part of the state that is theirs.\<close>

definition starts_up ::
  "('k, 'z) master_scheme modfuns \<Rightarrow> ('z \<Rightarrow> 'z) \<Rightarrow> addr list \<Rightarrow> ('k, 'z) master_scheme \<Rightarrow> bool" where
  "starts_up mf f ms s \<longleftrightarrow> (\<forall>s'. installed s' ms \<and> module_mem s' = module_mem s \<and> master.more s' = master.more s \<longrightarrow>
     init_modules mf 0 s' = Inr (0, master.more_update f s'))"

lemma starts_up_quiet: "\<forall>m s. f_init mf m s = (0, s) \<Longrightarrow> starts_up mf (\<lambda>z. z) ms s"
  using init_modules_quiet [of 0 ms _ mf] by (simp add: starts_up_def)

lemma master_init_run:
  assumes "workers s = 0" "env_fine env" "installed s ms" "starts_up mf f ms s"
  shows "\<exists>s'. master_init mf env n s = Inr (0, s') \<and> workers s' = n \<and> \<not> cancel s' \<and>
    tasks s' = list_init (tasks s) \<and> taskq s' = queue_init (taskq s) \<and> heap s' = heap s \<and>
    installed s' ms \<and> tp_count (pool s') = 0 \<and> tp_threads (pool s') = Some (replicate (unat n) 0) \<and>
    ints s' = ints s \<and> tls_key (tls_task s') \<and> tls_key (tls_context s') \<and> master.more s' = f (master.more s) \<and>
    module_mem s' = module_mem s \<and> tls_context s' = \<lparr>tls_key = True, tls_slot = (\<lambda>_. None)\<rparr>"
proof -
  have init: "init_modules mf 0 s' = Inr (0, master.more_update f s')"
    if "installed s' ms" "module_mem s' = module_mem s" "master.more s' = master.more s" for s'
    using assms(4) that by (simp add: starts_up_def)
  show ?thesis
    using assms(1,2)
    by (simp add: master_init_def threadpool_init_def threadlocal_init_def set_errno_def env_fine_def
        Let_def init installed_keep [OF assms(3)])
qed

lemma world_rep_init:
  assumes rep: "world_rep s L []" and s': "tasks s' = list_init (tasks s)" "taskq s' = queue_init (taskq s)"
    "heap s' = heap s"
  shows "world_rep s' L [] \<and> (\<forall>p \<in> set L. qnext (taskq s') p = None)"
proof -
  have "list_rep (tasks s') L" using rep s'(1) by (simp add: world_rep_def rep_defs list_init_def)
  moreover have "queue_rep (taskq s') []" using s'(2) queue_init_rep by simp
  moreover have "qnext (taskq s') = qnext (taskq s)" using s'(2) by (simp add: queue_init_def)
  ultimately show ?thesis using rep s'(3) by (simp add: world_rep_def)
qed

lemma world_rep_pushall:
  assumes rep: "world_rep s L []" and ts: "ts \<noteq> []" "distinct ts" "set ts \<subseteq> set L"
  shows "\<exists>q. queue_pushall ts (taskq s) = Inr (0, q) \<and> world_rep (s\<lparr>taskq := q\<rparr>) L ts"
proof -
  have empty: "queue_rep (taskq s) []" using rep by (simp add: world_rep_def)
  have det: "\<forall>p \<in> set L. qnext (taskq s) p = None" using rep by (auto simp: world_rep_def)
  then have "\<forall>v \<in> set ts. qnext (taskq s) v = None" using ts(3) by blast
  from queue_pushall_into_empty [OF empty ts(1,2) this] obtain q where
    q: "queue_pushall ts (taskq s) = Inr (0, q)" "queue_rep q ts" "queue_frame (set ts) (taskq s) q" by blast
  have "\<forall>t. heap s t \<noteq> None \<longrightarrow> t \<notin> set ts \<longrightarrow> qnext q t = None"
    using q(3) det world_rep_members [OF rep] by (simp add: queue_frame_def)
  with world_rep_taskq [OF rep q(2) ts(3)] q(1) show ?thesis by blast
qed

lemma pcaio_start_run:
  assumes "workers s = 0" "env_fine env" "installed s ms" "starts_up mf f ms s"
    and "world_rep s L []" "ts \<noteq> []" "distinct ts" "set ts \<subseteq> set L"
  obtains s' where "pcaio mf pt sleep env 0 0 i n ts s =
      (case master mf pt sleep i s' of
         None \<Rightarrow> None
       | Some (Inl e) \<Rightarrow> Some (Inl e)
       | Some (Inr (status, s)) \<Rightarrow>
          (case master_deinit mf s of Inl e \<Rightarrow> Some (Inl e) | Inr (_, s) \<Rightarrow> Some (Inr (status, s))))"
    "world_rep s' L ts" "workers s' = n" "\<not> cancel s'" "installed s' ms"
    "tp_count (pool s') = 0" "tp_threads (pool s') = Some (replicate (unat n) 0)"
    "heap s' = heap s" "ints s' = ints s" "tls_key (tls_task s')" "tls_key (tls_context s')"
    "master.more s' = f (master.more s)" "module_mem s' = module_mem s"
    "tls_context s' = \<lparr>tls_key = True, tls_slot = (\<lambda>_. None)\<rparr>"
proof -
  from master_init_run [OF assms(1-4), of n] obtain s1 where
    s1: "master_init mf env n s = Inr (0, s1)" "workers s1 = n" "\<not> cancel s1"
      "tasks s1 = list_init (tasks s)" "taskq s1 = queue_init (taskq s)" "heap s1 = heap s"
      "installed s1 ms" "tp_count (pool s1) = 0" "tp_threads (pool s1) = Some (replicate (unat n) 0)"
      "ints s1 = ints s" "tls_key (tls_task s1)" "tls_key (tls_context s1)" "master.more s1 = f (master.more s)"
      "module_mem s1 = module_mem s" "tls_context s1 = \<lparr>tls_key = True, tls_slot = (\<lambda>_. None)\<rparr>"
    by blast
  have "world_rep s1 L []" using world_rep_init [OF assms(5) s1(4-6)] by blast
  from world_rep_pushall [OF this assms(6-8)] obtain q where
    q: "queue_pushall ts (taskq s1) = Inr (0, q)" "world_rep (s1\<lparr>taskq := q\<rparr>) L ts" by blast
  show thesis
  proof (rule that [of "s1\<lparr>taskq := q\<rparr>"])
    show "installed (s1\<lparr>taskq := q\<rparr>) ms" by (rule installed_keep [OF s1(7)]) simp_all
  qed (use q s1 in \<open>simp_all add: pcaio_def assms(6)\<close>)
qed

section \<open>A sample state\<close>

text \<open>Two modules: the one at address 8 panics, the one at 16 has more to do.\<close>

definition state2 :: "unit master" where
  "state2 = (state_static world0)\<lparr>modulescount := 2,
     modules := [Some 8, Some 16, None, None, None, None, None, None],
     module_mem := [8 \<mapsto> \<lparr>m_flags = 0, m_init = True, m_dtor = True, m_tick = True\<rparr>,
                    16 \<mapsto> \<lparr>m_flags = 0, m_init = False, m_dtor = True, m_tick = True\<rparr>]\<rparr>"

definition mods2 :: "unit master modfuns" where
  "mods2 = \<lparr>f_init = (\<lambda>m s. (0, s)), f_dtor = (\<lambda>m s. (0, s)),
     f_tick = (\<lambda>m t s. Inr (if m = 8 then PMSPANIC else PMSAGAIN, s))\<rparr>"

lemma state2_installed: "installed state2 [8, 16]"
  by (simp add: installed_def state2_def MODULES_MAX_def)

lemma mods2_keep: "ticks_keep mods2"
  by (simp add: ticks_keep_def mods2_def)

lemma mods2_init: "\<forall>m s. f_init mods2 m s = (0, s)"
  by (simp add: mods2_def)

section \<open>Properties\<close>

text \<open>Property C31. The shutdown loop of \<open>master\<close> ends: whatever tasks are left, running,
  waiting or queued, it frees every one of them and its stack exactly once, and the task list
  ends empty.\<close>

theorem master_free_all:
  assumes "world_rep w L Q"
  shows "\<exists>w'. master_free w = Some (Inr w') \<and> list_rep (tasks w') [] \<and> (\<forall>p. heap w' p = None) \<and>
    stacks w' = stacks w - task_stacks w"
  using master_free_spec [OF world_rep_draining [OF assms]] by (auto simp: draining_none)

theorem master_free_all_witness:
  "\<exists>w w'. task_new (Some 64) 0 (Some 128) (Some 7) None 0 [] (world0 :: unit world) = Inr (Some 64, w) \<and>
    master_free w = Some (Inr w') \<and> heap w' 64 = None \<and> stacks w' = {}"
proof -
  from sample_task [of None] obtain w t where
    w: "task_new (Some 64) 0 (Some 128) (Some 7) None 0 [] (world0 :: unit world) = Inr (Some 64, w)"
      "world_rep w [64] []" "stacks w = {128}" "heap w 64 = Some t" "t_stack t = Some 128" by fastforce
  have "128 \<in> task_stacks w" using w(4,5) by (auto simp: task_stacks_def)
  with master_free_all [OF w(2)] w(1,3) show ?thesis by auto
qed

text \<open>Property C32. One pass of the main loop calls the tick function of exactly the installed
  modules that have one and have not panicked, once each, in the order of installation, with the
  pass's timeout; a module that panics is never called again.\<close>

theorem tick_pass_spec:
  assumes "installed s ms" "distinct ms" "ticks_keep mf"
  shows "tick_modules mf t 0 any s = tick_each mf t (filter (module_ready s) ms) any s \<and>
    (\<forall>any' s' m. tick_modules mf t 0 any s = Inr (any', s') \<longrightarrow> \<not> module_ready s m \<longrightarrow> \<not> module_ready s' m)"
  using tick_modules_spec [OF assms] tick_each_ready [OF assms(3)] by metis

theorem tick_pass_spec_witness:
  "\<exists>s'. tick_modules mods2 5000 0 False state2 = Inr (True, s') \<and> \<not> module_ready s' 8 \<and> module_ready s' 16"
proof -
  have ready: "filter (module_ready state2) [8, 16] = [8, 16]"
    by (simp add: module_ready_def state2_def MOD_PANIC_def)
  have dist: "distinct [8 :: addr, 16]" by simp
  have tick: "f_tick mods2 8 5000 s = Inr (PMSPANIC, s)" "f_tick mods2 16 5000 s = Inr (PMSAGAIN, s)" for s
    by (simp_all add: mods2_def)
  have "tick_each mods2 5000 [8, 16] False state2 = Inr (True, module_panic 8 state2)"
    by (simp add: tick)
  moreover have "tick_modules mods2 5000 0 False state2 = tick_each mods2 5000 [8, 16] False state2"
    using tick_pass_spec [OF state2_installed dist mods2_keep, THEN conjunct1, of 5000 False]
    unfolding ready .
  moreover have "module_ready state2 16" by (simp add: module_ready_def state2_def MOD_PANIC_def)
  then have "\<not> module_ready (module_panic 8 state2) 8" "module_ready (module_panic 8 state2) 16"
    unfolding module_panic_ready by simp_all
  ultimately show ?thesis by simp
qed

text \<open>\<open>pcaio\<close> starts the master on a well-formed state: the tasks created
  before the call are still registered, the given ones are queued in the order of the array, the
  pool is empty with room for all workers, and what \<open>pcaio\<close> returns is the master's status,
  after the tear-down.\<close>

theorem pcaio_starts:
  assumes "workers s = 0" "env_fine env" "installed s ms" "\<forall>m s. f_init mf m s = (0, s)"
    and "world_rep s L []" "ts \<noteq> []" "distinct ts" "set ts \<subseteq> set L"
  shows "\<exists>s'. pcaio mf pt sleep env 0 0 i n ts s =
      (case master mf pt sleep i s' of
         None \<Rightarrow> None
       | Some (Inl e) \<Rightarrow> Some (Inl e)
       | Some (Inr (status, s)) \<Rightarrow>
          (case master_deinit mf s of Inl e \<Rightarrow> Some (Inl e) | Inr (_, s) \<Rightarrow> Some (Inr (status, s)))) \<and>
    world_rep s' L ts \<and> workers s' = n \<and> \<not> cancel s' \<and> installed s' ms \<and>
    tp_count (pool s') = 0 \<and> tp_threads (pool s') = Some (replicate (unat n) 0)"
proof -
  obtain s' where "pcaio mf pt sleep env 0 0 i n ts s =
      (case master mf pt sleep i s' of
         None \<Rightarrow> None
       | Some (Inl e) \<Rightarrow> Some (Inl e)
       | Some (Inr (status, s)) \<Rightarrow>
          (case master_deinit mf s of Inl e \<Rightarrow> Some (Inl e) | Inr (_, s) \<Rightarrow> Some (Inr (status, s))))"
    "world_rep s' L ts" "workers s' = n" "\<not> cancel s'" "installed s' ms"
    "tp_count (pool s') = 0" "tp_threads (pool s') = Some (replicate (unat n) 0)"
    by (rule pcaio_start_run [OF assms(1-3) starts_up_quiet [OF assms(4)] assms(5-8)]) (rule that)
  then show ?thesis by (intro exI [of _ s']) simp
qed

text \<open>When \<open>pcaio\<close> fails after the initialisation (here: the signal handler
  cannot be set), it returns without undoing it: every later call fails at once, since the state
  still counts as initialised.\<close>

theorem pcaio_failure_locks:
  assumes "workers s = 0" "env_fine env" "installed s ms" "\<forall>m s. f_init mf m s = (0, s)"
    and "n \<noteq> 0" "ts \<noteq> []" "sigempty_rc \<noteq> 0 \<or> sigaction_rc \<noteq> 0"
  shows "\<exists>s'. pcaio mf pt sleep env sigempty_rc sigaction_rc i n ts s = Some (Inr (-1, s')) \<and>
    (\<forall>env' n' ts'. pcaio mf pt sleep env' 0 0 i n' ts' s' = Some (Inr (-1, s')))"
proof -
  from master_init_run [OF assms(1-3) starts_up_quiet [OF assms(4)], of n] obtain s1 where
    s1: "master_init mf env n s = Inr (0, s1)" "workers s1 = n" by blast
  have "pcaio mf pt sleep env sigempty_rc sigaction_rc i n ts s = Some (Inr (-1, s1))"
    using assms(6,7) s1(1) by (auto simp: pcaio_def)
  moreover have "pcaio mf pt sleep env' 0 0 i n' ts' s1 = Some (Inr (-1, s1))" for env' n' ts'
    using s1(2) assms(5) by (simp add: pcaio_def master_init_def)
  ultimately show ?thesis by blast
qed

definition env1 :: initenv where
  "env1 = \<lparr>ie_mem = True, ie_mutex_err = 0, ie_task_key_err = 0, ie_context_key_err = 0,
     ie_worker = 4096, ie_taskq = 8192\<rparr>"

text \<open>No thread can be created.\<close>

definition pt0 :: "'e pthreads" where
  "pt0 = \<lparr>pt_create = (\<lambda>e. (11, 0, e)), pt_cancel = (\<lambda>h e. (3, e)), pt_join = (\<lambda>h e. (3, e)),
     pt_kill = (\<lambda>h sig e. (3, e))\<rparr>"

theorem pcaio_failure_locks_witness:
  "\<exists>s'. pcaio mods2 pt0 (\<lambda>t s. s) env1 0 (-1) 0 4 [64] state2 = Some (Inr (-1, s')) \<and>
    pcaio mods2 pt0 (\<lambda>t s. s) env1 0 0 0 4 [64] s' = Some (Inr (-1, s'))"
proof -
  have "workers state2 = 0" "env_fine env1" by (simp_all add: state2_def env_fine_def env1_def)
  from pcaio_failure_locks [OF this state2_installed mods2_init, of 4 "[64]" 0 "-1" pt0 "\<lambda>t s. s" 0]
  show ?thesis by auto
qed

theorem pcaio_starts_witness:
  "\<exists>s s'. pcaio mods2 pt0 (\<lambda>t s. s) env1 0 0 0 4 [128, 64] s =
      (case master mods2 pt0 (\<lambda>t s. s) 0 s' of
         None \<Rightarrow> None
       | Some (Inl e) \<Rightarrow> Some (Inl e)
       | Some (Inr (status, s)) \<Rightarrow>
          (case master_deinit mods2 s of Inl e \<Rightarrow> Some (Inl e) | Inr (_, s) \<Rightarrow> Some (Inr (status, s)))) \<and>
    world_rep s' [64, 128, 192] [128, 64]"
proof -
  from sample_gang obtain w :: "unit world" where w: "world_rep w [64, 128, 192] []" by blast
  let ?s = "(state_static w)\<lparr>modulescount := modulescount state2, modules := modules state2,
    module_mem := module_mem state2\<rparr>"
  have "workers ?s = 0" "env_fine env1" by (simp_all add: env_fine_def env1_def)
  moreover have "installed ?s [8, 16]" using state2_installed by (simp add: installed_def)
  moreover have "world_rep ?s [64, 128, 192] []" using w by (simp add: world_rep_def)
  ultimately show ?thesis
    using pcaio_starts [of ?s env1 "[8, 16]" mods2 "[64, 128, 192]" "[128, 64]" pt0 "\<lambda>t s. s" 0 4] mods2_init
    by auto
qed

end
