(* ===== verification/Program.thy ===== *)
theory Program
  imports Scheduler Master
begin

text \<open>
  The program as a whole: \<open>pcaio\<close> with the master of \<open>Master\<close> and the workers of
  \<open>Interleave\<close>, which move while the master starts other workers and while it sleeps. The
  state of the program is that of the master with the places of the workers.
\<close>

section \<open>Master and workers\<close>

record 'u program = "'u frame master" +
  controls :: "'u control list"

text \<open>The workers move, in any order and for any time; they work on the memory of \<open>World\<close>,
  not on the other fields of the master's state.\<close>

definition put_crew ::
  "'u control list \<Rightarrow> 'u frame world \<Rightarrow> ('u, 'z) program_scheme \<Rightarrow> ('u, 'z) program_scheme" where
  "put_crew cs w s =
    s\<lparr>heap := heap w, stacks := stacks w, gathers := gathers w, ints := ints w, tasks := tasks w,
      taskq := taskq w, tls_task := tls_task w, tls_context := tls_context w, errno := errno w, controls := cs\<rparr>"

definition crew :: "('u, 'z) program_scheme \<Rightarrow> 'u control list \<times> 'u frame world" where
  "crew s = (controls s, world.truncate s)"

definition crew_runs ::
  "('u \<Rightarrow> 'u uop) \<Rightarrow> (addr option \<Rightarrow> addr list \<Rightarrow> 'u)
   \<Rightarrow> ('u, unit) userland
   \<Rightarrow> ('u, 'z) program_scheme \<Rightarrow> ('u, 'z) program_scheme \<Rightarrow> bool" where
  "crew_runs prog start cb s s' \<longleftrightarrow>
    (\<exists>cs w. (sys_step prog start cb)\<^sup>*\<^sup>* (crew s) (cs, w) \<and> s' = put_crew cs w s)"

definition crew_moves ::
  "('u \<Rightarrow> 'u uop) \<Rightarrow> (addr option \<Rightarrow> addr list \<Rightarrow> 'u)
   \<Rightarrow> ('u, unit) userland
   \<Rightarrow> ('u, 'z) program_scheme \<Rightarrow> ('u, 'z) program_scheme \<Rightarrow> bool" where
  "crew_moves prog start cb s s' \<longleftrightarrow>
    (\<exists>cs w. (sys_step prog start cb)\<^sup>+\<^sup>+ (crew s) (cs, w) \<and> s' = put_crew cs w s)"

text \<open>A new worker has stored its landing context and comes to its loop.\<close>

definition spawn :: "('u, 'z) program_scheme \<Rightarrow> ('u, 'z) program_scheme" where
  "spawn s =
    (let i = length (controls s)
     in s\<lparr>tls_context := snd (snd (threadlocal_set 0 i (Some i) (tls_context s))),
          controls := controls s @ [Looping]\<rparr>)"

text \<open>What the theorem below relies on of the pthread calls and of \<open>usleep\<close>: no call fails; a
  thread that is created starts, and the others may move meanwhile; one that is cancelled, which
  happens in \<open>pthread_cond_wait\<close>, leaves through its cleanup handler, at once or later; and in the
  time \<open>usleep\<close> takes, some worker moves if one can.\<close>

definition crew_threads ::
  "('u \<Rightarrow> 'u uop) \<Rightarrow> (addr option \<Rightarrow> addr list \<Rightarrow> 'u)
   \<Rightarrow> ('u, unit) userland
   \<Rightarrow> ('u, 'z) program_scheme pthreads \<Rightarrow> bool" where
  "crew_threads prog start cb pt \<longleftrightarrow>
    (\<forall>s. \<exists>h s'. pt_create pt s = (0, h, s') \<and> crew_runs prog start cb (spawn s) s') \<and>
    (\<forall>h s. pt_cancel pt h s \<in> {(0, s), (0, worker_cleanup s)}) \<and>
    (\<forall>h s. pt_join pt h s \<in> {(0, s), (0, worker_cleanup s)})"

definition crew_time ::
  "('u \<Rightarrow> 'u uop) \<Rightarrow> (addr option \<Rightarrow> addr list \<Rightarrow> 'u)
   \<Rightarrow> ('u, unit) userland
   \<Rightarrow> (c_uint \<Rightarrow> ('u, 'z) program_scheme \<Rightarrow> ('u, 'z) program_scheme) \<Rightarrow> bool" where
  "crew_time prog start cb sleep \<longleftrightarrow>
    (\<forall>t s. crew_runs prog start cb s (sleep t s) \<and>
      ((\<exists>s'. sys_step prog start cb (crew s) s') \<longrightarrow> crew_moves prog start cb s (sleep t s)))"

lemma crew_simps [simp]:
  "controls (put_crew cs w s) = cs" "heap (put_crew cs w s) = heap w" "tasks (put_crew cs w s) = tasks w"
  "taskq (put_crew cs w s) = taskq w" "ints (put_crew cs w s) = ints w"
  "tls_task (put_crew cs w s) = tls_task w" "tls_context (put_crew cs w s) = tls_context w" "workers (put_crew cs w s) = workers s" "cancel (put_crew cs w s) = cancel s" "pool (put_crew cs w s) = pool s"
  "modulescount (put_crew cs w s) = modulescount s" "modules (put_crew cs w s) = modules s"
  "module_mem (put_crew cs w s) = module_mem s"
  by (simp_all add: put_crew_def)

lemma crew_put_crew [simp]: "crew (put_crew cs w s) = (cs, w)"
  by (cases w) (simp add: crew_def put_crew_def world.truncate_def)

lemma truncate_simps [simp]:
  "heap (world.truncate s) = heap s" "tasks (world.truncate s) = tasks s" "taskq (world.truncate s) = taskq s"
  "ints (world.truncate s) = ints s" "tls_task (world.truncate s) = tls_task s"
  "tls_context (world.truncate s) = tls_context s" "gathers (world.truncate s) = gathers s"
  by (simp_all add: world.truncate_def)

section \<open>What the master does\<close>

text \<open>The fields of the master that a worker leaves alone.\<close>

definition steady :: "('u, 'z) program_scheme \<Rightarrow> ('u, 'z) program_scheme \<Rightarrow> bool" where
  "steady s s' \<longleftrightarrow> workers s' = workers s \<and> cancel s' = cancel s \<and> modulescount s' = modulescount s \<and>
    pool s' = pool s \<and> length (controls s') = length (controls s)"

lemma runs_steady: "crew_runs prog start cb s s' \<Longrightarrow> steady s s'"
  using sys_steps_length by (fastforce simp: crew_runs_def steady_def crew_def)

lemma steady_trans: "steady s s' \<Longrightarrow> steady s' s'' \<Longrightarrow> steady s s''"
  by (simp add: steady_def)

lemma tick_none: "modulescount s = 0 \<Longrightarrow> tick_modules mf t 0 any s = Inr (any, s)"
  by (simp add: tick_modules.simps [of mf t 0])

lemma cleanup_rep: "world_rep w L Q \<Longrightarrow> world_rep (worker_cleanup w) L Q"
proof -
  assume rep: "world_rep w L Q"
  then have "\<not> qmutex (taskq w)" by (simp add: world_rep_def rep_defs)
  then have "queue_unlock (taskq w) = taskq w" by (simp add: queue_unlock_def)
  then show ?thesis using rep world_rep_cong [of "worker_cleanup w" w] by (simp add: worker_cleanup_def)
qed

lemma stop_crew:
  assumes threads: "crew_threads prog start cb pt" and rep: "world_rep s [] []"
    and pool: "tp_threads (pool s) = Some arr" "unat (tp_count (pool s)) \<le> length arr"
  shows "\<exists>s'. scale_pool pt 0 s = Inr (0, s') \<and> world_rep s' [] [] \<and> ints s' = ints s \<and>
    modulescount s' = modulescount s \<and> tp_count (pool s') = 0"
proof -
  let ?P = "\<lambda>e. world_rep e [] [] \<and> ints e = ints s \<and> modulescount e = modulescount s"
  have keep: "?P (worker_cleanup e)" if "?P e" for e
    using that cleanup_rep [of e] by (simp add: worker_cleanup_def)
  have "pt_cancel pt h e \<in> {(0, e), (0, worker_cleanup e)}" "pt_join pt h e \<in> {(0, e), (0, worker_cleanup e)}" for h e
    using threads unfolding crew_threads_def by blast+
  with keep have "\<exists>e'. pt_cancel pt h e = (0, e') \<and> ?P e'" "\<exists>e'. pt_join pt h e = (0, e') \<and> ?P e'" if "?P e" for h e
    using that by (metis insertE singletonD)+
  moreover have "?P s" using rep by simp
  ultimately obtain tp' e' where "threadpool_scale pt 0 (pool s) s = Inr (0, None, tp', e')" "?P e'" "tp_count tp' = 0"
    using scale_down_runs [of ?P pt s "pool s" arr] pool by blast
  moreover have "world_rep (e'\<lparr>pool := tp'\<rparr>) [] [] \<longleftrightarrow> world_rep e' [] []" by (rule world_rep_cong) simp_all
  ultimately show ?thesis by (auto simp: scale_pool_def set_errno_def)
qed

lemma master_free_none: "world_rep w [] [] \<Longrightarrow> master_free w = Some (Inr w)"
  by (subst master_free.simps) (simp add: list_pop_Nil world_rep_def)

lemma deinit_run:
  assumes "modulescount s = 0" "tp_count (pool s) = 0"
  shows "\<exists>s'. master_deinit mf s = Inr (0, s') \<and> heap s' = heap s \<and> ints s' = ints s \<and> workers s' = 0 \<and>
    installed s' []"
  using assms
  by (simp add: master_deinit_def threadpool_deinit_def Let_def dtor_modules.simps [of mf 0] state_zero_def
      installed_def MODULES_MAX_def)

lemma controls_of_more: "master.more s' = master.more s \<Longrightarrow> controls s' = controls s"
  by (cases s; cases s') simp

section \<open>The contract of the workers\<close>

text \<open>What the master needs of the workers, whatever the tasks do: a set of good states with a bound
  on the steps left, which the workers' steps lower; a state in which no worker can move has no tasks, and one
  without tasks has the outcome that was promised. At most \<open>most\<close> workers are started.\<close>

locale work_force =
  fixes prog :: "'u \<Rightarrow> 'u uop" and start :: "addr option \<Rightarrow> addr list \<Rightarrow> 'u" and cb :: "('u, unit) userland"
    and good :: "nat \<Rightarrow> ('u, 'z) program_scheme \<Rightarrow> bool" and outcome :: "(addr \<Rightarrow> c_int) \<Rightarrow> bool" and most :: nat
  assumes runs_law: "crew_runs prog start cb s s' \<Longrightarrow> good n s \<Longrightarrow> \<exists>m \<le> n. good m s'"
    and moves_law: "crew_moves prog start cb s s' \<Longrightarrow> good n s \<Longrightarrow> \<exists>m < n. good m s'"
    and spawn_law: "good n s \<Longrightarrow> length (controls s) < most \<Longrightarrow> good n (spawn s)"
    and master_law: "good n s \<Longrightarrow> controls s \<noteq> [] \<Longrightarrow> length (controls s) \<le> i \<Longrightarrow>
      good n (s\<lparr>tls_context := snd (snd (threadlocal_set 0 i None (tls_context s)))\<rparr>)"
    and pool_law: "good n s \<Longrightarrow> good n (s\<lparr>pool := tp\<rparr>)"
    and idle_law: "good n s \<Longrightarrow> \<nexists>s'. sys_step prog start cb (crew s) s' \<Longrightarrow> controls s \<noteq> [] \<Longrightarrow> lcount (tasks s) = 0"
    and empty_law: "good n s \<Longrightarrow> lcount (tasks s) = 0 \<Longrightarrow> world_rep s [] [] \<and> outcome (ints s)"
begin

lemma loop_ends:
  assumes time: "crew_time prog start cb sleep"
  shows "good n s \<Longrightarrow> controls s \<noteq> [] \<Longrightarrow> modulescount s = 0 \<Longrightarrow> \<not> cancel s \<Longrightarrow>
    \<exists>m s'. master_loop mf sleep False s = Some (Inr s') \<and> good m s' \<and> steady s s' \<and> lcount (tasks s') = 0"
proof (induction n arbitrary: s rule: less_induct)
  case (less n)
  show ?case
  proof (cases "lcount (tasks s) = 0")
    case True
    then have "master_loop mf sleep False s = Some (Inr s)" by (subst master_loop.simps) simp
    with True less.prems(1) show ?thesis by (auto simp: steady_def)
  next
    case False
    let ?s = "sleep TIMEOUT_LONG s"
    from False idle_law [OF less.prems(1) _ less.prems(2)] have "\<exists>s'. sys_step prog start cb (crew s) s'" by blast
    with time have moves: "crew_moves prog start cb s ?s" and runs: "crew_runs prog start cb s ?s"
      by (simp_all add: crew_time_def)
    from moves_law [OF moves less.prems(1)] obtain m where m: "m < n" "good m ?s" by blast
    from runs_steady [OF runs] have st: "steady s ?s" .
    then have keep: "controls ?s \<noteq> []" "modulescount ?s = 0" "\<not> cancel ?s"
      using less.prems by (auto simp: steady_def)
    have "master_loop mf sleep False s = master_loop mf sleep False ?s"
      using False less.prems(4) by (subst master_loop.simps) (simp add: tick_none [OF keep(2)])
    with less.IH [OF m keep] steady_trans [OF st] show ?thesis by metis
  qed
qed

lemma loop_ends_first:
  assumes "crew_time prog start cb sleep" "good n s" "controls s \<noteq> []" "modulescount s = 0" "\<not> cancel s"
  shows "\<exists>m s'. master_loop mf sleep True s = Some (Inr s') \<and> good m s' \<and> steady s s' \<and> lcount (tasks s') = 0"
proof (cases "lcount (tasks s) = 0")
  case True
  then have "master_loop mf sleep True s = Some (Inr s)" by (subst master_loop.simps) simp
  with True assms(2) show ?thesis by (auto simp: steady_def)
next
  case False
  then have "master_loop mf sleep True s = master_loop mf sleep False s"
    using assms(5) by (subst master_loop.simps) (simp add: tick_none [OF assms(4)])
  with loop_ends [OF assms] show ?thesis by simp
qed

lemma start_crew:
  assumes threads: "crew_threads prog start cb pt" and ok: "good N s" and none: "controls s = []"
    and pool: "tp_count (pool s) = 0" "tp_threads (pool s) = Some arr" "unat n \<le> length arr" and most: "unat n \<le> most"
  shows "\<exists>m s' arr'. scale_pool pt n s = Inr (0, s') \<and> good m s' \<and>
    length (controls s') = unat n \<and> workers s' = workers s \<and> cancel s' = cancel s \<and>
    modulescount s' = modulescount s \<and> tp_count (pool s') = n \<and>
    tp_threads (pool s') = Some arr' \<and> length arr' = length arr"
proof -
  define P where "P = (\<lambda>i e. i \<le> most \<longrightarrow> (\<exists>m. good m e) \<and> length (controls e) = i \<and> workers e = workers s \<and>
    cancel e = cancel s \<and> modulescount e = modulescount s)"
  have create: "\<exists>h e'. pt_create pt e = (0, h, e') \<and> P (Suc i) e'" if P: "P i e" for i e
  proof -
    from threads obtain h e' where e': "pt_create pt e = (0, h, e')" "crew_runs prog start cb (spawn e) e'"
      unfolding crew_threads_def by blast
    have "P (Suc i) e'"
      unfolding P_def
    proof
      assume i: "Suc i \<le> most"
      with P obtain m where "good m e" "length (controls e) = i" by (auto simp: P_def)
      with spawn_law i have "good m (spawn e)" by simp
      from runs_law [OF e'(2) this] have "\<exists>m. good m e'" by blast
      moreover have "steady (spawn e) e'" by (rule runs_steady [OF e'(2)])
      ultimately show "(\<exists>m. good m e') \<and> length (controls e') = Suc i \<and> workers e' = workers s \<and>
          cancel e' = cancel s \<and> modulescount e' = modulescount s"
        using P i by (auto simp: P_def steady_def spawn_def Let_def)
    qed
    then show ?thesis using e'(1) by blast
  qed
  have base: "P 0 s" using ok none by (auto simp: P_def)
  from scale_up_runs [of P pt s "pool s" arr n, OF create base pool] obtain tp' e' arr' where
    e': "threadpool_scale pt n (pool s) s = Inr (0, None, tp', e')" "P (unat n) e'"
      "tp_count tp' = n" "tp_threads tp' = Some arr'" "length arr' = length arr" by blast
  from e'(2) most obtain m where m: "good m e'" "length (controls e') = unat n" "workers e' = workers s"
    "cancel e' = cancel s" "modulescount e' = modulescount s" by (auto simp: P_def)
  show ?thesis using e' m(2-) pool_law [OF m(1)] by (auto simp: scale_pool_def set_errno_def)
qed

lemma master_ends:
  assumes env: "crew_threads prog start cb pt" "crew_time prog start cb sleep"
    and ok: "good N s" and none: "controls s = []"
    and state: "workers s = n" "n \<noteq> 0" "\<not> cancel s" "modulescount s = 0" "unat n \<le> i" "unat n \<le> most"
    and pool: "tp_count (pool s) = 0" "tp_threads (pool s) = Some arr" "unat n \<le> length arr"
  shows "\<exists>s'. master mf pt sleep i s = Some (Inr (0, s')) \<and> world_rep s' [] [] \<and> outcome (ints s') \<and>
    modulescount s' = 0 \<and> tp_count (pool s') = 0"
proof -
  from start_crew [OF env(1) ok none pool state(6)] obtain m s1 arr' where
    s1: "scale_pool pt n s = Inr (0, s1)" "good m s1" "length (controls s1) = unat n"
      "\<not> cancel s1" "modulescount s1 = 0" "tp_count (pool s1) = n" "tp_threads (pool s1) = Some arr'"
      "length arr' = length arr" using state by auto
  let ?s2 = "s1\<lparr>tls_context := snd (snd (threadlocal_set 0 i None (tls_context s1)))\<rparr>"
  have some: "controls s1 \<noteq> []" using s1(3) state(2) by (auto simp: unat_eq_0 [symmetric])
  have "good m ?s2" using master_law [OF s1(2) some] s1(3) state(5) by simp
  moreover have "controls ?s2 \<noteq> []" "modulescount ?s2 = 0" "\<not> cancel ?s2" using some s1(4,5) by simp_all
  ultimately obtain m' s3 where s3: "master_loop mf sleep True ?s2 = Some (Inr s3)" "good m' s3"
    "steady ?s2 s3" "lcount (tasks s3) = 0"
    using loop_ends_first [OF env(2)] by blast
  have rep3: "world_rep s3 [] []" "outcome (ints s3)" using empty_law [OF s3(2,4)] by simp_all
  have pool3: "tp_threads (pool s3) = Some arr'" "unat (tp_count (pool s3)) \<le> length arr'" "modulescount s3 = 0"
    using s3(3) s1(5-8) pool(3) by (simp_all add: steady_def)
  from stop_crew [OF env(1) rep3(1) pool3(1,2)] obtain s4 where
    s4: "scale_pool pt 0 s3 = Inr (0, s4)" "world_rep s4 [] []" "ints s4 = ints s3" "modulescount s4 = 0"
      "tp_count (pool s4) = 0" using pool3(3) by auto
  have "master mf pt sleep i s = Some (Inr (0, s4))"
    using s1(1) s3(1) s4(1) by (simp add: master_def state(1) master_free_none [OF s4(2)] Let_def)
  with s4 rep3(2) show ?thesis by simp
qed

lemma pcaio_ends:
  fixes s :: "('u, 'z) program_scheme"
  assumes env: "crew_threads prog start cb pt" "crew_time prog start cb sleep" "env_fine env"
    and state: "workers s = 0" "installed s []" "controls s = []" "n \<noteq> 0" "unat n \<le> i" "unat n \<le> most"
    and tasks: "world_rep s L []" "ts \<noteq> []" "distinct ts" "set ts \<subseteq> set L" and init: "\<forall>m s. f_init mf m s = (0, s)"
    and first: "\<And>s1 :: ('u, 'z) program_scheme. world_rep s1 L ts \<Longrightarrow> heap s1 = heap s \<Longrightarrow> ints s1 = ints s \<Longrightarrow> tls_key (tls_task s1) \<Longrightarrow>
      tls_context s1 = \<lparr>tls_key = True, tls_slot = (\<lambda>_. None)\<rparr> \<Longrightarrow> controls s1 = [] \<Longrightarrow> \<exists>N. good N s1"
  shows "\<exists>s'. pcaio mf pt sleep env 0 0 i n ts s = Some (Inr (0, s')) \<and> (\<forall>p. heap s' p = None) \<and>
    outcome (ints s') \<and> workers s' = 0 \<and> installed s' []"
proof -
  obtain s1 where run: "pcaio mf pt sleep env 0 0 i n ts s =
      (case master mf pt sleep i s1 of
         None \<Rightarrow> None
       | Some (Inl e) \<Rightarrow> Some (Inl e)
       | Some (Inr (status, s)) \<Rightarrow>
          (case master_deinit mf s of Inl e \<Rightarrow> Some (Inl e) | Inr (_, s) \<Rightarrow> Some (Inr (status, s))))"
    and s1: "world_rep s1 L ts" "workers s1 = n" "\<not> cancel s1" "installed s1 []" "tp_count (pool s1) = 0"
      "tp_threads (pool s1) = Some (replicate (unat n) 0)" "heap s1 = heap s" "ints s1 = ints s"
      "tls_key (tls_task s1)" "master.more s1 = master.more s"
      "tls_context s1 = \<lparr>tls_key = True, tls_slot = (\<lambda>_. None)\<rparr>"
    by (rule pcaio_start_run [OF state(1) env(3) state(2) starts_up_quiet [OF init] tasks]) (rule that)
  have none: "controls s1 = []" using controls_of_more [OF s1(10)] state(3) by simp
  from first [OF s1(1,7,8,9,11) none] obtain N where ok: "good N s1" by blast
  have mods: "modulescount s1 = 0" "unat n \<le> length (replicate (unat n) (0 :: pthread))"
    using s1(4) by (simp_all add: installed_def unat_eq_0)
  from master_ends [OF env(1,2) ok none s1(2) state(4) s1(3) mods(1) state(5,6) s1(5,6) mods(2), of mf] obtain s2 where
    s2: "master mf pt sleep i s1 = Some (Inr (0, s2))" "world_rep s2 [] []" "outcome (ints s2)"
      "modulescount s2 = 0" "tp_count (pool s2) = 0" by auto
  from deinit_run [OF s2(4,5), of mf] obtain s3 where
    s3: "master_deinit mf s2 = Inr (0, s3)" "heap s3 = heap s2" "ints s3 = ints s2" "workers s3 = 0" "installed s3 []"
    by blast
  have "\<forall>p. heap s3 p = None" using world_rep_members [OF s2(2)] s3(2) by simp
  with run s2(1,3) s3 show ?thesis by simp
qed

end

section \<open>The invariant of the workers, for the program\<close>

definition crew_ok ::
  "('u \<Rightarrow> 'u uop) \<Rightarrow> (addr option \<Rightarrow> addr list \<Rightarrow> 'u) \<Rightarrow> ('u, unit) userland \<Rightarrow> (addr \<Rightarrow> c_int \<Rightarrow> bool)
   \<Rightarrow> nat \<Rightarrow> ('u, 'z) program_scheme \<Rightarrow> bool" where
  "crew_ok prog start cb Ok n s \<longleftrightarrow> sys_ok prog start cb Ok n (crew s) \<and> tls_key (tls_context s)"

lemma sys_inv_context:
  assumes inv: "sys_inv prog start cb Ok L Q ks ns (cs, w)"
    and same: "heap w' = heap w" "tasks w' = tasks w" "taskq w' = taskq w" "tls_task w' = tls_task w" "ints w' = ints w"
    and land: "\<forall>i < length cs. threadlocal_get i (tls_context w') = Some i"
  shows "sys_inv prog start cb Ok L Q ks ns (cs, w')"
proof -
  have "control_ok prog start cb Ok i w' c n \<longleftrightarrow> control_ok prog start cb Ok i w c n" for i c n
    by (rule control_ok_cong) (simp_all add: same pcaio_self_def)
  moreover have "waits prog start cb Ok w' = waits prog start cb Ok w"
    by (intro ext waits_cong) (simp add: same)
  moreover have "world_rep w' L Q \<longleftrightarrow> world_rep w L Q" by (rule world_rep_cong) (simp_all add: same)
  ultimately show ?thesis using inv land by (simp add: sys_inv_def same open_cells_cong [OF same(1)])
qed

lemma sys_ok_key:
  assumes "sys_ok prog start cb Ok n (cs, w)" "cs \<noteq> []" shows "tls_key (tls_context w)"
proof -
  from assms(1) obtain L Q ks ns where inv: "sys_inv prog start cb Ok L Q ks ns (cs, w)" by (rule sys_okE)
  from sys_inv_facts(8) [OF inv, of 0] assms(2) show ?thesis by (simp add: threadlocal_get_def split: if_splits)
qed

lemma crew_ok_runs:
  assumes "crew_runs prog start cb s s'" "crew_ok prog start cb Ok n s"
  shows "(\<exists>m \<le> n. crew_ok prog start cb Ok m s') \<and> length (controls s') = length (controls s)"
proof -
  from assms(1) obtain cs w where run: "(sys_step prog start cb)\<^sup>*\<^sup>* (crew s) (cs, w)" and s': "s' = put_crew cs w s"
    by (auto simp: crew_runs_def)
  have len: "length cs = length (controls s)" using sys_steps_length [OF run] by (simp add: crew_def)
  from run obtain k where "(sys_step prog start cb ^^ k) (crew s) (cs, w)" by (auto simp: rtranclp_power)
  from sys_ok_run [OF this] assms(2) obtain m where m: "sys_ok prog start cb Ok m (cs, w)" "m + k \<le> n"
    by (auto simp: crew_ok_def)
  have "tls_key (tls_context w)"
  proof (cases "cs = []")
    case True
    with len have "crew s = ([], world.truncate s)" by (simp add: crew_def)
    with run have "(cs, w) = crew s" by (induction rule: converse_rtranclp_induct) (auto elim: sys_step.cases)
    with assms(2) show ?thesis by (auto simp: crew_ok_def crew_def)
  qed (rule sys_ok_key [OF m(1)])
  with m(1) have "crew_ok prog start cb Ok m s'" by (simp add: s' crew_ok_def)
  moreover have "m \<le> n" using m(2) by simp
  ultimately show ?thesis using len s' by auto
qed

lemma crew_ok_moves:
  assumes "crew_moves prog start cb s s'" "crew_ok prog start cb Ok n s"
  shows "\<exists>m < n. crew_ok prog start cb Ok m s'"
proof -
  from assms(1) obtain cs w where run: "(sys_step prog start cb)\<^sup>+\<^sup>+ (crew s) (cs, w)" and s': "s' = put_crew cs w s"
    by (auto simp: crew_moves_def)
  then have "crew_runs prog start cb s s'" unfolding crew_runs_def by (blast dest: tranclp_into_rtranclp)
  from crew_ok_runs [OF this assms(2)] have key: "tls_key (tls_context s')" by (auto simp: crew_ok_def)
  from run obtain k where "k > 0" "(sys_step prog start cb ^^ k) (crew s) (cs, w)" by (auto simp: tranclp_power)
  moreover from sys_ok_run [OF this(2)] assms(2) obtain m where m: "sys_ok prog start cb Ok m (cs, w)" "m + k \<le> n"
    by (auto simp: crew_ok_def)
  ultimately have "m < n" by simp
  with key m(1) show ?thesis by (auto simp: s' crew_ok_def)
qed

lemma crew_ok_spawn:
  assumes "crew_ok prog start cb Ok n s" shows "crew_ok prog start cb Ok n (spawn s)"
proof -
  let ?i = "length (controls s)" and ?w = "world.truncate s" and ?w' = "world.truncate (spawn s)"
  from assms have key: "tls_key (tls_context s)" and "sys_ok prog start cb Ok n (controls s, ?w)"
    by (simp_all add: crew_ok_def crew_def)
  then obtain L Q ks ns where inv: "sys_inv prog start cb Ok L Q ks ns (controls s, ?w)" "steps_left ks ns = n"
    by (auto elim: sys_okE)
  have same: "heap ?w' = heap ?w" "tasks ?w' = tasks ?w" "taskq ?w' = taskq ?w" "tls_task ?w' = tls_task ?w"
    "ints ?w' = ints ?w" by (simp_all add: spawn_def Let_def)
  have land: "threadlocal_get j (tls_context ?w') = Some j" if "j \<le> ?i" for j
    using that key sys_inv_facts(8) [OF inv(1), of j] by (simp add: spawn_def Let_def)
  have "sys_inv prog start cb Ok L Q ks ns (controls s, ?w')"
    using sys_inv_context [OF inv(1) same] land by simp
  then have "sys_inv prog start cb Ok L Q ks (ns @ [0]) (controls s @ [Looping], ?w')"
    using land by (auto simp: sys_inv_def carried_def exclusive_def nth_append less_Suc_eq)
  moreover have "steps_left ks (ns @ [0]) = n" using inv(2) by (simp add: steps_left_def)
  ultimately have "sys_ok prog start cb Ok n (crew (spawn s))"
    unfolding sys_ok_def by (auto simp: crew_def spawn_def Let_def)
  with key show ?thesis by (simp add: crew_ok_def spawn_def Let_def threadlocal_set_def)
qed

text \<open>No task is left when the count of the task list is 0.\<close>

lemma sys_ok_empty:
  assumes ok: "sys_ok prog start cb Ok n (cs, w)" and none: "lcount (tasks w) = 0"
  shows "world_rep w [] []" "Ok x (ints w x)"
proof -
  from ok obtain L Q ks ns where inv: "sys_inv prog start cb Ok L Q ks ns (cs, w)" by (rule sys_okE)
  note facts = sys_inv_facts [OF inv]
  from rep_count [OF facts(1)] none have L: "L = []" by simp
  with facts(2) have "Q = []" by auto
  with L show rep: "world_rep w [] []" using facts(1) by simp
  have "open_cells w = {}"
    using world_rep_members [OF rep] by (simp add: open_cells_def cell_of_def split: option.splits)
  then show "Ok x (ints w x)" using facts(9) by simp
qed

lemma crew_fields [simp]:
  "crew (s\<lparr>pool := tp\<rparr>) = crew s" "crew (s\<lparr>tls_context := c\<rparr>) = (controls s, (world.truncate s)\<lparr>tls_context := c\<rparr>)"
  by (simp_all add: crew_def world.truncate_def)

lemma crew_ok_master:
  assumes ok: "crew_ok prog start cb Ok n s" and i: "length (controls s) \<le> i"
  shows "crew_ok prog start cb Ok n (s\<lparr>tls_context := snd (snd (threadlocal_set 0 i v (tls_context s)))\<rparr>)"
proof -
  let ?w = "world.truncate s" and ?c = "snd (snd (threadlocal_set 0 i v (tls_context s)))"
  from ok have key: "tls_key (tls_context s)" and "sys_ok prog start cb Ok n (controls s, ?w)"
    by (simp_all add: crew_ok_def crew_def)
  then obtain L Q ks ns where inv: "sys_inv prog start cb Ok L Q ks ns (controls s, ?w)" "steps_left ks ns = n"
    by (auto elim: sys_okE)
  have "sys_inv prog start cb Ok L Q ks ns (controls s, ?w\<lparr>tls_context := ?c\<rparr>)"
    using i key sys_inv_facts(8) [OF inv(1)] by (intro sys_inv_context [OF inv(1)]) simp_all
  with inv(2) key show ?thesis by (auto simp: crew_ok_def sys_ok_def threadlocal_set_def)
qed

lemma crew_ok_idle:
  assumes ok: "crew_ok prog start cb Ok n s" and stuck: "\<nexists>s'. sys_step prog start cb (crew s) s'"
    and crew: "controls s \<noteq> []"
  shows "lcount (tasks s) = 0"
proof -
  from ok have sys: "sys_ok prog start cb Ok n (controls s, world.truncate s)" by (simp add: crew_ok_def crew_def)
  have "sys_rests prog start cb (controls s, world.truncate s)"
    using sys_moves_or_rests [OF sys_ok_no_fault [OF sys]] stuck by (auto simp: crew_def)
  from sys_ok_rest(1) [OF sys this crew] show ?thesis by (simp add: world_rep_def rep_defs)
qed

section \<open>Tasks that compute, yield and create tasks\<close>

interpretation plain: work_force prog start cb "crew_ok prog start cb Ok" "\<lambda>m. \<forall>x. Ok x (m x)" most
  for prog start cb Ok most
proof unfold_locales
  fix n :: nat and s s' :: "('a, 'b) program_scheme" and i and tp
  show "crew_runs prog start cb s s' \<Longrightarrow> crew_ok prog start cb Ok n s \<Longrightarrow> \<exists>m \<le> n. crew_ok prog start cb Ok m s'"
    using crew_ok_runs by blast
  show "crew_moves prog start cb s s' \<Longrightarrow> crew_ok prog start cb Ok n s \<Longrightarrow> \<exists>m < n. crew_ok prog start cb Ok m s'"
    by (rule crew_ok_moves)
  show "crew_ok prog start cb Ok n s \<Longrightarrow> crew_ok prog start cb Ok n (spawn s)" by (rule crew_ok_spawn)
  show "crew_ok prog start cb Ok n s \<Longrightarrow> length (controls s) \<le> i \<Longrightarrow>
      crew_ok prog start cb Ok n (s\<lparr>tls_context := snd (snd (threadlocal_set 0 i None (tls_context s)))\<rparr>)"
    by (rule crew_ok_master)
  show "crew_ok prog start cb Ok n s \<Longrightarrow> crew_ok prog start cb Ok n (s\<lparr>pool := tp\<rparr>)" by (simp add: crew_ok_def)
  show "crew_ok prog start cb Ok n s \<Longrightarrow> \<nexists>s'. sys_step prog start cb (crew s) s' \<Longrightarrow> controls s \<noteq> [] \<Longrightarrow>
      lcount (tasks s) = 0"
    by (rule crew_ok_idle)
  show "world_rep s [] [] \<and> (\<forall>x. Ok x (ints s x))" if ok: "crew_ok prog start cb Ok n s" and none: "lcount (tasks s) = 0"
  proof -
    from ok have sys: "sys_ok prog start cb Ok n (controls s, world.truncate s)" by (simp add: crew_ok_def crew_def)
    show ?thesis using sys_ok_empty [OF sys] none by (simp add: world_rep_def)
  qed
qed

lemma program_ends:
  assumes env: "crew_threads prog start cb pt" "crew_time prog start cb sleep" "env_fine env"
    and state: "workers s = 0" "installed s []" "controls s = []" "n \<noteq> 0" "unat n \<le> i"
    and tasks: "world_rep s L []" "js \<noteq> []" "distinct (map fst js)" "set L = fst ` set js" "\<forall>j \<in> set js. job_rep start s j"
    and ends: "\<forall>(p, x, u) \<in> set js. \<exists>k. ends_in prog start cb Ok u x k" "\<forall>x. x \<notin> statuses js \<longrightarrow> Ok x (ints s x)"
    and init: "\<forall>m s. f_init mf m s = (0, s)"
  shows "\<exists>s'. pcaio mf pt sleep env 0 0 i n (map fst js) s = Some (Inr (0, s')) \<and> (\<forall>p. heap s' p = None) \<and>
    (\<forall>x. Ok x (ints s' x)) \<and> workers s' = 0 \<and> installed s' []"
proof (rule plain.pcaio_ends [OF env state order_refl tasks(1) _ tasks(3) _ init])
  show "map fst js \<noteq> []" "set (map fst js) \<subseteq> set L" using tasks(2,4) by auto
  fix s1 assume s1: "world_rep s1 L (map fst js)" "heap s1 = heap s" "ints s1 = ints s" "tls_key (tls_task s1)"
    "tls_context s1 = \<lparr>tls_key = True, tls_slot = (\<lambda>_. None)\<rparr>" "controls s1 = []"
  have reps: "\<forall>j \<in> set js. job_rep start (world.truncate s1) j" using tasks(5) s1(2) by auto
  then have "crew_rep start 0 (world.truncate s1) js"
    using s1(1,4) tasks(4) by (auto simp: crew_rep_def world_rep_def)
  from crew_starts [OF this ends(1)] ends(2) s1(3) obtain N where
    "sys_ok prog start cb Ok N (replicate 0 Looping, world.truncate s1)" by auto
  then show "\<exists>N. crew_ok prog start cb Ok N s1" using s1(5,6) by (auto simp: crew_ok_def crew_def)
qed

section \<open>A sample\<close>

text \<open>Whenever there is time, the first worker that can move takes one step.\<close>

definition nudge ::
  "('u \<Rightarrow> 'u uop) \<Rightarrow> (addr option \<Rightarrow> addr list \<Rightarrow> 'u)
   \<Rightarrow> ('u, unit) userland \<Rightarrow> ('u, unit) system \<Rightarrow> ('u, unit) system" where
  "nudge prog start cb s =
    (case s of (cs, w) \<Rightarrow>
      (case find (\<lambda>i. case thread_step prog start cb i (cs ! i) w of Some (Inr m) \<Rightarrow> True | _ \<Rightarrow> False)
          [0..<length cs] of
        None \<Rightarrow> s
      | Some i \<Rightarrow> (case thread_step prog start cb i (cs ! i) w of Some (Inr (c, w)) \<Rightarrow> (cs[i := c], w) | _ \<Rightarrow> s)))"

lemma nudge_step:
  "sys_step prog start cb s (nudge prog start cb s) \<or>
    nudge prog start cb s = s \<and> (\<nexists>s'. sys_step prog start cb s s')"
proof -
  obtain cs w where s: "s = (cs, w)" by (cases s)
  let ?can = "\<lambda>i. case thread_step prog start cb i (cs ! i) w of Some (Inr m) \<Rightarrow> True | _ \<Rightarrow> False"
  show ?thesis
  proof (cases "find ?can [0..<length cs]")
    case None
    then have "\<forall>i < length cs. \<not> ?can i" by (auto simp: find_None_iff)
    then have "\<nexists>s'. sys_step prog start cb s s'" unfolding s by (auto elim!: sys_step_cases)
    then show ?thesis using None by (simp add: nudge_def s)
  next
    case (Some i)
    then have i: "i < length cs" "?can i" by (auto simp: find_Some_iff)
    then obtain c w' where "thread_step prog start cb i (cs ! i) w = Some (Inr (c, w'))"
      by (auto split: option.splits sum.splits)
    from sys_step.move [OF i(1) this] Some this show ?thesis by (simp add: nudge_def s)
  qed
qed

definition nudged ::
  "('u \<Rightarrow> 'u uop) \<Rightarrow> (addr option \<Rightarrow> addr list \<Rightarrow> 'u)
   \<Rightarrow> ('u, unit) userland \<Rightarrow> 'u program \<Rightarrow> 'u program" where
  "nudged prog start cb s = (case nudge prog start cb (crew s) of (cs, w) \<Rightarrow> put_crew cs w s)"

lemma nudged_runs: "crew_runs prog start cb s (nudged prog start cb s)"
proof -
  obtain cs w where n: "nudge prog start cb (crew s) = (cs, w)" by (cases "nudge prog start cb (crew s)")
  then have "(sys_step prog start cb)\<^sup>*\<^sup>* (crew s) (cs, w)" using nudge_step [of prog start cb "crew s"] by auto
  then show ?thesis by (auto simp: crew_runs_def nudged_def n)
qed

lemma nudged_time: "crew_time prog start cb (\<lambda>t. nudged prog start cb)"
proof -
  have "crew_moves prog start cb s (nudged prog start cb s)" if "\<exists>s'. sys_step prog start cb (crew s) s'" for s
  proof -
    obtain cs w where n: "nudge prog start cb (crew s) = (cs, w)" by (cases "nudge prog start cb (crew s)")
    with that have "sys_step prog start cb (crew s) (cs, w)" using nudge_step [of prog start cb "crew s"] by auto
    then show ?thesis unfolding crew_moves_def nudged_def n by auto
  qed
  then show ?thesis using nudged_runs unfolding crew_time_def by blast
qed

definition nudged_threads ::
  "('u \<Rightarrow> 'u uop) \<Rightarrow> (addr option \<Rightarrow> addr list \<Rightarrow> 'u)
   \<Rightarrow> ('u, unit) userland \<Rightarrow> 'u program pthreads" where
  "nudged_threads prog start cb =
    \<lparr>pt_create = (\<lambda>s. (0, length (controls s) + 1, nudged prog start cb (spawn s))),
     pt_cancel = (\<lambda>h s. (0, s)), pt_join = (\<lambda>h s. (0, worker_cleanup s)), pt_kill = (\<lambda>h sig s. (0, s))\<rparr>"

lemma nudged_threads_laws: "crew_threads prog start cb (nudged_threads prog start cb)"
  by (simp add: crew_threads_def nudged_threads_def nudged_runs)

text \<open>The program before \<open>main\<close> calls \<open>pcaio\<close>.\<close>

definition program_static :: "'u frame world \<Rightarrow> 'u program" where
  "program_static w = master.extend (state_static w) \<lparr>controls = []\<rparr>"

lemma program_static_simps [simp]:
  "heap (program_static w) = heap w" "tasks (program_static w) = tasks w" "taskq (program_static w) = taskq w"
  "ints (program_static w) = ints w" "workers (program_static w) = 0" "controls (program_static w) = []"
  by (simp_all add: program_static_def state_static_def world.extend_def master.extend_def master.fields_def)

lemma program_static_installed: "installed (program_static w) []"
  by (simp add: installed_def program_static_def state_static_def world.extend_def master.extend_def
      master.fields_def MODULES_MAX_def)

definition quiet_mods :: "'s modfuns" where
  "quiet_mods = \<lparr>f_init = (\<lambda>m s. (0, s)), f_dtor = (\<lambda>m s. (0, s)), f_tick = (\<lambda>m t s. Inr (PMSIDLE, s))\<rparr>"

section \<open>Property\<close>

text \<open>Property C1. A program of tasks that compute, yield, create tasks and return ends: whatever the order
  in which its workers move, while the master starts the others and whenever it sleeps, \<open>pcaio\<close>
  returns 0; by then every task, those created on the way included, has run to its end and is
  freed, every status pointer holds the exit value of its task, nothing else is written, and the state is that of a program that has not
  called \<open>pcaio\<close> yet.\<close>

theorem pcaio_completes:
  assumes "crew_threads prog start cb pt" "crew_time prog start cb sleep" "env_fine env"
    and "workers s = 0" "installed s []" "controls s = []" "n \<noteq> 0" "unat n \<le> i"
    and "world_rep s L []" "js \<noteq> []" "distinct (map fst js)" "set L = fst ` set js" "\<forall>j \<in> set js. job_rep start s j"
    and "\<forall>(p, x, u) \<in> set js. \<exists>k. halts prog start cb (\<lambda>e. \<forall>a. x = Some a \<longrightarrow> e = R a) u k"
    and "\<forall>a. a \<notin> statuses js \<longrightarrow> ints s a = R a" "\<forall>m s. f_init mf m s = (0, s)"
  shows "\<exists>s'. pcaio mf pt sleep env 0 0 i n (map fst js) s = Some (Inr (0, s')) \<and> (\<forall>p. heap s' p = None) \<and>
    ints s' = R \<and> workers s' = 0 \<and> installed s' []"
proof -
  have ends: "\<forall>(p, x, u) \<in> set js. \<exists>k. ends_in prog start cb (\<lambda>a e. e = R a) u x k"
    using assms(14) by (simp add: ends_in_def)
  from program_ends [where Ok = "\<lambda>a e. e = R a", OF assms(1-13) ends assms(15,16)] show ?thesis
    by (auto simp: fun_eq_iff)
qed

theorem pcaio_completes_witness:
  "\<exists>s s'. pcaio quiet_mods (nudged_threads prog3 start2 spawner) (\<lambda>t. nudged prog3 start2 spawner) env1 0 0 9 2
      [64, 128] (s :: nat program) = Some (Inr (0, s')) \<and>
    heap s 64 \<noteq> None \<and> (\<forall>p. heap s' p = None) \<and> ints s' 32 = 5"
proof -
  from sample_created obtain w :: "nat frame world" where
    w: "world_rep w [64, 128] []" "job_rep start2 w (64, Some 32, 1)" "job_rep start2 w (128, None, 0)" by blast
  let ?js = "[(64 :: addr, Some (32 :: addr), 1 :: nat), (128, None, 0)]" and ?R = "(ints w)(32 := 5)"
  have fin: "\<forall>(p, x, u) \<in> set ?js. \<exists>k. halts prog3 start2 spawner (\<lambda>e. \<forall>a. x = Some a \<longrightarrow> e = ?R a) u k"
    using halts3(1) [of "\<lambda>_. True"] halts3(2) by auto
  have rep: "world_rep (program_static w) [64, 128] []" using w(1) by (simp add: world_rep_def)
  have jobs: "\<forall>j \<in> set ?js. job_rep start2 (program_static w) j" using w(2,3) by auto
  have pre: "env_fine env1" "workers (program_static w) = 0" "controls (program_static w) = []" "(2 :: c_ushort) \<noteq> 0"
    "unat (2 :: c_ushort) \<le> 9" "?js \<noteq> []" "distinct (map fst ?js)" "set [64, 128] = fst ` set ?js"
    "\<forall>a. a \<notin> statuses ?js \<longrightarrow> ints (program_static w) a = ?R a" "\<forall>m s. f_init quiet_mods m s = (0, s)"
    by (simp_all add: env_fine_def env1_def statuses_def quiet_mods_def)
  from pcaio_completes [where cb = spawner, OF nudged_threads_laws nudged_time pre(1,2) program_static_installed
      pre(3-5) rep pre(6-8) jobs fin pre(9,10)]
  obtain s' where "pcaio quiet_mods (nudged_threads prog3 start2 spawner) (\<lambda>t. nudged prog3 start2 spawner) env1
      0 0 9 2 (map fst ?js) (program_static w) = Some (Inr (0, s'))" "\<forall>p. heap s' p = None" "ints s' = ?R"
    by blast
  moreover have "heap (program_static w) 64 \<noteq> None" using w(2) by auto
  ultimately show ?thesis by (intro exI [of _ "program_static w"] exI [of _ s']) simp
qed

end
