(* ===== verification/Modio.thy ===== *)
theory Modio
  imports Master Simulation
begin

text \<open>
  Asynchronous input and output, \<open>pcaio/modio.c\<close>: the module that knows the default I/O
  monitor, and the wrappers that turn a non-blocking system call into one that suspends the
  task. A wrapper is seen from its task: \<open>relax\<close> and \<open>await\<close> are the whole calls, from
  the switch away to the return, with whatever the other threads do meanwhile; an \<open>await\<close>
  that never returns is \<open>None\<close>. The system call stores its error in \<open>errno\<close>.
\<close>

section \<open>Constants\<close>

definition IOIN :: c_int where "IOIN = 0x1"

definition IOOUT :: c_int where "IOOUT = 0x4"

definition IOERR :: c_int where "IOERR = 0x8"

definition EAGAIN :: int where "EAGAIN = 11"

definition EWOULDBLOCK :: int where "EWOULDBLOCK = 11"

definition EINPROGRESS :: int where "EINPROGRESS = 115"

definition EAI_AGAIN :: int where "EAI_AGAIN = -3"

definition RETRY :: "int \<Rightarrow> bool" where
  "RETRY e \<longleftrightarrow> e = EAGAIN \<or> e = EWOULDBLOCK \<or> e = EINPROGRESS"

text \<open>\<open>struct pcaio_ioevent\<close>, a local variable of the waiting task: its block lives at an
  address of that task's stack. The state of the program with these blocks.\<close>

record ioevent =
  e_fd :: int
  e_events :: c_int
  e_task :: addr

record 'k iostate = "'k master" +
  ioevents :: "addr \<Rightarrow> ioevent option"

definition event_at :: "addr \<Rightarrow> ('k, 'z) iostate_scheme \<Rightarrow> fault + ioevent" where
  "event_at a s = (case ioevents s a of None \<Rightarrow> Inl UseAfterFree | Some e \<Rightarrow> Inr e)"

definition event_put :: "addr \<Rightarrow> ioevent option \<Rightarrow> ('k, 'z) iostate_scheme \<Rightarrow> ('k, 'z) iostate_scheme" where
  "event_put a e s = s\<lparr>ioevents := (ioevents s)(a := e)\<rparr>"

lemma event_put_simps [simp]:
  "ioevents (event_put a e s) = (ioevents s)(a := e)" "heap (event_put a e s) = heap s"
  "tasks (event_put a e s) = tasks s" "taskq (event_put a e s) = taskq s"
  "tls_task (event_put a e s) = tls_task s" "tls_context (event_put a e s) = tls_context s"
  "iostate.more (event_put a e s) = iostate.more s"
  by (simp_all add: event_put_def)

lemma event_put_rep [simp]: "world_rep (event_put a e s) L Q \<longleftrightarrow> world_rep s L Q"
  by (rule world_rep_cong) simp_all

lemma event_at_simps [simp]:
  "ioevents s a = Some e \<Longrightarrow> event_at a s = Inr e" "ioevents s a = None \<Longrightarrow> event_at a s = Inl UseAfterFree"
  by (simp_all add: event_at_def)

section \<open>The module\<close>

text \<open>\<open>'s\<close> is the state, \<open>'s await\<close> the \<open>await\<close> field of \<open>struct
  pcaio_iomodule\<close>; the static \<open>_mod\<close> is the address of the installed module with its
  \<open>defaultmodule\<close>.\<close>

type_synonym 's await = "int \<Rightarrow> c_int \<Rightarrow> 's \<Rightarrow> (int \<times> 's) option"

record 's modio =
  io_self :: addr
  io_await :: "'s await"

definition modio_dtor :: "'s modio option \<Rightarrow> int \<times> 's modio option" where
  "modio_dtor md = (if md = None then (-1, None) else (0, None))"

definition pcaio_modio_await :: "'s modio option \<Rightarrow> 's await" where
  "pcaio_modio_await md fd events s =
    (case md of None \<Rightarrow> Some (-1, s) | Some m \<Rightarrow> io_await m fd events s)"

definition pcaio_modio_use ::
  "addr option \<Rightarrow> 's await option \<Rightarrow> 's modio option \<Rightarrow> ('k, 'z) master_scheme
   \<Rightarrow> fault + (int \<times> 's modio option \<times> ('k, 'z) master_scheme)" where
  "pcaio_modio_use mem defmod md s =
    (case defmod of
       None \<Rightarrow> Inr (-1, md, s)
     | Some aw \<Rightarrow>
        if md \<noteq> None then Inr (-1, md, s)
        else case mem of
          None \<Rightarrow> Inr (-1, None, s)
        | Some p \<Rightarrow>
           let s = module_put p \<lparr>m_flags = 0, m_init = False, m_dtor = True, m_tick = False\<rparr> s
           in and_then (pcaio_module_install p s) (\<lambda>(ret, s).
                if ret \<noteq> 0 then Inr (-1, None, s\<lparr>module_mem := (module_mem s)(p := None)\<rparr>)
                else Inr (0, Some \<lparr>io_self = p, io_await = aw\<rparr>, s)))"

section \<open>The wrappers\<close>

text \<open>The labelled loop all wrappers but two share: \<open>sys\<close> is the system call with its
  buffers.\<close>

partial_function (option) io_retry ::
  "(('k, 'z) world_scheme \<Rightarrow> int \<times> ('k, 'z) world_scheme) \<Rightarrow> ('k, 'z) world_scheme await
   \<Rightarrow> int \<Rightarrow> c_int \<Rightarrow> ('k, 'z) world_scheme \<Rightarrow> (int \<times> ('k, 'z) world_scheme) option" where
  "io_retry sys await fd events w =
    (case sys w of (ret, w) \<Rightarrow>
      if ret = -1 then
        (if \<not> RETRY (errno w) then Some (-1, w)
         else case await fd events w of
           None \<Rightarrow> None
         | Some (rc, w) \<Rightarrow>
            if rc \<noteq> 0 then Some (-1, w) else io_retry sys await fd events (w\<lparr>errno := 0\<rparr>))
      else Some (ret, w))"

definition readA ::
  "(int \<Rightarrow> ('k, 'z) world_scheme \<Rightarrow> int \<times> ('k, 'z) world_scheme) \<Rightarrow> ('k, 'z) world_scheme await
   \<Rightarrow> (c_int \<Rightarrow> ('k, 'z) world_scheme \<Rightarrow> int \<times> ('k, 'z) world_scheme)
   \<Rightarrow> int \<Rightarrow> ('k, 'z) world_scheme \<Rightarrow> (int \<times> ('k, 'z) world_scheme) option" where
  "readA sys await relax fd w = io_retry (sys fd) await fd IOIN (snd (relax 0 w))"

definition writeA ::
  "(int \<Rightarrow> ('k, 'z) world_scheme \<Rightarrow> int \<times> ('k, 'z) world_scheme) \<Rightarrow> ('k, 'z) world_scheme await
   \<Rightarrow> (c_int \<Rightarrow> ('k, 'z) world_scheme \<Rightarrow> int \<times> ('k, 'z) world_scheme)
   \<Rightarrow> int \<Rightarrow> ('k, 'z) world_scheme \<Rightarrow> (int \<times> ('k, 'z) world_scheme) option" where
  "writeA sys await relax fd w = io_retry (sys fd) await fd IOOUT (snd (relax 0 w))"

definition acceptA ::
  "(int \<Rightarrow> ('k, 'z) world_scheme \<Rightarrow> int \<times> ('k, 'z) world_scheme) \<Rightarrow> ('k, 'z) world_scheme await
   \<Rightarrow> (c_int \<Rightarrow> ('k, 'z) world_scheme \<Rightarrow> int \<times> ('k, 'z) world_scheme)
   \<Rightarrow> int \<Rightarrow> ('k, 'z) world_scheme \<Rightarrow> (int \<times> ('k, 'z) world_scheme) option" where
  "acceptA sys await relax sockfd w = io_retry (sys sockfd) await sockfd IOIN (snd (relax 0 w))"

definition accept4A ::
  "(int \<Rightarrow> c_int \<Rightarrow> ('k, 'z) world_scheme \<Rightarrow> int \<times> ('k, 'z) world_scheme) \<Rightarrow> ('k, 'z) world_scheme await
   \<Rightarrow> (c_int \<Rightarrow> ('k, 'z) world_scheme \<Rightarrow> int \<times> ('k, 'z) world_scheme)
   \<Rightarrow> int \<Rightarrow> c_int \<Rightarrow> ('k, 'z) world_scheme \<Rightarrow> (int \<times> ('k, 'z) world_scheme) option" where
  "accept4A sys await relax sockfd flags w =
    io_retry (sys sockfd flags) await sockfd IOIN (snd (relax 0 w))"

definition writevA ::
  "(int \<Rightarrow> int \<Rightarrow> ('k, 'z) world_scheme \<Rightarrow> int \<times> ('k, 'z) world_scheme) \<Rightarrow> ('k, 'z) world_scheme await
   \<Rightarrow> (c_int \<Rightarrow> ('k, 'z) world_scheme \<Rightarrow> int \<times> ('k, 'z) world_scheme)
   \<Rightarrow> int \<Rightarrow> int \<Rightarrow> ('k, 'z) world_scheme \<Rightarrow> (int \<times> ('k, 'z) world_scheme) option" where
  "writevA sys await relax fd iovcnt w =
    io_retry (sys fd iovcnt) await fd IOOUT (snd (relax 0 w))"

text \<open>\<open>connectA\<close> has a loop of its own: it tests the descriptor where the others test the
  result.\<close>

partial_function (option) connect_retry ::
  "(int \<Rightarrow> ('k, 'z) world_scheme \<Rightarrow> int \<times> ('k, 'z) world_scheme) \<Rightarrow> ('k, 'z) world_scheme await
   \<Rightarrow> int \<Rightarrow> ('k, 'z) world_scheme \<Rightarrow> (int \<times> ('k, 'z) world_scheme) option" where
  "connect_retry sys await fd w =
    (case sys fd w of (ret, w) \<Rightarrow>
      if fd = -1 then
        (if \<not> RETRY (errno w) then Some (-1, w)
         else case await fd IOOUT w of
           None \<Rightarrow> None
         | Some (rc, w) \<Rightarrow>
            if rc \<noteq> 0 then Some (-1, w) else connect_retry sys await fd (w\<lparr>errno := 0\<rparr>))
      else Some (ret, w))"

definition connectA ::
  "(int \<Rightarrow> ('k, 'z) world_scheme \<Rightarrow> int \<times> ('k, 'z) world_scheme) \<Rightarrow> ('k, 'z) world_scheme await
   \<Rightarrow> (c_int \<Rightarrow> ('k, 'z) world_scheme \<Rightarrow> int \<times> ('k, 'z) world_scheme)
   \<Rightarrow> int \<Rightarrow> ('k, 'z) world_scheme \<Rightarrow> (int \<times> ('k, 'z) world_scheme) option" where
  "connectA sys await relax fd w = connect_retry sys await fd (snd (relax 0 w))"

partial_function (option) getaddrinfoA ::
  "(('k, 'z) world_scheme \<Rightarrow> int \<times> ('k, 'z) world_scheme)
   \<Rightarrow> (c_int \<Rightarrow> ('k, 'z) world_scheme \<Rightarrow> int \<times> ('k, 'z) world_scheme)
   \<Rightarrow> ('k, 'z) world_scheme \<Rightarrow> (int \<times> ('k, 'z) world_scheme) option" where
  "getaddrinfoA sys relax w =
    (case sys w of (ret, w) \<Rightarrow>
      if ret \<noteq> 0 then
        (if ret = EAI_AGAIN then getaddrinfoA sys relax ((snd (relax 0 w))\<lparr>errno := 0\<rparr>)
         else Some (-1, w))
      else Some (0, w\<lparr>errno := 0\<rparr>))"

section \<open>Rounds of the retry loop\<close>

text \<open>A round that ends in another attempt, and the outcome of a round that ends the call.\<close>

definition io_again ::
  "(('k, 'z) world_scheme \<Rightarrow> int \<times> ('k, 'z) world_scheme) \<Rightarrow> ('k, 'z) world_scheme await
   \<Rightarrow> int \<Rightarrow> c_int \<Rightarrow> ('k, 'z) world_scheme \<Rightarrow> ('k, 'z) world_scheme option" where
  "io_again sys await fd events w =
    (case sys w of (ret, w1) \<Rightarrow>
      if ret = -1 \<and> RETRY (errno w1) then
        (case await fd events w1 of
           Some (rc, w2) \<Rightarrow> if rc = 0 then Some (w2\<lparr>errno := 0\<rparr>) else None
         | None \<Rightarrow> None)
      else None)"

definition io_outcome ::
  "(('k, 'z) world_scheme \<Rightarrow> int \<times> ('k, 'z) world_scheme) \<Rightarrow> ('k, 'z) world_scheme await
   \<Rightarrow> int \<Rightarrow> c_int \<Rightarrow> ('k, 'z) world_scheme \<Rightarrow> (int \<times> ('k, 'z) world_scheme) option" where
  "io_outcome sys await fd events w =
    (case sys w of (ret, w1) \<Rightarrow>
      if ret \<noteq> -1 \<or> \<not> RETRY (errno w1) then Some (ret, w1)
      else (case await fd events w1 of
              Some (rc, w2) \<Rightarrow> if rc \<noteq> 0 then Some (-1, w2) else None
            | None \<Rightarrow> None))"

lemma io_retry_again:
  "io_again sys await fd ev w = Some w1 \<Longrightarrow> io_retry sys await fd ev w = io_retry sys await fd ev w1"
  by (subst io_retry.simps) (auto simp: io_again_def split: prod.splits if_splits option.splits)

lemma io_retry_outcome:
  "io_outcome sys await fd ev w = Some r \<Longrightarrow> io_retry sys await fd ev w = Some r"
  by (subst io_retry.simps) (auto simp: io_outcome_def split: prod.splits if_splits option.splits)

lemma io_retry_if:
  "iterate (io_again sys await fd ev) n w = Some w1 \<Longrightarrow> io_outcome sys await fd ev w1 = Some r \<Longrightarrow>
    io_retry sys await fd ev w = Some r"
proof (induction n arbitrary: w)
  case 0
  then show ?case by (simp add: io_retry_outcome)
next
  case (Suc n)
  then obtain w2 where w2: "io_again sys await fd ev w = Some w2"
    "iterate (io_again sys await fd ev) n w2 = Some w1" by (auto split: option.splits)
  with Suc.IH [OF w2(2) Suc.prems(2)] show ?case by (simp add: io_retry_again)
qed

lemma io_retry_only_if:
  "io_retry sys await fd ev w = Some r \<Longrightarrow>
    \<exists>n w1. iterate (io_again sys await fd ev) n w = Some w1 \<and> io_outcome sys await fd ev w1 = Some r"
proof (drule io_retry.raw_induct
    [where P = "\<lambda>sys await fd ev w r.
      \<exists>n w1. iterate (io_again sys await fd ev) n w = Some w1 \<and> io_outcome sys await fd ev w1 = Some r", rotated])
  fix retry and sys :: "('k, 'z) world_scheme \<Rightarrow> int \<times> ('k, 'z) world_scheme" and await fd ev w r
  assume IH: "\<And>sys await fd ev w r. retry sys await fd ev w = Some r \<Longrightarrow>
      \<exists>n w1. iterate (io_again sys await fd ev) n w = Some w1 \<and> io_outcome sys await fd ev w1 = Some r"
    and eq: "(case sys w of (ret, w) \<Rightarrow>
      if ret = -1 then
        (if \<not> RETRY (errno w) then Some (-1, w)
         else case await fd ev w of
           None \<Rightarrow> None
         | Some (rc, w) \<Rightarrow>
            if rc \<noteq> 0 then Some (-1, w) else retry sys await fd ev (w\<lparr>errno := 0\<rparr>))
      else Some (ret, w)) = Some r"
  show "\<exists>n w1. iterate (io_again sys await fd ev) n w = Some w1 \<and> io_outcome sys await fd ev w1 = Some r"
  proof (cases "io_again sys await fd ev w")
    case None
    with eq have "io_outcome sys await fd ev w = Some r"
      by (auto simp: io_outcome_def io_again_def split: prod.splits if_splits option.splits)
    then show ?thesis by (intro exI [of _ 0]) simp
  next
    case (Some w1)
    with eq have "retry sys await fd ev w1 = Some r"
      by (auto simp: io_again_def split: prod.splits if_splits option.splits)
    from IH [OF this] obtain n w2 where
      "iterate (io_again sys await fd ev) n w1 = Some w2" "io_outcome sys await fd ev w2 = Some r" by blast
    with Some show ?thesis by (intro exI [of _ "Suc n"]) auto
  qed
qed auto

lemma io_retry_iff:
  "io_retry sys await fd ev w = Some r \<longleftrightarrow>
    (\<exists>n w1. iterate (io_again sys await fd ev) n w = Some w1 \<and> io_outcome sys await fd ev w1 = Some r)"
  using io_retry_if io_retry_only_if by metis

lemma connect_retry_once: "fd \<noteq> -1 \<Longrightarrow> connect_retry sys await fd w = Some (sys fd w)"
  by (subst connect_retry.simps) (simp split: prod.split)

section \<open>The module\<close>

text \<open>The default monitor is set once; a second call is refused.\<close>

lemma modio_use_twice: "md \<noteq> None \<Longrightarrow> pcaio_modio_use mem defmod md s = Inr (-1, md, s)"
  by (auto simp: pcaio_modio_use_def split: option.splits)

lemma modio_use_full:
  "unat (modulescount s) = MODULES_MAX \<Longrightarrow> module_mem s p = None \<Longrightarrow>
    pcaio_modio_use (Some p) (Some aw) None s = Inr (-1, None, s)"
  by (auto simp: pcaio_modio_use_def pcaio_module_install_def module_put_def fun_upd_idem)

section \<open>Properties\<close>

text \<open>Property C27. The wrappers \<open>readA\<close> and \<open>writeA\<close> first yield, then repeat the
  system call as long as it would block and waiting for the descriptor succeeds, and return
  exactly what ends this: the call's own result, its error if it is a real one, or -1 if waiting
  fails.\<close>

theorem io_wrappers_spec:
  "(readA sys aw relax fd w = Some r \<longleftrightarrow>
     (\<exists>n w1. iterate (io_again (sys fd) aw fd IOIN) n (snd (relax 0 w)) = Some w1 \<and>
       io_outcome (sys fd) aw fd IOIN w1 = Some r)) \<and>
   (writeA sys aw relax fd w = Some r \<longleftrightarrow>
     (\<exists>n w1. iterate (io_again (sys fd) aw fd IOOUT) n (snd (relax 0 w)) = Some w1 \<and>
       io_outcome (sys fd) aw fd IOOUT w1 = Some r))"
  unfolding readA_def writeA_def using io_retry_iff by blast

text \<open>\<open>connectA\<close> never waits: on every valid descriptor it returns the first
  answer of \<open>connect\<close>, even when that is -1 with \<open>EINPROGRESS\<close>.\<close>

theorem connectA_never_waits:
  assumes "fd \<noteq> -1"
  shows "connectA sys await relax fd w = Some (sys fd (snd (relax 0 w)))"
  unfolding connectA_def using connect_retry_once [OF assms] .

theorem connectA_never_waits_witness:
  "\<exists>w'. connectA (\<lambda>fd w. (-1, w\<lparr>errno := EINPROGRESS\<rparr>)) (\<lambda>fd ev w. Some (0, w)) (\<lambda>f w. (0, w))
      5 (world0 :: unit world) = Some (-1, w') \<and> RETRY (errno w')"
  using connectA_never_waits [of 5 "\<lambda>fd w. (-1, w\<lparr>errno := EINPROGRESS\<rparr>)"
    "\<lambda>fd ev w. Some (0, w)" "\<lambda>f w. (0, w)" "world0 :: unit world"]
  by (simp add: RETRY_def)

end
