(* ===== verification/RingT.thy ===== *)
theory RingT
  imports Fifo
begin

text \<open>
  The ring buffer of \<open>include/pcaio/ringT.h\<close> and \<open>ringT.c\<close>: two indices and a mask,
  all C \<open>int\<close>s, over an array of \<open>2^bits\<close> pointers. The indices are 32-bit words, so
  that the masked differences of the macros are computed as the code computes them. The array
  is \<open>None\<close> for a NULL \<open>backend\<close>; a cell is \<open>None\<close> until it is first written.
  \<open>malloc\<close> is an argument: the cells it returns for a number of pointers, or \<open>None\<close>.
\<close>

section \<open>State\<close>

record 'a ring =
  rhead :: c_int
  rtail :: c_int
  rmask :: c_int
  rheadx :: bool
  rtailx :: bool
  rbackend :: "'a option list option"

section \<open>The macros\<close>

definition RINGT_USED :: "'a ring \<Rightarrow> c_int" where
  "RINGT_USED r = (rtail r - rhead r) AND rmask r"

definition RINGT_AVAIL :: "'a ring \<Rightarrow> c_int" where
  "RINGT_AVAIL r = (rhead r - rtail r - 1) AND rmask r"

definition RINGT_ISEMPTY :: "'a ring \<Rightarrow> bool" where
  "RINGT_ISEMPTY r \<longleftrightarrow> RINGT_USED r = 0"

definition RINGT_ISFULL :: "'a ring \<Rightarrow> bool" where
  "RINGT_ISFULL r \<longleftrightarrow> RINGT_AVAIL r = 0"

section \<open>Operations\<close>

text \<open>\<open>1 << bits\<close> is a shift of a C \<open>int\<close>: for 31 and more its value is not an
  \<open>int\<close>.\<close>

definition ring_init ::
  "(nat \<Rightarrow> 'a option list option) \<Rightarrow> 'a ring option \<Rightarrow> c_uchar \<Rightarrow> fault + (int \<times> 'a ring option)" where
  "ring_init malloc rp bits =
    (case rp of
       None \<Rightarrow> Inr (-1, None)
     | Some r \<Rightarrow>
        if bits > 32 then Inr (-1, Some r)
        else if 31 \<le> bits then Inl ShiftOverflow
        else
          let size = (push_bit (unat bits) 1 :: c_int)
          in case malloc (unat size) of
               None \<Rightarrow> Inr (-1, Some r)
             | Some b \<Rightarrow> Inr (0, Some (r\<lparr>rbackend := Some b, rhead := 0, rtail := 0,
                 rmask := size - 1, rheadx := False, rtailx := False\<rparr>)))"

definition ring_deinit :: "'a ring option \<Rightarrow> int \<times> 'a ring option" where
  "ring_deinit rp =
    (case rp of None \<Rightarrow> (-1, None) | Some r \<Rightarrow> (0, Some (r\<lparr>rbackend := None\<rparr>)))"

text \<open>The part of \<open>ring_push\<close> under \<open>tailx\<close>, and of \<open>ring_pop\<close> under \<open>headx\<close>.\<close>

definition ring_store :: "'a \<Rightarrow> 'a ring \<Rightarrow> fault + (int \<times> 'a ring)" where
  "ring_store e r =
    (let r = r\<lparr>rtailx := True\<rparr>
     in case rbackend r of
          None \<Rightarrow> Inl NullDeref
        | Some b \<Rightarrow>
           if sint (rtail r) < 0 \<or> int (length b) \<le> sint (rtail r) then Inl OutOfBounds
           else
             let r = r\<lparr>rbackend := Some (b[unat (rtail r) := Some e])\<rparr>;
                 r = r\<lparr>rtail := rtail r + 1\<rparr>;
                 r = r\<lparr>rtail := rtail r AND rmask r\<rparr>
             in Inr (0, r\<lparr>rtailx := False\<rparr>))"

definition ring_load :: "'a ring \<Rightarrow> fault + (int \<times> 'a option \<times> 'a ring)" where
  "ring_load r =
    (let r = r\<lparr>rheadx := True\<rparr>
     in case rbackend r of
          None \<Rightarrow> Inl NullDeref
        | Some b \<Rightarrow>
           if sint (rhead r) < 0 \<or> int (length b) \<le> sint (rhead r) then Inl OutOfBounds
           else
             (case b ! unat (rhead r) of
                None \<Rightarrow> Inl Indeterminate
              | Some e \<Rightarrow>
                 let r = r\<lparr>rhead := rhead r + 1\<rparr>;
                     r = r\<lparr>rhead := rhead r AND rmask r\<rparr>
                 in Inr (0, Some e, r\<lparr>rheadx := False\<rparr>)))"

definition ring_push :: "'a \<Rightarrow> 'a ring \<Rightarrow> fault + (int \<times> 'a ring)" where
  "ring_push e r = (if RINGT_ISFULL r then Inr (-1, r) else ring_store e r)"

definition ring_pop :: "'a ring \<Rightarrow> fault + (int \<times> 'a option \<times> 'a ring)" where
  "ring_pop r = (if RINGT_ISEMPTY r then Inr (-1, None, r) else ring_load r)"

section \<open>Masked arithmetic\<close>

lemma uint_and_mask: "uint ((x :: c_int) AND (2 ^ k - 1)) = uint x mod 2 ^ k"
  unfolding mask_eq_decr_exp [symmetric] take_bit_eq_mask [symmetric] unsigned_take_bit_eq
  by (rule take_bit_eq_mod)

lemma exp_dvd_width: "k < 32 \<Longrightarrow> (2 :: int) ^ k dvd 2 ^ 32"
  by (rule le_imp_power_dvd) simp

lemma uint_sub_mod:
  "k < 32 \<Longrightarrow> uint ((a :: c_int) - b) mod 2 ^ k = (uint a - uint b) mod 2 ^ k"
  using mod_mod_cancel [OF exp_dvd_width] by (simp add: uint_word_ariths)

lemma uint_add_mod:
  "k < 32 \<Longrightarrow> uint ((a :: c_int) + b) mod 2 ^ k = (uint a + uint b) mod 2 ^ k"
  using mod_mod_cancel [OF exp_dvd_width] by (simp add: uint_word_ariths)

lemma masked_used:
  assumes "k < 32" "0 \<le> L" "L < 2 ^ k" "uint (t :: c_int) = (uint h + L) mod 2 ^ k"
  shows "uint ((t - h) AND (2 ^ k - 1)) = L"
proof -
  have "uint ((t - h) AND (2 ^ k - 1)) = ((uint h + L) mod 2 ^ k - uint h) mod 2 ^ k"
    using assms by (simp add: uint_and_mask uint_sub_mod)
  also have "\<dots> = (uint h + L - uint h) mod 2 ^ k" by (rule mod_diff_left_eq)
  finally show ?thesis using assms by simp
qed

lemma masked_avail:
  assumes "k < 32" "0 \<le> L" "L < 2 ^ k" "uint (t :: c_int) = (uint h + L) mod 2 ^ k"
  shows "uint ((h - t - 1) AND (2 ^ k - 1)) = 2 ^ k - 1 - L"
proof -
  have "uint ((h - t - 1) AND (2 ^ k - 1)) = (uint (h - t) - 1) mod 2 ^ k"
    using assms(1) by (simp add: uint_and_mask uint_sub_mod)
  also have "\<dots> = (uint (h - t) mod 2 ^ k - 1) mod 2 ^ k" by (rule mod_diff_left_eq [symmetric])
  also have "\<dots> = ((uint h - (uint h + L) mod 2 ^ k) mod 2 ^ k - 1) mod 2 ^ k"
    using assms by (simp add: uint_sub_mod)
  also have "\<dots> = (uint h - (uint h + L) - 1) mod 2 ^ k" by (simp only: mod_diff_right_eq mod_diff_left_eq)
  also have "\<dots> = (2 ^ k - 1 - L) mod 2 ^ k"
    using mod_add_self2 [of "- L - 1" "2 ^ k :: int"] by (simp add: algebra_simps)
  finally show ?thesis using assms by simp
qed

lemma masked_succ: "k < 32 \<Longrightarrow> uint (((h :: c_int) + 1) AND (2 ^ k - 1)) = (uint h + 1) mod 2 ^ k"
  by (simp add: uint_and_mask uint_add_mod)

section \<open>Representation\<close>

text \<open>The cell of the \<open>i\<close>-th element of a ring of \<open>2^k\<close> cells whose head is
  \<open>h\<close>.\<close>

definition ring_cell :: "nat \<Rightarrow> c_int \<Rightarrow> nat \<Rightarrow> nat" where
  "ring_cell k h i = nat ((uint h + int i) mod 2 ^ k)"

definition ring_rep_bits :: "nat \<Rightarrow> 'a ring \<Rightarrow> 'a list \<Rightarrow> bool" where
  "ring_rep_bits k r xs \<longleftrightarrow> k \<le> 30 \<and> rmask r = 2 ^ k - 1 \<and> length xs < 2 ^ k \<and>
     uint (rhead r) < 2 ^ k \<and> uint (rtail r) = (uint (rhead r) + int (length xs)) mod 2 ^ k \<and>
     \<not> rheadx r \<and> \<not> rtailx r \<and>
     (case rbackend r of
        None \<Rightarrow> False
      | Some b \<Rightarrow> length b = 2 ^ k \<and> (\<forall>i < length xs. b ! ring_cell k (rhead r) i = Some (xs ! i)))"

definition ring_rep :: "'a ring \<Rightarrow> 'a list \<Rightarrow> bool" where
  "ring_rep r xs \<longleftrightarrow> (\<exists>k \<le> 30. ring_rep_bits k r xs)"

lemma ring_repI: "ring_rep_bits k r xs \<Longrightarrow> ring_rep r xs"
  by (auto simp: ring_rep_def ring_rep_bits_def)

text \<open>One cell is always kept free.\<close>

definition ring_capacity :: "'a ring \<Rightarrow> nat" where
  "ring_capacity r = (case rbackend r of None \<Rightarrow> 0 | Some b \<Rightarrow> length b - 1)"

lemma ring_cell_bound: "ring_cell k h i < 2 ^ k"
  by (simp add: ring_cell_def nat_less_iff)

lemma nat_to_exp: "i < 2 ^ k \<Longrightarrow> int i < 2 ^ k"
  by (metis of_nat_less_iff of_nat_numeral of_nat_power)

lemma ring_cell_inj:
  assumes "ring_cell k h i = ring_cell k h j" "i < 2 ^ k" "j < 2 ^ k"
  shows "i = j"
proof -
  have "(uint h + int i) mod 2 ^ k = (uint h + int j) mod 2 ^ k"
    using assms(1) by (simp add: ring_cell_def eq_nat_nat_iff)
  then have "(2 :: int) ^ k dvd int i - int j" by (simp add: mod_eq_dvd_iff)
  moreover have "\<bar>int i - int j\<bar> < 2 ^ k"
    using assms(2,3) nat_to_exp [of i k] nat_to_exp [of j k] by linarith
  ultimately have "int i - int j = 0" using dvd_imp_le_int [of "int i - int j" "2 ^ k"] by force
  then show ?thesis by simp
qed

lemma ring_cell_succ:
  assumes "k < 32"
  shows "ring_cell k ((h + 1) AND (2 ^ k - 1)) i = ring_cell k h (Suc i)"
proof -
  have "(uint ((h + 1) AND (2 ^ k - 1)) + int i) mod 2 ^ k = (uint h + 1 + int i) mod 2 ^ k"
    by (simp only: masked_succ [OF assms] mod_add_left_eq)
  then show ?thesis by (simp add: ring_cell_def add.assoc)
qed

lemma small_signed:
  assumes "uint (x :: c_int) < 2 ^ k" "k \<le> 30"
  shows "sint x = uint x"
proof -
  have "(2 :: int) ^ k \<le> 2 ^ 30" using assms(2) by (intro power_increasing) simp_all
  with assms(1) have "uint x < 2 ^ 31" by simp
  moreover have "- (2 ^ 31) \<le> uint x" using uint_ge_0 [of x] by (rule order_trans [rotated]) simp
  ultimately have "signed_take_bit 31 (uint x) = uint x" by (intro signed_take_bit_int_eq_self)
  then show ?thesis by (simp add: sint_uint)
qed

text \<open>On a well-formed ring both indices are inside the array.\<close>

lemma ring_rep_index:
  assumes "uint (x :: c_int) < 2 ^ k" "k \<le> 30" "length b = 2 ^ k"
  shows "\<not> (sint x < 0 \<or> int (length b) \<le> sint x)"
  using assms by (simp add: small_signed)

lemma unat_ring_cell:
  "uint (t :: c_int) = (uint h + int i) mod 2 ^ k \<Longrightarrow> unat t = ring_cell k h i"
  by (simp add: ring_cell_def unat_eq_nat_uint)

lemma ring_rep_used:
  assumes "ring_rep_bits k r xs"
  shows "uint (RINGT_USED r) = int (length xs)"
    and "uint (RINGT_AVAIL r) = 2 ^ k - 1 - int (length xs)"
  using assms masked_used [of k "int (length xs)" "rtail r" "rhead r"]
    masked_avail [of k "int (length xs)" "rtail r" "rhead r"] nat_to_exp [of "length xs" k]
  by (simp_all add: ring_rep_bits_def RINGT_USED_def RINGT_AVAIL_def)

lemma ring_isempty:
  assumes "ring_rep_bits k r xs"
  shows "RINGT_ISEMPTY r \<longleftrightarrow> xs = []"
proof -
  have "RINGT_USED r = 0 \<longleftrightarrow> uint (RINGT_USED r) = 0" by (simp add: uint_0_iff)
  with ring_rep_used(1) [OF assms] show ?thesis by (simp add: RINGT_ISEMPTY_def)
qed

lemma ring_isfull:
  assumes "ring_rep_bits k r xs"
  shows "RINGT_ISFULL r \<longleftrightarrow> length xs = 2 ^ k - 1"
proof -
  have "RINGT_AVAIL r = 0 \<longleftrightarrow> uint (RINGT_AVAIL r) = 0" by (simp add: uint_0_iff)
  also have "\<dots> \<longleftrightarrow> int (length xs) = 2 ^ k - 1"
    unfolding ring_rep_used(2) [OF assms] by auto
  also have "\<dots> \<longleftrightarrow> int (length xs) = int (2 ^ k - 1)" by (simp add: of_nat_diff)
  also have "\<dots> \<longleftrightarrow> length xs = 2 ^ k - 1" by (rule of_nat_eq_iff)
  finally show ?thesis by (simp add: RINGT_ISFULL_def)
qed

lemma ring_store_rep:
  assumes rep: "ring_rep_bits k r xs" and room: "length xs + 1 < 2 ^ k"
  shows "\<exists>r'. ring_store e r = Inr (0, r') \<and> ring_rep_bits k r' (xs @ [e]) \<and>
           ring_capacity r' = ring_capacity r"
proof -
  obtain b where b: "rbackend r = Some b" "length b = 2 ^ k"
    "\<And>i. i < length xs \<Longrightarrow> b ! ring_cell k (rhead r) i = Some (xs ! i)"
    using rep by (auto simp: ring_rep_bits_def split: option.splits)
  have k: "k \<le> 30" "k < 32" and mask: "rmask r = 2 ^ k - 1"
    and t: "uint (rtail r) = (uint (rhead r) + int (length xs)) mod 2 ^ k"
    using rep by (auto simp: ring_rep_bits_def)
  have cell: "unat (rtail r) = ring_cell k (rhead r) (length xs)" using t by (rule unat_ring_cell)
  have inb: "\<not> (sint (rtail r) < 0 \<or> int (length b) \<le> sint (rtail r))"
    using t k b(2) by (intro ring_rep_index [of _ k]) simp_all
  have t': "uint ((rtail r + 1) AND rmask r) = (uint (rhead r) + int (length (xs @ [e]))) mod 2 ^ k"
    unfolding mask masked_succ [OF k(2)] t mod_add_left_eq by (simp add: algebra_simps)
  have cells: "\<forall>i < length (xs @ [e]).
      b[unat (rtail r) := Some e] ! ring_cell k (rhead r) i = Some ((xs @ [e]) ! i)"
  proof (intro allI impI)
    fix i assume i: "i < length (xs @ [e])"
    show "b[unat (rtail r) := Some e] ! ring_cell k (rhead r) i = Some ((xs @ [e]) ! i)"
    proof (cases "i = length xs")
      case True
      then show ?thesis using ring_cell_bound [of k "rhead r" i] b(2) by (simp add: cell)
    next
      case False
      then have "ring_cell k (rhead r) i \<noteq> unat (rtail r)"
        using ring_cell_inj [of k "rhead r" i "length xs"] i room cell by auto
      with i False b(3) show ?thesis by (simp add: nth_append)
    qed
  qed
  show ?thesis
    using b rep room k t' cells inb
    by (auto simp: ring_store_def Let_def ring_rep_bits_def ring_capacity_def)
qed

lemma ring_load_rep:
  assumes rep: "ring_rep_bits k r (x # xs)"
  shows "\<exists>r'. ring_load r = Inr (0, Some x, r') \<and> ring_rep_bits k r' xs \<and>
           ring_capacity r' = ring_capacity r"
proof -
  obtain b where b: "rbackend r = Some b" "length b = 2 ^ k"
    "\<And>i. i < length (x # xs) \<Longrightarrow> b ! ring_cell k (rhead r) i = Some ((x # xs) ! i)"
    using rep by (auto simp: ring_rep_bits_def split: option.splits)
  have k: "k \<le> 30" "k < 32" and mask: "rmask r = 2 ^ k - 1" and h: "uint (rhead r) < 2 ^ k"
    using rep by (auto simp: ring_rep_bits_def)
  have "unat (rhead r) = ring_cell k (rhead r) 0"
    using h by (intro unat_ring_cell) simp
  with b(3) [of 0] have first: "b ! unat (rhead r) = Some x" by simp
  have inb: "\<not> (sint (rhead r) < 0 \<or> int (length b) \<le> sint (rhead r))"
    using h k b(2) by (intro ring_rep_index [of _ k])
  have h': "uint ((rhead r + 1) AND rmask r) = (uint (rhead r) + 1) mod 2 ^ k"
    using masked_succ [OF k(2)] by (simp add: mask)
  have t': "uint (rtail r) = (uint ((rhead r + 1) AND rmask r) + int (length xs)) mod 2 ^ k"
    using rep unfolding h' mod_add_left_eq by (simp add: ring_rep_bits_def algebra_simps)
  have cells: "\<forall>i < length xs. b ! ring_cell k ((rhead r + 1) AND rmask r) i = Some (xs ! i)"
    using b(3) ring_cell_succ [OF k(2), of "rhead r"] by (fastforce simp: mask)
  show ?thesis
    using b rep k t' h' cells inb first
    by (auto simp: ring_load_def Let_def ring_rep_bits_def ring_capacity_def)
qed

section \<open>Push and pop\<close>

lemma ring_rep_bits_capacity:
  "ring_rep_bits k r xs \<Longrightarrow> ring_capacity r = 2 ^ k - 1"
  by (auto simp: ring_rep_bits_def ring_capacity_def split: option.splits)

lemma ring_rep_bits_length: "ring_rep_bits k r xs \<Longrightarrow> length xs < 2 ^ k"
  by (simp add: ring_rep_bits_def)

lemma ring_rep_bits_bound: "ring_rep_bits k r xs \<Longrightarrow> k \<le> 30"
  by (simp add: ring_rep_bits_def)

lemma ring_push_room:
  assumes "ring_rep r xs" "length xs < ring_capacity r"
  shows "\<exists>r'. ring_push e r = Inr (0, r') \<and> ring_rep r' (xs @ [e]) \<and> ring_capacity r' = ring_capacity r"
proof -
  from assms(1) obtain k where rep: "ring_rep_bits k r xs" by (auto simp: ring_rep_def)
  with assms(2) have room: "length xs + 1 < 2 ^ k" "\<not> RINGT_ISFULL r"
    using ring_rep_bits_capacity [OF rep] ring_isfull [OF rep] by auto
  with ring_store_rep [OF rep room(1), of e] ring_rep_bits_bound [OF rep] show ?thesis
    by (auto simp: ring_push_def ring_rep_def)
qed

lemma ring_push_full:
  assumes "ring_rep r xs" "\<not> length xs < ring_capacity r"
  shows "ring_push e r = Inr (-1, r)"
proof -
  from assms(1) obtain k where rep: "ring_rep_bits k r xs" by (auto simp: ring_rep_def)
  with assms(2) have "RINGT_ISFULL r"
    using ring_rep_bits_capacity [OF rep] ring_isfull [OF rep] ring_rep_bits_length [OF rep] by auto
  then show ?thesis by (simp add: ring_push_def)
qed

lemma ring_pop_Cons:
  assumes "ring_rep r (x # xs)"
  shows "\<exists>r'. ring_pop r = Inr (0, Some x, r') \<and> ring_rep r' xs \<and> ring_capacity r' = ring_capacity r"
proof -
  from assms obtain k where rep: "ring_rep_bits k r (x # xs)" by (auto simp: ring_rep_def)
  with ring_load_rep [OF rep] ring_isempty [OF rep] ring_rep_bits_bound [OF rep] show ?thesis
    by (auto simp: ring_pop_def ring_rep_def)
qed

lemma ring_pop_Nil: "ring_rep r [] \<Longrightarrow> ring_pop r = Inr (-1, None, r)"
  using ring_isempty [of _ r "[]"] by (auto simp: ring_rep_def ring_pop_def)

lemma ring_rep_unique:
  assumes "ring_rep r xs" "ring_rep r ys"
  shows "xs = ys"
proof -
  from assms obtain k k' where rep: "ring_rep_bits k r xs" "ring_rep_bits k' r ys"
    by (auto simp: ring_rep_def)
  then have "2 ^ k = (2 ^ k' :: nat)" by (auto simp: ring_rep_bits_def split: option.splits)
  then have "k' = k" by simp
  with rep have "length xs = length ys"
    using ring_rep_used(1) [OF rep(1)] ring_rep_used(1) [OF rep(2)] by simp
  moreover have "xs ! i = ys ! i" if "i < length xs" for i
  proof -
    obtain b where "rbackend r = Some b" using rep(1) by (auto simp: ring_rep_bits_def split: option.splits)
    with rep that \<open>k' = k\<close> \<open>length xs = length ys\<close>
    have "Some (xs ! i) = b ! ring_cell k (rhead r) i" "Some (ys ! i) = b ! ring_cell k (rhead r) i"
      by (simp_all add: ring_rep_bits_def)
    then show ?thesis by (metis option.inject)
  qed
  ultimately show ?thesis by (rule nth_equalityI)
qed

interpretation ring: bounded_fifo ring_rep "\<lambda>e r. returns (ring_push e r)"
  "\<lambda>r. returns (ring_pop r)" ring_capacity
proof (unfold_locales, goal_cases)
  case (1 s xs ys)
  then show ?case by (rule ring_rep_unique)
next
  case (2 s xs v)
  then show ?case using ring_push_room [of s xs v] ring_push_full [of s xs v] by fastforce
next
  case (3 s)
  then show ?case by (simp add: ring_pop_Nil)
next
  case (4 s x xs)
  then show ?case using ring_pop_Cons [of s x xs] by auto
next
  case (5 s xs v)
  then show ?case using ring_push_room [of s xs v] by auto
next
  case (6 s xs v)
  then show ?case using ring_push_full [of s xs v] by simp
qed

section \<open>Creation\<close>

lemma unat_shift:
  assumes "n < 32"
  shows "unat (push_bit n 1 :: c_int) = 2 ^ n"
proof -
  have "(2 :: nat) ^ n < 2 ^ 32" using assms by (intro power_strict_increasing) simp_all
  then have "unat (of_nat (2 ^ n) :: c_int) = 2 ^ n"
    by (simp only: unat_of_nat take_bit_eq_mod len_of_numeral_defs) simp
  then show ?thesis by simp
qed

text \<open>\<open>calloc\<close>- and \<open>malloc\<close>-like functions return as many cells as they are
  asked for.\<close>

definition sized_malloc :: "(nat \<Rightarrow> 'a option list option) \<Rightarrow> bool" where
  "sized_malloc malloc \<longleftrightarrow> (\<forall>n b. malloc n = Some b \<longrightarrow> length b = n)"

lemma ring_init_small:
  assumes "sized_malloc malloc" "bits \<le> 30"
  shows "case malloc (2 ^ unat bits) of
      None \<Rightarrow> ring_init malloc (Some r) bits = Inr (-1, Some r)
    | Some b \<Rightarrow> \<exists>r'. ring_init malloc (Some r) bits = Inr (0, Some r') \<and>
        ring_rep r' [] \<and> ring_capacity r' = 2 ^ unat bits - 1"
proof -
  have bits: "unat bits \<le> 30" using assms(2) by (simp add: word_le_nat_alt)
  then have size: "unat (push_bit (unat bits) 1 :: c_int) = 2 ^ unat bits" by (simp only: unat_shift)
  have guards: "\<not> bits > 32" "\<not> 31 \<le> bits" using bits by (simp_all add: word_less_nat_alt word_le_nat_alt)
  show ?thesis
  proof (cases "malloc (2 ^ unat bits)")
    case None
    with guards size show ?thesis by (simp add: ring_init_def Let_def del: push_bit_of_1)
  next
    case (Some b)
    then have "length b = 2 ^ unat bits" using assms(1) by (simp add: sized_malloc_def)
    with Some guards size bits show ?thesis
      by (auto simp: ring_init_def Let_def ring_rep_def ring_rep_bits_def ring_capacity_def
          intro!: exI [of _ "unat bits"])
  qed
qed

section \<open>Two producers\<close>

text \<open>\<open>ring_push\<close> tests for a full ring before it takes the mutex. On a ring that is full
  the part under the mutex wraps the tail onto the head.\<close>

lemma ring_store_full:
  assumes rep: "ring_rep_bits k r xs" and full: "length xs + 1 = 2 ^ k"
  shows "\<exists>r'. ring_store e r = Inr (0, r') \<and> RINGT_ISEMPTY r'"
proof -
  obtain b where b: "rbackend r = Some b" "length b = 2 ^ k"
    using rep by (auto simp: ring_rep_bits_def split: option.splits)
  have k: "k \<le> 30" "k < 32" and mask: "rmask r = 2 ^ k - 1" and h: "uint (rhead r) < 2 ^ k"
    and t: "uint (rtail r) = (uint (rhead r) + int (length xs)) mod 2 ^ k"
    using rep by (auto simp: ring_rep_bits_def)
  have inb: "\<not> (sint (rtail r) < 0 \<or> int (length b) \<le> sint (rtail r))"
    using t k b(2) by (intro ring_rep_index [of _ k]) simp_all
  have "int (length xs) + 1 = 2 ^ k" using full by (metis of_nat_1 of_nat_add of_nat_numeral of_nat_power)
  then have "uint ((rtail r + 1) AND rmask r) = uint (rhead r)"
    unfolding mask masked_succ [OF k(2)] t mod_add_left_eq using h by (simp add: add.assoc)
  then have "(rtail r + 1) AND rmask r = rhead r" by (rule word_uint_eqI)
  with b inb show ?thesis
    by (auto simp: ring_store_def Let_def RINGT_ISEMPTY_def RINGT_USED_def)
qed

section \<open>Properties\<close>

text \<open>Property C23. A ring of \<open>2^k\<close> cells is a FIFO queue of capacity \<open>2^k - 1\<close>: a push
  succeeds exactly while fewer elements are inside and then appends, a pop returns the first
  element, and an empty or a full ring is reported with no change; on a well-formed ring no
  array access is out of bounds and no unwritten cell is read.\<close>

theorem ring_refines_queue:
  assumes "ring_rep r xs"
  shows "(if length xs < ring_capacity r
      then \<exists>r'. ring_push e r = Inr (0, r') \<and> ring_rep r' (xs @ [e]) \<and> ring_capacity r' = ring_capacity r
      else ring_push e r = Inr (-1, r)) \<and>
    (case xs of
       [] \<Rightarrow> ring_pop r = Inr (-1, None, r)
     | x # rest \<Rightarrow> \<exists>r'. ring_pop r = Inr (0, Some x, r') \<and> ring_rep r' rest \<and>
         ring_capacity r' = ring_capacity r)"
  using assms ring_push_room [of r xs e] ring_push_full [of r xs e] ring_pop_Nil [of r]
    ring_pop_Cons [of r "hd xs" "tl xs"]
  by (auto split: list.splits)

theorem ring_refines_queue_witness:
  "\<exists>r'. ring_pop \<lparr>rhead = 3, rtail = 1, rmask = 3, rheadx = False, rtailx = False,
      rbackend = Some [Some 8, None, None, Some 7]\<rparr> = Inr (0, Some 7, r') \<and> ring_rep r' [8 :: int]"
proof -
  let ?r = "\<lparr>rhead = 3, rtail = 1, rmask = 3, rheadx = False, rtailx = False,
      rbackend = Some [Some 8, None, None, Some 7]\<rparr> :: int ring"
  have "ring_rep_bits 2 ?r [7, 8]"
    by (simp add: ring_rep_bits_def ring_cell_def less_Suc_eq all_conj_distrib)
  then have rep: "ring_rep ?r [7, 8]" by (rule ring_repI)
  show ?thesis using ring_refines_queue [OF rep] by auto
qed

text \<open>Any sequence of pushes and pops on a ring returns, keeps the order, and
  loses or duplicates no accepted element.\<close>

theorem ring_fifo_order:
  assumes "ring_rep r xs"
  shows "\<exists>outs ins r' ys.
    fifo_run (\<lambda>e r. returns (ring_push e r)) (\<lambda>r. returns (ring_pop r)) ops r = Some (outs, ins, r') \<and>
    ring_rep r' ys \<and> xs @ ins = outs @ ys"
  using assms by (rule ring.run_order)

theorem ring_fifo_order_witness:
  "\<exists>outs ins r' ys.
    fifo_run (\<lambda>e r. returns (ring_push e r)) (\<lambda>r. returns (ring_pop r)) [Push 1, Pop, Push 2, Push 3]
      \<lparr>rhead = 0, rtail = 0, rmask = 1, rheadx = False, rtailx = False,
       rbackend = Some [None, None]\<rparr> = Some (outs, ins, r') \<and>
    ring_rep r' ys \<and> [] @ ins = outs @ (ys :: int list)"
proof (rule ring_fifo_order)
  have "ring_rep_bits 1 \<lparr>rhead = 0, rtail = 0, rmask = 1, rheadx = False, rtailx = False,
      rbackend = Some [None, None]\<rparr> ([] :: int list)"
    by (simp add: ring_rep_bits_def)
  then show "ring_rep \<lparr>rhead = 0, rtail = 0, rmask = 1, rheadx = False, rtailx = False,
      rbackend = Some [None, None]\<rparr> ([] :: int list)"
    by (rule ring_repI)
qed

text \<open>Property C34. \<open>ring_init\<close> with at most 30 bits gives an empty ring of capacity
  \<open>2^bits - 1\<close>, or \<open>-1\<close> with the ring untouched when \<open>malloc\<close> fails; its guard
  still lets 31 and 32 bits through, where \<open>1 << bits\<close> is not an \<open>int\<close>; more bits and
  a NULL ring are refused.\<close>

theorem ring_init_spec:
  assumes "sized_malloc malloc"
  shows "ring_init malloc None bits = Inr (-1, None) \<and>
    (if bits > 32 then ring_init malloc (Some r) bits = Inr (-1, Some r)
     else if bits \<ge> 31 then ring_init malloc (Some r) bits = Inl ShiftOverflow
     else case malloc (2 ^ unat bits) of
       None \<Rightarrow> ring_init malloc (Some r) bits = Inr (-1, Some r)
     | Some b \<Rightarrow> \<exists>r'. ring_init malloc (Some r) bits = Inr (0, Some r') \<and>
         ring_rep r' [] \<and> ring_capacity r' = 2 ^ unat bits - 1)"
proof -
  have "\<not> 31 \<le> bits \<Longrightarrow> bits \<le> 30" by (simp add: word_le_nat_alt)
  with ring_init_small [OF assms, of bits r] show ?thesis by (simp add: ring_init_def)
qed

theorem ring_init_spec_witness:
  "\<exists>r'. ring_init (\<lambda>n. Some (replicate n None)) (Some \<lparr>rhead = 9, rtail = 9, rmask = 9,
      rheadx = False, rtailx = False, rbackend = None\<rparr>) 2 = Inr (0, Some r') \<and>
    ring_rep r' ([] :: int list) \<and> ring_capacity r' = 3"
  using ring_init_spec [of "\<lambda>n. Some (replicate n None)" 2 "\<lparr>rhead = 9, rtail = 9, rmask = 9,
      rheadx = False, rtailx = False, rbackend = None\<rparr> :: int ring"]
  by (simp add: sized_malloc_def)

text \<open>Two producers race for the last free cell: both pass the test for a full
  ring before either takes the mutex, both are told that their push succeeded, and the ring then
  looks empty, so that everything it held is lost.\<close>

theorem ring_push_race:
  assumes "ring_rep r xs" "length xs + 1 = ring_capacity r"
  shows "\<not> RINGT_ISFULL r \<and>
    (\<exists>r1 r2. ring_store e1 r = Inr (0, r1) \<and> ring_store e2 r1 = Inr (0, r2) \<and>
       ring_pop r2 = Inr (-1, None, r2))"
proof -
  from assms(1) obtain k where rep: "ring_rep_bits k r xs" by (auto simp: ring_rep_def)
  have len: "length xs + 2 = 2 ^ k"
    using assms(2) ring_rep_bits_capacity [OF rep] ring_rep_bits_length [OF rep] by simp
  then obtain r1 where r1: "ring_store e1 r = Inr (0, r1)" "ring_rep_bits k r1 (xs @ [e1])"
    using ring_store_rep [OF rep, of e1] by auto
  from ring_store_full [OF r1(2), of e2] len obtain r2 where
    "ring_store e2 r1 = Inr (0, r2)" "RINGT_ISEMPTY r2" by auto
  with r1(1) ring_isfull [OF rep] len show ?thesis by (auto simp: ring_pop_def)
qed

theorem ring_push_race_witness:
  "\<exists>r1 r2. ring_store 5 \<lparr>rhead = 0, rtail = 2, rmask = 3, rheadx = False, rtailx = False,
      rbackend = Some [Some 8, Some 9, None, None]\<rparr> = Inr (0, r1) \<and>
    ring_store 6 r1 = Inr (0, r2) \<and> ring_pop r2 = Inr (-1, None, r2 :: int ring)"
proof -
  let ?r = "\<lparr>rhead = 0, rtail = 2, rmask = 3, rheadx = False, rtailx = False,
      rbackend = Some [Some 8, Some 9, None, None]\<rparr> :: int ring"
  have "ring_rep_bits 2 ?r [8, 9]"
    by (simp add: ring_rep_bits_def ring_cell_def less_Suc_eq all_conj_distrib)
  then have rep: "ring_rep ?r [8, 9]" by (rule ring_repI)
  show ?thesis using ring_push_race [OF rep, of 5 6] by (simp add: ring_capacity_def)
qed

end
