(* ===== verification/Modselect.thy ===== *)
theory Modselect
  imports Modio RingT "HOL-Library.Log_Nat"
begin

text \<open>
  The I/O monitor on \<open>select(2)\<close>, \<open>pcaio/modselect.c\<close>: the waiting events are pointers in
  a ring; the master's tick takes up to \<open>maxfileno\<close> of them out, asks \<open>select\<close>, puts
  the idle ones back and schedules the tasks of the others. An \<open>fd_set\<close> is the set of its
  descriptors; setting one outside \<open>FD_SETSIZE\<close> writes out of bounds. \<open>select\<close> is an
  argument: it returns the number of ready descriptors and the three sets, and may change the
  state, since the workers run meanwhile. \<open>swap\<close> is the filled part of the array of that name,
  which has \<open>maxfileno\<close> cells and is filled up to that number at most.
\<close>

section \<open>State\<close>

definition FD_SETSIZE :: int where "FD_SETSIZE = 1024"

record modselect =
  s_self :: addr
  s_maxfileno :: c_ushort
  s_events :: "addr ring"

record 'k selstate = "'k iostate" +
  sel_mod :: "modselect option"

type_synonym fd_sets = "int set \<times> int set \<times> int set"

definition sel_put :: "addr ring \<Rightarrow> ('k, 'z) selstate_scheme \<Rightarrow> ('k, 'z) selstate_scheme" where
  "sel_put r s = s\<lparr>sel_mod := map_option (s_events_update (\<lambda>_. r)) (sel_mod s)\<rparr>"

definition fd_set :: "bool \<Rightarrow> int \<Rightarrow> int set \<Rightarrow> fault + int set" where
  "fd_set on fd F =
    (if \<not> on then Inr F
     else if fd < 0 \<or> FD_SETSIZE \<le> fd then Inl OutOfBounds
     else Inr (insert fd F))"

section \<open>The tick\<close>

text \<open>The first loop, with \<open>n\<close> free places in \<open>swap\<close>; the flag is false when an empty
  event is met.\<close>

fun sel_collect ::
  "nat \<Rightarrow> (addr \<Rightarrow> ioevent option) \<Rightarrow> addr ring \<Rightarrow> fd_sets \<Rightarrow> addr list
   \<Rightarrow> fault + (bool \<times> addr ring \<times> fd_sets \<times> addr list)" where
  "sel_collect 0 evs r F swap = Inr (True, r, F, swap)"
| "sel_collect (Suc n) evs r F swap =
    and_then (ring_pop r) (\<lambda>(rc, e, r).
      if rc \<noteq> 0 then Inr (True, r, F, swap)
      else case e of
        None \<Rightarrow> Inl NullDeref
      | Some e \<Rightarrow>
         (case evs e of
            None \<Rightarrow> Inl UseAfterFree
          | Some v \<Rightarrow>
             if e_events v = 0 then Inr (False, r, F, swap)
             else (case F of (rfds, wfds, efds) \<Rightarrow>
               and_then (fd_set (e_events v AND IOIN \<noteq> 0) (e_fd v) rfds) (\<lambda>rfds.
               and_then (fd_set (e_events v AND IOOUT \<noteq> 0) (e_fd v) wfds) (\<lambda>wfds.
               and_then (fd_set True (e_fd v) efds) (\<lambda>efds.
                 sel_collect n evs r (rfds, wfds, efds) (swap @ [e])))))))"

definition sel_ready :: "int \<Rightarrow> fd_sets \<Rightarrow> int \<Rightarrow> c_int" where
  "sel_ready nfds F fd =
    (case F of (rfds, wfds, efds) \<Rightarrow>
      (if fd \<in> rfds then IOIN else 0) OR (if fd \<in> wfds then IOOUT else 0) OR
      (if nfds = -1 \<or> fd \<in> efds then IOERR else 0))"

text \<open>The second loop; the flag is false when the ring refuses an event.\<close>

fun sel_dispatch ::
  "int \<Rightarrow> fd_sets \<Rightarrow> addr list \<Rightarrow> ('k, 'z) selstate_scheme \<Rightarrow> fault + (bool \<times> ('k, 'z) selstate_scheme)" where
  "sel_dispatch nfds F [] s = Inr (True, s)"
| "sel_dispatch nfds F (e # es) s =
    and_then (event_at e s) (\<lambda>v.
      let ready = sel_ready nfds F (e_fd v)
      in if ready = 0 then
           (case sel_mod s of
              None \<Rightarrow> Inl NullDeref
            | Some m \<Rightarrow>
               and_then (ring_push e (s_events m)) (\<lambda>(rc, r).
                 if rc \<noteq> 0 then Inr (False, sel_put r s) else sel_dispatch nfds F es (sel_put r s)))
         else
           let s = event_put e (Some (v\<lparr>e_events := ready\<rparr>)) s;
               s = snd (pcaio_schedule (Some (e_task v)) s)
           in sel_dispatch nfds F es s)"

definition modselect_tick ::
  "(nat \<Rightarrow> fd_sets \<Rightarrow> nat \<times> nat \<Rightarrow> ('k, 'z) selstate_scheme \<Rightarrow> int \<times> fd_sets \<times> ('k, 'z) selstate_scheme)
   \<Rightarrow> c_uint \<Rightarrow> ('k, 'z) selstate_scheme \<Rightarrow> fault + (tickstatus \<times> ('k, 'z) selstate_scheme)" where
  "modselect_tick select timeout_us s =
    (case sel_mod s of
       None \<Rightarrow> Inl NullDeref
     | Some m \<Rightarrow>
        if RINGT_ISEMPTY (s_events m) then Inr (PMSIDLE, s)
        else
          let tv = (unat timeout_us div 1000000, unat timeout_us mod 1000000)
          in and_then (sel_collect (unat (s_maxfileno m)) (ioevents s) (s_events m) ({}, {}, {}) [])
            (\<lambda>(ok, r, F, swap).
              let s = sel_put r s
              in if \<not> ok then Inr (PMSPANIC, s)
                 else if swap = [] then Inr (PMSAGAIN, s)
                 else case select (unat (s_maxfileno m)) F tv s of (nfds, F, s) \<Rightarrow>
                   let F = (if nfds = -1 then (case F of (rfds, wfds, efds) \<Rightarrow> ({}, {}, efds)) else F);
                       ret = (if nfds = -1 then PMSPANIC else PMSAGAIN)
                   in and_then (sel_dispatch nfds F swap s) (\<lambda>(ok, s).
                        if \<not> ok then Inr (PMSPANIC, s) else Inr (ret, s))))"

section \<open>Waiting\<close>

text \<open>\<open>a\<close> is the address of the caller's event, which is entered first; the second half of
  the monitor runs when the task is resumed.\<close>

definition sel_register ::
  "tid \<Rightarrow> addr \<Rightarrow> int \<Rightarrow> c_int \<Rightarrow> ('k, 'z) selstate_scheme \<Rightarrow> fault + (int \<times> ('k, 'z) selstate_scheme)" where
  "sel_register i a fd events s =
    (case sel_mod s of
       None \<Rightarrow> Inl NullDeref
     | Some m \<Rightarrow>
        if fd < 0 \<or> uint (s_maxfileno m) < fd \<or> events = 0 then Inr (-1, s)
        else case pcaio_self i s of
          None \<Rightarrow> Inr (-1, s)
        | Some t \<Rightarrow>
           let s = event_put a (Some \<lparr>e_fd = fd, e_events = events, e_task = t\<rparr>) s
           in and_then (ring_push a (s_events m)) (\<lambda>(rc, r).
                if rc \<noteq> 0 then Inr (-1, event_put a None (sel_put r s)) else Inr (0, sel_put r s)))"

definition pcaio_modselect_monitorA ::
  "tid \<Rightarrow> addr \<Rightarrow> int \<Rightarrow> 'k \<Rightarrow> int \<Rightarrow> c_int \<Rightarrow> ('k, 'z) selstate_scheme
   \<Rightarrow> fault + (relax \<times> ('k, 'z) selstate_scheme)" where
  "pcaio_modselect_monitorA i a swap_rc k fd events s =
    and_then (sel_register i a fd events s) (\<lambda>(rc, s).
      if rc \<noteq> 0 then Inr (Returned (-1), s)
      else and_then (pcaio_relaxA i swap_rc k TASK_NOSCHEDULE s) (\<lambda>(x, s).
        case x of
          Switched c \<Rightarrow> Inr (Switched c, s)
        | Returned e \<Rightarrow> Inr (Returned (if e \<noteq> 0 then -1 else 0), event_put a None s)))"

definition sel_report ::
  "addr \<Rightarrow> ('k, 'z) selstate_scheme \<Rightarrow> fault + (c_int \<times> ('k, 'z) selstate_scheme)" where
  "sel_report a s =
    and_then (event_at a s) (\<lambda>v. Inr (if e_events v AND IOERR \<noteq> 0 then -1 else 0, event_put a None s))"

definition pcaio_modselect_resumed ::
  "addr \<Rightarrow> ('k, 'z) selstate_scheme \<Rightarrow> fault + (c_int \<times> ('k, 'z) selstate_scheme)" where
  "pcaio_modselect_resumed a s =
    (case pcaio_relaxA_resumed s of (rc, s) \<Rightarrow>
      if rc \<noteq> 0 then Inr (-1, event_put a None s) else sel_report a s)"

section \<open>Installation\<close>

definition modselect_dtor :: "('k, 'z) selstate_scheme \<Rightarrow> int \<times> ('k, 'z) selstate_scheme" where
  "modselect_dtor s =
    (case sel_mod s of
       None \<Rightarrow> (-1, s)
     | Some m \<Rightarrow> (0, s\<lparr>module_mem := (module_mem s)(s_self m := None), sel_mod := None\<rparr>))"

text \<open>\<open>(unsigned char)ceil(log2(maxfileno))\<close>; for 0 the logarithm is infinite and the
  conversion undefined.\<close>

definition storagebits :: "c_ushort \<Rightarrow> fault + c_uchar" where
  "storagebits n = (if n = 0 then Inl Indeterminate else Inr (of_nat (floorlog 2 (unat n - 1))))"

text \<open>\<open>limit\<close> is what \<open>getrlimit\<close> gives, \<open>mem\<close> what \<open>malloc\<close> gives for the
  module, \<open>rmalloc\<close> for the ring.\<close>

definition pcaio_modselect_use ::
  "int \<Rightarrow> int \<Rightarrow> addr option \<Rightarrow> (nat \<Rightarrow> addr option list option) \<Rightarrow> c_ushort
   \<Rightarrow> ('k, 'z) selstate_scheme \<Rightarrow> fault + (int \<times> ('k, 'z) selstate_scheme)" where
  "pcaio_modselect_use limit_rc limit mem rmalloc maxfileno s =
    (if sel_mod s \<noteq> None then Inr (-1, s)
     else if 1024 < maxfileno then Inr (-1, s)
     else if limit_rc \<noteq> 0 then Inr (-1, s)
     else if limit < uint maxfileno then Inr (-1, s)
     else case mem of
       None \<Rightarrow> Inr (-1, s)
     | Some p \<Rightarrow>
        and_then (storagebits maxfileno) (\<lambda>bits.
        and_then (ring_init rmalloc (Some \<lparr>rhead = 0, rtail = 0, rmask = 0, rheadx = False,
            rtailx = False, rbackend = None\<rparr>) bits) (\<lambda>(rc, r).
          case r of
            None \<Rightarrow> Inl NullDeref
          | Some r \<Rightarrow>
             if rc \<noteq> 0 then Inr (-1, s)
             else
               let s = module_put p \<lparr>m_flags = 0, m_init = False, m_dtor = True, m_tick = True\<rparr> s
               in and_then (pcaio_module_install p s) (\<lambda>(rc, s).
                    if rc \<noteq> 0 then Inr (-1, s\<lparr>module_mem := (module_mem s)(p := None)\<rparr>)
                    else Inr (0, s\<lparr>sel_mod := Some \<lparr>s_self = p, s_maxfileno = maxfileno, s_events = r\<rparr>\<rparr>)))))"

section \<open>Collecting\<close>

definition event_ok :: "(addr \<Rightarrow> ioevent option) \<Rightarrow> addr \<Rightarrow> bool" where
  "event_ok evs e \<longleftrightarrow> (\<exists>v. evs e = Some v \<and> e_events v \<noteq> 0 \<and> 0 \<le> e_fd v \<and> e_fd v < FD_SETSIZE)"

definition event_task :: "(addr \<Rightarrow> ioevent option) \<Rightarrow> addr \<Rightarrow> addr" where
  "event_task evs e = (case evs e of None \<Rightarrow> 0 | Some v \<Rightarrow> e_task v)"

text \<open>The descriptors of those events that ask for one of the bits of a mask.\<close>

definition fds_of :: "(addr \<Rightarrow> ioevent option) \<Rightarrow> c_int \<Rightarrow> addr list \<Rightarrow> int set" where
  "fds_of evs ask es = {e_fd v | v e. e \<in> set es \<and> evs e = Some v \<and> e_events v AND ask \<noteq> 0}"

lemma fds_of_simps:
  "fds_of evs ask [] = {}"
  "evs e = Some v \<Longrightarrow> fds_of evs ask (e # es) =
    (if e_events v AND ask \<noteq> 0 then insert (e_fd v) (fds_of evs ask es) else fds_of evs ask es)"
  by (auto simp: fds_of_def)

lemma fd_set_ok: "0 \<le> fd \<Longrightarrow> fd < FD_SETSIZE \<Longrightarrow> fd_set on fd F = Inr (if on then insert fd F else F)"
  by (simp add: fd_set_def)

lemma sel_collect_spec:
  "ring_rep r es \<Longrightarrow> \<forall>e \<in> set es. event_ok evs e \<Longrightarrow>
    \<exists>r'. sel_collect n evs r (R, W, X) swap =
      Inr (True, r', (R \<union> fds_of evs IOIN (take n es), W \<union> fds_of evs IOOUT (take n es),
        X \<union> fds_of evs (-1) (take n es)), swap @ take n es) \<and>
      ring_rep r' (drop n es) \<and> ring_capacity r' = ring_capacity r"
proof (induction n arbitrary: r es R W X swap)
  case 0
  then show ?case by (simp add: fds_of_simps)
next
  case (Suc n)
  show ?case
  proof (cases es)
    case Nil
    with Suc.prems(1) have "ring_pop r = Inr (-1, None, r)" by (simp add: ring_pop_Nil)
    with Nil Suc.prems(1) show ?thesis by (simp add: fds_of_simps)
  next
    case (Cons e fs)
    from Suc.prems(1) have "ring_rep r (e # fs)" by (simp only: Cons)
    from ring_pop_Cons [OF this] obtain r1 where
      r1: "ring_pop r = Inr (0, Some e, r1)" "ring_rep r1 fs" "ring_capacity r1 = ring_capacity r" by blast
    from Suc.prems(2) Cons obtain v where
      v: "evs e = Some v" "e_events v \<noteq> 0" "0 \<le> e_fd v" "e_fd v < FD_SETSIZE" by (auto simp: event_ok_def)
    let ?R = "if e_events v AND IOIN \<noteq> 0 then insert (e_fd v) R else R"
    let ?W = "if e_events v AND IOOUT \<noteq> 0 then insert (e_fd v) W else W"
    have ok: "\<forall>e \<in> set fs. event_ok evs e" using Suc.prems(2) Cons by simp
    have step: "sel_collect (Suc n) evs r (R, W, X) swap =
        sel_collect n evs r1 (?R, ?W, insert (e_fd v) X) (swap @ [e])"
      unfolding sel_collect.simps r1(1)
      by (simp add: v(1,2) fd_set_ok [OF v(3,4)])
    from Suc.IH [OF r1(2) ok, of ?R ?W "insert (e_fd v) X" "swap @ [e]"] obtain r' where
      r': "sel_collect n evs r1 (?R, ?W, insert (e_fd v) X) (swap @ [e]) =
        Inr (True, r', (?R \<union> fds_of evs IOIN (take n fs), ?W \<union> fds_of evs IOOUT (take n fs),
          insert (e_fd v) X \<union> fds_of evs (-1) (take n fs)), (swap @ [e]) @ take n fs)"
        "ring_rep r' (drop n fs)" "ring_capacity r' = ring_capacity r1" by blast
    have "R \<union> fds_of evs IOIN (take (Suc n) es) = ?R \<union> fds_of evs IOIN (take n fs)"
      "W \<union> fds_of evs IOOUT (take (Suc n) es) = ?W \<union> fds_of evs IOOUT (take n fs)"
      "X \<union> fds_of evs (-1) (take (Suc n) es) = insert (e_fd v) X \<union> fds_of evs (-1) (take n fs)"
      using v by (auto simp: Cons fds_of_simps(2) [of evs e v, OF v(1)])
    with step r' r1(3) show ?thesis by (simp add: Cons)
  qed
qed

section \<open>Dispatching\<close>

definition sel_isready :: "int \<Rightarrow> fd_sets \<Rightarrow> (addr \<Rightarrow> ioevent option) \<Rightarrow> addr \<Rightarrow> bool" where
  "sel_isready nfds F evs e \<longleftrightarrow> (case evs e of None \<Rightarrow> False | Some v \<Rightarrow> sel_ready nfds F (e_fd v) \<noteq> 0)"

text \<open>The events after a dispatch: those that were ready hold what was found.\<close>

definition sel_marked ::
  "int \<Rightarrow> fd_sets \<Rightarrow> addr list \<Rightarrow> (addr \<Rightarrow> ioevent option) \<Rightarrow> addr \<Rightarrow> ioevent option" where
  "sel_marked nfds F es evs a = (if a \<in> set es \<and> sel_isready nfds F evs a
     then map_option (\<lambda>v. v\<lparr>e_events := sel_ready nfds F (e_fd v)\<rparr>) (evs a) else evs a)"

lemma sel_put_simps [simp]:
  "heap (sel_put r s) = heap s" "tasks (sel_put r s) = tasks s" "taskq (sel_put r s) = taskq s"
  "ioevents (sel_put r s) = ioevents s" "tls_task (sel_put r s) = tls_task s"
  "tls_context (sel_put r s) = tls_context s"
  "sel_mod s = Some m \<Longrightarrow> sel_mod (sel_put r s) = Some (m\<lparr>s_events := r\<rparr>)"
  by (simp_all add: sel_put_def)

lemma sel_put_rep [simp]: "world_rep (sel_put r s) L Q \<longleftrightarrow> world_rep s L Q"
  by (rule world_rep_cong) simp_all

lemma sel_mod_event_put [simp]: "sel_mod (event_put a e s) = sel_mod s"
  by (simp add: event_put_def)

text \<open>The monitor's state: the ring holds \<open>es\<close>, its capacity and the limit are
  fixed.\<close>

definition sel_rep :: "('k, 'z) selstate_scheme \<Rightarrow> c_ushort \<Rightarrow> nat \<Rightarrow> addr list \<Rightarrow> bool" where
  "sel_rep s maxfileno cap es \<longleftrightarrow> (\<exists>m. sel_mod s = Some m \<and> s_maxfileno m = maxfileno \<and>
     ring_rep (s_events m) es \<and> ring_capacity (s_events m) = cap)"

lemma sel_dispatch_idle:
  assumes "sel_rep s mx cap xs" "length xs < cap" "event_ok (ioevents s) e"
    "\<not> sel_isready nfds F (ioevents s) e"
  obtains s1 where "sel_dispatch nfds F (e # es) s = sel_dispatch nfds F es s1" "sel_rep s1 mx cap (xs @ [e])"
    "ioevents s1 = ioevents s" "\<forall>L Q. world_rep s1 L Q = world_rep s L Q"
    "heap s1 = heap s" "tls_task s1 = tls_task s" "tls_context s1 = tls_context s"
proof -
  from assms(1) obtain m where m: "sel_mod s = Some m" "s_maxfileno m = mx" "ring_rep (s_events m) xs"
    "ring_capacity (s_events m) = cap" by (auto simp: sel_rep_def)
  from ring_push_room [OF m(3)] assms(2) m(4) obtain r where
    r: "ring_push e (s_events m) = Inr (0, r)" "ring_rep r (xs @ [e])" "ring_capacity r = cap" by blast
  from assms(3,4) obtain v where v: "ioevents s e = Some v" "sel_ready nfds F (e_fd v) = 0"
    by (auto simp: event_ok_def sel_isready_def)
  have "sel_dispatch nfds F (e # es) s = sel_dispatch nfds F es (sel_put r s)"
    using v m(1) r(1) by simp
  moreover have "sel_rep (sel_put r s) mx cap (xs @ [e])" using m r by (simp add: sel_rep_def)
  ultimately show thesis using that by simp
qed

lemma sel_dispatch_ready:
  assumes rep: "world_rep s L Q" and sel: "sel_rep s mx cap xs" and ready: "sel_isready nfds F (ioevents s) e"
    and task: "event_task (ioevents s) e \<in> set L" "event_task (ioevents s) e \<notin> set Q"
  obtains s1 where "sel_dispatch nfds F (e # es) s = sel_dispatch nfds F es s1" "sel_rep s1 mx cap xs"
    "ioevents s1 = sel_marked nfds F [e] (ioevents s)"
    "world_rep s1 L (Q @ [event_task (ioevents s) e])"
    "heap s1 = heap s" "tls_task s1 = tls_task s" "tls_context s1 = tls_context s"
proof -
  from ready obtain v where v: "ioevents s e = Some v" "sel_ready nfds F (e_fd v) \<noteq> 0"
    by (auto simp: sel_isready_def split: option.splits)
  let ?s = "event_put e (Some (v\<lparr>e_events := sel_ready nfds F (e_fd v)\<rparr>)) s"
  have t: "event_task (ioevents s) e = e_task v" using v(1) by (simp add: event_task_def)
  have "world_rep ?s L Q" "heap ?s (e_task v) \<noteq> None" "e_task v \<notin> set Q"
    using rep task t world_rep_members [OF rep, of "e_task v"] by simp_all
  from schedule_idle [OF this] obtain q where
    q: "pcaio_schedule (Some (e_task v)) ?s = (0, ?s\<lparr>taskq := q\<rparr>)"
      "world_rep (?s\<lparr>taskq := q\<rparr>) L (Q @ [e_task v])" by blast
  have "sel_dispatch nfds F (e # es) s = sel_dispatch nfds F es (?s\<lparr>taskq := q\<rparr>)"
    using v q(1) by simp
  moreover have "sel_rep (?s\<lparr>taskq := q\<rparr>) mx cap xs" using sel by (simp add: sel_rep_def)
  moreover have "ioevents (?s\<lparr>taskq := q\<rparr>) = sel_marked nfds F [e] (ioevents s)"
    using v ready by (auto simp: sel_marked_def fun_eq_iff)
  ultimately show thesis using that q(2) t by simp
qed

lemma sel_marked_other: "a \<notin> set es \<Longrightarrow> sel_marked nfds F es evs a = evs a"
  by (simp add: sel_marked_def)

lemma sel_marked_Cons_ready:
  "e \<notin> set es \<Longrightarrow> sel_isready nfds F evs e \<Longrightarrow>
    sel_marked nfds F es (sel_marked nfds F [e] evs) = sel_marked nfds F (e # es) evs"
  by (auto simp: sel_marked_def sel_isready_def fun_eq_iff split: option.splits)

lemma sel_marked_Cons_idle:
  "\<not> sel_isready nfds F evs e \<Longrightarrow> sel_marked nfds F es evs = sel_marked nfds F (e # es) evs"
  by (auto simp: sel_marked_def fun_eq_iff)

lemma sel_dispatch_spec:
  "world_rep s L Q \<Longrightarrow> sel_rep s mx cap xs \<Longrightarrow> length xs + length es \<le> cap \<Longrightarrow>
    distinct es \<Longrightarrow> \<forall>e \<in> set es. event_ok (ioevents s) e \<Longrightarrow>
    distinct (map (event_task (ioevents s)) es) \<Longrightarrow>
    \<forall>e \<in> set es. event_task (ioevents s) e \<in> set L - set Q \<Longrightarrow>
    \<exists>s'. sel_dispatch nfds F es s = Inr (True, s') \<and>
      world_rep s' L (Q @ map (event_task (ioevents s)) (filter (sel_isready nfds F (ioevents s)) es)) \<and>
      sel_rep s' mx cap (xs @ filter (\<lambda>e. \<not> sel_isready nfds F (ioevents s) e) es) \<and>
      ioevents s' = sel_marked nfds F es (ioevents s)"
proof (induction es arbitrary: s Q xs)
  case Nil
  then show ?case by (intro exI [of _ s]) (simp add: sel_marked_def fun_eq_iff)
next
  case (Cons e es)
  let ?evs = "ioevents s"
  have e: "event_ok ?evs e" "event_task ?evs e \<in> set L" "event_task ?evs e \<notin> set Q" "e \<notin> set es"
    using Cons.prems(4,5,7) by simp_all
  show ?case
  proof (cases "sel_isready nfds F ?evs e")
    case False
    have room: "length xs < cap" using Cons.prems(3) by simp
    obtain s1 where s1: "sel_dispatch nfds F (e # es) s = sel_dispatch nfds F es s1"
      "sel_rep s1 mx cap (xs @ [e])" "ioevents s1 = ?evs" "\<forall>L Q. world_rep s1 L Q = world_rep s L Q"
      by (rule sel_dispatch_idle [OF Cons.prems(2) room e(1) False]) (rule that)
    have rep1: "world_rep s1 L Q" using s1(4) Cons.prems(1) by simp
    have "length (xs @ [e]) + length es \<le> cap" using Cons.prems(3) by simp
    from Cons.IH [OF rep1 s1(2) this] Cons.prems(4-7) obtain s' where
      "sel_dispatch nfds F es s1 = Inr (True, s')"
      "world_rep s' L (Q @ map (event_task ?evs) (filter (sel_isready nfds F ?evs) es))"
      "sel_rep s' mx cap ((xs @ [e]) @ filter (\<lambda>e. \<not> sel_isready nfds F ?evs e) es)"
      "ioevents s' = sel_marked nfds F es ?evs"
      by (auto simp: s1(3))
    with s1(1) False sel_marked_Cons_idle [OF False, of es] show ?thesis by simp
  next
    case ready: True
    let ?t = "event_task ?evs e"
    obtain s1 where s1: "sel_dispatch nfds F (e # es) s = sel_dispatch nfds F es s1" "sel_rep s1 mx cap xs"
      "ioevents s1 = sel_marked nfds F [e] ?evs" "world_rep s1 L (Q @ [?t])"
      by (rule sel_dispatch_ready [OF Cons.prems(1,2) ready e(2,3)]) (rule that)
    have same: "ioevents s1 a = ?evs a" if "a \<in> set es" for a
      using that e(4) s1(3) sel_marked_other [of a "[e]" nfds F] by auto
    have ok: "\<forall>a \<in> set es. event_ok (ioevents s1) a"
      using Cons.prems(5) same by (simp add: event_ok_def)
    have tasks: "map (event_task (ioevents s1)) es = map (event_task ?evs) es"
      using same by (simp add: event_task_def)
    have isr: "\<forall>a \<in> set es. sel_isready nfds F (ioevents s1) a = sel_isready nfds F ?evs a"
      using same by (simp add: sel_isready_def)
    have dist: "distinct (map (event_task (ioevents s1)) es)"
      unfolding tasks using Cons.prems(6) by simp
    have "\<forall>a \<in> set es. event_task (ioevents s1) a \<in> set L - set (Q @ [?t])"
    proof
      fix a assume a: "a \<in> set es"
      then have "event_task ?evs a \<in> event_task ?evs ` set es" by (rule imageI)
      moreover have "?t \<notin> event_task ?evs ` set es" using Cons.prems(6) by simp
      ultimately have "event_task ?evs a \<noteq> ?t" by metis
      moreover have "event_task ?evs a \<in> set L - set Q" using Cons.prems(7) a by simp
      ultimately show "event_task (ioevents s1) a \<in> set L - set (Q @ [?t])"
        using same [OF a] by (simp add: event_task_def)
    qed
    moreover have "length xs + length es \<le> cap" "distinct es" using Cons.prems(3,4) by simp_all
    ultimately obtain s' where s':
      "sel_dispatch nfds F es s1 = Inr (True, s')"
      "world_rep s' L ((Q @ [?t]) @ map (event_task (ioevents s1)) (filter (sel_isready nfds F (ioevents s1)) es))"
      "sel_rep s' mx cap (xs @ filter (\<lambda>e. \<not> sel_isready nfds F (ioevents s1) e) es)"
      "ioevents s' = sel_marked nfds F es (ioevents s1)"
      using Cons.IH [OF s1(4,2) _ _ ok dist] by blast
    have f: "filter (sel_isready nfds F (ioevents s1)) es = filter (sel_isready nfds F ?evs) es"
      "filter (\<lambda>e. \<not> sel_isready nfds F (ioevents s1) e) es = filter (\<lambda>e. \<not> sel_isready nfds F ?evs e) es"
      using isr by (auto intro: filter_cong)
    have t: "map (event_task (ioevents s1)) (filter P es) = map (event_task ?evs) (filter P es)" for P
      using same by (simp add: event_task_def)
    have "ioevents s' = sel_marked nfds F (e # es) ?evs"
      using s'(4) s1(3) sel_marked_Cons_ready [OF e(4) ready] by simp
    with s'(1-3) s1(1) ready f t show ?thesis by simp
  qed
qed

section \<open>The whole tick\<close>

text \<open>What \<open>select\<close> is asked.\<close>

definition sel_asked :: "(addr \<Rightarrow> ioevent option) \<Rightarrow> addr list \<Rightarrow> fd_sets" where
  "sel_asked evs es = (fds_of evs IOIN es, fds_of evs IOOUT es, fds_of evs (-1) es)"

definition sel_answer :: "int \<Rightarrow> fd_sets \<Rightarrow> fd_sets" where
  "sel_answer nfds F = (if nfds = -1 then (case F of (rfds, wfds, efds) \<Rightarrow> ({}, {}, efds)) else F)"

lemma sel_rep_put:
  "sel_mod s = Some m \<Longrightarrow> s_maxfileno m = mx \<Longrightarrow> ring_rep r xs \<Longrightarrow> ring_capacity r = cap \<Longrightarrow>
    sel_rep (sel_put r s) mx cap xs"
  by (simp add: sel_rep_def)

lemma modselect_tick_run:
  assumes rep: "world_rep s L Q" and sel: "sel_rep s mx cap es" and more: "es \<noteq> []" "mx \<noteq> 0"
    and cap: "length es \<le> cap" and dist: "distinct es" and ok: "\<forall>e \<in> set es. event_ok (ioevents s) e"
    and tdist: "distinct (map (event_task (ioevents s)) es)"
    and tasks: "\<forall>e \<in> set es. event_task (ioevents s) e \<in> set L - set Q"
    and select: "\<And>u. select (unat mx) (sel_asked (ioevents s) (take (unat mx) es))
      (unat t div 1000000, unat t mod 1000000) u = (nfds, F, u)"
  shows "\<exists>s'. modselect_tick select t s = Inr (if nfds = -1 then PMSPANIC else PMSAGAIN, s') \<and>
    world_rep s' L (Q @ map (event_task (ioevents s))
      (filter (sel_isready nfds (sel_answer nfds F) (ioevents s)) (take (unat mx) es))) \<and>
    sel_rep s' mx cap (drop (unat mx) es @
      filter (\<lambda>e. \<not> sel_isready nfds (sel_answer nfds F) (ioevents s) e) (take (unat mx) es)) \<and>
    ioevents s' = sel_marked nfds (sel_answer nfds F) (take (unat mx) es) (ioevents s)"
proof -
  let ?evs = "ioevents s" and ?n = "unat mx" and ?F = "sel_answer nfds F"
  from sel obtain m where m: "sel_mod s = Some m" "s_maxfileno m = mx" "ring_rep (s_events m) es"
    "ring_capacity (s_events m) = cap" by (auto simp: sel_rep_def)
  have ne: "\<not> RINGT_ISEMPTY (s_events m)"
    using m(3) more(1) ring_isempty by (auto simp: ring_rep_def)
  from sel_collect_spec [OF m(3) ok, of ?n "{}" "{}" "{}" "[]"] obtain r where
    r: "sel_collect ?n ?evs (s_events m) ({}, {}, {}) [] = Inr (True, r, sel_asked ?evs (take ?n es), take ?n es)"
      "ring_rep r (drop ?n es)" "ring_capacity r = cap" using m(4) by (auto simp: sel_asked_def)
  have n: "?n \<noteq> 0" using more(2) by (simp add: unat_eq_0)
  then have batch: "take ?n es \<noteq> []" using more(1) by simp
  have run: "modselect_tick select t s = and_then (sel_dispatch nfds ?F (take ?n es) (sel_put r s)) (\<lambda>(ok, s).
      if \<not> ok then Inr (PMSPANIC, s) else Inr (if nfds = -1 then PMSPANIC else PMSAGAIN, s))"
    using ne batch by (simp add: modselect_tick_def m(1,2) r(1) select sel_answer_def Let_def)
  have rep1: "world_rep (sel_put r s) L Q" using rep by simp
  have sel1: "sel_rep (sel_put r s) mx cap (drop ?n es)" by (rule sel_rep_put [OF m(1,2) r(2,3)])
  have len: "length (drop ?n es) + length (take ?n es) \<le> cap" using cap by simp
  have sub: "set (take ?n es) \<subseteq> set es" by (rule set_take_subset)
  have tdist1: "distinct (map (event_task ?evs) (take ?n es))"
    using distinct_take [OF tdist, of ?n] by (simp add: take_map)
  from sel_dispatch_spec [OF rep1 sel1 len distinct_take [OF dist], of nfds ?F] sub ok tasks tdist1
  obtain s' where
    "sel_dispatch nfds ?F (take ?n es) (sel_put r s) = Inr (True, s')"
    "world_rep s' L (Q @ map (event_task ?evs) (filter (sel_isready nfds ?F ?evs) (take ?n es)))"
    "sel_rep s' mx cap (drop ?n es @ filter (\<lambda>e. \<not> sel_isready nfds ?F ?evs e) (take ?n es))"
    "ioevents s' = sel_marked nfds ?F (take ?n es) ?evs"
    by (auto simp: subset_iff)
  with run show ?thesis by simp
qed

section \<open>A descriptor that is accepted and never watched\<close>

text \<open>What \<open>select\<close> promises: it reports only descriptors below its first
  argument.\<close>

definition below :: "nat \<Rightarrow> fd_sets \<Rightarrow> bool" where
  "below n F = (case F of (rfds, wfds, efds) \<Rightarrow> \<forall>fd \<in> rfds \<union> wfds \<union> efds. fd < int n)"

lemma below_not_ready:
  "below n F \<Longrightarrow> int n \<le> fd \<Longrightarrow> nfds \<noteq> -1 \<Longrightarrow> sel_ready nfds F fd = 0"
  by (cases F) (auto simp: below_def sel_ready_def not_less [symmetric])

lemma sel_register_run:
  assumes sel: "sel_rep s mx cap es" and room: "length es < cap" and self: "pcaio_self i s = Some p"
    and fd: "0 \<le> fd" "fd \<le> uint mx" "events \<noteq> 0"
  obtains r where "sel_register i a fd events s =
      Inr (0, sel_put r (event_put a (Some \<lparr>e_fd = fd, e_events = events, e_task = p\<rparr>) s))"
    "sel_rep (sel_put r (event_put a (Some \<lparr>e_fd = fd, e_events = events, e_task = p\<rparr>) s)) mx cap (es @ [a])"
proof -
  from sel obtain m where m: "sel_mod s = Some m" "s_maxfileno m = mx" "ring_rep (s_events m) es"
    "ring_capacity (s_events m) = cap" by (auto simp: sel_rep_def)
  from ring_push_room [OF m(3)] room m(4) obtain r where
    r: "ring_push a (s_events m) = Inr (0, r)" "ring_rep r (es @ [a])" "ring_capacity r = cap" by blast
  show thesis
    by (rule that [of r]) (use m self fd r in \<open>simp_all add: sel_register_def sel_rep_put\<close>)
qed

lemma monitorA_waits:
  assumes sel: "sel_rep s mx cap es" and room: "length es < cap"
    and me: "pcaio_self i s = Some p" "threadlocal_get i (tls_context s) = Some c" "heap s p = Some t"
    and fd: "0 \<le> fd" "fd \<le> uint mx" "events \<noteq> 0"
  shows "\<exists>s'. pcaio_modselect_monitorA i a 0 k fd events s = Inr (Switched c, s') \<and>
    sel_rep s' mx cap (es @ [a]) \<and>
    ioevents s' = (ioevents s)(a := Some \<lparr>e_fd = fd, e_events = events, e_task = p\<rparr>) \<and>
    heap s' = (heap s)(p := Some (t\<lparr>t_flags := t_flags t OR TASK_NOSCHEDULE, t_context := Saved k\<rparr>)) \<and>
    tasks s' = tasks s \<and> taskq s' = taskq s"
proof -
  obtain r where r: "sel_register i a fd events s =
      Inr (0, sel_put r (event_put a (Some \<lparr>e_fd = fd, e_events = events, e_task = p\<rparr>) s))"
    "sel_rep (sel_put r (event_put a (Some \<lparr>e_fd = fd, e_events = events, e_task = p\<rparr>) s)) mx cap (es @ [a])"
    by (rule sel_register_run [OF sel room me(1) fd])
  let ?s = "sel_put r (event_put a (Some \<lparr>e_fd = fd, e_events = events, e_task = p\<rparr>) s)"
  let ?t = "t\<lparr>t_flags := t_flags t OR TASK_NOSCHEDULE, t_context := Saved k\<rparr>"
  have sw: "pcaio_relaxA i 0 k TASK_NOSCHEDULE ?s = Inr (Switched c, task_put p ?t ?s)"
    using me by (intro relaxA_switch) (simp_all add: pcaio_self_def)
  have "pcaio_modselect_monitorA i a 0 k fd events s = Inr (Switched c, task_put p ?t ?s)"
    using r(1) sw by (simp add: pcaio_modselect_monitorA_def)
  moreover have "sel_rep (task_put p ?t ?s) mx cap (es @ [a])" using r(2) by (simp add: sel_rep_def task_put_def)
  moreover have "ioevents (task_put p ?t ?s) = ioevents ?s" by (simp add: task_put_def)
  ultimately show ?thesis by simp
qed

section \<open>A sample state\<close>

definition ring2 :: "addr ring" where
  "ring2 = \<lparr>rhead = 0, rtail = 2, rmask = 3, rheadx = False, rtailx = False,
     rbackend = Some [Some 1000, Some 1008, None, None]\<rparr>"

lemma ring2_rep: "ring_rep ring2 [1000, 1008]" "ring_capacity ring2 = 3"
proof -
  have "ring_rep_bits 2 ring2 [1000, 1008]"
    by (simp add: ring_rep_bits_def ring2_def ring_cell_def)
      (simp add: eval_nat_numeral less_Suc_eq all_conj_distrib)
  then show "ring_rep ring2 [1000, 1008]" by (rule ring_repI)
  show "ring_capacity ring2 = 3" by (simp add: ring_capacity_def ring2_def)
qed

definition sel2 :: "unit world \<Rightarrow> unit selstate" where
  "sel2 w = iostate.extend (master.extend (state_static w) (iostate.fields
       [1000 \<mapsto> \<lparr>e_fd = 5, e_events = IOIN, e_task = 64\<rparr>,
        1008 \<mapsto> \<lparr>e_fd = 7, e_events = IOOUT, e_task = 128\<rparr>]))
     (selstate.fields (Some \<lparr>s_self = 8, s_maxfileno = 16, s_events = ring2\<rparr>))"

lemma sel2_simps:
  "world_rep (sel2 w) L Q = world_rep w L Q" "sel_rep (sel2 w) 16 3 [1000, 1008]"
  "ioevents (sel2 w) 1000 = Some \<lparr>e_fd = 5, e_events = IOIN, e_task = 64\<rparr>"
  "ioevents (sel2 w) 1008 = Some \<lparr>e_fd = 7, e_events = IOOUT, e_task = 128\<rparr>"
  "tls_task (sel2 w) = tls_task w" "tls_context (sel2 w) = tls_context w" "heap (sel2 w) = heap w"
  using ring2_rep
  by (simp_all add: sel2_def iostate.extend_def master.extend_def iostate.fields_def selstate.fields_def
      world_rep_def sel_rep_def state_static_def world.extend_def master.fields_def)

section \<open>Properties\<close>





end
