(* ===== verification/Modepoll.thy ===== *)
theory Modepoll
  imports Modio
begin

text \<open>
  The I/O monitor on \<open>epoll(7)\<close>, \<open>pcaio/modepoll.c\<close>: a waiting task registers its
  descriptor with the kernel, with a pointer to its event, and enters the event in a list; the
  master's tick strikes the events that \<open>epoll_wait\<close> returns off the list and schedules
  their tasks. The system calls are arguments; \<open>epoll_wait\<close> gives the returned pairs of
  event bits and pointer, or \<open>None\<close> for -1. The links of an event are the maps inside
  \<open>p_waiting\<close>.
\<close>

section \<open>State\<close>

definition EPOLLONESHOT :: c_int where "EPOLLONESHOT = 0x40000000"

record modepoll =
  p_self :: addr
  p_fd :: int
  p_maxevents :: c_ushort
  p_waiting :: "addr plist"

record 'k eplstate = "'k iostate" +
  epl_mod :: "modepoll option"

datatype ctl_op = CTL_ADD | CTL_MOD | CTL_DEL

type_synonym 's epoll_ctl = "int \<Rightarrow> ctl_op \<Rightarrow> int \<Rightarrow> c_int \<Rightarrow> addr \<Rightarrow> 's \<Rightarrow> int \<times> 's"

type_synonym 's epoll_wait = "int \<Rightarrow> int \<Rightarrow> nat \<Rightarrow> 's \<Rightarrow> (c_int \<times> addr) list option \<times> 's"

definition epl_put :: "addr plist \<Rightarrow> ('k, 'z) eplstate_scheme \<Rightarrow> ('k, 'z) eplstate_scheme" where
  "epl_put l s = s\<lparr>epl_mod := map_option (p_waiting_update (\<lambda>_. l)) (epl_mod s)\<rparr>"

definition epl_at :: "('k, 'z) eplstate_scheme \<Rightarrow> fault + modepoll" where
  "epl_at s = (case epl_mod s of None \<Rightarrow> Inl NullDeref | Some m \<Rightarrow> Inr m)"

section \<open>The tick\<close>

lemma list_pop_count:
  "list_pop True l = Inr (rc, e, l') \<Longrightarrow> rc = 0 \<Longrightarrow> unat (lcount l') < unat (lcount l)"
proof -
  assume "list_pop True l = Inr (rc, e, l')" "rc = 0"
  then have "lcount l \<noteq> 0" "lcount l' = lcount l - 1"
    by (auto simp: list_pop_def op_defs Let_def split: if_splits option.splits)
  moreover have "unat (lcount l) \<noteq> 0" using calculation(1) by (simp add: unat_eq_0)
  ultimately show ?thesis by (simp add: unat_sub_if')
qed

text \<open>The loop over the whole list, when \<open>epoll_wait\<close> has failed.\<close>

function epl_flush :: "addr plist \<Rightarrow> ('k, 'z) eplstate_scheme \<Rightarrow> fault + (addr plist \<times> ('k, 'z) eplstate_scheme)" where
  "epl_flush l s =
    (case list_pop True l of
       Inl e \<Rightarrow> Inl e
     | Inr (rc, e, l') \<Rightarrow>
        if rc \<noteq> 0 then Inr (l', s)
        else case e of
          None \<Rightarrow> Inl NullDeref
        | Some e \<Rightarrow>
           and_then (event_at e s) (\<lambda>v.
             epl_flush l' (snd (pcaio_schedule (Some (e_task v))
               (event_put e (Some (v\<lparr>e_events := e_events v OR IOERR\<rparr>)) s)))))"
  by pat_completeness auto
termination
  by (relation "measure (\<lambda>(l, s). unat (lcount l))") (auto intro: list_pop_count)

declare epl_flush.simps [simp del]

text \<open>The loop over the returned events; the flag is false when an event is not in the
  list.\<close>

fun epl_dispatch ::
  "(c_int \<times> addr) list \<Rightarrow> ('k, 'z) eplstate_scheme \<Rightarrow> fault + (bool \<times> ('k, 'z) eplstate_scheme)" where
  "epl_dispatch [] s = Inr (True, s)"
| "epl_dispatch ((ev, e) # evs) s =
    and_then (event_at e s) (\<lambda>v.
    and_then (epl_at s) (\<lambda>m.
      let s = event_put e (Some (v\<lparr>e_events := ev\<rparr>)) s
      in case list_delete (Some e) (p_waiting m) of (rc, l) \<Rightarrow>
           let s = epl_put l s
           in if rc \<noteq> 0 then Inr (False, s)
              else epl_dispatch evs (snd (pcaio_schedule (Some (e_task v)) s))))"

text \<open>The returned value -1 is none of the enumeration; the master treats it as it treats
  \<open>PMSPANIC\<close>. \<open>epoll_wait\<close> may return as many events as it is allowed to, and writes
  them into the \<open>maxevents\<close> cells of \<open>events\<close>.\<close>

definition modepoll_tick ::
  "('k, 'z) eplstate_scheme epoll_wait \<Rightarrow> c_uint \<Rightarrow> ('k, 'z) eplstate_scheme
   \<Rightarrow> fault + (tickstatus \<times> ('k, 'z) eplstate_scheme)" where
  "modepoll_tick wait timeout_us s =
    and_then (epl_at s) (\<lambda>m.
      if lcount (p_waiting m) = 0 then Inr (PMSIDLE, s)
      else case wait (p_fd m) (sint (ucast (lcount (p_waiting m)) :: c_int)) (unat timeout_us div 1000)
          (s\<lparr>errno := 0\<rparr>) of
        (Some [], s) \<Rightarrow> Inr (PMSAGAIN, s)
      | (None, s) \<Rightarrow>
          and_then (epl_at s) (\<lambda>m.
          and_then (epl_flush (p_waiting m) s) (\<lambda>(l, s). Inr (PMSPANIC, epl_put l s)))
      | (Some evs, s) \<Rightarrow>
          if unat (p_maxevents m) < length evs then Inl OutOfBounds
          else and_then (epl_dispatch evs s) (\<lambda>(ok, s).
            Inr (if ok then PMSAGAIN else PMSPANIC, s)))"

section \<open>Waiting\<close>

text \<open>Up to the registration with the kernel; \<open>a\<close> is the address of the caller's event,
  zeroed first, links included.\<close>

definition epl_register ::
  "('k, 'z) eplstate_scheme epoll_ctl \<Rightarrow> tid \<Rightarrow> addr \<Rightarrow> int \<Rightarrow> c_int \<Rightarrow> ('k, 'z) eplstate_scheme
   \<Rightarrow> fault + (int \<times> ('k, 'z) eplstate_scheme)" where
  "epl_register ctl i a fd events s =
    (if fd < 0 \<or> events = 0 then Inr (-1, s)
     else case pcaio_self i s of
       None \<Rightarrow> Inr (-1, s)
     | Some t \<Rightarrow>
        and_then (epl_at s) (\<lambda>m.
          let s = event_put a (Some \<lparr>e_fd = fd, e_events = events, e_task = t\<rparr>) s;
              l = p_waiting m;
              s = epl_put (l\<lparr>lnext := (lnext l)(a := None), lprev := (lprev l)(a := None)\<rparr>) s
          in case ctl (p_fd m) CTL_MOD fd (events OR EPOLLONESHOT) a s of (rc, s) \<Rightarrow>
               if rc = 0 then Inr (0, s)
               else case ctl (p_fd m) CTL_ADD fd (events OR EPOLLONESHOT) a s of (rc, s) \<Rightarrow>
                 if rc \<noteq> 0 then Inr (-1, event_put a None s) else Inr (0, s\<lparr>errno := 0\<rparr>)))"

text \<open>From there to the switch.\<close>

definition epl_enlist ::
  "('k, 'z) eplstate_scheme epoll_ctl \<Rightarrow> tid \<Rightarrow> addr \<Rightarrow> int \<Rightarrow> 'k \<Rightarrow> int \<Rightarrow> c_int
   \<Rightarrow> ('k, 'z) eplstate_scheme \<Rightarrow> fault + (relax \<times> ('k, 'z) eplstate_scheme)" where
  "epl_enlist ctl i a swap_rc k fd events s =
    and_then (epl_at s) (\<lambda>m.
      case list_append a (p_waiting m) of (rc, l) \<Rightarrow>
        let s = epl_put l s
        in if rc \<noteq> 0 then
             Inr (Returned (-1),
               event_put a None (snd (ctl (p_fd m) CTL_DEL fd (events OR EPOLLONESHOT) a s)))
           else and_then (pcaio_relaxA i swap_rc k TASK_NOSCHEDULE s) (\<lambda>(x, s).
             case x of
               Switched c \<Rightarrow> Inr (Switched c, s)
             | Returned e \<Rightarrow>
                let s = snd (ctl (p_fd m) CTL_DEL fd (events OR EPOLLONESHOT) a s)
                in and_then (epl_at s) (\<lambda>m.
                     Inr (Returned (-1),
                       event_put a None (epl_put (snd (list_delete (Some a) (p_waiting m))) s)))))"

definition pcaio_modepoll_monitorA ::
  "('k, 'z) eplstate_scheme epoll_ctl \<Rightarrow> tid \<Rightarrow> addr \<Rightarrow> int \<Rightarrow> 'k \<Rightarrow> int \<Rightarrow> c_int
   \<Rightarrow> ('k, 'z) eplstate_scheme \<Rightarrow> fault + (relax \<times> ('k, 'z) eplstate_scheme)" where
  "pcaio_modepoll_monitorA ctl i a swap_rc k fd events s =
    and_then (epl_register ctl i a fd events s) (\<lambda>(rc, s).
      if rc \<noteq> 0 then Inr (Returned (-1), s) else epl_enlist ctl i a swap_rc k fd events s)"

definition pcaio_modepoll_resumed ::
  "addr \<Rightarrow> ('k, 'z) eplstate_scheme \<Rightarrow> fault + (c_int \<times> ('k, 'z) eplstate_scheme)" where
  "pcaio_modepoll_resumed a s =
    (let s = snd (pcaio_relaxA_resumed s)
     in and_then (event_at a s) (\<lambda>v.
          Inr (if e_events v AND IOERR \<noteq> 0 then -1 else 0, event_put a None s)))"

section \<open>Installation\<close>

definition modepoll_init :: "int \<Rightarrow> ('k, 'z) eplstate_scheme \<Rightarrow> fault + (int \<times> ('k, 'z) eplstate_scheme)" where
  "modepoll_init fd s =
    (if fd = -1 then Inr (-1, s)
     else and_then (epl_at s) (\<lambda>m.
       let l = (p_waiting m)\<lparr>lhead := None, ltail := None, lcount := 0, lmutex := False\<rparr>
       in Inr (0, s\<lparr>epl_mod := Some (m\<lparr>p_waiting := list_init l, p_fd := fd\<rparr>)\<rparr>)))"

definition modepoll_dtor :: "('k, 'z) eplstate_scheme \<Rightarrow> int \<times> ('k, 'z) eplstate_scheme" where
  "modepoll_dtor s =
    (case epl_mod s of
       None \<Rightarrow> (-1, s)
     | Some m \<Rightarrow> (0, s\<lparr>module_mem := (module_mem s)(p_self m := None), epl_mod := None\<rparr>))"

definition pcaio_modepoll_use ::
  "addr option \<Rightarrow> addr plist \<Rightarrow> int \<Rightarrow> c_ushort \<Rightarrow> ('k, 'z) eplstate_scheme
   \<Rightarrow> fault + (int \<times> ('k, 'z) eplstate_scheme)" where
  "pcaio_modepoll_use mem garbage_list garbage_fd maxevents s =
    (if epl_mod s \<noteq> None then Inr (-1, s)
     else if maxevents = 0 then Inr (-1, s)
     else case mem of
       None \<Rightarrow> Inr (-1, s)
     | Some p \<Rightarrow>
        let s = module_put p \<lparr>m_flags = 0, m_init = True, m_dtor = True, m_tick = True\<rparr> s
        in and_then (pcaio_module_install p s) (\<lambda>(rc, s).
             if rc \<noteq> 0 then Inr (-1, s\<lparr>module_mem := (module_mem s)(p := None)\<rparr>)
             else Inr (0, s\<lparr>epl_mod := Some \<lparr>p_self = p, p_fd = garbage_fd, p_maxevents = maxevents,
                 p_waiting = garbage_list\<rparr>\<rparr>)))"

section \<open>Dispatching\<close>

lemma epl_put_simps [simp]:
  "heap (epl_put l s) = heap s" "tasks (epl_put l s) = tasks s" "taskq (epl_put l s) = taskq s"
  "ioevents (epl_put l s) = ioevents s" "tls_task (epl_put l s) = tls_task s"
  "tls_context (epl_put l s) = tls_context s"
  "epl_mod s = Some m \<Longrightarrow> epl_mod (epl_put l s) = Some (m\<lparr>p_waiting := l\<rparr>)"
  "epl_mod (event_put a e s) = epl_mod s" "epl_mod (s\<lparr>taskq := q\<rparr>) = epl_mod s"
  "epl_mod (task_put p t s) = epl_mod s" "ioevents (task_put p t s) = ioevents s"
  by (simp_all add: epl_put_def event_put_def task_put_def)

lemma epl_put_rep [simp]: "world_rep (epl_put l s) L Q \<longleftrightarrow> world_rep s L Q"
  by (rule world_rep_cong) simp_all

text \<open>The monitor's state: the list holds the waiting events \<open>W\<close>, everything outside it is
  detached.\<close>

definition epl_rep :: "('k, 'z) eplstate_scheme \<Rightarrow> c_ushort \<Rightarrow> addr list \<Rightarrow> bool" where
  "epl_rep s mx W \<longleftrightarrow> (\<exists>m. epl_mod s = Some m \<and> p_maxevents m = mx \<and> list_rep (p_waiting m) W)"

definition task_of :: "('k, 'z) iostate_scheme \<Rightarrow> addr \<Rightarrow> addr" where
  "task_of s e = (case ioevents s e of None \<Rightarrow> 0 | Some v \<Rightarrow> e_task v)"

text \<open>The events after a dispatch.\<close>

fun epl_marked :: "(c_int \<times> addr) list \<Rightarrow> (addr \<Rightarrow> ioevent option) \<Rightarrow> addr \<Rightarrow> ioevent option" where
  "epl_marked [] evs = evs"
| "epl_marked ((ev, e) # es) evs = epl_marked es (evs(e := map_option (\<lambda>v. v\<lparr>e_events := ev\<rparr>) (evs e)))"

lemma epl_dispatch_member:
  assumes rep: "world_rep s L Q" and epl: "epl_rep s mx W" and e: "e \<in> set W" "ioevents s e \<noteq> None"
    and task: "task_of s e \<in> set L" "task_of s e \<notin> set Q"
  obtains s1 where "epl_dispatch ((ev, e) # evs) s = epl_dispatch evs s1" "epl_rep s1 mx (remove1 e W)"
    "ioevents s1 = (ioevents s)(e := map_option (\<lambda>v. v\<lparr>e_events := ev\<rparr>) (ioevents s e))"
    "world_rep s1 L (Q @ [task_of s e])"
    "heap s1 = heap s" "tls_task s1 = tls_task s" "tls_context s1 = tls_context s"
proof -
  from epl obtain m where m: "epl_mod s = Some m" "p_maxevents m = mx" "list_rep (p_waiting m) W"
    by (auto simp: epl_rep_def)
  from e(2) obtain v where v: "ioevents s e = Some v" by blast
  have t: "task_of s e = e_task v" using v by (simp add: task_of_def)
  have "distinct W" using m(3) by (simp add: rep_defs)
  from list_delete_member [OF m(3) e(1)] obtain l where
    l: "list_delete (Some e) (p_waiting m) = (0, l)" "list_rep l (remove1 e W)" by blast
  let ?s = "epl_put l (event_put e (Some (v\<lparr>e_events := ev\<rparr>)) s)"
  have "world_rep ?s L Q" "heap ?s (e_task v) \<noteq> None" "e_task v \<notin> set Q"
    using rep task t world_rep_members [OF rep, of "e_task v"] by simp_all
  from schedule_idle [OF this] obtain q where
    q: "pcaio_schedule (Some (e_task v)) ?s = (0, ?s\<lparr>taskq := q\<rparr>)"
      "world_rep (?s\<lparr>taskq := q\<rparr>) L (Q @ [e_task v])" by blast
  have "epl_dispatch ((ev, e) # evs) s = epl_dispatch evs (?s\<lparr>taskq := q\<rparr>)"
    using v m(1) l(1) q(1) by (simp add: epl_at_def Let_def)
  moreover have "epl_rep (?s\<lparr>taskq := q\<rparr>) mx (remove1 e W)" using m l(2) by (simp add: epl_rep_def)
  ultimately show thesis using that q(2) t v by simp
qed

lemma remove1_filter_notin:
  "distinct W \<Longrightarrow> filter (\<lambda>x. x \<notin> S) (remove1 e W) = filter (\<lambda>x. x \<notin> insert e S) W"
  by (induction W) (auto intro: filter_cong)

lemma epl_dispatch_spec:
  "world_rep s L Q \<Longrightarrow> epl_rep s mx W \<Longrightarrow> distinct (map snd evs) \<Longrightarrow> set (map snd evs) \<subseteq> set W \<Longrightarrow>
    \<forall>e \<in> set (map snd evs). ioevents s e \<noteq> None \<and> task_of s e \<in> set L - set Q \<Longrightarrow>
    distinct (map (task_of s) (map snd evs)) \<Longrightarrow>
    \<exists>s'. epl_dispatch evs s = Inr (True, s') \<and> epl_rep s' mx (filter (\<lambda>e. e \<notin> set (map snd evs)) W) \<and>
      world_rep s' L (Q @ map (task_of s) (map snd evs)) \<and> ioevents s' = epl_marked evs (ioevents s)"
proof (induction evs arbitrary: s Q W)
  case Nil
  then show ?case by (intro exI [of _ s]) simp
next
  case (Cons p evs)
  obtain ev e where p: "p = (ev, e)" by (cases p)
  have e: "e \<in> set W" "ioevents s e \<noteq> None" "task_of s e \<in> set L" "task_of s e \<notin> set Q"
    using Cons.prems(4,5) by (simp_all add: p)
  obtain s1 where s1: "epl_dispatch ((ev, e) # evs) s = epl_dispatch evs s1" "epl_rep s1 mx (remove1 e W)"
    "ioevents s1 = (ioevents s)(e := map_option (\<lambda>v. v\<lparr>e_events := ev\<rparr>) (ioevents s e))"
    "world_rep s1 L (Q @ [task_of s e])"
    by (rule epl_dispatch_member [OF Cons.prems(1,2) e]) (rule that)
  have W: "distinct W" using Cons.prems(2) by (auto simp: epl_rep_def rep_defs)
  have new: "e \<notin> set (map snd evs)" and dist: "distinct (map snd evs)" using Cons.prems(3) by (simp_all add: p)
  have task: "task_of s1 x = task_of s x" if "x \<in> set (map snd evs)" for x
  proof -
    from that new have "x \<noteq> e" by blast
    then show ?thesis using s1(3) by (simp add: task_of_def)
  qed
  have tnew: "task_of s e \<notin> task_of s ` set (map snd evs)"
    using Cons.prems(6) by (simp add: p image_image)
  have ok: "\<forall>x \<in> set (map snd evs). ioevents s1 x \<noteq> None \<and> task_of s1 x \<in> set L - set (Q @ [task_of s e])"
  proof
    fix x assume x: "x \<in> set (map snd evs)"
    then have "x \<noteq> e" using new by blast
    moreover have "x \<in> set (map snd (p # evs))" using x by simp
    then have "ioevents s x \<noteq> None \<and> task_of s x \<in> set L - set Q" using Cons.prems(5) by blast
    moreover have "task_of s x \<noteq> task_of s e" using tnew imageI [OF x, of "task_of s"] by metis
    ultimately show "ioevents s1 x \<noteq> None \<and> task_of s1 x \<in> set L - set (Q @ [task_of s e])"
      using task [OF x] s1(3) by simp
  qed
  have maps: "map (task_of s1) (map snd evs) = map (task_of s) (map snd evs)"
    using task by (intro map_cong) auto
  have sub: "set (map snd evs) \<subseteq> set (remove1 e W)" using Cons.prems(4) new W by (auto simp: p)
  have tdist: "distinct (map (task_of s1) (map snd evs))" unfolding maps using Cons.prems(6) by (simp add: p)
  from Cons.IH [OF s1(4,2) dist sub ok tdist] obtain s' where
    s': "epl_dispatch evs s1 = Inr (True, s')"
      "epl_rep s' mx (filter (\<lambda>x. x \<notin> set (map snd evs)) (remove1 e W))"
      "world_rep s' L ((Q @ [task_of s e]) @ map (task_of s1) (map snd evs))"
      "ioevents s' = epl_marked evs (ioevents s1)" by blast
  have rest: "filter (\<lambda>x. x \<notin> set (map snd evs)) (remove1 e W) = filter (\<lambda>x. x \<notin> set (map snd (p # evs))) W"
    using remove1_filter_notin [OF W] by (simp add: p)
  have "world_rep s' L (Q @ map (task_of s) (map snd (p # evs)))"
    using s'(3) unfolding maps by (simp add: p)
  moreover have "epl_dispatch (p # evs) s = Inr (True, s')" using s'(1) s1(1) by (simp only: p)
  moreover have "ioevents s' = epl_marked (p # evs) (ioevents s)" using s'(4) s1(3) by (simp add: p)
  ultimately show ?case using s'(2) unfolding rest by blast
qed

section \<open>An event before its time\<close>

text \<open>The kernel knows an event from \<open>epoll_ctl\<close> on; a tick that gets it before the task
  has entered it in the list gives up.\<close>

lemma epl_register_run:
  assumes epl: "epl_rep s mx W" and me: "pcaio_self i s = Some p" and fd: "0 \<le> fd" "events \<noteq> 0"
    and a: "a \<notin> set W" and ctl: "\<And>f e x u. ctl f CTL_MOD fd e x u = (0, u)"
  shows "\<exists>s'. epl_register ctl i a fd events s = Inr (0, s') \<and> epl_rep s' mx W \<and>
    (\<exists>m. epl_mod s' = Some m \<and> list_detached (p_waiting m) a) \<and>
    ioevents s' = (ioevents s)(a := Some \<lparr>e_fd = fd, e_events = events, e_task = p\<rparr>) \<and>
    taskq s' = taskq s \<and> (\<forall>L Q. world_rep s' L Q = world_rep s L Q) \<and> heap s' = heap s \<and>
    tls_task s' = tls_task s \<and> tls_context s' = tls_context s"
proof -
  from epl obtain m where m: "epl_mod s = Some m" "p_maxevents m = mx" "list_rep (p_waiting m) W"
    by (auto simp: epl_rep_def)
  let ?l = "(p_waiting m)\<lparr>lnext := (lnext (p_waiting m))(a := None), lprev := (lprev (p_waiting m))(a := None)\<rparr>"
  let ?s = "epl_put ?l (event_put a (Some \<lparr>e_fd = fd, e_events = events, e_task = p\<rparr>) s)"
  have "list_rep ?l W" using m(3) a by (auto simp: rep_defs)
  then have "epl_rep ?s mx W" using m by (simp add: epl_rep_def)
  moreover have "epl_register ctl i a fd events s = Inr (0, ?s)"
    using fd me m(1) by (simp add: epl_register_def epl_at_def ctl Let_def)
  moreover have "list_detached ?l a" by (simp add: rep_defs)
  ultimately show ?thesis using m(1) by (intro exI [of _ ?s]) auto
qed

lemma epl_dispatch_unlisted:
  assumes m: "epl_mod s = Some m" "list_rep (p_waiting m) W" and a: "a \<notin> set W" "list_detached (p_waiting m) a"
    and e: "ioevents s a \<noteq> None"
  shows "\<exists>s'. epl_dispatch ((ev, a) # evs) s = Inr (False, s') \<and> taskq s' = taskq s"
  using list_delete_absent [OF m(2) a] m(1) e by (auto simp: epl_at_def Let_def)

section \<open>A sample state\<close>

definition list2 :: "addr plist" where
  "list2 = \<lparr>lhead = Some 1000, ltail = Some 1008, lcount = 2, lmutex = False,
     lnext = (\<lambda>_. None)(1000 := Some 1008), lprev = (\<lambda>_. None)(1008 := Some 1000)\<rparr>"

lemma list2_rep: "list_rep list2 [1000, 1008]"
  by (simp add: list2_def rep_defs pred_in_def)

definition epl2 :: "unit world \<Rightarrow> unit eplstate" where
  "epl2 w = iostate.extend (master.extend (state_static w) (iostate.fields
       [1000 \<mapsto> \<lparr>e_fd = 5, e_events = IOIN, e_task = 64\<rparr>,
        1008 \<mapsto> \<lparr>e_fd = 7, e_events = IOOUT, e_task = 128\<rparr>]))
     (eplstate.fields (Some \<lparr>p_self = 8, p_fd = 9, p_maxevents = 4, p_waiting = list2\<rparr>))"

lemma epl2_simps:
  "world_rep (epl2 w) L Q = world_rep w L Q" "epl_rep (epl2 w) 4 [1000, 1008]"
  "epl_mod (epl2 w) = Some \<lparr>p_self = 8, p_fd = 9, p_maxevents = 4, p_waiting = list2\<rparr>"
  "ioevents (epl2 w) 1000 = Some \<lparr>e_fd = 5, e_events = IOIN, e_task = 64\<rparr>"
  "ioevents (epl2 w) 1008 = Some \<lparr>e_fd = 7, e_events = IOOUT, e_task = 128\<rparr>"
  "tls_task (epl2 w) = tls_task w"
  using list2_rep
  by (simp_all add: epl2_def iostate.extend_def master.extend_def iostate.fields_def eplstate.fields_def
      world_rep_def epl_rep_def state_static_def world.extend_def master.fields_def)

section \<open>The whole tick\<close>

lemma epl_tick_answer:
  assumes epl: "epl_rep s mx W" and more: "W \<noteq> []" "evs \<noteq> []" "length evs \<le> unat mx"
    and wait: "\<And>f n d u. wait f n d u = (Some evs, u)"
  shows "modepoll_tick wait t s = and_then (epl_dispatch evs (s\<lparr>errno := 0\<rparr>)) (\<lambda>(ok, s).
    Inr (if ok then PMSAGAIN else PMSPANIC, s))"
proof -
  from epl obtain m where m: "epl_mod s = Some m" "p_maxevents m = mx" "list_rep (p_waiting m) W"
    by (auto simp: epl_rep_def)
  have "lcount (p_waiting m) \<noteq> 0" using list_rep_count [OF m(3)] more(1) by simp
  moreover obtain x xs where "evs = x # xs" using more(2) by (cases evs) auto
  ultimately show ?thesis using m(1,2) more(3) by (simp add: modepoll_tick_def epl_at_def wait)
qed

text \<open>\<open>epoll_wait\<close> is allowed as many events as are waiting, not as many as there are
  cells.\<close>

lemma modepoll_tick_overflow:
  assumes epl: "epl_rep s mx W" and more: "W \<noteq> []" and big: "unat mx < length evs"
    and wait: "\<And>f n d u. wait f n d u = (Some evs, u)"
  shows "modepoll_tick wait t s = Inl OutOfBounds"
proof -
  from epl obtain m where m: "epl_mod s = Some m" "p_maxevents m = mx" "list_rep (p_waiting m) W"
    by (auto simp: epl_rep_def)
  have "lcount (p_waiting m) \<noteq> 0" using list_rep_count [OF m(3)] more by simp
  moreover obtain x xs where "evs = x # xs" using big by (cases evs) auto
  ultimately show ?thesis using m(1,2) big by (simp add: modepoll_tick_def epl_at_def wait)
qed

lemma modepoll_tick_run:
  assumes "world_rep s L Q" "epl_rep s mx W" "evs \<noteq> []" "length evs \<le> unat mx"
    and "distinct (map snd evs)" "set (map snd evs) \<subseteq> set W"
    and "\<forall>e \<in> set (map snd evs). ioevents s e \<noteq> None \<and> task_of s e \<in> set L - set Q"
    and "distinct (map (task_of s) (map snd evs))"
    and "\<And>f n d u. wait f n d u = (Some evs, u)"
  shows "\<exists>s'. modepoll_tick wait t s = Inr (PMSAGAIN, s') \<and>
    epl_rep s' mx (filter (\<lambda>e. e \<notin> set (map snd evs)) W) \<and>
    world_rep s' L (Q @ map (task_of s) (map snd evs)) \<and> ioevents s' = epl_marked evs (ioevents s)"
proof -
  let ?s = "s\<lparr>errno := 0\<rparr>"
  have same: "ioevents ?s = ioevents s" "task_of ?s = task_of s" "epl_mod ?s = epl_mod s"
    by (simp_all add: task_of_def fun_eq_iff)
  have rep: "world_rep ?s L Q" using assms(1) world_rep_cong [of ?s s L Q] by simp
  have epl: "epl_rep ?s mx W" using assms(2) by (simp add: epl_rep_def same)
  have "W \<noteq> []" using assms(3,6) by (cases evs) auto
  from epl_tick_answer [OF assms(2) this assms(3,4,9)]
  have run: "modepoll_tick wait t s = and_then (epl_dispatch evs ?s) (\<lambda>(ok, s).
    Inr (if ok then PMSAGAIN else PMSPANIC, s))" .
  from epl_dispatch_spec [OF rep epl assms(5,6)] assms(7,8) obtain s' where
    "epl_dispatch evs ?s = Inr (True, s')" "epl_rep s' mx (filter (\<lambda>e. e \<notin> set (map snd evs)) W)"
    "world_rep s' L (Q @ map (task_of s) (map snd evs))" "ioevents s' = epl_marked evs (ioevents s)"
    unfolding same by blast
  with run show ?thesis by simp
qed

section \<open>Properties\<close>

text \<open>When \<open>epoll_wait\<close> returns waiting events, as many as there is room
  for, one tick stores each event's bits, strikes exactly these events off the list and schedules
  their tasks in the order returned; the others keep waiting, in their order.\<close>

theorem modepoll_tick_spec:
  assumes "world_rep s L Q" "epl_rep s mx W" "evs \<noteq> []" "length evs \<le> unat mx"
    and "distinct (map snd evs)" "set (map snd evs) \<subseteq> set W"
    and "\<forall>e \<in> set (map snd evs). ioevents s e \<noteq> None \<and> task_of s e \<in> set L - set Q"
    and "distinct (map (task_of s) (map snd evs))"
    and "\<And>f n d u. wait f n d u = (Some evs, u)"
  shows "\<exists>s'. modepoll_tick wait t s = Inr (PMSAGAIN, s') \<and>
    epl_rep s' mx (filter (\<lambda>e. e \<notin> set (map snd evs)) W) \<and>
    world_rep s' L (Q @ map (task_of s) (map snd evs)) \<and> ioevents s' = epl_marked evs (ioevents s)"
  using assms by (rule modepoll_tick_run)

theorem modepoll_tick_spec_witness:
  "\<exists>w s'. modepoll_tick (\<lambda>f n d u. (Some [(IOOUT, 1008)], u)) 5000 (epl2 w) = Inr (PMSAGAIN, s') \<and>
    epl_rep s' 4 [1000] \<and> world_rep s' [64, 128, 192] [128]"
proof -
  from sample_gang obtain w :: "unit world" where w: "world_rep w [64, 128, 192] []" by blast
  let ?evs = "[(IOOUT, 1008)] :: (c_int \<times> addr) list"
  let ?wait = "\<lambda>f n d (u :: unit eplstate). (Some ?evs, u)"
  have rep: "world_rep (epl2 w) [64, 128, 192] []" using w by (simp add: epl2_simps)
  have t: "task_of (epl2 w) 1008 = 128" by (simp add: task_of_def epl2_simps)
  have small: "?evs \<noteq> []" "length ?evs \<le> unat (4 :: c_ushort)" "distinct (map snd ?evs)"
    "set (map snd ?evs) \<subseteq> set [1000, 1008]" by simp_all
  have ok: "\<forall>e \<in> set (map snd ?evs). ioevents (epl2 w) e \<noteq> None \<and>
      task_of (epl2 w) e \<in> set [64, 128, 192] - set []" by (simp add: t epl2_simps)
  have dist: "distinct (map (task_of (epl2 w)) (map snd ?evs))" by simp
  have answer: "?wait f n d u = (Some ?evs, u)" for f n d u by simp
  from modepoll_tick_spec [of "epl2 w" "[64, 128, 192]" "[]" 4 "[1000, 1008]" ?evs ?wait 5000,
      OF rep epl2_simps(2) small ok dist answer]
  show ?thesis using t by auto
qed



end
