(* ===== verification/Waiting.thy ===== *)
theory Waiting
  imports Modselect Modepoll Worker
begin

text \<open>
  The life of a wait, through all the parts it involves: the task that calls a monitor gives its
  worker back, the worker leaves it out of the queue, the tick that finds its descriptor ready
  puts it there again, and the call returns what was found.
\<close>

lemma held_bits: "((0 :: c_int) OR TASK_NOSCHEDULE) AND TASK_TERMINATED = 0"
    "((0 :: c_int) OR TASK_NOSCHEDULE) AND TASK_NOSCHEDULE \<noteq> 0"
    "((0 :: c_int) OR TASK_NOSCHEDULE) AND NOT TASK_NOSCHEDULE = 0"
  by (simp_all add: task_flags)

text \<open>The worker takes the mark of a task that has gone to sleep off, and that is all.\<close>

lemma worker_holds:
  assumes rep: "world_rep s L Q" and p: "heap s p = Some t" "t_flags t = 0"
    and sw: "heap s1 = (heap s)(p := Some (t\<lparr>t_flags := t_flags t OR TASK_NOSCHEDULE, t_context := Saved k\<rparr>))"
    and same: "tasks s1 = tasks s" "taskq s1 = taskq s"
  shows "\<exists>s2. worker_back i p 0 s1 = Inr (Again, s2) \<and> world_rep s2 L Q \<and>
    heap s2 = (heap s)(p := Some (t\<lparr>t_context := Saved k\<rparr>)) \<and> world.more s2 = world.more s1"
proof -
  let ?t = "t\<lparr>t_flags := t_flags t OR TASK_NOSCHEDULE, t_context := Saved k\<rparr>"
  let ?s2 = "task_put p (?t\<lparr>t_flags := t_flags ?t AND NOT TASK_NOSCHEDULE\<rparr>) (tls_set_task i None s1)"
  have "worker_back i p 0 s1 = Inr (Again, ?s2)"
    using back_held [of s1 p ?t i] sw p(2) held_bits by simp
  moreover have heap2: "heap ?s2 = (heap s)(p := Some (t\<lparr>t_context := Saved k\<rparr>))"
    using sw p(2) held_bits(3) by (cases t) simp
  moreover have "world_rep ?s2 L Q"
    using rep p(1) same heap2 unfolding world_rep_def by auto
  moreover have "world.more ?s2 = world.more s1" by simp
  ultimately show ?thesis by blast
qed

section \<open>select\<close>

lemma more_select:
  assumes "world.more s' = world.more (s :: ('k, 'z) selstate_scheme)"
  shows "ioevents s' = ioevents s" "sel_mod s' = sel_mod s"
  using assms by (cases s; cases s'; simp)+

lemma sel_monitor_run:
  assumes rep: "world_rep s L Q" and sel: "sel_rep s mx cap es" and room: "length es < cap"
    and me: "pcaio_self i s = Some p" "threadlocal_get i (tls_context s) = Some c" "heap s p = Some t"
    and fd: "0 \<le> fd" "fd < uint mx" "events \<noteq> 0" and flags: "t_flags t = 0"
  shows "\<exists>s1 s2. pcaio_modselect_monitorA i a 0 k fd events s = Inr (Switched c, s1) \<and>
    worker_back i p 0 s1 = Inr (Again, s2) \<and> world_rep s2 L Q \<and> sel_rep s2 mx cap (es @ [a]) \<and>
    ioevents s2 = (ioevents s)(a := Some \<lparr>e_fd = fd, e_events = events, e_task = p\<rparr>) \<and>
    heap s2 = (heap s)(p := Some (t\<lparr>t_context := Saved k\<rparr>))"
proof -
  from sel obtain m where m: "sel_mod s = Some m" "s_maxfileno m = mx" "ring_rep (s_events m) es"
    "ring_capacity (s_events m) = cap" by (auto simp: sel_rep_def)
  from monitorA_waits [OF sel room me fd(1) less_imp_le [OF fd(2)] fd(3), of a k] obtain s1 where
    s1: "pcaio_modselect_monitorA i a 0 k fd events s = Inr (Switched c, s1)" "sel_rep s1 mx cap (es @ [a])"
      "ioevents s1 = (ioevents s)(a := Some \<lparr>e_fd = fd, e_events = events, e_task = p\<rparr>)"
      "heap s1 = (heap s)(p := Some (t\<lparr>t_flags := t_flags t OR TASK_NOSCHEDULE, t_context := Saved k\<rparr>))"
      "tasks s1 = tasks s" "taskq s1 = taskq s" by blast
  from worker_holds [OF rep me(3) flags s1(4-6), of i] obtain s2 where
    s2: "worker_back i p 0 s1 = Inr (Again, s2)" "world_rep s2 L Q"
      "heap s2 = (heap s)(p := Some (t\<lparr>t_context := Saved k\<rparr>))" "world.more s2 = world.more s1" by blast
  note same = more_select [OF s2(4)]
  with s1 s2 have "sel_rep s2 mx cap (es @ [a])" by (simp add: sel_rep_def)
  with s1 s2 same show ?thesis by auto
qed

text \<open>Property C16. A wait on the select monitor comes full circle. The caller is put into the
  ring and gives its worker back, which leaves it out of the queue; if its descriptor is the only
  one the next \<open>select\<close> finds ready, the tick queues the caller, once, and leaves the ring as
  it was before the call, all other waiters in their order; and the call, resumed on whatever
  worker, returns 0, or -1 if the descriptor has an error, with its event gone.\<close>

theorem select_wait_cycle:
  assumes "world_rep s L Q" "sel_rep s mx cap es" "length es < cap" "length es < unat mx" "distinct (a # es)"
    and "pcaio_self i s = Some p" "threadlocal_get i (tls_context s) = Some c" "heap s p = Some t"
    and "t_flags t = 0" "p \<notin> set Q" "0 \<le> fd" "fd < uint mx" "fd < FD_SETSIZE" "events \<noteq> 0"
    and "\<forall>e \<in> set es. event_ok (ioevents s) e \<and> \<not> sel_isready nfds F (ioevents s) e"
    and "distinct (p # map (event_task (ioevents s)) es)" "\<forall>e \<in> set es. event_task (ioevents s) e \<in> set L - set Q"
    and "\<And>n A tv u. select n A tv u = (nfds, F, u)" "nfds \<noteq> -1" "sel_ready nfds F fd \<noteq> 0"
  shows "\<exists>s1 s2 s3. pcaio_modselect_monitorA i a 0 k fd events s = Inr (Switched c, s1) \<and>
    worker_back i p 0 s1 = Inr (Again, s2) \<and> world_rep s2 L Q \<and>
    modselect_tick select tm s2 = Inr (PMSAGAIN, s3) \<and> world_rep s3 L (Q @ [p]) \<and> sel_rep s3 mx cap es \<and>
    (\<forall>u. ioevents u a = ioevents s3 a \<longrightarrow> (\<exists>u'. pcaio_modselect_resumed a u =
      Inr (if sel_ready nfds F fd AND IOERR \<noteq> 0 then -1 else 0, u') \<and> ioevents u' = (ioevents u)(a := None)))"
proof -
  let ?es = "es @ [a]"
  from sel_monitor_run [OF assms(1-3,6-8,11,12,14,9), of a k] obtain s1 s2 where
    s12: "pcaio_modselect_monitorA i a 0 k fd events s = Inr (Switched c, s1)" "worker_back i p 0 s1 = Inr (Again, s2)"
      "world_rep s2 L Q" "sel_rep s2 mx cap ?es"
      "ioevents s2 = (ioevents s)(a := Some \<lparr>e_fd = fd, e_events = events, e_task = p\<rparr>)" by blast
  have new: "ioevents s2 a = Some \<lparr>e_fd = fd, e_events = events, e_task = p\<rparr>" using s12(5) by simp
  have old: "ioevents s2 e = ioevents s e" if "e \<in> set es" for e using s12(5) assms(5) that by auto
  have task: "map (event_task (ioevents s2)) ?es = map (event_task (ioevents s)) es @ [p]"
    using old new by (simp add: event_task_def)
  have ok: "\<forall>e \<in> set ?es. event_ok (ioevents s2) e"
    using assms(11,13-15) old new by (auto simp: event_ok_def)
  have full: "take (unat mx) ?es = ?es" "drop (unat mx) ?es = []" using assms(4) by simp_all
  have F: "sel_answer nfds F = F" using assms(19) by (simp add: sel_answer_def)
  have idle: "\<not> sel_isready nfds F (ioevents s2) e" if "e \<in> set es" for e
    using assms(15) old that by (simp add: sel_isready_def)
  have ready: "sel_isready nfds F (ioevents s2) a" using new assms(20) by (simp add: sel_isready_def)
  have split: "filter (sel_isready nfds F (ioevents s2)) ?es = [a]"
    "filter (\<lambda>e. \<not> sel_isready nfds F (ioevents s2) e) ?es = es"
    using idle ready by (simp_all add: filter_empty_conv)
  have pL: "p \<in> set L" using world_rep_members [OF assms(1), of p] assms(8) by simp
  have tasks: "\<forall>e \<in> set ?es. event_task (ioevents s2) e \<in> set L - set Q"
    using assms(10,17) pL old new by (auto simp: event_task_def)
  have mx: "mx \<noteq> 0" "?es \<noteq> []" "length ?es \<le> cap" "distinct ?es" "distinct (map (event_task (ioevents s2)) ?es)"
    using assms(3-5,16) unfolding task by (auto simp: unat_gt_0)
  from modselect_tick_run [OF s12(3,4) mx(2,1,3,4) ok mx(5) tasks, of select tm nfds F] obtain s3 where
    s3: "modselect_tick select tm s2 = Inr (PMSAGAIN, s3)" "world_rep s3 L (Q @ [event_task (ioevents s2) a])"
      "sel_rep s3 mx cap es" "ioevents s3 = sel_marked nfds F ?es (ioevents s2)"
    using assms(18,19) unfolding full F split by auto
  have "ioevents s3 a = Some \<lparr>e_fd = fd, e_events = sel_ready nfds F fd, e_task = p\<rparr>"
    using s3(4) new ready by (simp add: sel_marked_def)
  then have "\<exists>u'. pcaio_modselect_resumed a u = Inr (if sel_ready nfds F fd AND IOERR \<noteq> 0 then -1 else 0, u') \<and>
      ioevents u' = (ioevents u)(a := None)" if "ioevents u a = ioevents s3 a" for u
    using that by (simp add: pcaio_modselect_resumed_def sel_report_def pcaio_relaxA_resumed_def)
  moreover have "event_task (ioevents s2) a = p" using new by (simp add: event_task_def)
  ultimately show ?thesis using s12 s3 by auto
qed

text \<open>The third task of the sample waits for descriptor 11, beside the others.\<close>

lemma sample_third:
  "\<exists>(w :: unit world) t. world_rep w [64, 128, 192] [] \<and> pcaio_self 3 w = Some 192 \<and>
    threadlocal_get 3 (tls_context w) = Some 3 \<and> heap w 192 = Some t \<and> t_flags t = 0"
proof -
  from sample_gang obtain w :: "unit world" and t where
    w: "world_rep w [64, 128, 192] []" "threadlocal_get 3 (tls_context w) = Some 3" "heap w 192 = Some t" "t_flags t = 0"
    by blast
  let ?w = "w\<lparr>tls_task := \<lparr>tls_key = True, tls_slot = (\<lambda>_. Some 192)\<rparr>\<rparr>"
  have "world_rep ?w [64, 128, 192] []" using w(1) world_rep_cong [of ?w w "[64, 128, 192]" "[]"] by simp
  with w(2-4) show ?thesis
    by (intro exI [of _ ?w] exI [of _ t]) (simp add: pcaio_self_def threadlocal_get_def)
qed

theorem select_wait_cycle_witness:
  "\<exists>w s1 s2 s3. pcaio_modselect_monitorA 3 1016 0 () 11 IOIN (sel2 w) = Inr (Switched 3, s1) \<and>
    worker_back 3 192 0 s1 = Inr (Again, s2) \<and>
    modselect_tick (\<lambda>n A tv u. (1, ({11}, {}, {}), u)) 5000 s2 = Inr (PMSAGAIN, s3) \<and>
    world_rep s3 [64, 128, 192] [192] \<and> sel_rep s3 16 3 [1000, 1008]"
proof -
  from sample_third obtain w :: "unit world" and t where
    w: "world_rep w [64, 128, 192] []" "pcaio_self 3 w = Some 192" "threadlocal_get 3 (tls_context w) = Some 3"
      "heap w 192 = Some t" "t_flags t = 0" by blast
  let ?s = "sel2 w" and ?F = "({11}, {}, {}) :: fd_sets" and ?es = "[1000, 1008] :: addr list"
  let ?sel = "\<lambda>n A tv (u :: unit selstate). (1 :: int, ?F, u)"
  have me: "world_rep ?s [64, 128, 192] []" "pcaio_self 3 ?s = Some 192"
    "threadlocal_get 3 (tls_context ?s) = Some 3" "heap ?s 192 = Some t"
    using w by (simp_all add: sel2_simps pcaio_self_def)
  have args: "length ?es < 3" "length ?es < unat (16 :: c_ushort)" "distinct (1016 # ?es)" "(192 :: addr) \<notin> set []"
    "(0 :: int) \<le> 11" "(11 :: int) < uint (16 :: c_ushort)" "(11 :: int) < FD_SETSIZE" "IOIN \<noteq> 0"
    "(1 :: int) \<noteq> -1" "sel_ready 1 ?F 11 \<noteq> 0" by (simp_all add: FD_SETSIZE_def IOIN_def sel_ready_def)
  have others: "\<forall>e \<in> set ?es. event_ok (ioevents ?s) e \<and> \<not> sel_isready 1 ?F (ioevents ?s) e"
    "distinct (192 # map (event_task (ioevents ?s)) ?es)"
    "\<forall>e \<in> set ?es. event_task (ioevents ?s) e \<in> set [64, 128, 192] - set []"
    by (simp_all add: event_ok_def sel_isready_def sel_ready_def event_task_def sel2_simps IOIN_def IOOUT_def FD_SETSIZE_def)
  have call: "?sel n A tv u = (1, ?F, u)" for n A tv u by simp
  from select_wait_cycle [where select = ?sel and F = ?F and nfds = 1 and tm = 5000 and k = "()",
      OF me(1) sel2_simps(2) args(1-3) me(2-4) w(5) args(4-8) others call args(9,10)]
  show ?thesis by (metis append_Nil)
qed

section \<open>epoll\<close>

lemma more_epoll:
  assumes "world.more s' = world.more (s :: ('k, 'z) eplstate_scheme)"
  shows "ioevents s' = ioevents s" "epl_mod s' = epl_mod s"
  using assms by (cases s; cases s'; simp)+

lemma epl_monitor_run:
  assumes rep: "world_rep s L Q" and epl: "epl_rep s mx W" and new: "a \<notin> set W" "length W + 1 < 2 ^ 64"
    and me: "pcaio_self i s = Some p" "threadlocal_get i (tls_context s) = Some c" "heap s p = Some t"
    and fd: "0 \<le> fd" "events \<noteq> 0" and flags: "t_flags t = 0" and ctl: "\<And>f e x u. ctl f CTL_MOD fd e x u = (0, u)"
  shows "\<exists>s1 s2. pcaio_modepoll_monitorA ctl i a 0 k fd events s = Inr (Switched c, s1) \<and>
    worker_back i p 0 s1 = Inr (Again, s2) \<and> world_rep s2 L Q \<and> epl_rep s2 mx (W @ [a]) \<and>
    ioevents s2 = (ioevents s)(a := Some \<lparr>e_fd = fd, e_events = events, e_task = p\<rparr>) \<and>
    heap s2 = (heap s)(p := Some (t\<lparr>t_context := Saved k\<rparr>))"
proof -
  from epl_register_run [where ctl = ctl and fd = fd, OF epl me(1) fd new(1) ctl] obtain r m where
    r: "epl_register ctl i a fd events s = Inr (0, r)" "epl_rep r mx W" "epl_mod r = Some m"
      "list_detached (p_waiting m) a"
      "ioevents r = (ioevents s)(a := Some \<lparr>e_fd = fd, e_events = events, e_task = p\<rparr>)"
      "\<forall>L Q. world_rep r L Q = world_rep s L Q" "heap r = heap s" "tls_task r = tls_task s"
      "tls_context r = tls_context s" by auto
  have m: "list_rep (p_waiting m) W" "p_maxevents m = mx" using r(2,3) by (simp_all add: epl_rep_def)
  from list_append_accept [OF m(1) new(1) r(4) new(2)] obtain l where
    l: "list_append a (p_waiting m) = (0, l)" "list_rep l (W @ [a])" by blast
  let ?r = "epl_put l r" and ?t = "t\<lparr>t_flags := t_flags t OR TASK_NOSCHEDULE, t_context := Saved k\<rparr>"
  let ?s1 = "task_put p ?t ?r"
  have "pcaio_relaxA i 0 k TASK_NOSCHEDULE ?r = Inr (Switched c, ?s1)"
    using me r(7-9) by (intro relaxA_switch) (simp_all add: pcaio_self_def)
  then have call: "pcaio_modepoll_monitorA ctl i a 0 k fd events s = Inr (Switched c, ?s1)"
    using r(1,3) l(1) by (simp add: pcaio_modepoll_monitorA_def epl_enlist_def epl_at_def Let_def)
  have rep1: "world_rep ?r L Q" using rep r(6) by simp
  have p1: "heap ?r p = Some t" using me(3) r(7) by simp
  from worker_holds [OF rep1 p1 flags, of ?s1 k i] obtain s2 where
    s2: "worker_back i p 0 ?s1 = Inr (Again, s2)" "world_rep s2 L Q"
      "heap s2 = (heap ?r)(p := Some (t\<lparr>t_context := Saved k\<rparr>))" "world.more s2 = world.more ?s1" by auto
  note same = more_epoll [OF s2(4)]
  have "epl_rep s2 mx (W @ [a])" using same(2) r(3) l(2) m(2) by (simp add: epl_rep_def)
  with call s2 same(1) r(5,7) show ?thesis by auto
qed

text \<open>Property C17. A wait on the epoll monitor comes full circle as well, when
  \<open>epoll_wait\<close> returns the caller's event: the list of waiting events is as it was before the
  call, the caller is queued once, and the call returns 0, or -1 if the event has the error bit,
  with its event gone.\<close>

theorem epoll_wait_cycle:
  assumes "world_rep s L Q" "epl_rep s mx W" "a \<notin> set W" "length W + 1 < 2 ^ 64" "mx \<noteq> 0"
    and "pcaio_self i s = Some p" "threadlocal_get i (tls_context s) = Some c" "heap s p = Some t"
    and "t_flags t = 0" "p \<notin> set Q" "0 \<le> fd" "events \<noteq> 0"
    and "\<And>f e x u. ctl f CTL_MOD fd e x u = (0, u)" "\<And>f n d u. wait f n d u = (Some [(ev, a)], u)"
  shows "\<exists>s1 s2 s3. pcaio_modepoll_monitorA ctl i a 0 k fd events s = Inr (Switched c, s1) \<and>
    worker_back i p 0 s1 = Inr (Again, s2) \<and> world_rep s2 L Q \<and>
    modepoll_tick wait tm s2 = Inr (PMSAGAIN, s3) \<and> world_rep s3 L (Q @ [p]) \<and> epl_rep s3 mx W \<and>
    (\<forall>u. ioevents u a = ioevents s3 a \<longrightarrow> (\<exists>u'. pcaio_modepoll_resumed a u =
      Inr (if ev AND IOERR \<noteq> 0 then -1 else 0, u') \<and> ioevents u' = (ioevents u)(a := None)))"
proof -
  from epl_monitor_run [where ctl = ctl and fd = fd and k = k, OF assms(1-4,6-8,11,12,9,13)] obtain s1 s2 where
    s12: "pcaio_modepoll_monitorA ctl i a 0 k fd events s = Inr (Switched c, s1)" "worker_back i p 0 s1 = Inr (Again, s2)"
      "world_rep s2 L Q" "epl_rep s2 mx (W @ [a])"
      "ioevents s2 = (ioevents s)(a := Some \<lparr>e_fd = fd, e_events = events, e_task = p\<rparr>)" by blast
  have task: "task_of s2 a = p" using s12(5) by (simp add: task_of_def)
  have pL: "p \<in> set L" using world_rep_members [OF assms(1), of p] assms(8) by simp
  have one: "[(ev, a)] \<noteq> []" "length [(ev, a)] \<le> unat mx" "distinct (map snd [(ev, a)])"
    "set (map snd [(ev, a)]) \<subseteq> set (W @ [a])" "distinct (map (task_of s2) (map snd [(ev, a)]))"
    "\<forall>e \<in> set (map snd [(ev, a)]). ioevents s2 e \<noteq> None \<and> task_of s2 e \<in> set L - set Q"
    using assms(5,10) task pL s12(5) by (simp_all add: Suc_le_eq unat_gt_0)
  from modepoll_tick_run [where wait = wait and t = tm, OF s12(3,4) one(1-4,6,5) assms(14)] obtain s3 where
    s3: "modepoll_tick wait tm s2 = Inr (PMSAGAIN, s3)" "world_rep s3 L (Q @ [p])"
      "epl_rep s3 mx (filter (\<lambda>e. e \<noteq> a) (W @ [a]))" "ioevents s3 = epl_marked [(ev, a)] (ioevents s2)"
    using task by auto
  have "filter (\<lambda>e. e \<noteq> a) (W @ [a]) = W" using assms(3) by (auto simp: filter_id_conv)
  moreover have "ioevents s3 a = Some \<lparr>e_fd = fd, e_events = ev, e_task = p\<rparr>" using s3(4) s12(5) by simp
  then have "\<exists>u'. pcaio_modepoll_resumed a u = Inr (if ev AND IOERR \<noteq> 0 then -1 else 0, u') \<and>
      ioevents u' = (ioevents u)(a := None)" if "ioevents u a = ioevents s3 a" for u
    using that by (simp add: pcaio_modepoll_resumed_def pcaio_relaxA_resumed_def Let_def)
  ultimately show ?thesis using s12 s3 by auto
qed

theorem epoll_wait_cycle_witness:
  "\<exists>w s1 s2 s3. pcaio_modepoll_monitorA (\<lambda>f c fd e x u. (0, u)) 3 1016 0 () 11 IOIN (epl2 w) = Inr (Switched 3, s1) \<and>
    worker_back 3 192 0 s1 = Inr (Again, s2) \<and>
    modepoll_tick (\<lambda>f n d u. (Some [(IOIN, 1016)], u)) 5000 s2 = Inr (PMSAGAIN, s3) \<and>
    world_rep s3 [64, 128, 192] [192] \<and> epl_rep s3 4 [1000, 1008]"
proof -
  from sample_third obtain w :: "unit world" and t where
    w: "world_rep w [64, 128, 192] []" "pcaio_self 3 w = Some 192" "threadlocal_get 3 (tls_context w) = Some 3"
      "heap w 192 = Some t" "t_flags t = 0" by blast
  let ?s = "epl2 w" and ?W = "[1000, 1008] :: addr list"
  let ?ctl = "\<lambda>f c fd e x (u :: unit eplstate). (0 :: int, u)" and ?wait = "\<lambda>f n d (u :: unit eplstate). (Some [(IOIN, 1016)], u)"
  have more: "tls_context ?s = tls_context w" "heap ?s = heap w"
    by (simp_all add: epl2_def iostate.extend_def master.extend_def state_static_def world.extend_def)
  have me: "world_rep ?s [64, 128, 192] []" "pcaio_self 3 ?s = Some 192"
    "threadlocal_get 3 (tls_context ?s) = Some 3" "heap ?s 192 = Some t"
    using w more by (simp_all add: epl2_simps pcaio_self_def)
  have args: "(1016 :: addr) \<notin> set ?W" "length ?W + 1 < 2 ^ 64" "(4 :: c_ushort) \<noteq> 0" "(192 :: addr) \<notin> set []"
    "(0 :: int) \<le> 11" "IOIN \<noteq> 0" by (simp_all add: IOIN_def)
  have calls: "?ctl f CTL_MOD 11 e x u = (0, u)" "?wait f n d u = (Some [(IOIN, 1016)], u)" for f e x u n d by simp_all
  from epoll_wait_cycle [where ctl = ?ctl and wait = ?wait and ev = IOIN and tm = 5000 and k = "()" and fd = 11,
      OF me(1) epl2_simps(2) args(1-3) me(2-4) w(5) args(4-6) calls]
  show ?thesis by (metis append_Nil)
qed

section \<open>What can go wrong\<close>

text \<open>A monitor for descriptors below 2, with one event.\<close>

definition ring1 :: "addr ring" where
  "ring1 = \<lparr>rhead = 0, rtail = 1, rmask = 1, rheadx = False, rtailx = False, rbackend = Some [Some 1000, None]\<rparr>"

lemma ring1_rep: "ring_rep ring1 [1000]" "ring_capacity ring1 = 1"
proof -
  have "ring_rep_bits 1 ring1 [1000]"
    by (simp add: ring_rep_bits_def ring1_def ring_cell_def)
  then show "ring_rep ring1 [1000]" by (rule ring_repI)
  show "ring_capacity ring1 = 1" by (simp add: ring_capacity_def ring1_def)
qed

definition sel1 :: "unit world \<Rightarrow> unit selstate" where
  "sel1 w = iostate.extend (master.extend (state_static w) (iostate.fields
       [1000 \<mapsto> \<lparr>e_fd = 0, e_events = IOIN, e_task = 128\<rparr>]))
     (selstate.fields (Some \<lparr>s_self = 8, s_maxfileno = 2, s_events = ring1\<rparr>))"

lemma sel1_simps:
  "world_rep (sel1 w) L Q = world_rep w L Q" "sel_rep (sel1 w) 2 1 [1000]"
  "ioevents (sel1 w) 1000 = Some \<lparr>e_fd = 0, e_events = IOIN, e_task = 128\<rparr>"
  "tls_task (sel1 w) = tls_task w" "tls_context (sel1 w) = tls_context w" "heap (sel1 w) = heap w"
  using ring1_rep
  by (simp_all add: sel1_def iostate.extend_def master.extend_def iostate.fields_def selstate.fields_def
      world_rep_def sel_rep_def state_static_def world.extend_def master.fields_def)

text \<open>Property C38. The ring of the select monitor can overrun: while \<open>select\<close> waits for
  the events the tick has taken out, another task may wait and fill the ring; an event that is not
  ready then finds no place any more, the tick panics, and the event is in no list: its task is
  neither queued nor waited for.\<close>

theorem modselect_overrun:
  fixes s :: "('k, 'z) selstate_scheme"
  assumes "world_rep s L Q" "sel_rep s mx 1 [e]" "mx \<noteq> 0" "event_ok (ioevents s) e" "a \<noteq> e"
    and "pcaio_self i s = Some p" "threadlocal_get i (tls_context s) = Some c" "heap s p = Some t"
    and "0 \<le> fd" "fd < uint mx" "ev \<noteq> 0"
    and "\<And>n A tv (u :: ('k, 'z) selstate_scheme). select n A tv u =
      (0, ({}, {}, {}), case pcaio_modselect_monitorA i a 0 k fd ev u of Inr (x, u) \<Rightarrow> u | Inl f \<Rightarrow> u)"
  shows "\<exists>s'. modselect_tick select tm s = Inr (PMSPANIC, s') \<and> sel_rep s' mx 1 [a] \<and> world_rep s' L Q"
proof -
  from assms(2) obtain m where m: "sel_mod s = Some m" "s_maxfileno m = mx" "ring_rep (s_events m) [e]"
    "ring_capacity (s_events m) = 1" by (auto simp: sel_rep_def)
  have full: "take (unat mx) [e] = [e]" "drop (unat mx) [e] = []"
    using assms(3) by (cases "unat mx"; simp add: unat_eq_0)+
  have ok: "\<forall>x \<in> set [e]. event_ok (ioevents s) x" using assms(4) by simp
  from sel_collect_spec [OF m(3) ok, of "unat mx" "{}" "{}" "{}" "[]"] obtain r F where
    r: "sel_collect (unat mx) (ioevents s) (s_events m) ({}, {}, {}) [] = Inr (True, r, F, [e])"
      "ring_rep r []" "ring_capacity r = 1" using m(4) full by auto
  let ?s = "sel_put r s"
  have sel: "sel_rep ?s mx 1 []" by (rule sel_rep_put [OF m(1,2) r(2,3)])
  have me: "pcaio_self i ?s = Some p" "threadlocal_get i (tls_context ?s) = Some c" "heap ?s p = Some t"
    using assms(6-8) by (simp_all add: pcaio_self_def)
  from monitorA_waits [OF sel _ me assms(9) _ assms(11), of a k] assms(10) obtain s1 where
    s1: "pcaio_modselect_monitorA i a 0 k fd ev ?s = Inr (Switched c, s1)" "sel_rep s1 mx 1 [a]"
      "ioevents s1 = (ioevents s)(a := Some \<lparr>e_fd = fd, e_events = ev, e_task = p\<rparr>)"
      "heap s1 = (heap s)(p := Some (t\<lparr>t_flags := t_flags t OR TASK_NOSCHEDULE, t_context := Saved k\<rparr>))"
      "tasks s1 = tasks s" "taskq s1 = taskq s" by auto
  from s1(2) obtain m1 where m1: "sel_mod s1 = Some m1" "s_maxfileno m1 = mx" "ring_rep (s_events m1) [a]"
    "ring_capacity (s_events m1) = 1" by (auto simp: sel_rep_def)
  from assms(4) obtain v where v: "ioevents s e = Some v" by (auto simp: event_ok_def)
  have "ring_push e (s_events m1) = Inr (-1, s_events m1)" by (rule ring_push_full [OF m1(3)]) (simp add: m1(4))
  moreover have "ioevents s1 e = Some v" using s1(3) v assms(5) by simp
  ultimately have disp: "sel_dispatch 0 ({}, {}, {}) [e] s1 = Inr (False, sel_put (s_events m1) s1)"
    by (simp add: m1(1) sel_ready_def)
  have "\<not> RINGT_ISEMPTY (s_events m)" using m(3) ring_isempty by (auto simp: ring_rep_def)
  then have "modselect_tick select tm s = Inr (PMSPANIC, sel_put (s_events m1) s1)"
    by (simp add: modselect_tick_def m(1,2) r(1) Let_def assms(12) s1(1) disp del: sel_dispatch.simps)
  moreover have "sel_rep (sel_put (s_events m1) s1) mx 1 [a]" by (rule sel_rep_put [OF m1])
  moreover have "world_rep s1 L Q" using assms(1,8) s1(4-6) unfolding world_rep_def by auto
  ultimately show ?thesis by auto
qed

theorem modselect_overrun_witness:
  "\<exists>(w :: unit world) s'. modselect_tick (\<lambda>n A tv u. (0, ({}, {}, {}),
      case pcaio_modselect_monitorA 3 1016 0 () 1 IOOUT u of Inr (x, u) \<Rightarrow> u | Inl f \<Rightarrow> u)) 5000 (sel1 w) =
      Inr (PMSPANIC, s') \<and> sel_rep s' 2 1 [1016] \<and> world_rep s' [64, 128, 192] []"
proof -
  from sample_gang obtain w :: "unit world" where w: "world_rep w [64, 128, 192] []"
    "pcaio_self 3 w = Some 64" "threadlocal_get 3 (tls_context w) = Some 3" by blast
  from world_rep_members [OF w(1), of 64] obtain t where t: "heap w 64 = Some t" by auto
  have pre: "world_rep (sel1 w) [64, 128, 192] []" "(2 :: c_ushort) \<noteq> 0" "event_ok (ioevents (sel1 w)) 1000"
    "(1016 :: addr) \<noteq> 1000" "pcaio_self 3 (sel1 w) = Some 64" "threadlocal_get 3 (tls_context (sel1 w)) = Some 3"
    "heap (sel1 w) 64 = Some t" "(0 :: int) \<le> 1" "(1 :: int) < uint (2 :: c_ushort)" "IOOUT \<noteq> 0"
    using w t by (simp_all add: sel1_simps event_ok_def IOIN_def IOOUT_def FD_SETSIZE_def pcaio_self_def)
  from modselect_overrun [OF pre(1) sel1_simps(2) pre(2-10) refl, of "()" 5000] show ?thesis by blast
qed

end
