(* ===== verification/Samples.thy ===== *)
theory Samples
  imports Program
begin

text \<open>
  The sample programs \<open>examples/await.c\<close> and \<open>examples/minimal.c\<close> as a whole, \<open>main\<close>
  included. The functions of their tasks are written as terms: every operation carries the rest
  of the function. What they log is left out.
\<close>

section \<open>Functions of tasks\<close>

datatype coro = Coro (coro_op: "coro uop")

definition leave :: "c_int \<Rightarrow> coro" where
  "leave e = Coro (Return e)"

definition co_relaxA :: "c_int \<Rightarrow> (c_int \<Rightarrow> coro) \<Rightarrow> coro" where
  "co_relaxA flags k = Coro (Relax flags k)"

definition co_self :: "(addr option \<Rightarrow> coro) \<Rightarrow> coro" where
  "co_self k = Coro (Self k)"

definition co_call :: "nat \<Rightarrow> (int \<Rightarrow> coro) \<Rightarrow> coro" where
  "co_call n k = Coro (Call n k)"

lemma coro_simps [simp]:
  "coro_op (leave e) = Return e" "coro_op (co_relaxA f k) = Relax f k"
  "coro_op (co_self j) = Self j" "coro_op (co_call n h) = Call n h"
  by (simp_all add: leave_def co_relaxA_def co_self_def co_call_def)

section \<open>The call of pcaio\<close>

text \<open>The array of tasks may hold NULLs from failed allocations, which \<open>queue_pushall\<close>
  dereferences when \<open>pcaio\<close> gets that far.\<close>

definition pcaio_array ::
  "('k, 'z) master_scheme modfuns \<Rightarrow> ('k, 'z) master_scheme pthreads
   \<Rightarrow> (c_uint \<Rightarrow> ('k, 'z) master_scheme \<Rightarrow> ('k, 'z) master_scheme) \<Rightarrow> initenv \<Rightarrow> int \<Rightarrow> int \<Rightarrow> tid
   \<Rightarrow> c_ushort \<Rightarrow> addr option list
   \<Rightarrow> ('k, 'z) master_scheme \<Rightarrow> (fault + (int \<times> ('k, 'z) master_scheme)) option" where
  "pcaio_array mf pt sleep env sigempty_rc sigaction_rc i n ts s =
    (case those ts of
       Some ts \<Rightarrow> pcaio mf pt sleep env sigempty_rc sigaction_rc i n ts s
     | None \<Rightarrow>
        (case master_init mf env n s of
           Inl e \<Rightarrow> Some (Inl e)
         | Inr (rc, s) \<Rightarrow>
            if rc \<noteq> 0 \<or> sigempty_rc \<noteq> 0 \<or> sigaction_rc \<noteq> 0 then Some (Inr (-1, s)) else Some (Inl NullDeref)))"

text \<open>The loop that creates the tasks: \<open>mem i\<close> is what \<open>malloc\<close>, \<open>getcontext\<close> and the
  allocation of the stack return in round \<open>i\<close>, \<open>va i\<close> the arguments.\<close>

fun new_tasks ::
  "(nat \<Rightarrow> addr option \<times> int \<times> addr option) \<Rightarrow> addr \<Rightarrow> (nat \<Rightarrow> addr list) \<Rightarrow> nat list
   \<Rightarrow> ('k, 'z) world_scheme \<Rightarrow> fault + (addr option list \<times> ('k, 'z) world_scheme)" where
  "new_tasks mem f va [] w = Inr ([], w)"
| "new_tasks mem f va (i # is) w =
    (case mem i of (mt, rc, ms) \<Rightarrow>
      and_then (pcaio_task_new mt rc ms (Some f) None (length (va i)) (va i) w) (\<lambda>(t, w).
        and_then (new_tasks mem f va is w) (\<lambda>(ts, w). Inr (t # ts, w))))"

section \<open>await.c\<close>

definition await_TASKS_MAX :: nat where "await_TASKS_MAX = 1"

definition await_WORKERS :: c_ushort where "await_WORKERS = 1"

definition await_subtaskA :: "(c_int \<Rightarrow> coro) \<Rightarrow> coro" where
  "await_subtaskA return = co_relaxA 0 (\<lambda>_. co_relaxA 0 (\<lambda>_. return 73))"

definition await_taskA :: coro where
  "await_taskA = co_relaxA 0 (\<lambda>_. await_subtaskA (\<lambda>v. co_relaxA 0 (\<lambda>_. leave 0)))"

definition await_main ::
  "(nat \<Rightarrow> addr option \<times> int \<times> addr option) \<Rightarrow> addr
   \<Rightarrow> ('k, 'z) master_scheme modfuns \<Rightarrow> ('k, 'z) master_scheme pthreads
   \<Rightarrow> (c_uint \<Rightarrow> ('k, 'z) master_scheme \<Rightarrow> ('k, 'z) master_scheme) \<Rightarrow> initenv \<Rightarrow> int \<Rightarrow> int \<Rightarrow> tid
   \<Rightarrow> ('k, 'z) master_scheme \<Rightarrow> (fault + (int \<times> ('k, 'z) master_scheme)) option" where
  "await_main mem taskA mf pt sleep env sigempty_rc sigaction_rc i s =
    (case new_tasks mem taskA (\<lambda>_. []) [0..<await_TASKS_MAX] s of
       Inl e \<Rightarrow> Some (Inl e)
     | Inr (ts, s) \<Rightarrow>
        (case pcaio_array mf pt sleep env sigempty_rc sigaction_rc i await_WORKERS ts s of
           None \<Rightarrow> None
         | Some (Inl e) \<Rightarrow> Some (Inl e)
         | Some (Inr (_, s)) \<Rightarrow> Some (Inr (0, s))))"

section \<open>minimal.c\<close>

definition minimal_TASKS_MAX :: nat where "minimal_TASKS_MAX = 60"

definition minimal_WORKERS :: c_ushort where "minimal_WORKERS = 3"

definition minimal_subtask :: coro where
  "minimal_subtask = co_self (\<lambda>t. co_relaxA 0 (\<lambda>_. co_relaxA 0 (\<lambda>_. leave 0)))"

text \<open>Call number 0 is the only one of the program.\<close>

definition minimal_taskmain :: coro where
  "minimal_taskmain =
    co_self (\<lambda>t. co_relaxA 0 (\<lambda>_. co_relaxA 0 (\<lambda>_. co_call 0 (\<lambda>_. leave 0))))"

definition minimal_calls ::
  "(tid \<Rightarrow> (coro frame, 'z) world_scheme \<Rightarrow> addr option \<times> int \<times> addr option) \<Rightarrow> addr \<Rightarrow> (coro, 'z) userland" where
  "minimal_calls mem subtask = \<lparr>u_callback = (\<lambda>_ _. Inr), u_call = (\<lambda>i n w.
     case mem i w of (mt, rc, ms) \<Rightarrow>
       and_then (pcaio_fschedule mt rc ms (Some subtask) None 0 [] w)
         (\<lambda>(tp, w). Inr (case tp of None \<Rightarrow> 0 | Some p \<Rightarrow> uint p, w)))\<rparr>"

definition minimal_main ::
  "(nat \<Rightarrow> addr option \<times> int \<times> addr option) \<Rightarrow> addr
   \<Rightarrow> ('k, 'z) master_scheme modfuns \<Rightarrow> ('k, 'z) master_scheme pthreads
   \<Rightarrow> (c_uint \<Rightarrow> ('k, 'z) master_scheme \<Rightarrow> ('k, 'z) master_scheme) \<Rightarrow> initenv \<Rightarrow> int \<Rightarrow> int \<Rightarrow> tid
   \<Rightarrow> ('k, 'z) master_scheme \<Rightarrow> (fault + (int \<times> ('k, 'z) master_scheme)) option" where
  "minimal_main mem taskmain mf pt sleep env sigempty_rc sigaction_rc i s =
    (case new_tasks mem taskmain (\<lambda>_. []) [0..<minimal_TASKS_MAX] s of
       Inl e \<Rightarrow> Some (Inl e)
     | Inr (ts, s) \<Rightarrow>
        (case pcaio_array mf pt sleep env sigempty_rc sigaction_rc i minimal_WORKERS ts s of
           None \<Rightarrow> None
         | Some (Inl e) \<Rightarrow> Some (Inl e)
         | Some (Inr (_, s)) \<Rightarrow> Some (Inr (0, s))))"

section \<open>Creating the tasks\<close>

lemma task_new_more: "task_new mt rc ms func status argc va w = Inr (tp, w') \<Longrightarrow> world.more w' = world.more w"
  by (auto simp: task_new_def Let_def and_then_Inr task_alloc_def heap_free_def task_put_def
      split: if_splits option.splits)

lemma new_tasks_run:
  assumes "world_rep w L Q" "inj_on pt (set is)" "distinct is"
    and "\<And>i. i \<in> set is \<Longrightarrow> mem i = (Some (pt i), 0, Some (st i)) \<and> pt i \<noteq> 0 \<and> heap w (pt i) = None \<and> length (va i) \<le> 6"
  shows "\<exists>w'. new_tasks mem f va is w = Inr (map (\<lambda>i. Some (pt i)) is, w') \<and>
    world_rep w' (L @ map pt is) Q \<and> ints w' = ints w \<and> world.more w' = world.more w \<and>
    (\<forall>p. p \<notin> pt ` set is \<longrightarrow> heap w' p = heap w p) \<and>
    (\<forall>i \<in> set is. job_rep start w' (pt i, None, start (Some f) (va i)))"
  using assms
proof (induction "is" arbitrary: w L)
  case Nil
  then show ?case by simp
next
  case (Cons i "is")
  from Cons.prems(4) [of i] have i: "mem i = (Some (pt i), 0, Some (st i))" "pt i \<noteq> 0" "heap w (pt i) = None"
    "length (va i) \<le> 6" by simp_all
  from task_new_success [OF Cons.prems(1) i(2,3), of "length (va i)" "va i" "st i" f None] obtain w1 where
    w1: "task_new (Some (pt i)) 0 (Some (st i)) (Some f) None (length (va i)) (va i) w = Inr (Some (pt i), w1)"
      "world_rep w1 (L @ [pt i]) Q" and
    heap1: "heap w1 = (heap w)(pt i := Some \<lparr>t_flags = 0, t_context = Entry (task_hi (pt i)) (task_lo (pt i)),
      t_stack = Some (st i), t_gather = None, t_terminated = None, t_status = None,
      t_func = Some f, t_callback = None, t_argc = length (va i), t_argv = va i\<rparr>)" by auto
  note frame = task_new_frame [OF w1(1)] task_new_more [OF w1(1)]
  have out: "pt i \<notin> pt ` set is" using Cons.prems(2,3) by auto
  have "mem j = (Some (pt j), 0, Some (st j)) \<and> pt j \<noteq> 0 \<and> heap w1 (pt j) = None \<and> length (va j) \<le> 6"
    if j: "j \<in> set is" for j
  proof -
    have "pt j \<noteq> pt i" using out j by (metis imageI)
    then show ?thesis using Cons.prems(4) [of j] j by (simp add: heap1)
  qed
  from Cons.IH [OF w1(2) _ _ this] Cons.prems(2,3) obtain w' where
    w': "new_tasks mem f va is w1 = Inr (map (\<lambda>i. Some (pt i)) is, w')"
      "world_rep w' (L @ map pt (i # is)) Q" "ints w' = ints w1" "world.more w' = world.more w1"
      "\<forall>p. p \<notin> pt ` set is \<longrightarrow> heap w' p = heap w1 p"
      "\<forall>i \<in> set is. job_rep start w' (pt i, None, start (Some f) (va i))" by auto
  have "job_rep start w' (pt i, None, start (Some f) (va i))"
    using w'(5) out i(4) by (simp add: heap1 taskmain_args_spec)
  then show ?case
    using w' frame i(1) w1(1) by (auto simp: pcaio_task_new_def heap1)
qed

lemma those_Some: "those (map (\<lambda>i. Some (f i)) xs) = Some (map f xs)"
  by (induction xs) simp_all

lemma more_of:
  "world.more s' = world.more (s :: 'u program) \<Longrightarrow>
    workers s' = workers s \<and> controls s' = controls s \<and> (installed s' ms \<longleftrightarrow> installed s ms)"
  by (cases s; cases s') (simp add: installed_def)

text \<open>A program that creates tasks of one function and calls \<open>pcaio\<close>.\<close>

lemma program_of_tasks:
  fixes s :: "coro program"
  assumes env: "crew_threads coro_op start cb pth" "crew_time coro_op start cb sleep" "env_fine env"
    and state: "workers s = 0" "installed s []" "controls s = []" "n \<noteq> 0" "unat n \<le> i" "world_rep s [] []"
    and mem: "is \<noteq> []" "distinct is" "inj_on pt (set is)"
      "\<And>i. i \<in> set is \<Longrightarrow> mem i = (Some (pt i), 0, Some (st i)) \<and> pt i \<noteq> 0 \<and> length (va i) \<le> 6"
    and halt: "\<And>i. i \<in> set is \<Longrightarrow> \<exists>k. halts coro_op start cb (\<lambda>_. True) (start (Some f) (va i)) k"
    and init: "\<forall>m s. f_init mf m s = (0, s)"
  shows "\<exists>ts s1 s2. new_tasks mem f va is s = Inr (ts, s1) \<and>
    pcaio_array mf pth sleep env 0 0 i n ts s1 = Some (Inr (0, s2)) \<and>
    (\<forall>p. heap s2 p = None) \<and> ints s2 = ints s \<and> workers s2 = 0 \<and> installed s2 []"
proof -
  have "heap s (pt i) = None" for i using world_rep_members [OF state(6), of "pt i"] by simp
  with new_tasks_run [OF state(6) mem(3,2), of mem st va f start] mem(4) obtain s1 where
    s1: "new_tasks mem f va is s = Inr (map (\<lambda>i. Some (pt i)) is, s1)" "world_rep s1 (map pt is) []"
      "ints s1 = ints s" "world.more s1 = world.more s"
      "\<forall>i \<in> set is. job_rep start s1 (pt i, None, start (Some f) (va i))" by auto
  let ?js = "map (\<lambda>i. (pt i, None, start (Some f) (va i))) is"
  have fst: "map fst ?js = map pt is" by (simp add: comp_def)
  have js: "?js \<noteq> []" "distinct (map fst ?js)" "set (map pt is) = fst ` set ?js" "\<forall>j \<in> set ?js. job_rep start s1 j"
    using mem(1-3) s1(5) unfolding fst by (simp_all add: distinct_map image_image del: job_rep.simps)
  have same: "workers s1 = 0" "installed s1 []" "controls s1 = []" using state(1-3) more_of [OF s1(4)] by simp_all
  have ends: "\<forall>(p, x, u) \<in> set ?js. \<exists>k. ends_in coro_op start cb (\<lambda>x e. e = ints s x) u x k"
    using halt by (auto simp: ends_in_def)
  have rest: "\<forall>x. x \<notin> statuses ?js \<longrightarrow> ints s1 x = ints s x" using s1(3) by simp
  from program_ends [where Ok = "\<lambda>x e. e = ints s x", OF env same state(4,5) s1(2) js ends rest init] obtain s2 where
    "pcaio mf pth sleep env 0 0 i n (map pt is) s1 = Some (Inr (0, s2))" "\<forall>p. heap s2 p = None"
    "\<forall>x. ints s2 x = ints s x" "workers s2 = 0" "installed s2 []" unfolding fst by blast
  then show ?thesis using s1(1) by (auto simp: pcaio_array_def those_Some fun_eq_iff)
qed

section \<open>Their functions return\<close>

lemma halts_leave: "Ok e \<Longrightarrow> halts coro_op start cb Ok (leave e) k"
  by (rule halts.returns) simp_all

lemma halts_relaxA: "halts coro_op start cb Ok (f 0) k \<Longrightarrow> halts coro_op start cb Ok (co_relaxA 0 f) (Suc k)"
  by (rule halts.relaxes) simp_all

lemma halts_self: "(\<And>x. halts coro_op start cb Ok (f x) k) \<Longrightarrow> halts coro_op start cb Ok (co_self f) (Suc k)"
  by (rule halts.asks [of coro_op _ f]) simp_all

lemmas halts_coro = halts_leave halts_relaxA halts_self

lemma await_halts: "Ok 0 \<Longrightarrow> halts coro_op start cb Ok await_taskA 4"
proof -
  assume ok: "Ok 0"
  have "halts coro_op start cb Ok await_taskA (Suc (Suc (Suc (Suc 0))))"
    unfolding await_taskA_def await_subtaskA_def by (intro halts_coro ok)
  then show ?thesis by (simp add: numeral_eq_Suc)
qed

lemma minimal_creates:
  assumes "\<And>i w. fresh_task (fst (mem i w)) w"
  shows "creates (minimal_calls mem subtask) 0 subtask 0 []"
proof -
  have "\<exists>mt rc ms. fresh_task mt w \<and> u_call (minimal_calls mem subtask) i 0 w =
      and_then (pcaio_fschedule mt rc ms (Some subtask) None 0 [] w)
        (\<lambda>(tp, w). Inr (case tp of None \<Rightarrow> 0 | Some p \<Rightarrow> uint p, w))" for i w
    using assms [of i w] by (cases "mem i w") (auto simp: minimal_calls_def)
  then show ?thesis by (simp add: creates_def)
qed

lemma minimal_halts:
  assumes "\<And>i w. fresh_task (fst (mem i w)) w" "start (Some subtask) [] = minimal_subtask" "Ok 0"
  shows "\<exists>k. halts coro_op start (minimal_calls mem subtask) Ok minimal_taskmain k"
proof -
  let ?cb = "minimal_calls mem subtask"
  have sub: "halts coro_op start ?cb (\<lambda>_. True) (start (Some subtask) (take 0 [])) (Suc (Suc (Suc 0)))"
    unfolding minimal_subtask_def using assms(2) by (auto simp: minimal_subtask_def intro!: halts_coro)
  have "halts coro_op start ?cb Ok (co_call 0 (\<lambda>_. leave 0)) (0 + Suc (Suc (Suc 0)) + 2)"
  proof (rule halts.spawns [where f = "\<lambda>_. leave 0" and g = subtask and argc = 0 and va = "[]"])
    show "creates ?cb 0 subtask 0 []" using assms(1) by (rule minimal_creates)
  qed (simp_all add: sub [simplified] halts_leave assms(3))
  then have "halts coro_op start ?cb Ok minimal_taskmain (Suc (Suc (Suc (0 + Suc (Suc (Suc 0)) + 2))))"
    unfolding minimal_taskmain_def by (intro halts_coro)
  then show ?thesis by blast
qed

section \<open>A sample state\<close>

definition minimal_blocks :: "nat \<Rightarrow> addr" where
  "minimal_blocks i = of_nat (64 * (i + 1))"

lemma minimal_blocks_unat: "i < 60 \<Longrightarrow> unat (minimal_blocks i) = 64 * (i + 1)"
  unfolding minimal_blocks_def by (subst unat_of_nat) simp

lemma minimal_blocks_inj: "inj_on minimal_blocks {0..<60}"
proof (rule inj_onI)
  fix a b :: nat assume *: "a \<in> {0..<60}" "b \<in> {0..<60}" "minimal_blocks a = minimal_blocks b"
  then have "64 * (a + 1) = 64 * (b + 1)" using minimal_blocks_unat by (metis atLeastLessThan_iff)
  then show "a = b" by simp
qed

lemma minimal_blocks_nonnull: "i < 60 \<Longrightarrow> minimal_blocks i \<noteq> 0"
  by (metis minimal_blocks_unat unat_0 add_is_0 mult_is_0 one_neq_zero zero_neq_numeral)

text \<open>The functions are at 7 and 9, and one block is left when the workers run.\<close>

definition sample_start :: "addr option \<Rightarrow> addr list \<Rightarrow> coro" where
  "sample_start f args = (if f = Some 7 then minimal_taskmain else if f = Some 9 then minimal_subtask
     else if f = Some 11 then await_taskA else leave 0)"

definition late_block :: "tid \<Rightarrow> (coro frame, 'z) world_scheme \<Rightarrow> addr option \<times> int \<times> addr option" where
  "late_block i w = (if heap w 8192 = None then Some 8192 else None, 0, Some 16384)"

section \<open>Properties\<close>

text \<open>\<open>await.c\<close> runs to its end: its task, which calls another function that
  yields, is run by the worker until it has returned; \<open>main\<close> returns 0, and the task is freed.\<close>

theorem await_returns:
  fixes s :: "coro program"
  assumes "crew_threads coro_op start cb pth" "crew_time coro_op start cb sleep" "env_fine env"
    and "workers s = 0" "installed s []" "controls s = []" "1 \<le> i" "world_rep s [] []"
    and "start (Some taskA) [] = await_taskA" "mem 0 = (Some p, 0, Some sp)" "p \<noteq> 0" "\<forall>m s. f_init mf m s = (0, s)"
  shows "\<exists>s'. await_main mem taskA mf pth sleep env 0 0 i s = Some (Inr (0, s')) \<and>
    (\<forall>q. heap s' q = None) \<and> ints s' = ints s \<and> workers s' = 0 \<and> installed s' []"
proof -
  have "\<exists>k. halts coro_op start cb (\<lambda>_. True) (start (Some taskA) []) k"
    unfolding assms(9) using await_halts [of "\<lambda>_. True"] by blast
  then obtain ts s1 s2 where "new_tasks mem taskA (\<lambda>_. []) [0] s = Inr (ts, s1)"
    "pcaio_array mf pth sleep env 0 0 i await_WORKERS ts s1 = Some (Inr (0, s2))"
    "\<forall>p. heap s2 p = None" "ints s2 = ints s" "workers s2 = 0" "installed s2 []"
    using program_of_tasks [OF assms(1-6), of await_WORKERS i "[0]" "\<lambda>_. p" mem "\<lambda>_. sp" "\<lambda>_. []" taskA mf]
      assms(7,8,10-12) by (auto simp: await_WORKERS_def)
  then show ?thesis by (simp add: await_main_def await_TASKS_MAX_def)
qed

text \<open>Property C13. \<open>minimal.c\<close> runs to its end: in whatever order its three workers run
  the sixty tasks and the tasks these create on the way (or fail to, for lack of memory),
  \<open>main\<close> returns 0, and everything is freed.\<close>

theorem minimal_returns:
  fixes s :: "coro program" and mem :: "nat \<Rightarrow> addr option \<times> int \<times> addr option"
  assumes "crew_threads coro_op start (minimal_calls mem' subtask) pth"
    and "crew_time coro_op start (minimal_calls mem' subtask) sleep" "env_fine env"
    and "workers s = 0" "installed s []" "controls s = []" "3 \<le> i" "world_rep s [] []"
    and "start (Some taskmain) [] = minimal_taskmain" "start (Some subtask) [] = minimal_subtask"
    and "inj_on pt {0..<60}" "\<And>i. i < 60 \<Longrightarrow> mem i = (Some (pt i), 0, Some (st i)) \<and> pt i \<noteq> 0"
    and "\<And>i w. fresh_task (fst (mem' i w)) w" "\<forall>m s. f_init mf m s = (0, s)"
  shows "\<exists>s'. minimal_main mem taskmain mf pth sleep env 0 0 i s = Some (Inr (0, s')) \<and>
    (\<forall>p. heap s' p = None) \<and> ints s' = ints s \<and> workers s' = 0 \<and> installed s' []"
proof -
  let ?is = "[0..<minimal_TASKS_MAX]"
  have halts: "\<exists>k. halts coro_op start (minimal_calls mem' subtask) (\<lambda>_. True) (start (Some taskmain) []) k"
    unfolding assms(9) by (rule minimal_halts [where mem = mem' and subtask = subtask and start = start, OF assms(13,10) TrueI])
  have set: "?is \<noteq> []" "distinct ?is" "inj_on pt (set ?is)" "minimal_WORKERS \<noteq> 0" "unat minimal_WORKERS \<le> i"
    using assms(7,11) by (simp_all add: minimal_TASKS_MAX_def minimal_WORKERS_def)
  have blocks: "mem i = (Some (pt i), 0, Some (st i)) \<and> pt i \<noteq> 0 \<and> length [] \<le> (6 :: nat)" if "i \<in> set ?is" for i
    using assms(12) that by (simp add: minimal_TASKS_MAX_def)
  from program_of_tasks [where va = "\<lambda>_. []", OF assms(1-6) set(4,5) assms(8) set(1-3) blocks halts assms(14)]
  show ?thesis by (auto simp: minimal_main_def)
qed

theorem await_returns_witness:
  "\<exists>s'. await_main (\<lambda>_. (Some 64, 0, Some 4096)) 11 quiet_mods (nudged_threads coro_op sample_start no_calls)
      (\<lambda>t. nudged coro_op sample_start no_calls) env1 0 0 9 (program_static (world0 :: coro frame world)) =
      Some (Inr (0, s')) \<and> (\<forall>q. heap s' q = None)"
proof -
  have pre: "env_fine env1" "workers (program_static (world0 :: coro frame world)) = 0"
    "controls (program_static (world0 :: coro frame world)) = []" "(1 :: nat) \<le> 9"
    "world_rep (program_static (world0 :: coro frame world)) [] []" "sample_start (Some 11) [] = await_taskA"
    "(\<lambda>_ :: nat. (Some (64 :: addr), 0 :: int, Some (4096 :: addr))) 0 = (Some 64, 0, Some 4096)" "(64 :: addr) \<noteq> 0"
    "\<forall>m s. f_init quiet_mods m s = (0, s)"
    using world0_rep by (simp_all add: env_fine_def env1_def quiet_mods_def sample_start_def world_rep_def)
  from await_returns [where start = sample_start and cb = no_calls and s = "program_static world0" and taskA = 11
      and mem = "\<lambda>_. (Some 64, 0, Some 4096)" and p = 64 and sp = 4096 and mf = quiet_mods, OF nudged_threads_laws nudged_time pre(1,2) program_static_installed pre(3-9)]
  show ?thesis by blast
qed

theorem minimal_returns_witness:
  "\<exists>s'. minimal_main (\<lambda>i. (Some (minimal_blocks i), 0, Some 4096)) 7 quiet_mods
      (nudged_threads coro_op sample_start (minimal_calls late_block 9))
      (\<lambda>t. nudged coro_op sample_start (minimal_calls late_block 9)) env1 0 0 9
      (program_static (world0 :: coro frame world)) = Some (Inr (0, s')) \<and> (\<forall>q. heap s' q = None)"
proof -
  have pre: "env_fine env1" "workers (program_static (world0 :: coro frame world)) = 0"
    "controls (program_static (world0 :: coro frame world)) = []" "(3 :: nat) \<le> 9"
    "world_rep (program_static (world0 :: coro frame world)) [] []" "sample_start (Some 7) [] = minimal_taskmain"
    "sample_start (Some 9) [] = minimal_subtask" "\<forall>m s. f_init quiet_mods m s = (0, s)"
    using world0_rep by (simp_all add: env_fine_def env1_def quiet_mods_def sample_start_def world_rep_def)
  have blocks: "(\<lambda>i. (Some (minimal_blocks i), 0 :: int, Some (4096 :: addr))) i = (Some (minimal_blocks i), 0, Some 4096) \<and>
      minimal_blocks i \<noteq> 0" if "i < 60" for i
    using minimal_blocks_nonnull [OF that] by simp
  have late: "fresh_task (fst (late_block i w)) w" for i and w :: "coro frame world"
    by (simp add: late_block_def fresh_task_def)
  from minimal_returns [where start = sample_start and mem' = late_block and subtask = 9 and taskmain = 7
      and s = "program_static world0" and mem = "\<lambda>i. (Some (minimal_blocks i), 0, Some 4096)" and pt = minimal_blocks
      and st = "\<lambda>_. 4096" and mf = quiet_mods, OF nudged_threads_laws nudged_time pre(1,2) program_static_installed pre(3-7)
      minimal_blocks_inj blocks late pre(8)]
  show ?thesis by blast
qed

end
