(* ===== verification/Timer.thy ===== *)
theory Timer
  imports Modio "HOL-Library.Signed_Division"
begin

text \<open>
  Sleeping on a timer descriptor, \<open>pcaio/timer.c\<close>. \<open>timerfd_settime\<close> is an argument
  that gets the descriptor and the relative time as seconds and nanoseconds. The open
  descriptors are a set, since the code opens and closes them.
\<close>

record 's timer =
  tm_fd :: int
  tm_iomod :: "'s await option"

text \<open>C division of \<open>time_t\<close> truncates.\<close>

definition settimeout ::
  "(int \<Rightarrow> int \<times> int \<Rightarrow> ('k, 'z) world_scheme \<Rightarrow> int \<times> ('k, 'z) world_scheme)
   \<Rightarrow> int \<Rightarrow> int \<Rightarrow> ('k, 'z) world_scheme \<Rightarrow> int \<times> ('k, 'z) world_scheme" where
  "settimeout settime fd ms w =
    (if ms = 0 \<or> fd < 0 then (-1, w\<lparr>errno := EINVAL\<rparr>)
     else case settime fd (ms sdiv 1000, (ms smod 1000) * 1000000) w of (rc, w) \<Rightarrow>
       if rc = -1 then (-1, w) else (0, w))"

text \<open>\<open>fd\<close> is the result of \<open>timerfd_create\<close>, \<open>mem\<close> whether \<open>malloc\<close>
  succeeds.\<close>

definition pcaio_timer_new ::
  "int \<Rightarrow> bool \<Rightarrow> 's await option \<Rightarrow> int set \<Rightarrow> 's timer option \<times> int set" where
  "pcaio_timer_new fd mem iomod fds =
    (if fd = -1 then (None, fds)
     else
       let fds = insert fd fds
       in if \<not> mem then (None, fds) else (Some \<lparr>tm_fd = fd, tm_iomod = iomod\<rparr>, fds))"

definition pcaio_timer_free :: "'s timer option \<Rightarrow> int set \<Rightarrow> int \<times> int set" where
  "pcaio_timer_free t fds = (case t of None \<Rightarrow> (-1, fds) | Some x \<Rightarrow> (0, fds - {tm_fd x}))"

definition sleepA_ms ::
  "(int \<Rightarrow> int \<times> int \<Rightarrow> ('k, 'z) world_scheme \<Rightarrow> int \<times> ('k, 'z) world_scheme)
   \<Rightarrow> ('k, 'z) world_scheme modio option \<Rightarrow> ('k, 'z) world_scheme timer \<Rightarrow> int
   \<Rightarrow> ('k, 'z) world_scheme \<Rightarrow> (int \<times> ('k, 'z) world_scheme) option" where
  "sleepA_ms settime md t ms w =
    (case settimeout settime (tm_fd t) ms w of (rc, w) \<Rightarrow>
      if rc \<noteq> 0 then Some (-1, w)
      else case tm_iomod t of
        Some aw \<Rightarrow> aw (tm_fd t) IOIN w
      | None \<Rightarrow> pcaio_modio_await md (tm_fd t) IOIN w)"

section \<open>The time asked for\<close>

lemma settimeout_pos:
  assumes "0 < ms" "0 \<le> fd"
  shows "settimeout settime fd ms w = (case settime fd (ms div 1000, ms mod 1000 * 1000000) w of (rc, w) \<Rightarrow>
    if rc = -1 then (-1, w) else (0, w))"
proof -
  have q: "ms sdiv 1000 = ms div 1000" using assms by (simp add: signed_divide_int_def)
  have r: "ms smod 1000 = ms mod 1000"
    using assms by (simp add: signed_modulo_int_def q minus_div_mult_eq_mod)
  show ?thesis using assms by (simp add: settimeout_def q r)
qed

text \<open>Out of memory, the descriptor stays open.\<close>

lemma timer_new_leaks: "fd \<noteq> -1 \<Longrightarrow> pcaio_timer_new fd False iomod fds = (None, insert fd fds)"
  by (simp add: pcaio_timer_new_def)

section \<open>Properties\<close>

text \<open>\<open>sleepA_ms\<close> for a positive number of milliseconds arms the timer with
  exactly that time, in normalised seconds and nanoseconds, and then waits for the descriptor
  with the timer's own monitor or, without one, the default one; zero milliseconds are refused
  with \<open>EINVAL\<close> and nothing is armed.\<close>

theorem sleepA_ms_spec:
  assumes "0 \<le> tm_fd t" "0 \<le> ms"
  shows "if ms = 0 then sleepA_ms settime md t ms w = Some (-1, w\<lparr>errno := EINVAL\<rparr>)
    else ms mod 1000 * 1000000 < 1000000000 \<and> ms div 1000 * 1000 + ms mod 1000 * 1000000 div 1000000 = ms \<and>
      sleepA_ms settime md t ms w =
        (case settime (tm_fd t) (ms div 1000, ms mod 1000 * 1000000) w of (rc, w1) \<Rightarrow>
          if rc = -1 then Some (-1, w1)
          else (case tm_iomod t of None \<Rightarrow> pcaio_modio_await md | Some aw \<Rightarrow> aw) (tm_fd t) IOIN w1)"
proof (cases "ms = 0")
  case True
  then show ?thesis by (simp add: sleepA_ms_def settimeout_def)
next
  case False
  then have pos: "0 < ms" using assms(2) by simp
  have "sleepA_ms settime md t ms w =
      (case settime (tm_fd t) (ms div 1000, ms mod 1000 * 1000000) w of (rc, w1) \<Rightarrow>
        if rc = -1 then Some (-1, w1)
        else (case tm_iomod t of None \<Rightarrow> pcaio_modio_await md | Some aw \<Rightarrow> aw) (tm_fd t) IOIN w1)"
    by (simp add: sleepA_ms_def settimeout_pos [OF pos assms(1)] split: prod.split option.split)
  with False show ?thesis by simp
qed

theorem sleepA_ms_spec_witness:
  "sleepA_ms (\<lambda>fd t w. (if t = (2, 750000000) then 0 else -1, w)) None
      \<lparr>tm_fd = 7, tm_iomod = Some (\<lambda>fd ev w. Some (0, w))\<rparr> 2750 (world0 :: unit world) = Some (0, world0)"
  using sleepA_ms_spec [of "\<lparr>tm_fd = 7, tm_iomod = Some (\<lambda>fd ev w. Some (0, w))\<rparr>" 2750
    "\<lambda>fd t w. (if t = (2, 750000000) then 0 else -1, w)" None "world0 :: unit world"] by simp

end
