(* ===== verification/Streams.thy ===== *)
theory Streams
  imports Timer
begin

text \<open>
  The tasks of the sample programs that do input and output: \<open>examples/epoll_echo.c\<close>,
  \<open>examples/epoll_pipe.c\<close> (\<open>select_echo.c\<close> and \<open>select_pipe.c\<close> have the same functions)
  and \<open>examples/asleep.c\<close>. They are run as functions on the state, over the wrappers of
  \<open>Modio\<close> and \<open>Timer\<close>, whose waiting lets other tasks run.
\<close>

section \<open>What the tasks see\<close>

text \<open>The local buffer of a task, what it has printed, and the open descriptors. The kernel
  is given by what each descriptor still has to answer to \<open>read\<close>, by what was written to
  it, one element per call, as for a pipe in packet mode, and by when it refuses to take more.\<close>

datatype answer = Data "c_uchar list" | Block | Fail int

record 'k streams = "'k world" +
  buff :: "c_uchar list"
  printed :: "c_uchar list"
  opened :: "int set"
  inbox :: "int \<Rightarrow> answer list"
  outbox :: "int \<Rightarrow> c_uchar list list"
  gate :: "int \<Rightarrow> answer list"

definition kernel_read :: "int \<Rightarrow> nat \<Rightarrow> ('k, 'z) streams_scheme \<Rightarrow> int \<times> ('k, 'z) streams_scheme" where
  "kernel_read fd count w =
    (case inbox w fd of
       [] \<Rightarrow> (0, w)
     | a # as \<Rightarrow>
        let w = w\<lparr>inbox := (inbox w)(fd := as)\<rparr>
        in case a of
             Data d \<Rightarrow>
              let d = take count d in (int (length d), w\<lparr>buff := d @ drop (length d) (buff w)\<rparr>)
           | Block \<Rightarrow> (-1, w\<lparr>errno := EAGAIN\<rparr>)
           | Fail e \<Rightarrow> (-1, w\<lparr>errno := e\<rparr>))"

definition kernel_write :: "int \<Rightarrow> nat \<Rightarrow> ('k, 'z) streams_scheme \<Rightarrow> int \<times> ('k, 'z) streams_scheme" where
  "kernel_write fd count w =
    (case gate w fd of
       Block # as \<Rightarrow> (-1, w\<lparr>errno := EAGAIN, gate := (gate w)(fd := as)\<rparr>)
     | Fail e # as \<Rightarrow> (-1, w\<lparr>errno := e, gate := (gate w)(fd := as)\<rparr>)
     | as \<Rightarrow> (int count, w\<lparr>outbox := (outbox w)(fd := outbox w fd @ [take count (buff w)]), gate := (gate w)(fd := tl as)\<rparr>))"

text \<open>\<open>printf\<close> with \<open>%.*s\<close>: at most \<open>n\<close> characters, up to a NUL.\<close>

definition printed_part :: "int \<Rightarrow> c_uchar list \<Rightarrow> c_uchar list" where
  "printed_part n b = takeWhile (\<lambda>c. c \<noteq> 0) (take (nat n) b)"

section \<open>epoll_echo.c\<close>

definition echo_CHUNKSIZE :: nat where "echo_CHUNKSIZE = 80"

partial_function (option) echo_loop ::
  "(int \<Rightarrow> nat \<Rightarrow> ('k, 'z) streams_scheme \<Rightarrow> int \<times> ('k, 'z) streams_scheme)
   \<Rightarrow> ('k, 'z) streams_scheme await \<Rightarrow> (c_int \<Rightarrow> ('k, 'z) streams_scheme \<Rightarrow> int \<times> ('k, 'z) streams_scheme)
   \<Rightarrow> ('k, 'z) streams_scheme \<Rightarrow> (int \<times> ('k, 'z) streams_scheme) option" where
  "echo_loop rd await relax w =
    (case readA (\<lambda>fd. rd fd echo_CHUNKSIZE) await relax 0 w of
       None \<Rightarrow> None
     | Some (ret, w) \<Rightarrow>
        if ret \<le> 0 then Some (ret, w)
        else echo_loop rd await relax (w\<lparr>printed := printed w @ printed_part ret (buff w)\<rparr>))"

text \<open>The greeting is \<open>hello\<close>.\<close>

definition echoA ::
  "c_uchar list \<Rightarrow> (int \<Rightarrow> nat \<Rightarrow> ('k, 'z) streams_scheme \<Rightarrow> int \<times> ('k, 'z) streams_scheme)
   \<Rightarrow> ('k, 'z) streams_scheme await \<Rightarrow> (c_int \<Rightarrow> ('k, 'z) streams_scheme \<Rightarrow> int \<times> ('k, 'z) streams_scheme)
   \<Rightarrow> ('k, 'z) streams_scheme \<Rightarrow> (int \<times> ('k, 'z) streams_scheme) option" where
  "echoA hello rd await relax w = echo_loop rd await relax (w\<lparr>printed := printed w @ hello\<rparr>)"

section \<open>epoll_pipe.c\<close>

definition pipe_CHUNKSIZE :: nat where "pipe_CHUNKSIZE = 64"

definition encode :: "c_uchar \<Rightarrow> c_uchar" where
  "encode b = (b mod 26) + (if b AND 0x80 \<noteq> 0 then 97 else 65)"

fun producer_loop ::
  "(int \<Rightarrow> nat \<Rightarrow> ('k, 'z) streams_scheme \<Rightarrow> int \<times> ('k, 'z) streams_scheme)
   \<Rightarrow> (int \<Rightarrow> nat \<Rightarrow> ('k, 'z) streams_scheme \<Rightarrow> int \<times> ('k, 'z) streams_scheme)
   \<Rightarrow> ('k, 'z) streams_scheme await \<Rightarrow> (c_int \<Rightarrow> ('k, 'z) streams_scheme \<Rightarrow> int \<times> ('k, 'z) streams_scheme)
   \<Rightarrow> int \<Rightarrow> int \<Rightarrow> nat \<Rightarrow> int \<Rightarrow> ('k, 'z) streams_scheme \<Rightarrow> (int \<times> ('k, 'z) streams_scheme) option" where
  "producer_loop rd wr await relax rfd fd 0 ret w = Some (ret, w)"
| "producer_loop rd wr await relax rfd fd (Suc n) ret w =
    (case readA (\<lambda>fd. rd fd pipe_CHUNKSIZE) await relax rfd w of
       None \<Rightarrow> None
     | Some (ret, w) \<Rightarrow>
        if ret \<le> 0 then Some (ret, w)
        else
          let w = w\<lparr>buff := map encode (take (nat ret) (buff w)) @ drop (nat ret) (buff w)\<rparr>
          in case writeA (\<lambda>fd. wr fd (nat ret)) await relax fd w of
               None \<Rightarrow> None
             | Some (ret, w) \<Rightarrow>
                if ret \<le> 0 then Some (ret, w) else producer_loop rd wr await relax rfd fd n ret w)"

text \<open>\<open>op\<close> is the call that opens \<open>/dev/urandom\<close>; \<open>close\<close> takes a descriptor out
  of the set.\<close>

definition producer ::
  "(('k, 'z) streams_scheme \<Rightarrow> int \<times> ('k, 'z) streams_scheme)
   \<Rightarrow> (int \<Rightarrow> nat \<Rightarrow> ('k, 'z) streams_scheme \<Rightarrow> int \<times> ('k, 'z) streams_scheme)
   \<Rightarrow> (int \<Rightarrow> nat \<Rightarrow> ('k, 'z) streams_scheme \<Rightarrow> int \<times> ('k, 'z) streams_scheme)
   \<Rightarrow> ('k, 'z) streams_scheme await \<Rightarrow> (c_int \<Rightarrow> ('k, 'z) streams_scheme \<Rightarrow> int \<times> ('k, 'z) streams_scheme)
   \<Rightarrow> int \<Rightarrow> ('k, 'z) streams_scheme \<Rightarrow> (int \<times> ('k, 'z) streams_scheme) option" where
  "producer op rd wr await relax fd w =
    (case op w of (rfd, w) \<Rightarrow>
      if rfd = -1 then Some (-1, w)
      else case producer_loop rd wr await relax rfd fd 16 0 w of
        None \<Rightarrow> None
      | Some (ret, w) \<Rightarrow> Some (if ret > 0 then 0 else ret, w\<lparr>opened := opened w - {fd} - {rfd}\<rparr>))"

partial_function (option) consumer_loop ::
  "(int \<Rightarrow> nat \<Rightarrow> ('k, 'z) streams_scheme \<Rightarrow> int \<times> ('k, 'z) streams_scheme)
   \<Rightarrow> ('k, 'z) streams_scheme await \<Rightarrow> (c_int \<Rightarrow> ('k, 'z) streams_scheme \<Rightarrow> int \<times> ('k, 'z) streams_scheme)
   \<Rightarrow> int \<Rightarrow> ('k, 'z) streams_scheme \<Rightarrow> (int \<times> ('k, 'z) streams_scheme) option" where
  "consumer_loop rd await relax fd w =
    (case readA (\<lambda>fd. rd fd pipe_CHUNKSIZE) await relax fd w of
       None \<Rightarrow> None
     | Some (ret, w) \<Rightarrow>
        if ret \<le> 0 then Some (ret, w)
        else consumer_loop rd await relax fd (w\<lparr>printed := printed w @ printed_part ret (buff w) @ [10]\<rparr>))"

definition consumer ::
  "(int \<Rightarrow> nat \<Rightarrow> ('k, 'z) streams_scheme \<Rightarrow> int \<times> ('k, 'z) streams_scheme)
   \<Rightarrow> ('k, 'z) streams_scheme await \<Rightarrow> (c_int \<Rightarrow> ('k, 'z) streams_scheme \<Rightarrow> int \<times> ('k, 'z) streams_scheme)
   \<Rightarrow> int \<Rightarrow> ('k, 'z) streams_scheme \<Rightarrow> (int \<times> ('k, 'z) streams_scheme) option" where
  "consumer rd await relax fd w =
    (case consumer_loop rd await relax fd w of
       None \<Rightarrow> None
     | Some (ret, w) \<Rightarrow> Some (ret, w\<lparr>opened := opened w - {fd}\<rparr>))"

section \<open>asleep.c\<close>

text \<open>A NULL timer is dereferenced by \<open>sleepA_ms\<close>.\<close>

fun asleep_loop ::
  "(int \<Rightarrow> int \<times> int \<Rightarrow> ('k, 'z) streams_scheme \<Rightarrow> int \<times> ('k, 'z) streams_scheme)
   \<Rightarrow> ('k, 'z) streams_scheme modio option \<Rightarrow> ('k, 'z) streams_scheme timer option \<Rightarrow> nat list
   \<Rightarrow> ('k, 'z) streams_scheme \<Rightarrow> (fault + ('k, 'z) streams_scheme) option" where
  "asleep_loop settime md timer [] w = Some (Inr w)"
| "asleep_loop settime md timer (i # is) w =
    (case timer of
       None \<Rightarrow> Some (Inl NullDeref)
     | Some t \<Rightarrow>
        (case sleepA_ms settime md t (50 + int i * 100) w of
           None \<Rightarrow> None
         | Some (rc, w) \<Rightarrow> if rc \<noteq> 0 then Some (Inr w) else asleep_loop settime md timer is w))"

definition asleep_taskA ::
  "int \<Rightarrow> bool \<Rightarrow> (int \<Rightarrow> int \<times> int \<Rightarrow> ('k, 'z) streams_scheme \<Rightarrow> int \<times> ('k, 'z) streams_scheme)
   \<Rightarrow> ('k, 'z) streams_scheme modio option \<Rightarrow> (c_int \<Rightarrow> ('k, 'z) streams_scheme \<Rightarrow> int \<times> ('k, 'z) streams_scheme)
   \<Rightarrow> ('k, 'z) streams_scheme \<Rightarrow> (fault + (c_int \<times> ('k, 'z) streams_scheme)) option" where
  "asleep_taskA tfd mem settime md relax w =
    (case pcaio_timer_new tfd mem None (opened w) of (timer, fds) \<Rightarrow>
      (case asleep_loop settime md timer [0..<5] (snd (relax 0 (w\<lparr>opened := fds\<rparr>))) of
         None \<Rightarrow> None
       | Some (Inl e) \<Rightarrow> Some (Inl e)
       | Some (Inr w) \<Rightarrow>
          Some (Inr (0, w\<lparr>opened := snd (pcaio_timer_free timer (opened w))\<rparr>))))"

section \<open>What a call returns\<close>

text \<open>Waiting succeeds, and the other tasks leave this one's descriptors alone.\<close>

definition undisturbed :: "('k, 'z) streams_scheme \<Rightarrow> ('k, 'z) streams_scheme \<Rightarrow> bool" where
  "undisturbed w w' \<longleftrightarrow> buff w' = buff w \<and> printed w' = printed w \<and> opened w' = opened w \<and>
    inbox w' = inbox w \<and> outbox w' = outbox w \<and> gate w' = gate w"

definition waits_fine ::
  "('k, 'z) streams_scheme await \<Rightarrow> (c_int \<Rightarrow> ('k, 'z) streams_scheme \<Rightarrow> int \<times> ('k, 'z) streams_scheme) \<Rightarrow> bool" where
  "waits_fine await relax \<longleftrightarrow>
    (\<forall>fd ev w. \<exists>w'. await fd ev w = Some (0, w') \<and> undisturbed w w') \<and> (\<forall>f w. undisturbed w (snd (relax f w)))"

text \<open>The first answer that ends a call, and the answers after it.\<close>

fun answered :: "answer list \<Rightarrow> answer \<times> answer list" where
  "answered [] = (Data [], [])"
| "answered (Data d # as) = (Data d, as)"
| "answered (Block # as) = answered as"
| "answered (Fail e # as) = (if RETRY e then answered as else (Fail e, as))"

definition given :: "nat \<Rightarrow> answer \<Rightarrow> c_uchar list" where
  "given n a = (case a of Data d \<Rightarrow> take n d | _ \<Rightarrow> [])"

definition status :: "nat \<Rightarrow> answer \<Rightarrow> int" where
  "status n a = (case a of Data d \<Rightarrow> int (length (take n d)) | _ \<Rightarrow> -1)"

lemma answered_not_block: "fst (answered as) \<noteq> Block"
  by (induction as rule: answered.induct) simp_all

lemma retry_again: "RETRY EAGAIN" "\<not> RETRY 0"
  by (simp_all add: RETRY_def EAGAIN_def EWOULDBLOCK_def EINPROGRESS_def)

lemma read_run:
  assumes "waits_fine await relax"
  shows "\<exists>w'. io_retry (kernel_read fd n) await fd ev w = Some (status n (fst (answered (inbox w fd))), w') \<and>
    buff w' = given n (fst (answered (inbox w fd))) @ drop (length (given n (fst (answered (inbox w fd))))) (buff w) \<and>
    inbox w' = (inbox w)(fd := snd (answered (inbox w fd))) \<and>
    printed w' = printed w \<and> opened w' = opened w \<and> outbox w' = outbox w \<and> gate w' = gate w"
proof (induction "inbox w fd" arbitrary: w rule: answered.induct)
  case 1
  then show ?case
    by (subst io_retry.simps)
      (simp add: kernel_read_def status_def given_def fun_upd_idem [of "inbox w" fd "[]"] flip: 1)
next
  case (2 d as)
  then show ?case
    by (subst io_retry.simps) (simp add: kernel_read_def status_def given_def Let_def flip: 2)
next
  case (3 as)
  let ?w = "w\<lparr>inbox := (inbox w)(fd := as), errno := EAGAIN\<rparr>"
  have sys: "kernel_read fd n w = (-1, ?w)" by (simp add: kernel_read_def Let_def flip: 3(2))
  from assms obtain w2 where w2: "await fd ev ?w = Some (0, w2)" "undisturbed ?w w2" unfolding waits_fine_def by blast
  have "as = inbox (w2\<lparr>errno := 0\<rparr>) fd" using w2(2) by (simp add: undisturbed_def)
  from 3(1) [OF this] show ?case
    using w2 by (subst io_retry.simps) (simp add: sys retry_again undisturbed_def flip: 3(2))
next
  case (4 e as)
  let ?w = "w\<lparr>inbox := (inbox w)(fd := as), errno := e\<rparr>"
  have sys: "kernel_read fd n w = (-1, ?w)" by (simp add: kernel_read_def Let_def flip: 4(2))
  show ?case
  proof (cases "RETRY e")
    case False
    then show ?thesis
      by (subst io_retry.simps) (simp add: sys status_def given_def flip: 4(2))
  next
    case True
    from assms obtain w2 where w2: "await fd ev ?w = Some (0, w2)" "undisturbed ?w w2" unfolding waits_fine_def by blast
    have "as = inbox (w2\<lparr>errno := 0\<rparr>) fd" using w2(2) by (simp add: undisturbed_def)
    from 4(1) [OF True this] show ?thesis
      using w2 True by (subst io_retry.simps) (simp add: sys undisturbed_def flip: 4(2))
  qed
qed

text \<open>A write: whether it is taken in the end.\<close>

fun admitted :: "answer list \<Rightarrow> bool \<times> answer list" where
  "admitted [] = (True, [])"
| "admitted (Data d # as) = (True, as)"
| "admitted (Block # as) = admitted as"
| "admitted (Fail e # as) = (if RETRY e then admitted as else (False, as))"

lemma write_run:
  assumes "waits_fine await relax"
  shows "\<exists>w'. io_retry (kernel_write fd n) await fd ev w = Some (if fst (admitted (gate w fd)) then int n else -1, w') \<and>
    outbox w' = (if fst (admitted (gate w fd)) then (outbox w)(fd := outbox w fd @ [take n (buff w)]) else outbox w) \<and>
    gate w' = (gate w)(fd := snd (admitted (gate w fd))) \<and>
    buff w' = buff w \<and> printed w' = printed w \<and> opened w' = opened w \<and> inbox w' = inbox w"
proof (induction "gate w fd" arbitrary: w rule: admitted.induct)
  case 1
  then show ?case by (subst io_retry.simps) (simp add: kernel_write_def flip: 1)
next
  case (2 d as)
  then show ?case by (subst io_retry.simps) (simp add: kernel_write_def flip: 2)
next
  case (3 as)
  let ?w = "w\<lparr>errno := EAGAIN, gate := (gate w)(fd := as)\<rparr>"
  have sys: "kernel_write fd n w = (-1, ?w)" by (simp add: kernel_write_def flip: 3(2))
  from assms obtain w2 where w2: "await fd ev ?w = Some (0, w2)" "undisturbed ?w w2" unfolding waits_fine_def by blast
  have "as = gate (w2\<lparr>errno := 0\<rparr>) fd" using w2(2) by (simp add: undisturbed_def)
  from 3(1) [OF this] show ?case
    using w2 by (cases "fst (admitted as)")
      (subst io_retry.simps, simp add: sys retry_again undisturbed_def flip: 3(2))+
next
  case (4 e as)
  let ?w = "w\<lparr>errno := e, gate := (gate w)(fd := as)\<rparr>"
  have sys: "kernel_write fd n w = (-1, ?w)" by (simp add: kernel_write_def flip: 4(2))
  show ?case
  proof (cases "RETRY e")
    case False
    then show ?thesis by (subst io_retry.simps) (simp add: sys flip: 4(2))
  next
    case True
    from assms obtain w2 where w2: "await fd ev ?w = Some (0, w2)" "undisturbed ?w w2" unfolding waits_fine_def by blast
    have "as = gate (w2\<lparr>errno := 0\<rparr>) fd" using w2(2) by (simp add: undisturbed_def)
    from 4(1) [OF True this] show ?thesis
      using w2 True by (cases "fst (admitted as)")
        (subst io_retry.simps, simp add: sys undisturbed_def flip: 4(2))+
  qed
qed

section \<open>Whole streams\<close>

text \<open>The chunks a loop of calls of \<open>read\<close> gets, up to the end of the file or an error,
  and the result of the last call.\<close>

function chunks :: "nat \<Rightarrow> answer list \<Rightarrow> c_uchar list list" where
  "chunks n as = (case answered as of (a, as') \<Rightarrow> if status n a \<le> 0 then [] else given n a # chunks n as')"
  by pat_completeness auto

function verdict :: "nat \<Rightarrow> answer list \<Rightarrow> int" where
  "verdict n as = (case answered as of (a, as') \<Rightarrow> if status n a \<le> 0 then status n a else verdict n as')"
  by pat_completeness auto

lemma answered_shorter: "status n (fst (answered as)) > 0 \<Longrightarrow> length (snd (answered as)) < length as"
  by (induction as rule: answered.induct) (auto simp: status_def split: if_splits)

termination chunks
  by (relation "measure (\<lambda>(n, as). length as)") (simp_all, metis answered_shorter fst_conv snd_conv not_le)

termination verdict
  by (relation "measure (\<lambda>(n, as). length as)") (simp_all, metis answered_shorter fst_conv snd_conv not_le)

declare chunks.simps [simp del] verdict.simps [simp del]

lemma given_length: "length (given n a) = nat (status n a)"
  by (cases a) (simp_all add: given_def status_def)

lemma chunks_stop: "status n (fst (answered as)) \<le> 0 \<Longrightarrow> chunks n as = [] \<and> verdict n as = status n (fst (answered as))"
  by (cases "answered as") (simp add: chunks.simps [of n as] verdict.simps [of n as])

lemma chunks_more:
  "status n (fst (answered as)) > 0 \<Longrightarrow> chunks n as = given n (fst (answered as)) # chunks n (snd (answered as)) \<and>
    verdict n as = verdict n (snd (answered as))"
  by (cases "answered as") (simp add: chunks.simps [of n as] verdict.simps [of n as])

lemma chunks_bounds: "d \<in> set (chunks n as) \<Longrightarrow> d \<noteq> [] \<and> length d \<le> n"
proof (induction n as rule: chunks.induct)
  case (1 n as)
  show ?case
  proof (cases "status n (fst (answered as)) \<le> 0")
    case True
    then show ?thesis using 1(2) chunks_stop by fastforce
  next
    case False
    have "length (given n (fst (answered as))) \<le> n" by (auto simp: given_def split: answer.splits)
    with False show ?thesis
      using 1 chunks_more [of n as] given_length [of n "fst (answered as)"]
      by (cases "answered as") auto
  qed
qed

lemma verdict_le: "verdict n as \<le> 0"
proof (induction n as rule: verdict.induct)
  case (1 n as)
  show ?case
  proof (cases "status n (fst (answered as)) \<le> 0")
    case True
    then show ?thesis using chunks_stop [of n as] by simp
  next
    case False
    then show ?thesis using 1 chunks_more [of n as] by (cases "answered as") auto
  qed
qed

lemma read_step:
  assumes "waits_fine await relax"
  obtains w' where "readA (\<lambda>fd. kernel_read fd n) await relax fd w = Some (status n (fst (answered (inbox w fd))), w')"
    "take (length (given n (fst (answered (inbox w fd))))) (buff w') = given n (fst (answered (inbox w fd)))"
    "inbox w' = (inbox w)(fd := snd (answered (inbox w fd)))" "printed w' = printed w" "opened w' = opened w"
    "outbox w' = outbox w" "gate w' = gate w"
proof -
  have same: "undisturbed w (snd (relax 0 w))" using assms by (simp add: waits_fine_def)
  then have inbox: "inbox (snd (relax 0 w)) = inbox w" by (simp add: undisturbed_def)
  from read_run [OF assms, of fd n IOIN "snd (relax 0 w)"] obtain w' where
    w': "io_retry (kernel_read fd n) await fd IOIN (snd (relax 0 w)) =
        Some (status n (fst (answered (inbox w fd))), w')"
      "buff w' = given n (fst (answered (inbox w fd))) @
        drop (length (given n (fst (answered (inbox w fd))))) (buff (snd (relax 0 w)))"
      "inbox w' = (inbox w)(fd := snd (answered (inbox w fd)))" "printed w' = printed (snd (relax 0 w))"
      "opened w' = opened (snd (relax 0 w))" "outbox w' = outbox (snd (relax 0 w))" "gate w' = gate (snd (relax 0 w))"
    unfolding inbox by blast
  show thesis
    by (rule that [of w']) (use w' same in \<open>simp_all add: readA_def undisturbed_def\<close>)
qed

lemma write_step:
  assumes "waits_fine await relax" "fst (admitted (gate w fd))"
  obtains w' where "writeA (\<lambda>fd. kernel_write fd n) await relax fd w = Some (int n, w')"
    "outbox w' = (outbox w)(fd := outbox w fd @ [take n (buff w)])"
    "gate w' = (gate w)(fd := snd (admitted (gate w fd)))" "printed w' = printed w" "opened w' = opened w"
    "inbox w' = inbox w"
proof -
  have same: "undisturbed w (snd (relax 0 w))" using assms by (simp add: waits_fine_def)
  then have gate: "gate (snd (relax 0 w)) = gate w" by (simp add: undisturbed_def)
  from write_run [OF assms(1), of fd n IOOUT "snd (relax 0 w)"] assms(2) obtain w' where
    w': "io_retry (kernel_write fd n) await fd IOOUT (snd (relax 0 w)) = Some (int n, w')"
      "outbox w' = (outbox (snd (relax 0 w)))
        (fd := outbox (snd (relax 0 w)) fd @ [take n (buff (snd (relax 0 w)))])"
      "gate w' = (gate w)(fd := snd (admitted (gate w fd)))" "printed w' = printed (snd (relax 0 w))"
      "opened w' = opened (snd (relax 0 w))" "inbox w' = inbox (snd (relax 0 w))"
    unfolding gate by auto
  show thesis
    by (rule that [of w']) (use w' same in \<open>simp_all add: writeA_def undisturbed_def\<close>)
qed

section \<open>The loops\<close>

definition text_of :: "c_uchar list \<Rightarrow> c_uchar list" where
  "text_of d = takeWhile (\<lambda>c. c \<noteq> 0) d"

lemma echo_loop_run:
  assumes "waits_fine await relax"
  shows "\<exists>w'. echo_loop kernel_read await relax w = Some (verdict echo_CHUNKSIZE (inbox w 0), w') \<and>
    printed w' = printed w @ concat (map text_of (chunks echo_CHUNKSIZE (inbox w 0))) \<and> opened w' = opened w \<and>
    outbox w' = outbox w"
proof (induction echo_CHUNKSIZE "inbox w 0" arbitrary: w rule: chunks.induct)
  case 1
  let ?a = "fst (answered (inbox w 0))" and ?as = "snd (answered (inbox w 0))"
  obtain w1 where w1: "readA (\<lambda>fd. kernel_read fd echo_CHUNKSIZE) await relax 0 w = Some (status echo_CHUNKSIZE ?a, w1)"
    "take (length (given echo_CHUNKSIZE ?a)) (buff w1) = given echo_CHUNKSIZE ?a"
    "inbox w1 = (inbox w)(0 := ?as)" "printed w1 = printed w" "opened w1 = opened w" "outbox w1 = outbox w"
    by (rule read_step [OF assms, of echo_CHUNKSIZE 0 w])
  show ?case
  proof (cases "status echo_CHUNKSIZE ?a \<le> 0")
    case True
    then show ?thesis using w1 chunks_stop [OF True] by (subst echo_loop.simps) simp
  next
    case False
    let ?w = "w1\<lparr>printed := printed w1 @ printed_part (status echo_CHUNKSIZE ?a) (buff w1)\<rparr>"
    have shown: "printed_part (status echo_CHUNKSIZE ?a) (buff w1) = text_of (given echo_CHUNKSIZE ?a)"
      using w1(2) by (simp add: printed_part_def text_of_def given_length)
    have "(?a, inbox ?w 0) = answered (inbox w 0)" "?as = inbox ?w 0" using w1(3) by simp_all
    from 1 [OF this(1) False] this(2) obtain w' where
      "echo_loop kernel_read await relax ?w = Some (verdict echo_CHUNKSIZE ?as, w')"
      "printed w' = printed ?w @ concat (map text_of (chunks echo_CHUNKSIZE ?as))" "opened w' = opened ?w"
      "outbox w' = outbox ?w" by auto
    then show ?thesis
      using False w1 shown chunks_more [of echo_CHUNKSIZE "inbox w 0"] by (subst echo_loop.simps) simp
  qed
qed

lemma consumer_loop_run:
  assumes "waits_fine await relax"
  shows "\<exists>w'. consumer_loop kernel_read await relax fd w = Some (verdict pipe_CHUNKSIZE (inbox w fd), w') \<and>
    printed w' = printed w @ concat (map (\<lambda>d. text_of d @ [10]) (chunks pipe_CHUNKSIZE (inbox w fd))) \<and>
    opened w' = opened w"
proof (induction pipe_CHUNKSIZE "inbox w fd" arbitrary: w rule: chunks.induct)
  case 1
  let ?a = "fst (answered (inbox w fd))" and ?as = "snd (answered (inbox w fd))"
  obtain w1 where w1: "readA (\<lambda>fd. kernel_read fd pipe_CHUNKSIZE) await relax fd w = Some (status pipe_CHUNKSIZE ?a, w1)"
    "take (length (given pipe_CHUNKSIZE ?a)) (buff w1) = given pipe_CHUNKSIZE ?a"
    "inbox w1 = (inbox w)(fd := ?as)" "printed w1 = printed w" "opened w1 = opened w"
    by (rule read_step [OF assms, of pipe_CHUNKSIZE fd w])
  show ?case
  proof (cases "status pipe_CHUNKSIZE ?a \<le> 0")
    case True
    then show ?thesis using w1 chunks_stop [OF True] by (subst consumer_loop.simps) simp
  next
    case False
    let ?w = "w1\<lparr>printed := printed w1 @ printed_part (status pipe_CHUNKSIZE ?a) (buff w1) @ [10]\<rparr>"
    have shown: "printed_part (status pipe_CHUNKSIZE ?a) (buff w1) = text_of (given pipe_CHUNKSIZE ?a)"
      using w1(2) by (simp add: printed_part_def text_of_def given_length)
    have "(?a, inbox ?w fd) = answered (inbox w fd)" "?as = inbox ?w fd" using w1(3) by simp_all
    from 1 [OF this(1) False] this(2) obtain w' where
      "consumer_loop kernel_read await relax fd ?w = Some (verdict pipe_CHUNKSIZE ?as, w')"
      "printed w' = printed ?w @ concat (map (\<lambda>d. text_of d @ [10]) (chunks pipe_CHUNKSIZE ?as))" "opened w' = opened ?w"
      by auto
    then show ?thesis
      using False w1 shown chunks_more [of pipe_CHUNKSIZE "inbox w fd"] by (subst consumer_loop.simps) simp
  qed
qed

text \<open>The gate of a descriptor that takes every packet in the end.\<close>

definition takes_all :: "answer list \<Rightarrow> bool" where
  "takes_all as \<longleftrightarrow> (\<forall>e. Fail e \<in> set as \<longrightarrow> RETRY e)"

lemma takes_all_admits: "takes_all as \<Longrightarrow> fst (admitted as) \<and> takes_all (snd (admitted as))"
  by (induction as rule: admitted.induct) (auto simp: takes_all_def)

lemma producer_loop_run:
  assumes fine: "waits_fine await relax" and gate: "takes_all (gate w fd)"
  shows "\<exists>r w'. producer_loop kernel_read kernel_write await relax rfd fd n ret w = Some (r, w') \<and>
    outbox w' = (outbox w)(fd := outbox w fd @ map (map encode) (take n (chunks pipe_CHUNKSIZE (inbox w rfd)))) \<and>
    opened w' = opened w \<and> printed w' = printed w \<and>
    (if length (chunks pipe_CHUNKSIZE (inbox w rfd)) < n then r = verdict pipe_CHUNKSIZE (inbox w rfd)
     else if n = 0 then r = ret else r > 0)"
  using gate
proof (induction n arbitrary: ret w)
  case 0
  then show ?case by simp
next
  case (Suc n)
  let ?a = "fst (answered (inbox w rfd))" and ?as = "snd (answered (inbox w rfd))"
  obtain w1 where w1: "readA (\<lambda>fd. kernel_read fd pipe_CHUNKSIZE) await relax rfd w = Some (status pipe_CHUNKSIZE ?a, w1)"
    "take (length (given pipe_CHUNKSIZE ?a)) (buff w1) = given pipe_CHUNKSIZE ?a"
    "inbox w1 = (inbox w)(rfd := ?as)" "printed w1 = printed w" "opened w1 = opened w"
    "outbox w1 = outbox w" "gate w1 = gate w"
    by (rule read_step [OF fine, of pipe_CHUNKSIZE rfd w])
  show ?case
  proof (cases "status pipe_CHUNKSIZE ?a \<le> 0")
    case True
    then show ?thesis using w1 chunks_stop [OF True] by simp
  next
    case False
    let ?n = "nat (status pipe_CHUNKSIZE ?a)"
    let ?w = "w1\<lparr>buff := map encode (take ?n (buff w1)) @ drop ?n (buff w1)\<rparr>"
    have len: "length (given pipe_CHUNKSIZE ?a) = ?n" by (rule given_length)
    then have buff: "take ?n (buff ?w) = map encode (given pipe_CHUNKSIZE ?a)"
      using w1(2) by (metis append_eq_conv_conj length_map select_convs(1) surjective update_convs(1))
    have g: "fst (admitted (gate ?w fd))" "takes_all (snd (admitted (gate ?w fd)))"
      using takes_all_admits [OF Suc.prems] w1(7) by simp_all
    obtain w2 where w2: "writeA (\<lambda>fd. kernel_write fd ?n) await relax fd ?w = Some (int ?n, w2)"
      "outbox w2 = (outbox ?w)(fd := outbox ?w fd @ [take ?n (buff ?w)])"
      "gate w2 = (gate ?w)(fd := snd (admitted (gate ?w fd)))" "printed w2 = printed ?w" "opened w2 = opened ?w"
      "inbox w2 = inbox ?w"
      by (rule write_step [OF fine g(1), of ?n])
    have tk: "takes_all (gate w2 fd)" using g(2) w2(3) by simp
    have inb: "inbox w2 rfd = ?as" using w2(6) w1(3) by simp
    from Suc.IH [OF tk, of "int ?n", unfolded inb] obtain r w' where
      "producer_loop kernel_read kernel_write await relax rfd fd n (int ?n) w2 = Some (r, w')"
      "outbox w' = (outbox w2)(fd := outbox w2 fd @ map (map encode) (take n (chunks pipe_CHUNKSIZE ?as)))"
      "opened w' = opened w2" "printed w' = printed w2"
      "if length (chunks pipe_CHUNKSIZE ?as) < n then r = verdict pipe_CHUNKSIZE ?as else if n = 0 then r = int ?n else r > 0"
      by (elim exE conjE) (rule that)
    then show ?thesis
      using False w1 w2 buff chunks_more [of pipe_CHUNKSIZE "inbox w rfd"]
      by (auto simp: Let_def split: if_splits)
  qed
qed

section \<open>The packets\<close>

definition is_letter :: "c_uchar \<Rightarrow> bool" where
  "is_letter c \<longleftrightarrow> 65 \<le> c \<and> c \<le> 90 \<or> 97 \<le> c \<and> c \<le> 122"

lemma encode_letter: "is_letter (encode b)"
proof -
  have small: "unat (b mod 26) < 26" by (simp add: unat_mod_distrib)
  show ?thesis
  proof (cases "b AND 0x80 \<noteq> 0")
    case True
    have "unat (encode b) = unat (b mod 26) + 97"
      using True small by (simp add: encode_def unat_word_ariths)
    then show ?thesis using small by (simp add: is_letter_def word_le_nat_alt)
  next
    case False
    have "unat (encode b) = unat (b mod 26) + 65"
      using False small by (simp add: encode_def unat_word_ariths)
    then show ?thesis using small by (simp add: is_letter_def word_le_nat_alt)
  qed
qed

lemma encode_text: "text_of (map encode d) = map encode d"
proof -
  have "encode b \<noteq> 0" for b using encode_letter [of b] by (auto simp: is_letter_def)
  then show ?thesis by (simp add: text_of_def takeWhile_eq_all_conv)
qed

lemma chunks_packets:
  "\<forall>d \<in> set ds. d \<noteq> [] \<and> length d \<le> n \<Longrightarrow> chunks n (map Data ds) = ds \<and> verdict n (map Data ds) = 0"
proof (induction ds)
  case Nil
  then show ?case using chunks_stop [of n "[]"] by (simp add: status_def)
next
  case (Cons d ds)
  have "fst (answered (map Data (d # ds))) = Data d" "snd (answered (map Data (d # ds))) = map Data ds" by simp_all
  moreover have "status n (Data d) > 0" "given n (Data d) = d" using Cons.prems by (simp_all add: status_def given_def)
  ultimately show ?case using Cons chunks_more [of n "map Data (d # ds)"] by simp
qed

section \<open>The timer\<close>

text \<open>The times of the loop of \<open>asleep.c\<close>.\<close>

lemma asleep_loop_run:
  assumes "tm_fd t \<ge> 0" "tm_iomod t = None"
    and settime: "\<And>x w. \<exists>w'. settime (tm_fd t) x w = (0, w') \<and> opened w' = opened w \<and> trace w' = trace w @ [x]"
    and wait: "\<And>fd ev w. \<exists>w'. pcaio_modio_await md fd ev w = Some (0, w') \<and> opened w' = opened w \<and> trace w' = trace w"
  shows "\<exists>w'. asleep_loop settime md (Some t) is w = Some (Inr w') \<and> opened w' = opened w \<and>
    trace w' = trace w @ map (\<lambda>i. ((50 + int i * 100) div 1000, (50 + int i * 100) mod 1000 * 1000000)) is"
proof (induction "is" arbitrary: w)
  case Nil
  then show ?case by simp
next
  case (Cons i "is")
  let ?ms = "50 + int i * 100"
  from settime [of "(?ms div 1000, ?ms mod 1000 * 1000000)" w] obtain w1 where
    w1: "settime (tm_fd t) (?ms div 1000, ?ms mod 1000 * 1000000) w = (0, w1)" "opened w1 = opened w"
      "trace w1 = trace w @ [(?ms div 1000, ?ms mod 1000 * 1000000)]" by blast
  from wait [of "tm_fd t" IOIN w1] obtain w2 where
    w2: "pcaio_modio_await md (tm_fd t) IOIN w1 = Some (0, w2)" "opened w2 = opened w1" "trace w2 = trace w1" by blast
  have "sleepA_ms settime md t ?ms w = Some (0, w2)"
    using settimeout_pos [of ?ms "tm_fd t" settime w] assms(1,2) w1(1) w2(1) by (simp add: sleepA_ms_def)
  with Cons.IH [of w2] w1(2,3) w2(2,3) show ?case by auto
qed

section \<open>A sample\<close>

text \<open>A kernel with one line to read, after a wait, and one random chunk; waiting returns at once.\<close>

definition streams0 :: "'z \<Rightarrow> (unit, 'z) streams_scheme" where
  "streams0 z = world.extend world0 \<lparr>buff = [], printed = [], opened = {0, 4},
     inbox = (\<lambda>fd. if fd = 0 then [Block, Data [104, 105], Block, Data [10]]
       else if fd = 5 then [Data [0, 200]] else []),
     outbox = (\<lambda>_. []), gate = (\<lambda>_. [Block]), \<dots> = z\<rparr>"

lemma streams0_simps [simp]:
  "inbox (streams0 z) 0 = [Block, Data [104, 105], Block, Data [10]]" "inbox (streams0 z) 5 = [Data [0, 200]]"
  "printed (streams0 z) = []" "outbox (streams0 z) fd = []" "gate (streams0 z) fd = [Block]" "opened (streams0 z) = {0, 4}"
  "streams.more (streams0 z) = z"
  by (simp_all add: streams0_def world.extend_def)

lemma at_once: "waits_fine (\<lambda>fd ev w. Some (0, w)) (\<lambda>f w. (0, w))"
  by (simp add: waits_fine_def undisturbed_def)

section \<open>Properties\<close>

text \<open>The echo program prints what it reads: whatever \<open>read\<close> answers and
  however often it would block, the task prints each chunk it gets, up to its first NUL, in order,
  until the end of the file or an error, which is its result.\<close>

theorem echo_prints:
  assumes "waits_fine await relax"
  shows "\<exists>w'. echoA hello kernel_read await relax w = Some (verdict echo_CHUNKSIZE (inbox w 0), w') \<and>
    printed w' = printed w @ hello @ concat (map text_of (chunks echo_CHUNKSIZE (inbox w 0))) \<and>
    verdict echo_CHUNKSIZE (inbox w 0) \<le> 0"
  using echo_loop_run [OF assms, of "w\<lparr>printed := printed w @ hello\<rparr>"] verdict_le by (auto simp: echoA_def)

theorem echo_prints_witness:
  "\<exists>w'. echoA [62] kernel_read (\<lambda>fd ev w. Some (0, w)) (\<lambda>f w. (0, w)) (streams0 ()) = Some (0, w') \<and>
    printed w' = [62, 104, 105, 10]"
proof -
  have "chunks echo_CHUNKSIZE [Block, Data [104, 105], Block, Data [10]] = [[104, 105], [10]]"
    "verdict echo_CHUNKSIZE [Block, Data [104, 105], Block, Data [10]] = 0"
    by (simp_all add: chunks.simps verdict.simps status_def given_def echo_CHUNKSIZE_def)
  then show ?thesis using echo_prints [OF at_once, of "[62]" "streams0 ()"] by (simp add: text_of_def)
qed

text \<open>Property C28. What the producer of the pipe programs sends is what the consumer prints:
  the first sixteen chunks of random bytes, or all there are, each turned into letters, one packet
  and one line for each; the producer returns 0 exactly if there were sixteen or the bytes ended
  without an error, and both close their descriptors.\<close>

theorem pipe_delivers:
  fixes w :: "('k, 'z) streams_scheme"
  assumes "waits_fine await relax" "takes_all (gate w out)" "outbox w out = []"
    and "\<And>w :: ('k, 'z) streams_scheme. op w = (rfd, w\<lparr>opened := insert rfd (opened w)\<rparr>)" "rfd \<noteq> -1"
  defines "packets \<equiv> take 16 (chunks pipe_CHUNKSIZE (inbox w rfd))"
  shows "\<exists>r w1. producer op kernel_read kernel_write await relax out w = Some (r, w1) \<and>
    (r = 0 \<longleftrightarrow> length packets = 16 \<or> verdict pipe_CHUNKSIZE (inbox w rfd) = 0) \<and>
    opened w1 = opened w - {out, rfd} \<and> (\<forall>d \<in> set (outbox w1 out). \<forall>c \<in> set d. is_letter c) \<and>
    (\<forall>w2 :: ('k, 'z) streams_scheme. inbox w2 inp = map Data (outbox w1 out) \<longrightarrow>
      (\<exists>w3. consumer kernel_read await relax inp w2 = Some (0, w3) \<and> opened w3 = opened w2 - {inp} \<and>
        printed w3 = printed w2 @ concat (map (\<lambda>d. map encode d @ [10]) packets)))"
proof -
  let ?w = "w\<lparr>opened := insert rfd (opened w)\<rparr>"
  from producer_loop_run [OF assms(1), of ?w out rfd 16 0] assms(2,3) obtain r w1 where
    w1: "producer_loop kernel_read kernel_write await relax rfd out 16 0 ?w = Some (r, w1)"
      "outbox w1 out = map (map encode) packets" "opened w1 = insert rfd (opened w)" and
    r: "if length (chunks pipe_CHUNKSIZE (inbox w rfd)) < 16 then r = verdict pipe_CHUNKSIZE (inbox w rfd) else r > 0"
    by (auto simp: packets_def)
  let ?w1 = "w1\<lparr>opened := opened w1 - {out} - {rfd}\<rparr>"
  have run: "producer op kernel_read kernel_write await relax out w = Some (if r > 0 then 0 else r, ?w1)"
    by (simp add: producer_def assms(4,5) w1(1))
  have "(if r > 0 then 0 else r) = 0 \<longleftrightarrow> length packets = 16 \<or> verdict pipe_CHUNKSIZE (inbox w rfd) = 0"
    using r verdict_le [of pipe_CHUNKSIZE "inbox w rfd"] by (auto simp: packets_def split: if_splits)
  moreover have "\<exists>w3. consumer kernel_read await relax inp w2 = Some (0, w3) \<and> opened w3 = opened w2 - {inp} \<and>
      printed w3 = printed w2 @ concat (map (\<lambda>d. map encode d @ [10]) packets)"
    if "inbox w2 inp = map Data (outbox ?w1 out)" for w2 :: "('k, 'z) streams_scheme"
  proof -
    have "d \<noteq> [] \<and> length d \<le> pipe_CHUNKSIZE" if "d \<in> set packets" for d
      using chunks_bounds [of d pipe_CHUNKSIZE "inbox w rfd"] that set_take_subset by (fastforce simp: packets_def)
    then have ok: "\<forall>d \<in> set (map (map encode) packets). d \<noteq> [] \<and> length d \<le> pipe_CHUNKSIZE" by simp
    have "inbox w2 inp = map Data (map (map encode) packets)" using that by (simp add: w1(2))
    with chunks_packets [OF ok] have "chunks pipe_CHUNKSIZE (inbox w2 inp) = map (map encode) packets"
      "verdict pipe_CHUNKSIZE (inbox w2 inp) = 0" by metis+
    with consumer_loop_run [OF assms(1), of inp w2] show ?thesis
      by (auto simp: consumer_def encode_text comp_def)
  qed
  moreover have "\<forall>d \<in> set (outbox ?w1 out). \<forall>c \<in> set d. is_letter c" using w1(2) encode_letter by auto
  moreover have "opened ?w1 = opened w - {out, rfd}" using w1(3) by auto
  ultimately show ?thesis using run by blast
qed

theorem pipe_delivers_witness:
  "\<exists>w1. producer (\<lambda>w. (5, w\<lparr>opened := insert 5 (opened w)\<rparr>)) kernel_read kernel_write (\<lambda>fd ev w. Some (0, w))
      (\<lambda>f w. (0, w)) 4 (streams0 ()) = Some (0, w1) \<and> opened w1 = {0}"
proof -
  have "verdict pipe_CHUNKSIZE [Data [0, 200]] = 0"
    by (simp add: verdict.simps status_def pipe_CHUNKSIZE_def)
  moreover have "takes_all (gate (streams0 ()) 4)" by (simp add: takes_all_def)
  ultimately show ?thesis
    using pipe_delivers [OF at_once, of "streams0 ()" 4 "\<lambda>w. (5, w\<lparr>opened := insert 5 (opened w)\<rparr>)" 5]
    by fastforce
qed

text \<open>When \<open>/dev/urandom\<close> cannot be opened, the producer leaves its end of the pipe open,
  and the consumer never sees the end of the file.\<close>

lemma producer_keeps_pipe_open:
  "op w = (-1, w) \<Longrightarrow> producer op rd wr await relax fd w = Some (-1, w)"
  by (simp add: producer_def)

text \<open>Property C29. The task of \<open>asleep.c\<close> sleeps five times, for 50, 150, 250, 350 and 450
  milliseconds, and leaves no descriptor open; but without a timer it dereferences NULL.\<close>

theorem asleep_sleeps:
  assumes "tfd \<ge> 0"
    and "\<And>x w. \<exists>w'. settime tfd x w = (0, w') \<and> opened w' = opened w \<and> trace w' = trace w @ [x]"
    and "\<And>fd ev w. \<exists>w'. pcaio_modio_await md fd ev w = Some (0, w') \<and> opened w' = opened w \<and> trace w' = trace w"
    and "\<And>f w. opened (snd (relax f w)) = opened w \<and> trace (snd (relax f w)) = trace w"
    and "\<And>fds w. trace (w\<lparr>opened := fds\<rparr>) = trace w"
  shows "(\<exists>w'. asleep_taskA tfd True settime md relax w = Some (Inr (0, w')) \<and> opened w' = opened w - {tfd} \<and>
      trace w' = trace w @ [(0, 50000000), (0, 150000000), (0, 250000000), (0, 350000000), (0, 450000000)]) \<and>
    asleep_taskA tfd False settime md relax w = Some (Inl NullDeref)"
proof
  let ?t = "\<lparr>tm_fd = tfd, tm_iomod = None\<rparr>" and ?w = "snd (relax 0 (w\<lparr>opened := insert tfd (opened w)\<rparr>))"
  have new: "pcaio_timer_new tfd True None (opened w) = (Some ?t, insert tfd (opened w))"
    using assms(1) by (simp add: pcaio_timer_new_def)
  from asleep_loop_run [of ?t settime trace md "[0..<5]" ?w] assms(1-3) obtain w1 where
    w1: "asleep_loop settime md (Some ?t) [0..<5] ?w = Some (Inr w1)" "opened w1 = opened ?w"
      "trace w1 = trace ?w @ map (\<lambda>i. ((50 + int i * 100) div 1000, (50 + int i * 100) mod 1000 * 1000000)) [0..<5]"
    by auto
  have "map (\<lambda>i. ((50 + int i * 100) div 1000, (50 + int i * 100) mod 1000 * 1000000)) [0..<5] =
      [(0, 50000000), (0, 150000000), (0, 250000000), (0, 350000000), (0, 450000000)]" by (simp add: upt_rec)
  with w1(3) assms(4,5) have "trace w1 = trace w @ [(0, 50000000), (0, 150000000), (0, 250000000), (0, 350000000), (0, 450000000)]"
    by simp
  moreover have "asleep_taskA tfd True settime md relax w = Some (Inr (0, w1\<lparr>opened := opened w1 - {tfd}\<rparr>))"
    unfolding asleep_taskA_def new prod.case w1(1) by (simp add: pcaio_timer_free_def)
  moreover have "opened w1 = insert tfd (opened w)" using w1(2) assms(4) by simp
  ultimately show "\<exists>w'. asleep_taskA tfd True settime md relax w = Some (Inr (0, w')) \<and> opened w' = opened w - {tfd} \<and>
      trace w' = trace w @ [(0, 50000000), (0, 150000000), (0, 250000000), (0, 350000000), (0, 450000000)]"
    using assms(5) by auto
  show "asleep_taskA tfd False settime md relax w = Some (Inl NullDeref)"
    using assms(1) by (simp add: asleep_taskA_def pcaio_timer_new_def upt_rec)
qed

theorem asleep_sleeps_witness:
  "\<exists>w'. asleep_taskA 7 True (\<lambda>fd x w. (0, streams.more_update (\<lambda>l. l @ [x]) w))
      (Some \<lparr>io_self = 8, io_await = \<lambda>fd ev w. Some (0, w)\<rparr>) (\<lambda>f w. (0, w)) (streams0 []) = Some (Inr (0, w')) \<and>
    length (streams.more w') = 5"
  using asleep_sleeps [of 7 "\<lambda>fd x w. (0, streams.more_update (\<lambda>l. l @ [x]) w)" streams.more
      "Some \<lparr>io_self = 8, io_await = \<lambda>fd ev w. Some (0, w)\<rparr>" "\<lambda>f w. (0, w)" "streams0 []"]
  by (auto simp: pcaio_modio_await_def)

end
