(* ===== verification/Monitor.thy ===== *)
theory Monitor
  imports Waiting Scheduler "HOL-Library.Multiset"
begin

text \<open>
  A worker and an I/O monitor together, on tasks that compute, yield, wait for descriptors and
  return. What they rely on of each other is the locale \<open>monitor\<close>: the tick takes the events of
  waiting tasks and queues the tasks again, and the call that waits gives it an event. From that
  follows, for every interleaving, that nothing is lost. \<open>Reactor\<close> interprets it with the monitor on
  \<open>select\<close>, \<open>Poller\<close> with the one on epoll.
\<close>

section \<open>Tasks that wait for descriptors\<close>

type_synonym ('u, 'z) iost = "('u frame, 'z) iostate_scheme"

text \<open>What does not change: the program, the request behind each numbered call, the address of
  the event on each task's stack, the worker's thread, the limits of the monitor and the
  descriptors it can watch.\<close>

record 'u reactor =
  r_prog :: "'u \<Rightarrow> 'u uop"
  r_start :: "addr option \<Rightarrow> addr list \<Rightarrow> 'u"
  r_req :: "nat \<Rightarrow> int \<times> c_int"
  r_slot :: "addr \<Rightarrow> addr"
  r_tid :: tid
  r_max :: c_ushort
  r_cap :: nat
  r_fits :: "int \<Rightarrow> bool"

text \<open>A task waits with two calls around \<open>pcaio_relaxA\<close>: the even one enters the event, the
  odd one reads it and takes it away.\<close>

definition io_calls ::
  "(('u, 'y) reactor_scheme \<Rightarrow> tid \<Rightarrow> addr \<Rightarrow> int \<Rightarrow> c_int \<Rightarrow> ('u, 'z) iost \<Rightarrow> fault + (int \<times> ('u, 'z) iost))
   \<Rightarrow> (addr \<Rightarrow> ('u, 'z) iost \<Rightarrow> fault + (c_int \<times> ('u, 'z) iost)) \<Rightarrow> ('u, 'y) reactor_scheme \<Rightarrow> ('u, 'z iostate_ext master_ext) userland" where
  "io_calls enter report R = \<lparr>u_callback = (\<lambda>_ _. Inr), u_call = (\<lambda>i n s.
     case pcaio_self i s of
       None \<Rightarrow> Inr (-1, s)
     | Some p \<Rightarrow>
        if even n then (case r_req R (n div 2) of (fd, ev) \<Rightarrow> enter R i (r_slot R p) fd ev s)
        else and_then (report (r_slot R p) s) (\<lambda>(r, s). Inr (sint r, s)))\<rparr>"

text \<open>Two threads on one state, the second of which is told what the kernel answers.\<close>

inductive duo_step ::
  "('c \<Rightarrow> 's \<Rightarrow> (fault + ('c \<times> 's)) option) \<Rightarrow> ('a \<Rightarrow> 'm \<Rightarrow> 's \<Rightarrow> (fault + ('m \<times> 's)) option) \<Rightarrow> ('m \<Rightarrow> 's \<Rightarrow> 'a \<Rightarrow> bool)
   \<Rightarrow> 'c \<times> 'm \<times> 's \<Rightarrow> 'c \<times> 'm \<times> 's \<Rightarrow> bool" for work tick answers where
  work: "work c s = Some (Inr (c', s')) \<Longrightarrow> duo_step work tick answers (c, m, s) (c', m, s')"
| poll: "answers m s ans \<Longrightarrow> tick ans m s = Some (Inr (m', s')) \<Longrightarrow> duo_step work tick answers (c, m, s) (c, m', s')"

definition duo_faults ::
  "('c \<Rightarrow> 's \<Rightarrow> (fault + ('c \<times> 's)) option) \<Rightarrow> ('a \<Rightarrow> 'm \<Rightarrow> 's \<Rightarrow> (fault + ('m \<times> 's)) option) \<Rightarrow> ('m \<Rightarrow> 's \<Rightarrow> 'a \<Rightarrow> bool)
   \<Rightarrow> 'c \<times> 'm \<times> 's \<Rightarrow> bool" where
  "duo_faults work tick answers x \<longleftrightarrow> (case x of (c, m, s) \<Rightarrow>
     (\<exists>e. work c s = Some (Inl e)) \<or> (\<exists>ans e. answers m s ans \<and> tick ans m s = Some (Inl e)))"

text \<open>The steps of a tick that nobody interrupts, \<open>ans\<close> being the answer.\<close>

definition tick_small ::
  "('a \<Rightarrow> 'm \<Rightarrow> 's \<Rightarrow> (fault + ('m \<times> 's)) option) \<Rightarrow> 'a \<Rightarrow> 'm \<times> 's \<Rightarrow> 'm \<times> 's \<Rightarrow> bool" where
  "tick_small tick ans x y \<longleftrightarrow> tick ans (fst x) (snd x) = Some (Inr y)"

definition tick_fails ::
  "('a \<Rightarrow> 'm \<Rightarrow> 's \<Rightarrow> (fault + ('m \<times> 's)) option) \<Rightarrow> 'a \<Rightarrow> 'm \<times> 's \<Rightarrow> fault \<Rightarrow> bool" where
  "tick_fails tick ans x f \<longleftrightarrow> (\<exists>m s. (tick_small tick ans)\<^sup>*\<^sup>* x (m, s) \<and> tick ans m s = Some (Inl f))"

lemma tick_small_step:
  "tick_small tick ans (m, s) y \<Longrightarrow> (tick_small tick ans)\<^sup>*\<^sup>* y z \<Longrightarrow> (tick_small tick ans)\<^sup>*\<^sup>* (m, s) z"
  by (rule converse_rtranclp_into_rtranclp)

lemma tick_fails_now: "tick ans m s = Some (Inl f) \<Longrightarrow> tick_fails tick ans (m, s) f"
  unfolding tick_fails_def by blast

lemma tick_fails_later:
  "(\<And>z. (tick_small tick ans)\<^sup>*\<^sup>* y z \<Longrightarrow> (tick_small tick ans)\<^sup>*\<^sup>* x z) \<Longrightarrow> tick_fails tick ans y f \<Longrightarrow> tick_fails tick ans x f"
  unfolding tick_fails_def by blast

text \<open>A run with the number of steps the first takes in it.\<close>

inductive duo_run ::
  "('c \<Rightarrow> 's \<Rightarrow> (fault + ('c \<times> 's)) option) \<Rightarrow> ('a \<Rightarrow> 'm \<Rightarrow> 's \<Rightarrow> (fault + ('m \<times> 's)) option) \<Rightarrow> ('m \<Rightarrow> 's \<Rightarrow> 'a \<Rightarrow> bool)
   \<Rightarrow> nat \<Rightarrow> 'c \<times> 'm \<times> 's \<Rightarrow> 'c \<times> 'm \<times> 's \<Rightarrow> bool" for work tick answers where
  stay: "duo_run work tick answers 0 x x"
| works: "duo_run work tick answers k x (c, m, s) \<Longrightarrow> work c s = Some (Inr (c', s')) \<Longrightarrow>
    duo_run work tick answers (Suc k) x (c', m, s')"
| polls: "duo_run work tick answers k x (c, m, s) \<Longrightarrow> answers m s ans \<Longrightarrow> tick ans m s = Some (Inr (m', s')) \<Longrightarrow>
    duo_run work tick answers k x (c, m', s')"

abbreviation io_work ::
  "(('u, 'y) reactor_scheme \<Rightarrow> ('u, 'z iostate_ext master_ext) userland) \<Rightarrow> ('u, 'y) reactor_scheme \<Rightarrow> 'u control \<Rightarrow> ('u, 'z) iost
   \<Rightarrow> (fault + ('u control \<times> ('u, 'z) iost)) option" where
  "io_work calls R \<equiv> thread_step (r_prog R) (r_start R) (calls R) (r_tid R)"

text \<open>\<open>serves R u k\<close>: the rest \<open>u\<close> of a function returns after at most \<open>k\<close> yields and
  waits, each of them for a descriptor that the monitor can watch; \<open>parks R u k\<close>: it is about
  to look at what its wait has found.\<close>

inductive serves :: "('u, 'y) reactor_scheme \<Rightarrow> 'u \<Rightarrow> nat \<Rightarrow> bool" for R where
  returns: "r_prog R u = Return e \<Longrightarrow> serves R u k"
| relaxes: "r_prog R u = Relax 0 f \<Longrightarrow> serves R (f 0) k \<Longrightarrow> serves R u (Suc k)"
| waits: "r_prog R u = Call (2 * n) g \<Longrightarrow> r_req R n = (fd, ev) \<Longrightarrow> 0 \<le> fd \<Longrightarrow> r_fits R fd \<Longrightarrow> ev \<noteq> 0 \<Longrightarrow>
    r_prog R (g 0) = Relax TASK_NOSCHEDULE h \<Longrightarrow> r_prog R (h 0) = Call (2 * n + 1) f \<Longrightarrow>
    (\<And>r. serves R (f r) k) \<Longrightarrow> serves R u (Suc k)"

definition parks :: "('u, 'y) reactor_scheme \<Rightarrow> 'u \<Rightarrow> nat \<Rightarrow> bool" where
  "parks R u k \<longleftrightarrow> (\<exists>n f. r_prog R u = Call (2 * n + 1) f \<and> (\<forall>r. serves R (f r) k))"

section \<open>Where a task stands\<close>

text \<open>A task that is not running, its function to be continued at \<open>u\<close>.\<close>

definition stands :: "('u, 'y) reactor_scheme \<Rightarrow> ('u, 'z) iost \<Rightarrow> addr \<Rightarrow> 'u \<Rightarrow> bool" where
  "stands R s p u \<longleftrightarrow> (\<exists>t. heap s p = Some t \<and> t_flags t = 0 \<and> t_terminated t = None \<and> t_callback t = None \<and>
     resumes (r_start R) p t u)"

definition plain :: "('u, 'z) iost \<Rightarrow> addr \<Rightarrow> bool" where
  "plain s p \<longleftrightarrow> (\<exists>t. heap s p = Some t \<and> t_flags t = 0 \<and> t_terminated t = None \<and> t_callback t = None)"

definition ready :: "('u, 'y) reactor_scheme \<Rightarrow> ('u, 'z) iost \<Rightarrow> addr \<Rightarrow> nat \<Rightarrow> bool" where
  "ready R s p k \<longleftrightarrow> (\<exists>u. stands R s p u \<and> serves R u k) \<and> ioevents s (r_slot R p) = None"

definition parked :: "('u, 'y) reactor_scheme \<Rightarrow> ('u, 'z) iost \<Rightarrow> addr \<Rightarrow> nat \<Rightarrow> bool" where
  "parked R s p k \<longleftrightarrow> (\<exists>u. stands R s p u \<and> parks R u k) \<and> ioevents s (r_slot R p) \<noteq> None"

definition dozing :: "('u, 'y) reactor_scheme \<Rightarrow> ('u, 'z) iost \<Rightarrow> addr \<Rightarrow> nat \<Rightarrow> bool" where
  "dozing R s p k \<longleftrightarrow> ioevents s (r_slot R p) \<noteq> None \<and>
    (\<exists>t u. heap s p = Some t \<and> t_flags t = TASK_NOSCHEDULE \<and> t_terminated t = None \<and> t_callback t = None \<and>
      t_context t = Saved (Relaxed u) \<and> parks R u k)"

text \<open>The function of a task in its worker's hands.\<close>

definition running :: "('u, 'y) reactor_scheme \<Rightarrow> ('u, 'z) iost \<Rightarrow> addr \<Rightarrow> 'u \<Rightarrow> bool \<Rightarrow> nat \<Rightarrow> bool" where
  "running R s p u b n \<longleftrightarrow> plain s p \<and>
    ((\<exists>k. \<not> b \<and> serves R u k \<and> ioevents s (r_slot R p) = None \<and> n = 10 * k + 2) \<or>
     (\<exists>k. \<not> b \<and> parks R u k \<and> ioevents s (r_slot R p) \<noteq> None \<and> n = 10 * k + 6) \<or>
     (\<exists>k h. b \<and> r_prog R u = Relax TASK_NOSCHEDULE h \<and> parks R (h 0) k \<and> ioevents s (r_slot R p) \<noteq> None \<and>
        n = 10 * k + 10))"

text \<open>Where task \<open>p\<close> is, and how many steps of the worker it needs at most: \<open>q\<close> is whether
  it is queued, \<open>r\<close> whether its event is with the monitor. A task that waits is one or the
  other, never both.\<close>

definition aside :: "('u, 'y) reactor_scheme \<Rightarrow> ('u, 'z) iost \<Rightarrow> addr \<Rightarrow> bool \<Rightarrow> bool \<Rightarrow> nat \<Rightarrow> bool" where
  "aside R s p q r n \<longleftrightarrow>
    q \<and> \<not> r \<and> (\<exists>k. ready R s p k \<and> n = 10 * k + 4) \<or> q \<noteq> r \<and> (\<exists>k. parked R s p k \<and> n = 10 * k + 8)"

fun phase ::
  "('u, 'y) reactor_scheme \<Rightarrow> 'u control \<Rightarrow> ('u, 'z) iost \<Rightarrow> addr \<Rightarrow> bool \<Rightarrow> bool \<Rightarrow> nat \<Rightarrow> bool" where
  "phase R (Fetched x) s p q r n =
    (if x = p then \<not> q \<and> \<not> r \<and> (\<exists>k. ready R s p k \<and> n = 10 * k + 3 \<or> parked R s p k \<and> n = 10 * k + 7)
     else aside R s p q r n)"
| "phase R (Inside x pl) s p q r n =
    (if x = p then \<exists>u b. pl = Run p u \<and> running R s p u b n \<and> (if b then q \<noteq> r else \<not> q \<and> \<not> r)
     else aside R s p q r n)"
| "phase R (Landed x ret) s p q r n =
    (if x = p then ret = 0 \<and>
      (\<not> q \<and> \<not> r \<and> (\<exists>k. ready R s p k \<and> n = 10 * k + 5) \<or>
       q \<noteq> r \<and> (\<exists>k. dozing R s p k \<and> n = 10 * k + 9) \<or>
       \<not> q \<and> \<not> r \<and> ioevents s (r_slot R p) = None \<and>
         (\<exists>t. heap s p = Some t \<and> t_flags t AND TASK_TERMINATED \<noteq> 0) \<and> n = 1)
     else aside R s p q r n)"
| "phase R Looping s p q r n = aside R s p q r n"
| "phase R (Stopped e) s p q r n \<longleftrightarrow> False"
| "phase R Vanished s p q r n \<longleftrightarrow> False"

fun loops :: "'u control \<Rightarrow> bool" where
  "loops (Stopped e) = False"
| "loops Vanished = False"
| "loops c = True"

text \<open>An event of task \<open>p\<close> that asks for something, and the events with the monitor.\<close>

definition awaits :: "('u, 'y) reactor_scheme \<Rightarrow> (addr \<Rightarrow> ioevent option) \<Rightarrow> addr \<Rightarrow> addr \<Rightarrow> bool" where
  "awaits R evs a p \<longleftrightarrow> (\<exists>v. evs a = Some v \<and> e_task v = p \<and> e_events v \<noteq> 0 \<and> 0 \<le> e_fd v \<and> r_fits R (e_fd v))"

definition watched :: "('u, 'y) reactor_scheme \<Rightarrow> ('u, 'z) iost \<Rightarrow> addr list \<Rightarrow> addr list \<Rightarrow> bool" where
  "watched R s L W \<longleftrightarrow> distinct W \<and> (\<forall>a \<in> set W. \<exists>p \<in> set L. a = r_slot R p \<and> awaits R (ioevents s) a p)"

text \<open>The invariant: \<open>L\<close> are the tasks, \<open>Q\<close> the queued ones, \<open>W\<close> the events with the monitor,
  and \<open>mon m s W\<close> is what holds of the monitor itself, standing at \<open>m\<close>.\<close>

definition io_inv ::
  "(('u, 'y) reactor_scheme \<Rightarrow> 'm \<Rightarrow> ('u, 'z) iost \<Rightarrow> addr list \<Rightarrow> bool) \<Rightarrow> ('u, 'y) reactor_scheme \<Rightarrow> addr list \<Rightarrow> addr list \<Rightarrow> addr list
   \<Rightarrow> (addr \<Rightarrow> nat) \<Rightarrow> 'u control \<times> 'm \<times> ('u, 'z) iost \<Rightarrow> bool" where
  "io_inv mon R L Q W n x \<longleftrightarrow> (case x of (c, m, s) \<Rightarrow>
     world_rep s L Q \<and> mon R m s W \<and> watched R s L W \<and> length L \<le> r_cap R \<and>
     tls_key (tls_task s) \<and> threadlocal_get (r_tid R) (tls_context s) = Some (r_tid R) \<and> loops c \<and>
     (\<forall>p. held c = Some p \<longrightarrow> p \<in> set L \<and> pcaio_self (r_tid R) s = Some p) \<and>
     (\<forall>p \<in> set L. phase R c s p (p \<in> set Q) (r_slot R p \<in> set W) (n p)))"

text \<open>The steps left: those of the tasks, and one waking for each event.\<close>

definition io_left :: "addr list \<Rightarrow> addr list \<Rightarrow> (addr \<Rightarrow> nat) \<Rightarrow> nat" where
  "io_left L W n = sum_list (map n L) + length W"

definition io_ok ::
  "(('u, 'y) reactor_scheme \<Rightarrow> 'm \<Rightarrow> ('u, 'z) iost \<Rightarrow> addr list \<Rightarrow> bool) \<Rightarrow> ('u, 'y) reactor_scheme \<Rightarrow> nat \<Rightarrow> 'u control \<times> 'm \<times> ('u, 'z) iost \<Rightarrow> bool" where
  "io_ok mon R b x \<longleftrightarrow> (\<exists>L Q W n. io_inv mon R L Q W n x \<and> io_left L W n \<le> b)"

section \<open>Small facts\<close>

lemma phase_aside: "held c \<noteq> Some p \<Longrightarrow> loops c \<Longrightarrow> phase R c s p q r n \<longleftrightarrow> aside R s p q r n"
  by (cases c) auto

lemma task_cong:
  assumes "heap s' p = heap s p" "ioevents s' (r_slot R p) = None \<longleftrightarrow> ioevents s (r_slot R p) = None"
  shows "stands R s' p u \<longleftrightarrow> stands R s p u" "plain s' p \<longleftrightarrow> plain s p"
    "ready R s' p k \<longleftrightarrow> ready R s p k" "parked R s' p k \<longleftrightarrow> parked R s p k" "dozing R s' p k \<longleftrightarrow> dozing R s p k"
    "running R s' p u b n \<longleftrightarrow> running R s p u b n" "aside R s' p q r n \<longleftrightarrow> aside R s p q r n"
  using assms by (simp_all add: stands_def plain_def ready_def parked_def dozing_def running_def aside_def)

text \<open>What the monitor writes into an event does not matter to where its task stands.\<close>

lemma phase_cong:
  assumes "heap s' p = heap s p" "ioevents s' (r_slot R p) = None \<longleftrightarrow> ioevents s (r_slot R p) = None"
  shows "phase R c s' p q r n \<longleftrightarrow> phase R c s p q r n"
  using assms(1) by (cases c) (simp_all add: task_cong [OF assms] assms(2))

lemma phase_watched: "phase R c s p q True n \<Longrightarrow> \<not> q \<and> ioevents s (r_slot R p) \<noteq> None"
  by (cases c) (auto simp: ready_def parked_def dozing_def running_def aside_def split: if_splits)

lemma phase_woken: "phase R c s p False True n \<Longrightarrow> phase R c s p True False n"
  by (cases c) (auto simp: aside_def split: if_splits)

lemma io_inv_facts:
  assumes "io_inv mon R L Q W n (c, m, s)"
  shows "world_rep s L Q" "mon R m s W" "watched R s L W"
    "tls_key (tls_task s)" "threadlocal_get (r_tid R) (tls_context s) = Some (r_tid R)" "loops c"
    "\<And>p. held c = Some p \<Longrightarrow> p \<in> set L \<and> pcaio_self (r_tid R) s = Some p"
    "\<And>p. p \<in> set L \<Longrightarrow> phase R c s p (p \<in> set Q) (r_slot R p \<in> set W) (n p)"
    "length L \<le> r_cap R"
  using assms by (auto simp: io_inv_def)

lemma watched_length:
  assumes "watched R s L W" "inj (r_slot R)" shows "length W \<le> length L"
    and "p \<in> set L \<Longrightarrow> r_slot R p \<notin> set W \<Longrightarrow> length W < length L"
proof -
  have sub: "set W \<subseteq> r_slot R ` set L" using assms(1) by (auto simp: watched_def)
  have W: "card (set W) = length W" using assms(1) by (simp add: watched_def distinct_card)
  have "card (r_slot R ` set L) \<le> length L" by (meson card_image_le card_length finite_set le_trans)
  with W sub card_mono [OF _ sub] show "length W \<le> length L" by simp
  assume p: "p \<in> set L" "r_slot R p \<notin> set W"
  have "set W \<subset> r_slot R ` set L" using sub p by auto
  from psubset_card_mono [OF _ this] W \<open>card (r_slot R ` set L) \<le> length L\<close> show "length W < length L" by simp
qed

lemma watched_cong: "ioevents s' = ioevents s \<Longrightarrow> watched R s' L W \<longleftrightarrow> watched R s L W"
  by (simp add: watched_def)

lemma watched_other:
  assumes "\<And>a. a \<in> set W \<Longrightarrow> ioevents s' a = ioevents s a" shows "watched R s' L W \<longleftrightarrow> watched R s L W"
  using assms unfolding watched_def awaits_def by auto

lemma watched_put: "a \<notin> set W \<Longrightarrow> watched R (event_put a e s) L W \<longleftrightarrow> watched R s L W"
  by (rule watched_other) auto

lemma watched_mset:
  assumes "mset W' = mset W" shows "watched R s L W' \<longleftrightarrow> watched R s L W"
proof -
  have "set W' = set W" "distinct W' = distinct W" using assms by (metis mset_eq_setD, metis mset_eq_imp_distinct_iff)
  then show ?thesis by (simp add: watched_def)
qed

lemma watched_add:
  assumes "watched R s L W" "a \<notin> set W" "p \<in> set L" "a = r_slot R p" "awaits R (ioevents s) a p"
  shows "watched R s L (a # W)"
  using assms by (auto simp: watched_def)

lemma watched_task: "watched R s L W \<Longrightarrow> a \<in> set W \<Longrightarrow> \<exists>p \<in> set L. a = r_slot R p \<and> event_task (ioevents s) a = p \<and> ioevents s a \<noteq> None"
  by (auto simp: watched_def awaits_def event_task_def)

lemma sum_list_update_fun:
  assumes "distinct L" "p \<in> set L"
  shows "sum_list (map (n(p := k)) L) + n p = sum_list (map n L) + (k :: nat)"
proof -
  obtain A B where L: "L = A @ p # B" "p \<notin> set A" using split_list_first [OF assms(2)] by blast
  with assms(1) have "p \<notin> set B" by simp
  with L have same: "map (n(p := k)) A = map n A" "map (n(p := k)) B = map n B" by auto
  show ?thesis unfolding L(1) map_append list.map sum_list_append sum_list.Cons same by simp
qed

lemma io_distinct: "io_inv mon R L Q W n (c, m, s) \<Longrightarrow> distinct L \<and> distinct Q \<and> set Q \<subseteq> set L"
  by (auto simp: io_inv_def world_rep_def rep_defs)

lemma back_more: "worker_back i p ret w = Inr (x, w') \<Longrightarrow> world.more w' = world.more w"
  by (auto simp: worker_back_def Let_def and_then_Inr tls_set_task_def
      threadlocal_set_def task_free_def heap_free_def task_put_def split: if_splits option.splits prod.splits)

lemma more_events:
  assumes "world.more s' = world.more (s :: ('u, 'z) iost)" shows "ioevents s' = ioevents s" "iostate.more s' = iostate.more s"
  using assms by (cases s; cases s'; simp)+

lemma stands_enters:
  assumes "stands R s p u"
  shows "\<exists>er. enter_step (r_start R) cb i p s = Inr (Inside p (Run p u), s\<lparr>errno := er\<rparr>)" "plain s p"
proof -
  from assms obtain t where t: "heap s p = Some t" "resumes (r_start R) p t u" "plain s p"
    by (auto simp: stands_def plain_def)
  from step_enter [OF t(1,2), of _ cb i]
  show "\<exists>er. enter_step (r_start R) cb i p s = Inr (Inside p (Run p u), s\<lparr>errno := er\<rparr>)" by simp
  show "plain s p" by (rule t(3))
qed

inductive_cases serves_cases: "serves R u k"

lemma still_no_step: "thread_step prog start cb i c s = Some r \<Longrightarrow> world_rep s L Q \<Longrightarrow> Q \<noteq> [] \<or> held c \<noteq> None"
proof (cases c)
  case Looping
  assume "thread_step prog start cb i c s = Some r" "world_rep s L Q"
  then show ?thesis by (auto simp: Looping fetch_step_def world_rep_def rep_defs split: if_splits)
qed simp_all

section \<open>The contract\<close>

definition io_goes_on ::
  "(('u, 'y) reactor_scheme \<Rightarrow> 'm \<Rightarrow> ('u, 'z) iost \<Rightarrow> addr list \<Rightarrow> bool) \<Rightarrow> ('u, 'y) reactor_scheme \<Rightarrow> nat \<Rightarrow> 'm
   \<Rightarrow> (fault + ('u control \<times> ('u, 'z) iost)) option \<Rightarrow> bool" where
  "io_goes_on mon R b m r \<longleftrightarrow> (\<exists>c s L Q W n. r = Some (Inr (c, s)) \<and> io_inv mon R L Q W n (c, m, s) \<and> io_left L W n < b)"

text \<open>What a step of the tick does to the memory: nothing, or it queues the task of one event.\<close>

definition tick_quiet :: "('u, 'z) iost \<Rightarrow> ('u, 'z) iost \<Rightarrow> addr list \<Rightarrow> addr list \<Rightarrow> addr list \<Rightarrow> addr list \<Rightarrow> bool" where
  "tick_quiet s s' L Q W W' \<longleftrightarrow> heap s' = heap s \<and> tls_task s' = tls_task s \<and> tls_context s' = tls_context s \<and>
     ioevents s' = ioevents s \<and> world_rep s' L Q \<and> mset W' = mset W"

definition tick_wakes :: "('u, 'z) iost \<Rightarrow> ('u, 'z) iost \<Rightarrow> addr list \<Rightarrow> addr list \<Rightarrow> addr list \<Rightarrow> addr list \<Rightarrow> bool" where
  "tick_wakes s s' L Q W W' \<longleftrightarrow> heap s' = heap s \<and> tls_task s' = tls_task s \<and> tls_context s' = tls_context s \<and>
     (\<exists>a v. mset W = mset (a # W') \<and> ioevents s' = (ioevents s)(a \<mapsto> v) \<and> world_rep s' L (Q @ [event_task (ioevents s) a]))"

text \<open>The events that a tick may find: those of tasks that are not queued.\<close>

definition tick_pre :: "('u, 'y) reactor_scheme \<Rightarrow> ('u, 'z) iost \<Rightarrow> addr list \<Rightarrow> addr list \<Rightarrow> addr list \<Rightarrow> bool" where
  "tick_pre R s L Q W \<longleftrightarrow> world_rep s L Q \<and> watched R s L W \<and> length W \<le> r_cap R \<and>
     (\<forall>a \<in> set W. event_task (ioevents s) a \<notin> set Q)"

lemma moved_length: "tick_quiet s s' L Q W W' \<or> tick_wakes s s' L Q W W' \<Longrightarrow> length W' \<le> length W"
  by (auto simp: tick_quiet_def tick_wakes_def dest: arg_cong [of _ _ size])

lemma wakes_shorter: "tick_wakes s s' L Q W W' \<Longrightarrow> length W' < length W"
  unfolding tick_wakes_def by (metis length_Cons lessI size_mset)

text \<open>Changes of the rest of the memory do not matter.\<close>

lemma io_inv_cong:
  assumes "io_inv mon R L Q W n (c, m, s)"
    and "heap s' = heap s" "tasks s' = tasks s" "taskq s' = taskq s" "ioevents s' = ioevents s" "mon R m s' W"
      "tls_task s' = tls_task s" "threadlocal_get (r_tid R) (tls_context s') = Some (r_tid R)"
  shows "io_inv mon R L Q W n (c, m, s')"
proof -
  note facts = io_inv_facts [OF assms(1)]
  have "phase R c s' p q r k \<longleftrightarrow> phase R c s p q r k" for p q r k
    by (rule phase_cong) (simp_all add: assms)
  moreover have "watched R s' L W \<longleftrightarrow> watched R s L W" for W by (rule watched_cong) (rule assms(5))
  moreover have "world_rep s' L Q \<longleftrightarrow> world_rep s L Q" by (rule world_rep_cong) (rule assms(2-4))+
  ultimately show ?thesis
    using facts assms(6-8) by (simp add: io_inv_def pcaio_self_def)
qed

text \<open>The worker in its loop with nothing in hand, the monitor with no event, and the queued tasks
  \<open>js\<close>: address, rest of the function, number of its yields and waits.\<close>

definition io_rep ::
  "(('u, 'y) reactor_scheme \<Rightarrow> 'm \<Rightarrow> ('u, 'z) iost \<Rightarrow> addr list \<Rightarrow> bool) \<Rightarrow> ('u, 'y) reactor_scheme \<Rightarrow> 'm \<Rightarrow> ('u, 'z) iost
   \<Rightarrow> (addr \<times> 'u \<times> nat) list \<Rightarrow> bool" where
  "io_rep mon R m s js \<longleftrightarrow>
     (\<exists>L. world_rep s L (map fst js) \<and> set L = fst ` set js) \<and> mon R m s [] \<and>
     length js \<le> r_cap R \<and> tls_key (tls_task s) \<and> threadlocal_get (r_tid R) (tls_context s) = Some (r_tid R) \<and>
     (\<forall>(p, u, k) \<in> set js. stands R s p u \<and> serves R u k \<and> ioevents s (r_slot R p) = None)"

definition reactor_cost :: "(addr \<times> 'u \<times> nat) list \<Rightarrow> nat" where
  "reactor_cost js = sum_list (map (\<lambda>(p, u, k). 10 * k + 4) js)"

text \<open>\<open>fine\<close> is what is assumed of program, monitor and kernel, \<open>mon R m s W\<close> what holds of the
  monitor when the master stands at \<open>m\<close> and the events \<open>W\<close> are with it, \<open>rest\<close> between two ticks.
  As long as there are events, or the master is in a tick, some answer of the kernel brings the
  tick nearer, by \<open>rank\<close>, to the next wake-up or to its end.\<close>

locale monitor =
  fixes fine :: "('u, 'y) reactor_scheme \<Rightarrow> bool"
    and mon :: "('u, 'y) reactor_scheme \<Rightarrow> 'm \<Rightarrow> ('u, 'z) iost \<Rightarrow> addr list \<Rightarrow> bool"
    and enter :: "('u, 'y) reactor_scheme \<Rightarrow> tid \<Rightarrow> addr \<Rightarrow> int \<Rightarrow> c_int \<Rightarrow> ('u, 'z) iost \<Rightarrow> fault + (int \<times> ('u, 'z) iost)"
    and report :: "addr \<Rightarrow> ('u, 'z) iost \<Rightarrow> fault + (c_int \<times> ('u, 'z) iost)"
    and tick :: "'a \<Rightarrow> 'm \<Rightarrow> ('u, 'z) iost \<Rightarrow> (fault + ('m \<times> ('u, 'z) iost)) option"
    and answers :: "'m \<Rightarrow> ('u, 'z) iost \<Rightarrow> 'a \<Rightarrow> bool"
    and rest :: 'm
    and rank :: "'m \<Rightarrow> ('u, 'z) iost \<Rightarrow> nat"
  assumes slots: "fine R \<Longrightarrow> inj (r_slot R)"
    and mon_more: "mon R m s W \<Longrightarrow> iostate.more s' = iostate.more s \<Longrightarrow> mon R m s' W"
    and mon_length: "mon R m s W \<Longrightarrow> mon R m s W' \<Longrightarrow> length W = length W'"
    and enters: "fine R \<Longrightarrow> mon R m s W \<Longrightarrow> a \<notin> set W \<Longrightarrow> length W < r_cap R \<Longrightarrow> pcaio_self i s = Some p \<Longrightarrow> 0 \<le> fd \<Longrightarrow>
      r_fits R fd \<Longrightarrow> ev \<noteq> 0 \<Longrightarrow>
      \<exists>s' W'. enter R i a fd ev s = Inr (0, s') \<and> mon R m s' W' \<and> mset W' = mset (a # W) \<and>
        ioevents s' = (ioevents s)(a \<mapsto> \<lparr>e_fd = fd, e_events = ev, e_task = p\<rparr>) \<and> heap s' = heap s \<and> tasks s' = tasks s \<and>
        taskq s' = taskq s \<and> tls_task s' = tls_task s \<and> tls_context s' = tls_context s"
    and reports: "ioevents s a = Some v \<Longrightarrow> \<exists>r. report a s = Inr (r, event_put a None s)"
    and ticks: "fine R \<Longrightarrow> mon R m s W \<Longrightarrow> tick_pre R s L Q W \<Longrightarrow> answers m s ans \<Longrightarrow> tick ans m s = Some r \<Longrightarrow>
      \<exists>m' s' W'. r = Inr (m', s') \<and> mon R m' s' W' \<and> (tick_quiet s s' L Q W W' \<or> tick_wakes s s' L Q W W')"
    and goes: "fine R \<Longrightarrow> mon R m s W \<Longrightarrow> tick_pre R s L Q W \<Longrightarrow> m \<noteq> rest \<or> W \<noteq> [] \<Longrightarrow>
      \<exists>ans m' s'. answers m s ans \<and> tick ans m s = Some (Inr (m', s')) \<and>
        (rank m' s' < rank m s \<or> (\<exists>W'. mon R m' s' W' \<and> length W' < length W))"
begin

abbreviation work where
  "work R \<equiv> io_work (io_calls enter report) R"

text \<open>A step of the worker: only the task in its hands changes.\<close>

lemma inv_work:
  assumes inv: "io_inv mon R L Q W n (c, m, s)" and fine: "fine R"
    and p: "p \<in> set L" "held c \<in> {None, Some p}" "held c' \<in> {None, Some p}" "loops c'"
    and rep: "world_rep s' L Q'" "mon R m s' W'"
    and tls: "tls_key (tls_task s')" "tls_context s' = tls_context s"
      "held c' = Some p \<Longrightarrow> pcaio_self (r_tid R) s' = Some p"
    and heap: "\<And>q. q \<noteq> p \<Longrightarrow> heap s' q = heap s q"
    and events: "\<And>a. a \<noteq> r_slot R p \<Longrightarrow> ioevents s' a = ioevents s a"
    and queued: "\<And>q. q \<noteq> p \<Longrightarrow> q \<in> set Q' \<longleftrightarrow> q \<in> set Q"
    and ring: "\<And>a. a \<noteq> r_slot R p \<Longrightarrow> a \<in> set W' \<longleftrightarrow> a \<in> set W"
    and watch: "watched R s' L W'"
    and phase: "phase R c' s' p (p \<in> set Q') (r_slot R p \<in> set W') k"
  shows "io_inv mon R L Q' W' (n(p := k)) (c', m, s')"
proof -
  note facts = io_inv_facts [OF inv]
  have "phase R c' s' q (q \<in> set Q') (r_slot R q \<in> set W') ((n(p := k)) q)" if q: "q \<in> set L" for q
  proof (cases "q = p")
    case True
    then show ?thesis using phase by simp
  next
    case False
    have ne: "r_slot R q \<noteq> r_slot R p" using False slots [OF fine] by (auto dest: injD)
    have "held c \<noteq> Some q" "held c' \<noteq> Some q" using p(2,3) False by auto
    with facts(8) [OF q] facts(6) p(4) have
      "aside R s q (q \<in> set Q) (r_slot R q \<in> set W) (n q)" by (simp add: phase_aside)
    then have "aside R s' q (q \<in> set Q') (r_slot R q \<in> set W') (n q)"
      using queued [OF False] ring [OF ne] task_cong(7) [of s' q s R] heap [OF False] events [OF ne]
      by simp
    then show ?thesis using \<open>held c' \<noteq> Some q\<close> p(4) False by (simp add: phase_aside)
  qed
  moreover have "q \<in> set L \<and> pcaio_self (r_tid R) s' = Some q" if "held c' = Some q" for q
    using that p(1,3) tls(3) by auto
  ultimately show ?thesis
    using rep tls(1,2) facts(5,9) p(4) watch by (simp add: io_inv_def)
qed

lemma goes_onI:
  assumes "io_inv mon R L Q W n (c, m, s)" "p \<in> set L" "r = Some (Inr (c', s'))"
    and "io_inv mon R L Q' W' (n(p := k)) (c', m, s')" "length W' + k < length W + n p"
  shows "io_goes_on mon R (io_left L W n) m r"
proof -
  have "distinct L" using io_distinct [OF assms(1)] by simp
  from sum_list_update_fun [OF this assms(2), of n k] assms(5)
  have "io_left L W' (n(p := k)) < io_left L W n" by (simp add: io_left_def)
  with assms(3,4) show ?thesis unfolding io_goes_on_def by blast
qed

lemma fetch_goes_on:
  assumes inv: "io_inv mon R L Q W n (Looping, m, s)" and fine: "fine R" and Q: "Q \<noteq> []"
  shows "io_goes_on mon R (io_left L W n) m (fetch_step (r_tid R) s)"
proof -
  note facts = io_inv_facts [OF inv]
  from Q obtain p Q' where pQ: "Q = p # Q'" by (cases Q) auto
  obtain q where q: "queue_pop (\<lambda>q. (0, q)) QWAIT (taskq s) = Some (0, Some p, q)"
    "world_rep (s\<lparr>taskq := q\<rparr>) L Q'"
    by (rule world_rep_pop [OF facts(1) [unfolded pQ]])
  let ?s = "tls_set_task (r_tid R) (Some p) (s\<lparr>taskq := q\<rparr>)"
  have "qhead (taskq s) \<noteq> None" using facts(1) pQ by (simp add: world_rep_def rep_defs)
  then have step: "fetch_step (r_tid R) s = Some (Inr (Fetched p, ?s))" by (simp add: fetch_step_def q(1))
  have p: "p \<in> set L" "p \<notin> set Q'" using io_distinct [OF inv] by (auto simp: pQ)
  have same: "heap ?s = heap s" "world.more ?s = world.more s" by (simp_all add: tls_set_task_def)
  note events = more_events(1) [OF same(2)]
  from facts(8) [OF p(1)] have out: "r_slot R p \<notin> set W" and
    "\<exists>k. ready R s p k \<and> n p = 10 * k + 4 \<or> parked R s p k \<and> n p = 10 * k + 8"
    by (auto simp: pQ aside_def)
  then obtain k where k: "ready R s p k \<and> n p = 10 * k + 4 \<or> parked R s p k \<and> n p = 10 * k + 8" by blast
  have "io_inv mon R L Q' W (n(p := n p - 1)) (Fetched p, m, ?s)"
  proof (rule inv_work [OF inv fine p(1)])
    show "world_rep ?s L Q'" using q(2) by simp
    show "mon R m ?s W" by (rule mon_more [OF facts(2) more_events(2) [OF same(2)]])
    show "watched R ?s L W" using facts(3) watched_cong [OF events] by blast
    show "phase R (Fetched p) ?s p (p \<in> set Q') (r_slot R p \<in> set W) (n p - 1)"
      using k p(2) out by (auto simp: task_cong [of ?s p s] same events)
  qed (use q(2) facts(4) in \<open>simp_all add: events pQ pcaio_self_def tls_set_task_def threadlocal_get_def threadlocal_set_def\<close>)
  then show ?thesis
    by (rule goes_onI [OF inv p(1) step]) (use k in auto)
qed

text \<open>A step of a task that is in the worker's hands and stays there, with the queue and the
  monitor as they are.\<close>

lemma inv_keep:
  assumes inv: "io_inv mon R L Q W n (c, m, s)" and fine: "fine R"
    and p: "held c = Some p" "held c' = Some p"
    and rep: "world_rep s' L Q" and tls: "tls_task s' = tls_task s" "tls_context s' = tls_context s"
    and heap: "\<And>q. q \<noteq> p \<Longrightarrow> heap s' q = heap s q"
    and more: "world.more s' = world.more s"
    and phase: "phase R c' s' p (p \<in> set Q) (r_slot R p \<in> set W) k" and less: "k < n p"
    and r: "r = Some (Inr (c', s'))"
  shows "io_goes_on mon R (io_left L W n) m r"
proof -
  note facts = io_inv_facts [OF inv] and same = more_events(1) [OF more]
  have "p \<in> set L" using facts(7) [OF p(1)] by simp
  moreover have "io_inv mon R L Q W (n(p := k)) (c', m, s')"
  proof (rule inv_work [OF inv fine \<open>p \<in> set L\<close> _ _ _ rep])
    show "loops c'" using p(2) by (cases c') auto
    show "mon R m s' W" by (rule mon_more [OF facts(2) more_events(2) [OF more]])
    show "watched R s' L W" using facts(3) same watched_cong by blast
  qed (use p facts(4,7) heap same phase tls in \<open>simp_all add: pcaio_self_def\<close>)
  moreover have "length W + k < length W + n p" using less by simp
  ultimately show ?thesis by (rule goes_onI [OF inv _ r])
qed

lemma enter_goes_on:
  assumes inv: "io_inv mon R L Q W n (Fetched p, m, s)" and fine: "fine R"
  shows "io_goes_on mon R (io_left L W n) m (Some (enter_step (r_start R) cb i p s))"
proof -
  note facts = io_inv_facts [OF inv]
  have p: "p \<in> set L" using facts(7) [of p] by simp
  from facts(8) [OF p] obtain k where out: "p \<notin> set Q" "r_slot R p \<notin> set W" and
    k: "ready R s p k \<and> n p = 10 * k + 3 \<or> parked R s p k \<and> n p = 10 * k + 7" by auto
  then obtain u where u: "stands R s p u" and
    "serves R u k \<and> ioevents s (r_slot R p) = None \<and> n p = 10 * k + 3 \<or>
     parks R u k \<and> ioevents s (r_slot R p) \<noteq> None \<and> n p = 10 * k + 7"
    by (auto simp: ready_def parked_def)
  with stands_enters(2) [OF u] have run: "running R s p u False (n p - 1)" by (auto simp: running_def)
  from stands_enters(1) [OF u] obtain er where
    step: "enter_step (r_start R) cb i p s = Inr (Inside p (Run p u), s\<lparr>errno := er\<rparr>)" by blast
  show ?thesis
  proof (rule inv_keep [OF inv fine, where p = p])
    show "world_rep (s\<lparr>errno := er\<rparr>) L Q" using facts(1) world_rep_cong [of "s\<lparr>errno := er\<rparr>" s] by simp
    show "phase R (Inside p (Run p u)) (s\<lparr>errno := er\<rparr>) p (p \<in> set Q) (r_slot R p \<in> set W) (n p - 1)"
      using run out task_cong(6) [of "s\<lparr>errno := er\<rparr>" p s R u False] by auto
    show "n p - 1 < n p" using k by auto
  qed (simp_all add: step)
qed

lemma return_goes_on:
  assumes inv: "io_inv mon R L Q W n (Inside p (Run p u), m, s)" and fine: "fine R"
    and prog: "r_prog R u = Return e" and run: "running R s p u False (n p)" "n p > 1"
    and ev: "ioevents s (r_slot R p) = None" and out: "p \<notin> set Q" "r_slot R p \<notin> set W"
  shows "io_goes_on mon R (io_left L W n) m (Some (run_step (r_prog R) (io_calls enter report R) (r_tid R) p (Run p u) s))"
proof -
  note facts = io_inv_facts [OF inv]
  from run(1) obtain t where t: "heap s p = Some t" "t_flags t = 0" "t_terminated t = None" "t_callback t = None"
    by (auto simp: running_def plain_def)
  let ?t = "t\<lparr>t_flags := t_flags t OR TASK_TERMINATED\<rparr>"
  let ?s = "(case t_status t of None \<Rightarrow> id | Some a \<Rightarrow> ints_update (\<lambda>m. m(a := e))) (task_put p ?t s)"
  have step: "run_step (r_prog R) (io_calls enter report R) (r_tid R) p (Run p u) s = Inr (Landed p 0, ?s)"
    by (simp add: prog landing_step_def taskmain_finish_plain [OF t(1,3,4)] facts(5))
  have same: "heap ?s = (heap s)(p := Some ?t)" "tasks ?s = tasks s" "taskq ?s = taskq s"
    "tls_task ?s = tls_task s" "tls_context ?s = tls_context s" "world.more ?s = world.more s"
    by (simp_all split: option.splits)
  have flag: "t_flags ?t AND TASK_TERMINATED \<noteq> 0" using terminated_flag t(2) by simp
  show ?thesis
  proof (rule inv_keep [OF inv fine, where p = p])
    have "world_rep (task_put p ?t s) L Q" using facts(1) t(1) by (simp add: world_rep_put)
    then show "world_rep ?s L Q" using world_rep_cong [of ?s "task_put p ?t s" L Q] same by simp
    show "phase R (Landed p 0) ?s p (p \<in> set Q) (r_slot R p \<in> set W) 1"
      using same(1) flag out ev more_events(1) [OF same(6)] by auto
  qed (use run(2) step same in simp_all)
qed

lemma relax_goes_on:
  assumes inv: "io_inv mon R L Q W n (Inside p (Run p u), m, s)" and fine: "fine R"
    and prog: "r_prog R u = Relax fl f" and plain: "plain s p"
    and fl: "fl = 0 \<and> serves R (f 0) k \<and> ioevents s (r_slot R p) = None \<and> p \<notin> set Q \<and>
        r_slot R p \<notin> set W \<and> j = 10 * k + 5 \<or>
      fl = TASK_NOSCHEDULE \<and> parks R (f 0) k \<and> ioevents s (r_slot R p) \<noteq> None \<and>
        (p \<in> set Q) \<noteq> (r_slot R p \<in> set W) \<and> j = 10 * k + 9" and less: "j < n p"
  shows "io_goes_on mon R (io_left L W n) m (Some (run_step (r_prog R) (io_calls enter report R) (r_tid R) p (Run p u) s))"
proof -
  note facts = io_inv_facts [OF inv]
  from plain obtain t where t: "heap s p = Some t" "t_flags t = 0" "t_terminated t = None" "t_callback t = None"
    by (auto simp: plain_def)
  have self: "threadlocal_get (r_tid R) (tls_task s) = Some p" using facts(7) [of p] by (simp add: pcaio_self_def)
  let ?t = "t\<lparr>t_flags := t_flags t OR fl, t_context := Saved (Relaxed (f 0))\<rparr>"
  have step: "run_step (r_prog R) (io_calls enter report R) (r_tid R) p (Run p u) s = Inr (Landed p 0, task_put p ?t s)"
    by (simp add: prog relax_step_def relaxA_switch [OF self facts(5) t(1)])
  have new: "heap (task_put p ?t s) p = Some ?t" "ioevents (task_put p ?t s) = ioevents s"
    by (simp_all add: task_put_def)
  show ?thesis
  proof (rule inv_keep [OF inv fine, where p = p])
    show "world_rep (task_put p ?t s) L Q" using facts(1) t(1) by (simp add: world_rep_put)
    show "phase R (Landed p 0) (task_put p ?t s) p (p \<in> set Q) (r_slot R p \<in> set W) j"
      using fl
    proof
      assume a: "fl = 0 \<and> serves R (f 0) k \<and> ioevents s (r_slot R p) = None \<and> p \<notin> set Q \<and>
        r_slot R p \<notin> set W \<and> j = 10 * k + 5"
      then have "ready R (task_put p ?t s) p k"
        using t new by (auto simp: ready_def stands_def resumes_def)
      with a show ?thesis by auto
    next
      assume a: "fl = TASK_NOSCHEDULE \<and> parks R (f 0) k \<and> ioevents s (r_slot R p) \<noteq> None \<and>
        (p \<in> set Q) \<noteq> (r_slot R p \<in> set W) \<and> j = 10 * k + 9"
      then have "dozing R (task_put p ?t s) p k"
        using t new by (auto simp: dozing_def)
      with a show ?thesis by auto
    qed
  qed (use step less in \<open>simp_all add: task_put_def\<close>)
qed

lemma register_goes_on:
  assumes inv: "io_inv mon R L Q W n (Inside p (Run p u), m, s)" and fine: "fine R"
    and prog: "r_prog R u = Call (2 * c) g" and plain: "plain s p" and req: "r_req R c = (fd, ev)"
    and fd: "0 \<le> fd" "r_fits R fd" "ev \<noteq> 0"
    and rest: "r_prog R (g 0) = Relax TASK_NOSCHEDULE h" "parks R (h 0) k" and bound: "n p = 10 * Suc k + 2"
    and out: "p \<notin> set Q" "r_slot R p \<notin> set W"
  shows "io_goes_on mon R (io_left L W n) m (Some (run_step (r_prog R) (io_calls enter report R) (r_tid R) p (Run p u) s))"
proof -
  note facts = io_inv_facts [OF inv]
  have p: "p \<in> set L" "pcaio_self (r_tid R) s = Some p" using facts(7) [of p] by simp_all
  let ?a = "r_slot R p" and ?v = "\<lparr>e_fd = fd, e_events = ev, e_task = p\<rparr>"
  have room: "length W < r_cap R" using watched_length(2) [OF facts(3) slots [OF fine] p(1) out(2)] facts(9) by simp
  from enters [OF fine facts(2) out(2) room p(2) fd] obtain s' W' where
    s': "enter R (r_tid R) ?a fd ev s = Inr (0, s')" "mon R m s' W'" "mset W' = mset (?a # W)"
      "ioevents s' = (ioevents s)(?a \<mapsto> ?v)" "heap s' = heap s" "tasks s' = tasks s" "taskq s' = taskq s"
      "tls_task s' = tls_task s" "tls_context s' = tls_context s" by blast
  have step: "run_step (r_prog R) (io_calls enter report R) (r_tid R) p (Run p u) s = Inr (Inside p (Run p (g 0)), s')"
    by (simp add: prog io_calls_def p(2) req s'(1))
  have set: "set W' = insert ?a (set W)" using s'(3) by (metis mset_eq_setD list.simps(15))
  have "io_inv mon R L Q W' (n(p := 10 * k + 10)) (Inside p (Run p (g 0)), m, s')"
  proof (rule inv_work [OF inv fine p(1) _ _ _ _ s'(2)])
    show "world_rep s' L Q" using facts(1) world_rep_cong [of s' s L Q] s'(5-7) by simp
    have "watched R s' L W" using facts(3) s'(4) out(2) by (subst watched_other [of W s' s]) auto
    then have "watched R s' L (?a # W)" using out(2) p(1) fd s'(4) by (intro watched_add) (simp_all add: awaits_def)
    then show "watched R s' L W'" using watched_mset [OF s'(3), of R s' L] by blast
    show "phase R (Inside p (Run p (g 0))) s' p (p \<in> set Q) (?a \<in> set W') (10 * k + 10)"
      using plain rest out(1) s'(4,5) set by (auto simp: running_def plain_def)
  qed (use facts(4) p(2) s' set in \<open>auto simp: pcaio_self_def\<close>)
  moreover have "length W' = Suc (length W)" using s'(3) by (metis length_Cons size_mset)
  ultimately show ?thesis
    using step by (intro goes_onI [OF inv p(1)]) (auto simp: bound)
qed

lemma report_goes_on:
  assumes inv: "io_inv mon R L Q W n (Inside p (Run p u), m, s)" and fine: "fine R"
    and prog: "r_prog R u = Call (2 * c + 1) f" and plain: "plain s p" and ev: "ioevents s (r_slot R p) \<noteq> None"
    and rest: "\<And>r. serves R (f r) k" and bound: "n p = 10 * k + 6"
    and out: "p \<notin> set Q" "r_slot R p \<notin> set W"
  shows "io_goes_on mon R (io_left L W n) m (Some (run_step (r_prog R) (io_calls enter report R) (r_tid R) p (Run p u) s))"
proof -
  note facts = io_inv_facts [OF inv]
  have p: "p \<in> set L" "pcaio_self (r_tid R) s = Some p" using facts(7) [of p] by simp_all
  let ?a = "r_slot R p"
  from ev obtain v where "ioevents s ?a = Some v" by blast
  from reports [OF this] obtain r where r: "report ?a s = Inr (r, event_put ?a None s)" by blast
  let ?s = "event_put ?a None s"
  have step: "run_step (r_prog R) (io_calls enter report R) (r_tid R) p (Run p u) s = Inr (Inside p (Run p (f (sint r))), ?s)"
    using r by (simp add: prog io_calls_def p(2))
  have "io_inv mon R L Q W (n(p := 10 * k + 2)) (Inside p (Run p (f (sint r))), m, ?s)"
  proof (rule inv_work [OF inv fine p(1)])
    show "world_rep ?s L Q" using facts(1) by simp
    show "mon R m ?s W" by (rule mon_more [OF facts(2)]) simp
    show "watched R ?s L W"
      using facts(3) by (simp add: watched_put [OF out(2)])
    show "phase R (Inside p (Run p (f (sint r)))) ?s p (p \<in> set Q) (?a \<in> set W) (10 * k + 2)"
      using plain rest out by (auto simp: running_def plain_def)
  qed (use facts(4) p(2) in \<open>auto simp: pcaio_self_def\<close>)
  then show ?thesis
    using step by (intro goes_onI [OF inv p(1)]) (auto simp: bound)
qed

lemma run_goes_on:
  assumes inv: "io_inv mon R L Q W n (Inside p pl, m, s)" and fine: "fine R"
  shows "io_goes_on mon R (io_left L W n) m (Some (run_step (r_prog R) (io_calls enter report R) (r_tid R) p pl s))"
proof -
  note facts = io_inv_facts [OF inv]
  have "p \<in> set L" using facts(7) [of p] by simp
  from facts(8) [OF this] obtain u b where pl: "pl = Run p u" and run: "running R s p u b (n p)" and
    at: "if b then (p \<in> set Q) \<noteq> (r_slot R p \<in> set W) else p \<notin> set Q \<and> r_slot R p \<notin> set W"
    by auto
  note inv' = inv [unfolded pl]
  from run have plain: "plain s p" by (simp add: running_def)
  from run consider
      (serving) k where "\<not> b" "serves R u k" "ioevents s (r_slot R p) = None" "n p = 10 * k + 2"
    | (reporting) k where "\<not> b" "parks R u k" "ioevents s (r_slot R p) \<noteq> None" "n p = 10 * k + 6"
    | (armed) k h where "b" "r_prog R u = Relax TASK_NOSCHEDULE h" "parks R (h 0) k" "ioevents s (r_slot R p) \<noteq> None"
        "n p = 10 * k + 10" unfolding running_def by blast
  then show ?thesis
  proof cases
    case serving
    then have out: "p \<notin> set Q" "r_slot R p \<notin> set W" using at by simp_all
    from serving(2) show ?thesis
    proof (cases rule: serves.cases)
      case (returns e)
      show ?thesis
        unfolding pl using serving run out by (intro return_goes_on [OF inv' fine returns]) simp_all
    next
      case (relaxes f k')
      show ?thesis
        unfolding pl using serving relaxes out
        by (intro relax_goes_on [OF inv' fine relaxes(2) plain, where k = k' and j = "10 * k' + 5"]) simp_all
    next
      case (waits c g fd ev h f k')
      have "parks R (h 0) k'" using waits(8,9) unfolding parks_def by blast
      then show ?thesis
        unfolding pl using serving waits(1)
        by (intro register_goes_on [OF inv' fine waits(2) plain waits(3-7) _ _ out]) simp_all
    qed
  next
    case reporting
    then have out: "p \<notin> set Q" "r_slot R p \<notin> set W" using at by simp_all
    from reporting(2) obtain c f where c: "r_prog R u = Call (2 * c + 1) f" "\<And>r. serves R (f r) k"
      by (auto simp: parks_def)
    show ?thesis unfolding pl by (rule report_goes_on [OF inv' fine c(1) plain reporting(3) c(2) reporting(4) out])
  next
    case armed
    show ?thesis
      unfolding pl using armed at
      by (intro relax_goes_on [OF inv' fine armed(2) plain, where k = k and j = "10 * k + 9"]) simp_all
  qed
qed

lemma release_goes_on:
  assumes inv: "io_inv mon R L Q W n (Landed p 0, m, s)" and fine: "fine R"
    and step: "worker_back (r_tid R) p 0 s = Inr (Again, s')" and rep: "world_rep s' L Q'"
    and queued: "\<And>q. q \<noteq> p \<Longrightarrow> q \<in> set Q' \<longleftrightarrow> q \<in> set Q" and heap: "\<And>q. q \<noteq> p \<Longrightarrow> heap s' q = heap s q"
    and tls: "tls_key (tls_task s')" "tls_context s' = tls_context s"
    and new: "aside R s' p (p \<in> set Q') (r_slot R p \<in> set W) k" and less: "k < n p"
  shows "io_goes_on mon R (io_left L W n) m (Some (land_step (r_tid R) p 0 s))"
proof -
  note facts = io_inv_facts [OF inv] and same = more_events(1) [OF back_more [OF step]]
  have p: "p \<in> set L" using facts(7) [of p] by simp
  have "io_inv mon R L Q' W (n(p := k)) (Looping, m, s')"
  proof (rule inv_work [OF inv fine p _ _ _ rep])
    show "mon R m s' W" by (rule mon_more [OF facts(2) more_events(2) [OF back_more [OF step]]])
    show "watched R s' L W" using facts(3) watched_cong [OF same] by blast
  qed (use tls heap queued new same in simp_all)
  moreover have "Some (land_step (r_tid R) p 0 s) = Some (Inr (Looping, s'))"
    by (simp add: land_step_def settle_def step)
  moreover have "length W + k < length W + n p" using less by simp
  ultimately show ?thesis by (intro goes_onI [OF inv p])
qed

lemma freed_goes_on:
  assumes inv: "io_inv mon R L Q W n (Landed p 0, m, s)" and fine: "fine R"
    and t: "heap s p = Some t" "t_flags t AND TASK_TERMINATED \<noteq> 0" and n: "n p = 1"
    and out: "p \<notin> set Q" "r_slot R p \<notin> set W"
  shows "io_goes_on mon R (io_left L W n) m (Some (land_step (r_tid R) p 0 s))"
proof -
  note facts = io_inv_facts [OF inv]
  have p: "p \<in> set L" using facts(7) [of p] by simp
  from back_terminated [OF facts(1) out(1) t, of "r_tid R"] obtain s' where
    s': "worker_back (r_tid R) p 0 s = Inr (Again, s')" "world_rep s' (remove1 p L) Q"
      "heap s' = (heap s)(p := None)" "tls_key (tls_task s') = tls_key (tls_task s)"
      "tls_context s' = tls_context s" by auto
  note same = more_events(1) [OF back_more [OF s'(1)]]
  have L: "set (remove1 p L) = set L - {p}" using io_distinct [OF inv] by simp
  have "watched R s' (remove1 p L) W"
    using facts(3) out(2) L same unfolding watched_def by (metis Diff_iff singletonD)
  moreover have "phase R Looping s' q (q \<in> set Q) (r_slot R q \<in> set W) (n q)"
    if "q \<in> set (remove1 p L)" for q
  proof -
    have q: "q \<in> set L" "q \<noteq> p" using that L by auto
    with facts(8) [OF q(1)] have "aside R s q (q \<in> set Q) (r_slot R q \<in> set W) (n q)"
      by (simp add: phase_aside)
    then show ?thesis using task_cong(7) [of s' q s R] s'(3) same q(2) by simp
  qed
  moreover have "mon R m s' W" by (rule mon_more [OF facts(2) more_events(2) [OF back_more [OF s'(1)]]])
  moreover have "length (remove1 p L) \<le> r_cap R" using facts(9) p by (simp add: length_remove1 le_diff_conv)
  ultimately have "io_inv mon R (remove1 p L) Q W n (Looping, m, s')"
    using s' facts(4,5) by (simp add: io_inv_def)
  moreover have "io_left (remove1 p L) W n < io_left L W n"
    using sum_list_map_remove1 [OF p, of n] n by (simp add: io_left_def)
  moreover have "Some (land_step (r_tid R) p 0 s) = Some (Inr (Looping, s'))"
    by (simp add: land_step_def settle_def s'(1))
  ultimately show ?thesis unfolding io_goes_on_def by blast
qed

lemma land_goes_on:
  assumes inv: "io_inv mon R L Q W n (Landed p ret, m, s)" and fine: "fine R"
  shows "io_goes_on mon R (io_left L W n) m (Some (land_step (r_tid R) p ret s))"
proof -
  note facts = io_inv_facts [OF inv]
  have p: "p \<in> set L" using facts(7) [of p] by simp
  let ?q = "p \<in> set Q" and ?r = "r_slot R p \<in> set W"
  from facts(8) [OF p] have ret: "ret = 0" by simp
  note inv' = inv [unfolded ret]
  from facts(8) [OF p] consider
      (yields) k where "\<not> ?q" "\<not> ?r" "ready R s p k" "n p = 10 * k + 5"
    | (sleeps) k where "?q \<noteq> ?r" "dozing R s p k" "n p = 10 * k + 9"
    | (ends) t where "\<not> ?q" "\<not> ?r" "heap s p = Some t" "t_flags t AND TASK_TERMINATED \<noteq> 0" "n p = 1"
    by auto
  then show ?thesis
  proof cases
    case yields
    then obtain t where t: "heap s p = Some t" "t_flags t = 0" by (auto simp: ready_def stands_def)
    from back_ready [OF facts(1) yields(1) t(1), of "r_tid R"] t(2) obtain s' where
      s': "worker_back (r_tid R) p 0 s = Inr (Again, s')" "world_rep s' L (Q @ [p])" "heap s' = heap s"
        "tls_key (tls_task s') = tls_key (tls_task s)" "tls_context s' = tls_context s" by auto
    have "ready R s' p k" using yields(3) task_cong(3) [of s' p s R k] s'(3) more_events(1) [OF back_more [OF s'(1)]] by simp
    then show ?thesis
      unfolding ret using s' facts(4) yields
      by (intro release_goes_on [OF inv' fine s'(1,2), where k = "10 * k + 4"]) (auto simp: aside_def)
  next
    case sleeps
    then obtain t u where t: "heap s p = Some t" "t_flags t = TASK_NOSCHEDULE" "t_terminated t = None"
      "t_callback t = None" "t_context t = Saved (Relaxed u)" "parks R u k" "ioevents s (r_slot R p) \<noteq> None"
      by (auto simp: dozing_def)
    let ?t = "t\<lparr>t_flags := t_flags t AND NOT TASK_NOSCHEDULE\<rparr>"
    let ?s = "task_put p ?t (tls_set_task (r_tid R) None s)"
    have step: "worker_back (r_tid R) p 0 s = Inr (Again, ?s)"
      using t(2) by (intro back_held [OF t(1)]) (simp_all add: task_flags)
    have "stands R ?s p u" using t by (simp add: stands_def resumes_def)
    moreover have "ioevents ?s = ioevents s" using more_events(1) [OF back_more [OF step]] .
    ultimately have "parked R ?s p k" using t(6,7) by (auto simp: parked_def)
    moreover have "world_rep ?s L Q" using facts(1) t(1) by (simp add: world_rep_put)
    ultimately show ?thesis
      unfolding ret using facts(4) sleeps(1,3)
      by (intro release_goes_on [OF inv' fine step, where k = "10 * k + 8"]) (auto simp: aside_def)
  next
    case ends
    then show ?thesis unfolding ret by (intro freed_goes_on [OF inv' fine]) simp_all
  qed
qed

lemma work_goes_on:
  assumes inv: "io_inv mon R L Q W n (c, m, s)" and fine: "fine R" and more: "Q \<noteq> [] \<or> held c \<noteq> None"
  shows "io_goes_on mon R (io_left L W n) m (thread_step (r_prog R) (r_start R) (io_calls enter report R) (r_tid R) c s)"
proof -
  have loops: "loops c" using io_inv_facts(6) [OF inv] .
  show ?thesis
  proof (cases c)
    case Looping
    then show ?thesis using fetch_goes_on [OF inv [unfolded Looping] fine] more by simp
  next
    case (Fetched p)
    then show ?thesis using enter_goes_on [OF inv [unfolded Fetched] fine] by simp
  next
    case (Inside p pl)
    then show ?thesis using run_goes_on [OF inv [unfolded Inside] fine] by simp
  next
    case (Landed p ret)
    then show ?thesis using land_goes_on [OF inv [unfolded Landed] fine] by simp
  qed (use loops in simp_all)
qed

text \<open>Steps of the tick keep the invariant and the bound.\<close>

lemma inv_tick_pre:
  assumes inv: "io_inv mon R L Q W n (c, m, s)" and fine: "fine R" shows "tick_pre R s L Q W"
proof -
  note facts = io_inv_facts [OF inv]
  have "length W \<le> r_cap R" using watched_length(1) [OF facts(3) slots [OF fine]] facts(9) by simp
  moreover have "event_task (ioevents s) a \<notin> set Q" if a: "a \<in> set W" for a
  proof -
    from watched_task [OF facts(3) a] obtain p where p: "p \<in> set L" "a = r_slot R p" "event_task (ioevents s) a = p" by blast
    have "phase R c s p (p \<in> set Q) True (n p)" using facts(8) [OF p(1)] a p(2) by simp
    from phase_watched [OF this] p(3) show ?thesis by simp
  qed
  ultimately show ?thesis using facts(1,3) by (simp add: tick_pre_def)
qed

lemma inv_moved:
  assumes inv: "io_inv mon R L Q W n (c, m, s)" and fine: "fine R" and mon: "mon R m' s' W'"
    and moved: "tick_quiet s s' L Q W W' \<or> tick_wakes s s' L Q W W'"
  shows "\<exists>Q'. io_inv mon R L Q' W' n (c, m', s')"
proof -
  note facts = io_inv_facts [OF inv]
  from moved show ?thesis
  proof
    assume quiet: "tick_quiet s s' L Q W W'"
    then have same: "heap s' = heap s" "ioevents s' = ioevents s" "tls_task s' = tls_task s" "tls_context s' = tls_context s"
      "world_rep s' L Q" and W: "mset W' = mset W" by (simp_all add: tick_quiet_def)
    have "watched R s' L W'" using facts(3) watched_cong [OF same(2), of R L W] watched_mset [OF W, of R s' L] by blast
    moreover have "phase R c s' p q r k \<longleftrightarrow> phase R c s p q r k" for p q r k
      by (rule phase_cong) (simp_all add: same)
    moreover have "set W' = set W" using W by (rule mset_eq_setD)
    ultimately have "io_inv mon R L Q W' n (c, m', s')"
      using facts mon same by (simp add: io_inv_def pcaio_self_def)
    then show ?thesis by blast
  next
    assume "tick_wakes s s' L Q W W'"
    then obtain a v where same: "heap s' = heap s" "tls_task s' = tls_task s" "tls_context s' = tls_context s"
      and W: "mset W = mset (a # W')" and ev: "ioevents s' = (ioevents s)(a \<mapsto> v)"
      and rep: "world_rep s' L (Q @ [event_task (ioevents s) a])" by (auto simp: tick_wakes_def)
    have Wa: "watched R s L (a # W')" using facts(3) watched_mset [OF W, of R s L] by blast
    then have out: "a \<notin> set W'" "watched R s L W'" by (simp_all add: watched_def)
    have set: "set W = insert a (set W')" using W by (metis mset_eq_setD list.simps(15))
    from watched_task [OF Wa, of a] obtain p where p: "p \<in> set L" "a = r_slot R p" "event_task (ioevents s) a = p" "ioevents s a \<noteq> None"
      by auto
    have none: "ioevents s' b = None \<longleftrightarrow> ioevents s b = None" for b using p(4) by (simp add: ev)
    have ph: "phase R c s p (p \<in> set Q) True (n p)" using facts(8) [OF p(1)] p(2) set by simp
    from phase_watched [OF this] have Q: "p \<notin> set Q" by simp
    have "watched R s' L W'"
      using out(2) watched_other [of W' s' s R L] out(1) ev by (metis (no_types, lifting) fun_upd_other)
    moreover have "phase R c s' q (q \<in> set (Q @ [p])) (r_slot R q \<in> set W') (n q)" if q: "q \<in> set L" for q
    proof (cases "q = p")
      case True
      have "phase R c s' p False True (n p)" using ph Q phase_cong [of s' p s R] same(1) none by simp
      from phase_woken [OF this] show ?thesis using True out(1) p(2) by simp
    next
      case False
      then have "r_slot R q \<noteq> a" using slots [OF fine] p(2) by (auto dest: injD)
      then show ?thesis
        using facts(8) [OF q] phase_cong [of s' q s R] same(1) none False set by simp
    qed
    ultimately have "io_inv mon R L (Q @ [p]) W' n (c, m', s')"
      using facts mon same rep p(3) by (simp add: io_inv_def pcaio_self_def)
    then show ?thesis by blast
  qed
qed

lemma tick_goes_on:
  assumes inv: "io_inv mon R L Q W n (c, m, s)" and fine: "fine R" and ans: "answers m s ans" and step: "tick ans m s = Some r"
  shows "\<exists>m' s' Q' W'. r = Inr (m', s') \<and> io_inv mon R L Q' W' n (c, m', s') \<and> length W' \<le> length W"
proof -
  from ticks [OF fine io_inv_facts(2) [OF inv] inv_tick_pre [OF inv fine] ans step] obtain m' s' W' where
    s': "r = Inr (m', s')" "mon R m' s' W'" "tick_quiet s s' L Q W W' \<or> tick_wakes s s' L Q W W'" by blast
  from inv_moved [OF inv fine s'(2,3)] moved_length [OF s'(3)] s'(1) show ?thesis by blast
qed

section \<open>Every interleaving\<close>

lemma run_ok:
  assumes "duo_run (work R) tick answers k x y" "io_ok mon R b x" "fine R"
  shows "\<exists>b'. io_ok mon R b' y \<and> b' + k \<le> b"
  using assms
proof (induction rule: duo_run.induct)
  case (stay x)
  then show ?case by auto
next
  case (works k x c m s c' s')
  from works.IH [OF works.prems] obtain b' where b': "io_ok mon R b' (c, m, s)" "b' + k \<le> b" by blast
  then obtain L Q W n where inv: "io_inv mon R L Q W n (c, m, s)" "io_left L W n \<le> b'" by (auto simp: io_ok_def)
  from work_goes_on [OF inv(1) works.prems(2) still_no_step [OF works.hyps(2) io_inv_facts(1) [OF inv(1)]]] works.hyps(2)
  obtain L' Q' W' n' where "io_inv mon R L' Q' W' n' (c', m, s')" "io_left L' W' n' < io_left L W n"
    by (auto simp: io_goes_on_def)
  with inv(2) b'(2) show ?case
    by (intro exI [of _ "io_left L' W' n'"]) (auto simp: io_ok_def)
next
  case (polls k x c m s ans m' s')
  from polls.IH [OF polls.prems] obtain b' where b': "io_ok mon R b' (c, m, s)" "b' + k \<le> b" by blast
  then obtain L Q W n where inv: "io_inv mon R L Q W n (c, m, s)" "io_left L W n \<le> b'" by (auto simp: io_ok_def)
  from tick_goes_on [OF inv(1) polls.prems(2) polls.hyps(2,3)] obtain Q' W' where
    "io_inv mon R L Q' W' n (c, m', s')" "length W' \<le> length W" by auto
  moreover from this inv(2) have "io_left L W' n \<le> b'" by (simp add: io_left_def)
  ultimately show ?case using b'(2) unfolding io_ok_def by blast
qed

lemma ok_safe:
  assumes ok: "io_ok mon R b (c, m, s)" and fine: "fine R"
  shows "\<not> duo_faults (work R) tick answers (c, m, s)"
proof -
  from ok obtain L Q W n where inv: "io_inv mon R L Q W n (c, m, s)" by (auto simp: io_ok_def)
  have "work R c s \<noteq> Some (Inl e)" for e
  proof
    assume step: "work R c s = Some (Inl e)"
    from work_goes_on [OF inv fine still_no_step [OF this io_inv_facts(1) [OF inv]]] step show False
      by (simp add: io_goes_on_def)
  qed
  moreover have "\<not> (answers m s ans \<and> tick ans m s = Some (Inl e))" for ans e
    using tick_goes_on [OF inv fine, of ans "Inl e"] by blast
  ultimately show ?thesis by (simp add: duo_faults_def)
qed

text \<open>Either all is over, or the two get a step nearer to the end.\<close>

lemma ok_progress:
  assumes ok: "io_ok mon R b (c, m, s)" and fine: "fine R"
  shows "(\<exists>s'. (duo_step (work R) tick answers)\<^sup>*\<^sup>* (c, m, s) (Looping, rest, s') \<and> world_rep s' [] [] \<and> mon R rest s' []) \<or>
    (\<exists>x b'. (duo_step (work R) tick answers)\<^sup>*\<^sup>* (c, m, s) x \<and> io_ok mon R b' x \<and> b' < b)"
  using ok
proof (induction "rank m s" arbitrary: m s rule: less_induct)
  case less
  let ?steps = "(duo_step (work R) tick answers)\<^sup>*\<^sup>*"
  from less.prems obtain L Q W n where inv: "io_inv mon R L Q W n (c, m, s)" and b: "io_left L W n \<le> b" by (auto simp: io_ok_def)
  note facts = io_inv_facts [OF inv]
  consider (work) "Q \<noteq> [] \<or> held c \<noteq> None" | (idle) "Q = []" "c = Looping" "m = rest" "W = []"
    | (tick) "Q = []" "c = Looping" "m \<noteq> rest \<or> W \<noteq> []" using facts(6) by (cases c) auto
  then show ?case
  proof cases
    case work
    from work_goes_on [OF inv fine work] obtain c' s' L' Q' W' n' where
      s': "work R c s = Some (Inr (c', s'))" "io_inv mon R L' Q' W' n' (c', m, s')" "io_left L' W' n' < io_left L W n"
      by (auto simp: io_goes_on_def)
    have "?steps (c, m, s) (c', m, s')" by (rule r_into_rtranclp) (rule duo_step.work, rule s'(1))
    moreover have "io_ok mon R (io_left L' W' n') (c', m, s')" using s'(2) by (auto simp: io_ok_def)
    ultimately show ?thesis using s'(3) b by (meson order_less_le_trans)
  next
    case idle
    have "set L = {}"
    proof (rule equals0I)
      fix p assume "p \<in> set L"
      from facts(8) [OF this] show False using idle by (simp add: aside_def)
    qed
    then have "L = []" by simp
    then show ?thesis using facts(1,2) idle by (intro disjI1 exI [of _ s]) simp
  next
    case tick
    from goes [OF fine facts(2) inv_tick_pre [OF inv fine] tick(3)] obtain ans m' s' where
      one: "answers m s ans" "tick ans m s = Some (Inr (m', s'))" and
      near: "rank m' s' < rank m s \<or> (\<exists>W'. mon R m' s' W' \<and> length W' < length W)" by blast
    from tick_goes_on [OF inv fine one] obtain Q' W' where
      inv': "io_inv mon R L Q' W' n (c, m', s')" and less': "length W' \<le> length W" by auto
    have step: "?steps (c, m, s) (c, m', s')" by (rule r_into_rtranclp) (rule duo_step.poll, rule one(1), rule one(2))
    from near show ?thesis
    proof
      assume "rank m' s' < rank m s"
      moreover have "io_ok mon R b (c, m', s')" using inv' less' b unfolding io_ok_def io_left_def by (meson add_le_cancel_left le_trans)
      ultimately show ?thesis using less.hyps [of m' s'] step by (meson rtranclp_trans)
    next
      assume "\<exists>W'. mon R m' s' W' \<and> length W' < length W"
      then have "length W' < length W" using mon_length [OF io_inv_facts(2) [OF inv']] by auto
      then have "io_left L W' n < b" using b by (simp add: io_left_def)
      moreover have "io_ok mon R (io_left L W' n) (c, m', s')" using inv' by (auto simp: io_ok_def)
      ultimately show ?thesis using step by blast
    qed
  qed
qed

lemma ok_completes:
  assumes "io_ok mon R b x" "fine R"
  shows "\<exists>s'. (duo_step (work R) tick answers)\<^sup>*\<^sup>* x (Looping, rest, s') \<and> world_rep s' [] [] \<and> mon R rest s' []"
  using assms(1)
proof (induction b arbitrary: x rule: less_induct)
  case (less b)
  obtain c m s where x: "x = (c, m, s)" by (cases x) auto
  from ok_progress [OF less.prems [unfolded x] assms(2)] show ?case unfolding x
    using less.IH by (meson rtranclp_trans)
qed

lemma event_task_slots: "watched R s L W \<Longrightarrow> inj (r_slot R) \<Longrightarrow>
  distinct (map (event_task (ioevents s)) W) \<and> set (map (event_task (ioevents s)) W) = {p \<in> set L. r_slot R p \<in> set W}"
proof -
  assume W: "watched R s L W" and inj: "inj (r_slot R)"
  let ?f = "event_task (ioevents s)"
  have at: "?f a \<in> set L \<and> r_slot R (?f a) = a" if "a \<in> set W" for a using watched_task [OF W that] by auto
  then have "inj_on ?f (set W)" by (metis inj_onI)
  moreover have "distinct W" using W by (simp add: watched_def)
  moreover have "?f (r_slot R p) = p" if "r_slot R p \<in> set W" for p using at [OF that] inj by (auto dest: injD)
  moreover have "set (map ?f W) = {p \<in> set L. r_slot R p \<in> set W}"
  proof (intro equalityI subsetI)
    show "p \<in> {p \<in> set L. r_slot R p \<in> set W}" if "p \<in> set (map ?f W)" for p using that at by auto
    show "p \<in> set (map ?f W)" if "p \<in> {p \<in> set L. r_slot R p \<in> set W}" for p
      using that calculation(3) [of p] by (auto simp: image_iff intro!: bexI [of _ "r_slot R p"])
  qed
  ultimately show "distinct (map ?f W) \<and> set (map ?f W) = {p \<in> set L. r_slot R p \<in> set W}"
    by (simp add: distinct_map)
qed

lemma ok_everywhere:
  assumes ok: "io_ok mon R b (c, m, s)" and fine: "fine R"
  shows "\<exists>L Q W. world_rep s L Q \<and> mon R m s W \<and> distinct (Q @ map (event_task (ioevents s)) W) \<and>
    set L = set Q \<union> set (map (event_task (ioevents s)) W) \<union> set_option (held c)"
proof -
  from ok obtain L Q W n where inv: "io_inv mon R L Q W n (c, m, s)" by (auto simp: io_ok_def)
  note facts = io_inv_facts [OF inv]
  let ?W = "map (event_task (ioevents s)) W"
  note W = event_task_slots [OF facts(3) slots [OF fine]]
  have "q \<notin> set ?W" if "q \<in> set Q" for q using inv_tick_pre [OF inv fine] that by (auto simp: tick_pre_def)
  then have "set Q \<inter> set ?W = {}" by blast
  then have dist: "distinct (Q @ ?W)" using W io_distinct [OF inv] by (simp only: distinct_append simp_thms)
  have "q \<in> set Q \<union> set ?W \<union> set_option (held c)" if "q \<in> set L" for q
  proof (cases "held c = Some q")
    case False
    then have "aside R s q (q \<in> set Q) (r_slot R q \<in> set W) (n q)"
      using facts(8) [OF that] facts(6) by (simp add: phase_aside)
    then have "q \<in> set Q \<or> r_slot R q \<in> set W" by (auto simp: aside_def)
    then show ?thesis using that W by auto
  qed simp
  moreover have "set Q \<union> set ?W \<union> set_option (held c) \<subseteq> set L"
    using W io_distinct [OF inv] facts(7) by (auto simp: elem_set)
  ultimately have "set L = set Q \<union> set ?W \<union> set_option (held c)" by blast
  then show ?thesis using facts(1,2) dist by blast
qed

section \<open>The start\<close>

lemma io_rep_ok:
  assumes "io_rep mon R m s js" shows "io_ok mon R (reactor_cost js) (Looping, m, s)"
proof -
  from assms obtain L where L: "world_rep s L (map fst js)" "set L = fst ` set js" by (auto simp: io_rep_def)
  have dist: "distinct L" "distinct (map fst js)" using L(1) by (auto simp: world_rep_def rep_defs)
  let ?n = "\<lambda>p. case map_of js p of None \<Rightarrow> 0 | Some (u, k) \<Rightarrow> 10 * k + (4 :: nat)"
  have at: "map_of js p = Some x" if "(p, x) \<in> set js" for p x using that dist(2) by simp
  have "\<forall>p \<in> set L. aside R s p (p \<in> fst ` set js) False (?n p)"
  proof
    fix p assume "p \<in> set L"
    with L(2) obtain u k where j: "(p, u, k) \<in> set js" by auto
    then have "ready R s p k" using assms by (auto simp: io_rep_def ready_def)
    then show "aside R s p (p \<in> fst ` set js) False (?n p)" using at [OF j] j by (force simp: aside_def)
  qed
  moreover have "length L = length js" using L(2) dist distinct_card [of L] distinct_card [of "map fst js"] by simp
  ultimately have "io_inv mon R L (map fst js) [] ?n (Looping, m, s)"
    using assms L(1) by (simp add: L(2) io_inv_def io_rep_def watched_def)
  moreover have "io_left L [] ?n \<le> reactor_cost js"
  proof -
    have "sum_list (map ?n L) = sum_list (map ?n (map fst js))"
      using L(2) dist by (simp add: sum_list_distinct_conv_sum_set del: map_map)
    also have "map ?n (map fst js) = map (\<lambda>(p, u, k). 10 * k + 4) js"
      using at by (auto simp: comp_def)
    finally show ?thesis by (simp add: io_left_def reactor_cost_def)
  qed
  ultimately show ?thesis unfolding io_ok_def by auto
qed

end

end
