(* ===== verification/Reactor.thy ===== *)
theory Reactor
  imports Monitor
begin

text \<open>
  The select monitor in the company of a worker: its tick in small steps, and the proof that it
  keeps the contract \<open>monitor\<close>.
\<close>

section \<open>The tick in small steps\<close>

text \<open>Where the master stands: between two ticks, in \<open>select\<close>, in the second loop with the
  events that are left, or done with a module that has panicked. The first loop is one step, and
  so is each push of an event into the ring.\<close>

datatype polling = Resting | Asking fd_sets "addr list" | Handing int fd_sets "addr list" | Panicked

fun pending :: "polling \<Rightarrow> addr list" where
  "pending (Asking F es) = es"
| "pending (Handing nfds F es) = es"
| "pending m = []"

definition tick_take ::
  "('k, 'z) selstate_scheme \<Rightarrow> (fault + (polling \<times> ('k, 'z) selstate_scheme)) option" where
  "tick_take s =
    (case sel_mod s of
       None \<Rightarrow> Some (Inl NullDeref)
     | Some m \<Rightarrow>
        if RINGT_ISEMPTY (s_events m) then None
        else Some (and_then (sel_collect (unat (s_maxfileno m)) (ioevents s) (s_events m) ({}, {}, {}) [])
          (\<lambda>(ok, r, F, swap).
            Inr (if \<not> ok then Panicked else if swap = [] then Resting else Asking F swap, sel_put r s))))"

text \<open>\<open>ans\<close> is what \<open>select\<close> answers.\<close>

fun tick_step ::
  "int \<times> fd_sets \<Rightarrow> polling \<Rightarrow> ('k, 'z) selstate_scheme \<Rightarrow> (fault + (polling \<times> ('k, 'z) selstate_scheme)) option" where
  "tick_step ans Resting s = tick_take s"
| "tick_step (nfds, A) (Asking F es) s = Some (Inr (Handing nfds (sel_answer nfds A) es, s))"
| "tick_step ans (Handing nfds F []) s = Some (Inr (if nfds = -1 then Panicked else Resting, s))"
| "tick_step ans (Handing nfds F (e # es)) s =
    Some (and_then (sel_dispatch nfds F [e] s) (\<lambda>(ok, s). Inr (if ok then Handing nfds F es else Panicked, s)))"
| "tick_step ans Panicked s = None"

section \<open>With a worker\<close>

type_synonym 'z selext = "'z selstate_ext iostate_ext master_ext"

type_synonym ('u, 'z) rstate = "('u frame, 'z) selstate_scheme"

abbreviation sel_calls :: "'u reactor \<Rightarrow> ('u, 'z selext) userland" where
  "sel_calls \<equiv> io_calls (\<lambda>R. sel_register) sel_report"

text \<open>\<open>select\<close> does not fail, and reports only descriptors it was asked about.\<close>

fun answers :: "polling \<Rightarrow> ('u, 'z) rstate \<Rightarrow> int \<times> fd_sets \<Rightarrow> bool" where
  "answers (Asking (rfds, wfds, efds) es) s (nfds, (r, w, e)) \<longleftrightarrow> nfds \<noteq> -1 \<and> r \<subseteq> rfds \<and> w \<subseteq> wfds \<and> e \<subseteq> efds"
| "answers m s ans \<longleftrightarrow> True"

abbreviation reactor_step :: "'u reactor \<Rightarrow> 'u control \<times> polling \<times> ('u, 'z) rstate \<Rightarrow> 'u control \<times> polling \<times> ('u, 'z) rstate \<Rightarrow> bool" where
  "reactor_step R \<equiv> duo_step (io_work sel_calls R) tick_step answers"

abbreviation reactor_run :: "'u reactor \<Rightarrow> nat \<Rightarrow> 'u control \<times> polling \<times> ('u, 'z) rstate \<Rightarrow> 'u control \<times> polling \<times> ('u, 'z) rstate \<Rightarrow> bool" where
  "reactor_run R \<equiv> duo_run (io_work sel_calls R) tick_step answers"

abbreviation reactor_faults :: "'u reactor \<Rightarrow> 'u control \<times> polling \<times> ('u, 'z) rstate \<Rightarrow> bool" where
  "reactor_faults R \<equiv> duo_faults (io_work sel_calls R) tick_step answers"

definition reactor_fine :: "'u reactor \<Rightarrow> bool" where
  "reactor_fine R \<longleftrightarrow> inj (r_slot R) \<and> r_max R \<noteq> 0 \<and>
    (\<forall>fd. r_fits R fd \<longrightarrow> fd < uint (r_max R) \<and> fd < FD_SETSIZE)"

text \<open>The events with the monitor are those in the ring and in the tick.\<close>

fun polls :: "polling \<Rightarrow> bool" where
  "polls Panicked = False"
| "polls (Handing nfds F es) = (nfds \<noteq> -1)"
| "polls m = True"

definition sel_mon :: "'u reactor \<Rightarrow> polling \<Rightarrow> ('u, 'z) rstate \<Rightarrow> addr list \<Rightarrow> bool" where
  "sel_mon R m s W \<longleftrightarrow> polls m \<and> (\<exists>xs. sel_rep s (r_max R) (r_cap R) xs \<and> W = xs @ pending m)"

lemma sel_monI: "polls m \<Longrightarrow> sel_rep s (r_max R) (r_cap R) xs \<Longrightarrow> W = xs @ pending m \<Longrightarrow> sel_mon R m s W"
  unfolding sel_mon_def by blast

lemma more_sel: "iostate.more s' = iostate.more (s :: ('u, 'z) rstate) \<Longrightarrow> sel_mod s' = sel_mod s"
  by (cases s; cases s') simp

text \<open>When \<open>select\<close> reports an event the tick wakes its task; before that, every step brings the tick
  nearer to a \<open>select\<close> that is asked about the events of the ring.\<close>

fun sel_rank :: "polling \<Rightarrow> ('u, 'z) rstate \<Rightarrow> nat" where
  "sel_rank Resting s = 2"
| "sel_rank (Asking F es) s = (if es \<noteq> [] \<and> sel_isready 1 F (ioevents s) (hd es) then 1 else 4 + length es)"
| "sel_rank (Handing k F es) s = (if es \<noteq> [] \<and> sel_isready k F (ioevents s) (hd es) then 0 else 3 + length es)"
| "sel_rank Panicked s = 0"

lemma watched_ok:
  assumes "reactor_fine R" "watched R s L W" "a \<in> set W" shows "event_ok (ioevents s) a"
proof -
  from assms(2,3) obtain v where "ioevents s a = Some v" "e_events v \<noteq> 0" "0 \<le> e_fd v" "r_fits R (e_fd v)"
    by (auto simp: watched_def awaits_def)
  with assms(1) show ?thesis by (auto simp: event_ok_def reactor_fine_def)
qed

lemma asked_ready:
  assumes "e \<in> set es" "event_ok (ioevents s) e" shows "sel_isready 1 (sel_asked (ioevents s) es) (ioevents (sel_put r s)) e"
proof -
  from assms obtain v where v: "ioevents s e = Some v" "e_events v \<noteq> 0" by (auto simp: event_ok_def)
  then have "e_fd v \<in> fds_of (ioevents s) (-1) es" using assms(1) by (auto simp: fds_of_def)
  then show ?thesis using v(1) by (simp add: sel_isready_def sel_asked_def sel_ready_def IOIN_def IOOUT_def IOERR_def)
qed

text \<open>The first loop.\<close>

lemma take_run:
  assumes fine: "reactor_fine R" and mon: "sel_mon R Resting s W" and pre: "tick_pre R s L Q W" and W: "W \<noteq> []"
  shows "\<exists>F es s' W'. tick_take s = Some (Inr (Asking F es, s')) \<and> es \<noteq> [] \<and> F = sel_asked (ioevents s') es \<and>
    (\<forall>e \<in> set es. sel_isready 1 F (ioevents s') e) \<and> sel_mon R (Asking F es) s' W' \<and> tick_quiet s s' L Q W W' \<and>
    (\<exists>r. s' = sel_put r s)"
proof -
  from mon have sel: "sel_rep s (r_max R) (r_cap R) W" by (simp add: sel_mon_def)
  then obtain md where md: "sel_mod s = Some md" "s_maxfileno md = r_max R" "ring_rep (s_events md) W"
    "ring_capacity (s_events md) = r_cap R" by (auto simp: sel_rep_def)
  have ne: "\<not> RINGT_ISEMPTY (s_events md)" using md(3) W ring_isempty by (auto simp: ring_rep_def)
  let ?n = "unat (r_max R)"
  let ?F = "sel_asked (ioevents s) (take ?n W)"
  have ok: "\<forall>a \<in> set W. event_ok (ioevents s) a" using pre watched_ok [OF fine] by (auto simp: tick_pre_def)
  from sel_collect_spec [OF md(3) ok, of ?n "{}" "{}" "{}" "[]"] obtain r where
    r: "sel_collect ?n (ioevents s) (s_events md) ({}, {}, {}) [] = Inr (True, r, ?F, take ?n W)"
      "ring_rep r (drop ?n W)" "ring_capacity r = r_cap R" using md(4) by (auto simp: sel_asked_def)
  have "?n \<noteq> 0" using fine by (simp add: unat_eq_0 reactor_fine_def)
  then have some: "take ?n W \<noteq> []" using W by simp
  let ?s = "sel_put r s"
  have run: "tick_take s = Some (Inr (Asking ?F (take ?n W), ?s))"
    using ne some by (simp add: tick_take_def md(1,2) r(1))
  have "sel_mon R (Asking ?F (take ?n W)) ?s (drop ?n W @ take ?n W)"
    by (rule sel_monI [OF _ sel_rep_put [OF md(1,2) r(2,3)]]) simp_all
  moreover have "mset (drop ?n W @ take ?n W) = mset W" by (metis append_take_drop_id mset_append union_commute)
  moreover have "sel_isready 1 ?F (ioevents ?s) e" if "e \<in> set (take ?n W)" for e
    using that ok set_take_subset [of ?n W] by (intro asked_ready) auto
  ultimately show ?thesis
    using run some pre by (intro exI [of _ ?F] exI [of _ "take ?n W"] exI [of _ ?s] exI [of _ "drop ?n W @ take ?n W"])
      (auto simp: tick_quiet_def tick_pre_def)
qed

text \<open>A turn of the second loop.\<close>

lemma hand_idle:
  assumes fine: "reactor_fine R" and mon: "sel_mon R (Handing k F (e # es)) s W" and pre: "tick_pre R s L Q W"
    and idle: "\<not> sel_isready k F (ioevents s) e"
  shows "\<exists>s' W'. tick_step ans (Handing k F (e # es)) s = Some (Inr (Handing k F es, s')) \<and>
    sel_mon R (Handing k F es) s' W' \<and> tick_quiet s s' L Q W W'"
proof -
  from mon obtain xs where xs: "sel_rep s (r_max R) (r_cap R) xs" "W = xs @ e # es" "k \<noteq> -1" by (auto simp: sel_mon_def)
  have room: "length xs < r_cap R" using pre xs(2) by (simp add: tick_pre_def)
  have ok: "event_ok (ioevents s) e" using pre watched_ok [OF fine, of s L W e] xs(2) by (simp add: tick_pre_def)
  obtain s1 where s1: "sel_dispatch k F (e # []) s = sel_dispatch k F [] s1"
    "sel_rep s1 (r_max R) (r_cap R) (xs @ [e])" "ioevents s1 = ioevents s" "\<forall>L Q. world_rep s1 L Q = world_rep s L Q"
    "heap s1 = heap s" "tls_task s1 = tls_task s" "tls_context s1 = tls_context s"
    by (rule sel_dispatch_idle [OF xs(1) room ok idle]) (rule that)
  have "sel_mon R (Handing k F es) s1 ((xs @ [e]) @ es)" using xs(3) by (intro sel_monI [OF _ s1(2)]) simp_all
  moreover have "tick_step ans (Handing k F (e # es)) s = Some (Inr (Handing k F es, s1))" using s1(1) by simp
  ultimately show ?thesis
    using s1 pre by (intro exI [of _ s1] exI [of _ "(xs @ [e]) @ es"]) (simp add: tick_quiet_def tick_pre_def xs(2))
qed

lemma hand_ready:
  assumes mon: "sel_mon R (Handing k F (e # es)) s W" and pre: "tick_pre R s L Q W" and ready: "sel_isready k F (ioevents s) e"
  shows "\<exists>s' W'. tick_step ans (Handing k F (e # es)) s = Some (Inr (Handing k F es, s')) \<and>
    sel_mon R (Handing k F es) s' W' \<and> tick_wakes s s' L Q W W'"
proof -
  from mon obtain xs where xs: "sel_rep s (r_max R) (r_cap R) xs" "W = xs @ e # es" "k \<noteq> -1" by (auto simp: sel_mon_def)
  have rep: "world_rep s L Q" using pre by (simp add: tick_pre_def)
  have task: "event_task (ioevents s) e \<in> set L" "event_task (ioevents s) e \<notin> set Q"
    using pre watched_task [of R s L W e] by (auto simp: tick_pre_def xs(2))
  obtain s1 where s1: "sel_dispatch k F (e # []) s = sel_dispatch k F [] s1"
    "sel_rep s1 (r_max R) (r_cap R) xs" "ioevents s1 = sel_marked k F [e] (ioevents s)"
    "world_rep s1 L (Q @ [event_task (ioevents s) e])"
    "heap s1 = heap s" "tls_task s1 = tls_task s" "tls_context s1 = tls_context s"
    by (rule sel_dispatch_ready [OF rep xs(1) ready task]) (rule that)
  from ready obtain v where "ioevents s e = Some v" by (auto simp: sel_isready_def split: option.splits)
  with s1(3) ready have "\<exists>v. ioevents s1 = (ioevents s)(e \<mapsto> v)" by (auto simp: sel_marked_def fun_eq_iff)
  moreover have "mset W = mset (e # (xs @ es))" by (simp add: xs(2))
  moreover have "sel_mon R (Handing k F es) s1 (xs @ es)" using xs(3) by (intro sel_monI [OF _ s1(2)]) simp_all
  moreover have "tick_step ans (Handing k F (e # es)) s = Some (Inr (Handing k F es, s1))" using s1(1) by simp
  ultimately show ?thesis
    using s1(4-7) unfolding tick_wakes_def by (intro exI [of _ s1] exI [of _ "xs @ es"]) blast
qed

text \<open>Every step.\<close>

lemma sel_ticks:
  assumes fine: "reactor_fine R" and mon: "sel_mon R m s W" and pre: "tick_pre R s L Q W" and ans: "answers m s ans"
    and step: "tick_step ans m s = Some r"
  shows "\<exists>m' s' W'. r = Inr (m', s') \<and> sel_mon R m' s' W' \<and> (tick_quiet s s' L Q W W' \<or> tick_wakes s s' L Q W W')"
proof -
  have same: "tick_quiet s s L Q W W" using pre by (simp add: tick_quiet_def tick_pre_def)
  show ?thesis
  proof (cases m)
    case Resting
    have "W \<noteq> []"
    proof
      assume "W = []"
      with mon Resting obtain md where "sel_mod s = Some md" "RINGT_ISEMPTY (s_events md)"
        using ring_isempty by (auto simp: sel_mon_def sel_rep_def ring_rep_def)
      with step show False by (simp add: Resting tick_take_def)
    qed
    from take_run [OF fine mon [unfolded Resting] pre this] step show ?thesis by (auto simp: Resting)
  next
    case (Asking F es)
    obtain nfds A where a: "ans = (nfds, A)" by (cases ans)
    with ans have "nfds \<noteq> -1" by (cases F; cases A) (simp add: Asking)
    then have "sel_mon R (Handing nfds (sel_answer nfds A) es) s W" using mon by (simp add: sel_mon_def Asking)
    then show ?thesis using step same by (auto simp: Asking a)
  next
    case (Handing k F es)
    show ?thesis
    proof (cases es)
      case Nil
      have "k \<noteq> -1" "sel_mon R Resting s W" using mon by (simp_all add: sel_mon_def Handing Nil)
      then show ?thesis using step same by (auto simp: Handing Nil)
    next
      case (Cons e es')
      note mon' = mon [unfolded Handing Cons]
      show ?thesis
        using hand_idle [OF fine mon' pre, of ans] hand_ready [OF mon' pre, of ans] step
        by (cases "sel_isready k F (ioevents s) e") (auto simp: Handing Cons simp del: tick_step.simps sel_dispatch.simps)
    qed
  next
    case Panicked
    then show ?thesis using step by simp
  qed
qed

lemma sel_rep_length: "sel_rep s mx cap xs \<Longrightarrow> sel_rep s mx cap ys \<Longrightarrow> length xs = length ys"
proof -
  assume "sel_rep s mx cap xs" "sel_rep s mx cap ys"
  then obtain r j k where "ring_rep_bits j r xs" "ring_rep_bits k r ys" by (auto simp: sel_rep_def ring_rep_def)
  from ring_rep_used(1) [OF this(1)] ring_rep_used(1) [OF this(2)] show ?thesis by simp
qed

lemma sel_mon_length:
  assumes "sel_mon R m s W" "sel_mon R m s W'" shows "length W = length W'"
proof -
  from assms obtain xs ys where "sel_rep s (r_max R) (r_cap R) xs" "sel_rep s (r_max R) (r_cap R) ys"
    and W: "W = xs @ pending m" "W' = ys @ pending m" unfolding sel_mon_def by blast
  from sel_rep_length [OF this(1,2)] show ?thesis by (simp add: W)
qed

lemma sel_goes:
  assumes fine: "reactor_fine R" and mon: "sel_mon R m s W" and pre: "tick_pre R s L Q W" and some: "m \<noteq> Resting \<or> W \<noteq> []"
  shows "\<exists>ans m' s'. answers m s ans \<and> tick_step ans m s = Some (Inr (m', s')) \<and>
    (sel_rank m' s' < sel_rank m s \<or> (\<exists>W'. sel_mon R m' s' W' \<and> length W' < length W))"
proof (cases m)
  case Resting
  with some have "W \<noteq> []" by simp
  from take_run [OF fine mon [unfolded Resting] pre this] obtain F es s' where
    s': "tick_take s = Some (Inr (Asking F es, s'))" "es \<noteq> []" "\<forall>e \<in> set es. sel_isready 1 F (ioevents s') e" by blast
  then have "sel_rank (Asking F es) s' < sel_rank Resting s" by simp
  then show ?thesis using s'(1) unfolding Resting by (intro exI [of _ "(0, {}, {}, {})"]) auto
next
  case (Asking F es)
  define k where "k = (if es \<noteq> [] \<and> sel_isready 1 F (ioevents s) (hd es) then 1 else 0 :: int)"
  define A where "A = (if k = 1 then F else ({}, {}, {}))"
  have "answers m s (k, A)" by (cases F) (simp add: Asking A_def k_def)
  moreover have "tick_step (k, A) m s = Some (Inr (Handing k (sel_answer k A) es, s))" by (simp add: Asking)
  moreover have "sel_rank (Handing k (sel_answer k A) es) s < sel_rank m s"
    by (cases F) (simp add: Asking A_def k_def sel_answer_def)
  ultimately show ?thesis by blast
next
  case (Handing k F es)
  show ?thesis
  proof (cases es)
    case Nil
    have "k \<noteq> -1" using mon by (simp add: sel_mon_def Handing)
    then show ?thesis by (intro exI [of _ "(0, {}, {}, {})"]) (auto simp: Handing Nil)
  next
    case (Cons e es')
    note mon' = mon [unfolded Handing Cons]
    show ?thesis
    proof (cases "sel_isready k F (ioevents s) e")
      case True
      from hand_ready [OF mon' pre True] obtain s' W' where
        s': "tick_step (0, {}, {}, {}) (Handing k F (e # es')) s = Some (Inr (Handing k F es', s'))"
          "sel_mon R (Handing k F es') s' W'" "tick_wakes s s' L Q W W'" by blast
      from s'(2) wakes_shorter [OF s'(3)] have "\<exists>W'. sel_mon R (Handing k F es') s' W' \<and> length W' < length W" by blast
      then show ?thesis using s'(1) unfolding Handing Cons by (intro exI [of _ "(0, {}, {}, {})"]) (auto simp del: tick_step.simps)
    next
      case False
      from hand_idle [OF fine mon' pre False] obtain s' where
        s': "tick_step (0, {}, {}, {}) (Handing k F (e # es')) s = Some (Inr (Handing k F es', s'))" by blast
      have "sel_rank (Handing k F es') s' < sel_rank (Handing k F (e # es')) s" using False by simp
      then show ?thesis using s' unfolding Handing Cons by (intro exI [of _ "(0, {}, {}, {})"]) (auto simp del: tick_step.simps sel_rank.simps)
    qed
  qed
next
  case Panicked
  then show ?thesis using mon by (simp add: sel_mon_def)
qed

lemma sel_enters:
  fixes s :: "('u, 'z) rstate"
  assumes fine: "reactor_fine R" and mon: "sel_mon R m s W" and a: "a \<notin> set W" and room: "length W < r_cap R"
    and self: "pcaio_self i s = Some p" and fd: "0 \<le> fd" "r_fits R fd" "ev \<noteq> 0"
  shows "\<exists>s' W'. sel_register i a fd ev s = Inr (0, s') \<and> sel_mon R m s' W' \<and> mset W' = mset (a # W) \<and>
    ioevents s' = (ioevents s)(a \<mapsto> \<lparr>e_fd = fd, e_events = ev, e_task = p\<rparr>) \<and> heap s' = heap s \<and> tasks s' = tasks s \<and>
    taskq s' = taskq s \<and> tls_task s' = tls_task s \<and> tls_context s' = tls_context s"
proof -
  from mon obtain xs where xs: "polls m" "sel_rep s (r_max R) (r_cap R) xs" "W = xs @ pending m" by (auto simp: sel_mon_def)
  have "length xs < r_cap R" "fd \<le> uint (r_max R)" using room xs(3) fine fd(2) by (auto simp: reactor_fine_def)
  from sel_register_run [OF xs(2) this(1) self fd(1) this(2) fd(3), of a] obtain r where
    r: "sel_register i a fd ev s = Inr (0, sel_put r (event_put a (Some \<lparr>e_fd = fd, e_events = ev, e_task = p\<rparr>) s))"
      "sel_rep (sel_put r (event_put a (Some \<lparr>e_fd = fd, e_events = ev, e_task = p\<rparr>) s)) (r_max R) (r_cap R) (xs @ [a])" by blast
  let ?s = "sel_put r (event_put a (Some \<lparr>e_fd = fd, e_events = ev, e_task = p\<rparr>) s)" and ?W = "(xs @ [a]) @ pending m"
  have "sel_mon R m ?s ?W" by (rule sel_monI [OF xs(1) r(2)]) simp
  then show ?thesis using r(1) by (intro exI [of _ ?s] exI [of _ ?W]) (simp add: xs(3))
qed

interpretation selecting: monitor reactor_fine sel_mon "\<lambda>R. sel_register" sel_report tick_step answers Resting sel_rank
proof
  show "inj (r_slot R)" if "reactor_fine R" for R using that by (simp add: reactor_fine_def)
  show "sel_mon R m s' W" if "sel_mon R m s W" "iostate.more s' = iostate.more s" for R m W and s s' :: "('a, 'b) rstate"
    using that more_sel [of s' s] by (auto simp: sel_mon_def sel_rep_def)
  show "\<exists>r. sel_report a s = Inr (r, event_put a None s)" if "ioevents s a = Some v" for a v and s :: "('a, 'b) rstate"
    using that by (simp add: sel_report_def)
qed (fact sel_mon_length, fact sel_enters, fact sel_ticks, fact sel_goes)

end
