(* ===== verification/Service.thy ===== *)
theory Service
  imports Reactor
begin

text \<open>
  One worker and the select monitor together: in every interleaving nothing is lost, and
  the tasks can always be brought to an end.
\<close>

text \<open>The start: the worker in its loop with nothing in hand, the ring empty, the tasks \<open>js\<close> queued.\<close>

abbreviation reactor_rep :: "'u reactor \<Rightarrow> ('u, 'z) rstate \<Rightarrow> (addr \<times> 'u \<times> nat) list \<Rightarrow> bool" where
  "reactor_rep R s js \<equiv> io_rep sel_mon R Resting s js"

lemma sel_mon_start [simp]: "sel_mon R Resting s W \<longleftrightarrow> sel_rep s (r_max R) (r_cap R) W"
  by (simp add: sel_mon_def)

section \<open>A sample\<close>

text \<open>Function 7 waits for descriptor 5, every other one returns at once.\<close>

definition reader :: "nat \<Rightarrow> nat uop" where
  "reader u = (if u = 1 then Call 0 (\<lambda>_. 2) else if u = 2 then Relax TASK_NOSCHEDULE (\<lambda>_. 3)
     else if u = 3 then Call 1 (\<lambda>_. 0) else Return 5)"

definition reactor1 :: "tid \<Rightarrow> nat reactor" where
  "reactor1 i = \<lparr>r_prog = reader, r_start = start2, r_req = (\<lambda>_. (5, IOIN)), r_slot = (\<lambda>p. p + 4096), r_tid = i,
     r_max = 16, r_cap = 3, r_fits = (\<lambda>fd. fd < 16)\<rparr>"

definition ring3 :: "addr ring" where
  "ring3 = \<lparr>rhead = 0, rtail = 0, rmask = 3, rheadx = False, rtailx = False, rbackend = Some [None, None, None, None]\<rparr>"

definition sel3 :: "'k world \<Rightarrow> ('k, unit) selstate_scheme" where
  "sel3 w = iostate.extend (master.extend (state_static w) (iostate.fields (\<lambda>_. None)))
     (selstate.fields (Some \<lparr>s_self = 8, s_maxfileno = 16, s_events = ring3\<rparr>))"

lemma sel3_simps:
  "world_rep (sel3 w) L Q = world_rep w L Q" "sel_rep (sel3 w) 16 3 []" "ioevents (sel3 w) a = None"
  "tls_task (sel3 w) = tls_task w" "tls_context (sel3 w) = tls_context w" "heap (sel3 w) = heap w"
proof -
  have "ring_rep_bits 2 ring3 []" by (simp add: ring_rep_bits_def ring3_def)
  then have "ring_rep ring3 []" by (rule ring_repI)
  moreover have "ring_capacity ring3 = 3" by (simp add: ring_capacity_def ring3_def)
  ultimately show "world_rep (sel3 w) L Q = world_rep w L Q" "sel_rep (sel3 w) 16 3 []" "ioevents (sel3 w) a = None"
    "tls_task (sel3 w) = tls_task w" "tls_context (sel3 w) = tls_context w" "heap (sel3 w) = heap w"
    by (simp_all add: sel3_def iostate.extend_def master.extend_def iostate.fields_def selstate.fields_def
      world_rep_def sel_rep_def state_static_def world.extend_def master.fields_def)
qed

lemma reader_serves:
  assumes "r_prog R = reader" "r_req R = (\<lambda>_. (5, IOIN))" "r_fits R 5"
  shows "serves R 0 k" "serves R (Suc 0) (Suc 0)"
proof -
  show now: "serves R 0 k" for k by (rule serves.returns [of _ _ 5]) (simp add: assms reader_def)
  have "serves R 1 (Suc 0)"
    by (rule serves.waits [of _ _ 0 "\<lambda>_. 2" 5 IOIN "\<lambda>_. 3" "\<lambda>_. 0", OF _ _ _ _ _ _ _ now])
      (simp_all add: assms reader_def IOIN_def)
  then show "serves R (Suc 0) (Suc 0)" by simp
qed

lemma reactor1_serves: "serves (reactor1 i) 0 k" "serves (reactor1 i) (Suc 0) (Suc 0)"
  by (rule reader_serves; simp add: reactor1_def)+

lemma reactor1_sample:
  "reactor_fine (reactor1 3) \<and> (\<exists>s :: (nat, unit) rstate. reactor_rep (reactor1 3) s [(64, 1, 1), (128, 0, 0)])"
proof
  show "reactor_fine (reactor1 3)" by (simp add: reactor_fine_def reactor1_def inj_def FD_SETSIZE_def)
  from sample_system obtain w :: "nat frame world" where w: "system_rep start2 3 w ([(64, Some 32, 1), (128, None, 0)], ints w)"
    by blast
  then have "stands (reactor1 3) (sel3 w) 64 1" "stands (reactor1 3) (sel3 w) 128 0"
    by (auto simp: system_rep_def stands_def resumes_def sel3_simps reactor1_def)
  with w have "reactor_rep (reactor1 3) (sel3 w) [(64, 1, 1), (128, 0, 0)]"
    by (auto simp: io_rep_def system_rep_def sel3_simps reactor1_serves reactor1_def [THEN arg_cong [of _ _ r_tid]]
      reactor1_def [THEN arg_cong [of _ _ r_cap]] reactor1_def [THEN arg_cong [of _ _ r_max]])
  then show "\<exists>s :: (nat, unit) rstate. reactor_rep (reactor1 3) s [(64, 1, 1), (128, 0, 0)]" by blast
qed

section \<open>The tick undivided\<close>

text \<open>The second loop is its turns one by one.\<close>

lemma sel_dispatch_Cons:
  "sel_dispatch nfds F (e # es) s =
    and_then (sel_dispatch nfds F [e] s) (\<lambda>(ok, s). if ok then sel_dispatch nfds F es s else Inr (False, s))"
  by (cases "event_at e s") (auto simp: Let_def and_then_def split: option.splits sum.splits)

lemma sel_dispatch_steps:
  "case sel_dispatch nfds F es s of
     Inr (ok, s') \<Rightarrow> (tick_small tick_step ans)\<^sup>*\<^sup>* (Handing nfds F es, s) (if ok then Handing nfds F [] else Panicked, s')
   | Inl f \<Rightarrow> tick_fails tick_step ans (Handing nfds F es, s) f"
proof (induction es arbitrary: s)
  case (Cons e es)
  show ?case
  proof (cases "sel_dispatch nfds F [e] s")
    case (Inl f)
    then have "tick_step ans (Handing nfds F (e # es)) s = Some (Inl f)" by simp
    moreover have "sel_dispatch nfds F (e # es) s = Inl f" using sel_dispatch_Cons [of nfds F e es s] Inl by simp
    ultimately show ?thesis by (simp del: tick_step.simps sel_dispatch.simps add: tick_fails_now)
  next
    case (Inr x)
    obtain ok s1 where x: "x = (ok, s1)" by (cases x)
    have "tick_small tick_step ans (Handing nfds F (e # es), s) (if ok then Handing nfds F es else Panicked, s1)"
      using Inr x by (simp add: tick_small_def)
    note step = tick_small_step [OF this]
    have split: "sel_dispatch nfds F (e # es) s = (if ok then sel_dispatch nfds F es s1 else Inr (False, s1))"
      using sel_dispatch_Cons [of nfds F e es s] Inr x by simp
    show ?thesis
    proof (cases ok)
      case True
      then show ?thesis
        using Cons.IH [of s1] step tick_fails_later [OF step] unfolding split by (auto split: sum.splits)
    next
      case False
      then show ?thesis using step [OF rtranclp.rtrancl_refl] unfolding split by simp
    qed
  qed
qed simp

section \<open>Properties\<close>

text \<open>Property C10. Between the select monitor and a worker nothing is lost: whatever the order
  in which the worker and the ticks of the monitor take their steps (the tick may queue a task before it has
  switched away, or while other tasks run), no step faults and the monitor does not panic; every task that exists is queued, in the
  worker's hands, or waiting with its event in the ring or in the tick, and never queued and
  waiting at once or queued twice.\<close>

theorem reactor_safe:
  fixes s s' :: "('u, 'z) rstate"
  assumes "reactor_fine R" "reactor_rep R s js" "reactor_run R k (Looping, Resting, s) (c, m, s')"
  shows "\<not> reactor_faults R (c, m, s') \<and> m \<noteq> Panicked \<and>
    (\<exists>L Q xs. world_rep s' L Q \<and> sel_rep s' (r_max R) (r_cap R) xs \<and>
      distinct (Q @ map (event_task (ioevents s')) (xs @ pending m)) \<and>
      set L = set Q \<union> set (map (event_task (ioevents s')) (xs @ pending m)) \<union> set_option (held c))"
proof -
  from selecting.run_ok [OF assms(3) selecting.io_rep_ok [OF assms(2)] assms(1)] obtain b where
    ok: "io_ok sel_mon R b (c, m, s')" by blast
  from selecting.ok_everywhere [OF this assms(1)] obtain L Q W where
    W: "world_rep s' L Q" "sel_mon R m s' W" "distinct (Q @ map (event_task (ioevents s')) W)"
      "set L = set Q \<union> set (map (event_task (ioevents s')) W) \<union> set_option (held c)" by blast
  from W(2) obtain xs where "polls m" "sel_rep s' (r_max R) (r_cap R) xs" "W = xs @ pending m" by (auto simp: sel_mon_def)
  with W selecting.ok_safe [OF ok assms(1)] show ?thesis by (cases m) auto
qed

text \<open>Property C11. Tasks that wait for descriptors are served: the worker never takes
  more than ten steps for each yield or wait of a task and four for the rest, however the ticks come in
  between; and from every state that can come about, worker and monitor can go on to a state with
  every task finished and freed, the queue empty and no event in the ring.\<close>

theorem reactor_finishes:
  fixes s :: "('u, 'z) rstate"
  assumes "reactor_fine R" "reactor_rep R s js" "reactor_run R k (Looping, Resting, s) x"
  shows "k \<le> reactor_cost js \<and>
    (\<exists>s'. (reactor_step R)\<^sup>*\<^sup>* x (Looping, Resting, s') \<and> world_rep s' [] [] \<and> sel_rep s' (r_max R) (r_cap R) [])"
proof -
  from selecting.run_ok [OF assms(3) selecting.io_rep_ok [OF assms(2)] assms(1)] obtain b where
    b: "io_ok sel_mon R b x" "b + k \<le> reactor_cost js" by blast
  from selecting.ok_completes [OF b(1) assms(1)] b(2) show ?thesis by simp
qed


section \<open>Witnesses\<close>

theorem reactor_safe_witness:
  "\<exists>(s :: (nat, unit) rstate) c s'. reactor_rep (reactor1 3) s [(64, 1, 1), (128, 0, 0)] \<and>
    reactor_step (reactor1 3) (Looping, Resting, s) (c, Resting, s') \<and> \<not> reactor_faults (reactor1 3) (c, Resting, s') \<and>
    (\<exists>L Q xs. world_rep s' L Q \<and> set L = set Q \<union> set (map (event_task (ioevents s')) xs) \<union> set_option (held c))"
proof -
  obtain s :: "(nat, unit) rstate" where s: "reactor_fine (reactor1 3)" "reactor_rep (reactor1 3) s [(64, 1, 1), (128, 0, 0)]"
    using reactor1_sample by blast
  from s(2) obtain L where "world_rep s L [64, 128]" by (auto simp: io_rep_def)
  from world_rep_pop [OF this] obtain q where q: "queue_pop (\<lambda>q. (0, q)) QWAIT (taskq s) = Some (0, Some 64, q)" by blast
  have "qhead (taskq s) \<noteq> None" using \<open>world_rep s L [64, 128]\<close> by (simp add: world_rep_def rep_defs)
  with q obtain c s' where
    step: "thread_step (r_prog (reactor1 3)) (r_start (reactor1 3)) (sel_calls (reactor1 3)) (r_tid (reactor1 3)) Looping s = Some (Inr (c, s'))"
    by (simp add: fetch_step_def)
  have "reactor_run (reactor1 3) (Suc 0) (Looping, Resting, s) (c, Resting, s')"
    by (rule duo_run.works, rule duo_run.stay, rule step)
  from reactor_safe [OF s this]
  have "\<not> reactor_faults (reactor1 3) (c, Resting, s')" "\<exists>L Q xs. world_rep s' L Q \<and>
    set L = set Q \<union> set (map (event_task (ioevents s')) xs) \<union> set_option (held c)" by auto
  moreover have "reactor_step (reactor1 3) (Looping, Resting, s) (c, Resting, s')" by (rule duo_step.work, rule step)
  ultimately show ?thesis using s(2) by blast
qed

theorem reactor_finishes_witness:
  "\<exists>(s :: (nat, unit) rstate) s'. reactor_rep (reactor1 3) s [(64, 1, 1), (128, 0, 0)] \<and>
    (reactor_step (reactor1 3))\<^sup>*\<^sup>* (Looping, Resting, s) (Looping, Resting, s') \<and>
    world_rep s' [] [] \<and> sel_rep s' 16 3 []"
proof -
  obtain s :: "(nat, unit) rstate" where s: "reactor_fine (reactor1 3)" "reactor_rep (reactor1 3) s [(64, 1, 1), (128, 0, 0)]"
    using reactor1_sample by blast
  from reactor_finishes [OF s duo_run.stay] s(2) show ?thesis by (auto simp: reactor1_def)
qed

end
