(* ===== verification/Serving.thy ===== *)
theory Serving
  imports Monitor Program
begin

text \<open>
  A program that waits for descriptors, as a whole: \<open>pcaio\<close> with a monitor installed and one
  worker, which moves while the master sleeps and while its tick waits for the kernel. The locale
  \<open>seated\<close> adds to \<open>monitor\<close> a state that holds the place of the worker, \<open>serving\<close> the whole tick and
  the start and end of the module; \<open>Server\<close> and \<open>Poller\<close> interpret them with the two monitors.
\<close>

section \<open>The worker beside the master\<close>

text \<open>\<open>place\<close> reads the place of the worker, \<open>seat c s1 s\<close> writes it, with what the step that ended
  in \<open>s1\<close> has changed of the monitor's data. The rest of what the worker works on is the memory
  of \<open>World\<close> and its tasks' events.\<close>

type_synonym ('u, 'z) seating = "'u control \<Rightarrow> ('u, 'z) iost \<Rightarrow> ('u, 'z) iost \<Rightarrow> ('u, 'z) iost"

type_synonym ('u, 'z) working = "'u control \<Rightarrow> ('u, 'z) iost \<Rightarrow> (fault + ('u control \<times> ('u, 'z) iost)) option"

definition put_worker :: "('u, 'z) seating \<Rightarrow> ('u, 'z) seating" where
  "put_worker seat c s1 s = seat c s1
    (s\<lparr>heap := heap s1, stacks := stacks s1, gathers := gathers s1, ints := ints s1, tasks := tasks s1,
      taskq := taskq s1, tls_task := tls_task s1, tls_context := tls_context s1, errno := errno s1,
      ioevents := ioevents s1\<rparr>)"

inductive sit_step ::
  "(('u, 'z) iost \<Rightarrow> 'u control option) \<Rightarrow> ('u, 'z) seating \<Rightarrow> ('u, 'z) working \<Rightarrow> ('u, 'z) iost \<Rightarrow> ('u, 'z) iost \<Rightarrow> bool"
  for place seat work where
  "place s = Some c \<Longrightarrow> work c s = Some (Inr (c', s1)) \<Longrightarrow> sit_step place seat work s (put_worker seat c' s1 s)"

text \<open>The new worker has stored its landing context and comes to its loop.\<close>

definition sit_spawn :: "('u, 'z) seating \<Rightarrow> tid \<Rightarrow> ('u, 'z) iost \<Rightarrow> ('u, 'z) iost" where
  "sit_spawn seat i s = seat Looping s
    (s\<lparr>tls_context := snd (snd (threadlocal_set 0 i (Some i) (tls_context s)))\<rparr>)"

text \<open>What the theorems rely on, as for \<open>crew_threads\<close> and \<open>crew_time\<close>: no pthread call fails,
  the worker starts, a cancelled one leaves through its clean-up handler, and in the time \<open>usleep\<close>
  takes it moves if it can.\<close>

definition sit_threads ::
  "(('u, 'z) iost \<Rightarrow> 'u control option) \<Rightarrow> ('u, 'z) seating \<Rightarrow> ('u, 'z) working \<Rightarrow> tid \<Rightarrow> ('u, 'z) iost pthreads \<Rightarrow> bool" where
  "sit_threads place seat work i pt \<longleftrightarrow>
    (\<forall>s. \<exists>h s'. pt_create pt s = (0, h, s') \<and>
      (place s = None \<longrightarrow> (sit_step place seat work)\<^sup>*\<^sup>* (sit_spawn seat i s) s')) \<and>
    (\<forall>h s. pt_cancel pt h s \<in> {(0, s), (0, worker_cleanup s)}) \<and>
    (\<forall>h s. pt_join pt h s \<in> {(0, s), (0, worker_cleanup s)})"

definition sit_time ::
  "(('u, 'z) iost \<Rightarrow> 'u control option) \<Rightarrow> ('u, 'z) seating \<Rightarrow> ('u, 'z) working
   \<Rightarrow> (c_uint \<Rightarrow> ('u, 'z) iost \<Rightarrow> ('u, 'z) iost) \<Rightarrow> bool" where
  "sit_time place seat work sleep \<longleftrightarrow>
    (\<forall>t s. (sit_step place seat work)\<^sup>*\<^sup>* s (sleep t s) \<and>
      ((\<exists>s'. sit_step place seat work s s') \<longrightarrow> (sit_step place seat work)\<^sup>+\<^sup>+ s (sleep t s)))"

text \<open>The module at \<open>p\<close> is the monitor. The others, \<open>modio\<close> for one, have neither an \<open>init\<close> that
  does anything nor a tick, and what their \<open>dtor\<close> frees is not in this state.\<close>

definition io_mods ::
  "('s \<Rightarrow> int \<times> 's) \<Rightarrow> (c_uint \<Rightarrow> 's \<Rightarrow> fault + (tickstatus \<times> 's)) \<Rightarrow> ('s \<Rightarrow> int \<times> 's) \<Rightarrow> addr \<Rightarrow> 's modfuns" where
  "io_mods init tickf dtor p =
    \<lparr>f_init = (\<lambda>m s. if m = p then init s else (0, s)), f_dtor = (\<lambda>m s. if m = p then dtor s else (0, s)),
     f_tick = (\<lambda>m t s. if m = p then tickf t s else Inr (PMSIDLE, s))\<rparr>"

text \<open>The monitor is installed first, and no other module ticks.\<close>

definition one_ticks :: "('k, 'z) master_scheme \<Rightarrow> addr \<Rightarrow> addr list \<Rightarrow> bool" where
  "one_ticks s p qs \<longleftrightarrow> installed s (p # qs) \<and> p \<notin> set qs \<and>
    (\<exists>x. module_mem s p = Some x \<and> m_flags x AND MOD_PANIC = 0 \<and> m_tick x \<and> m_dtor x) \<and>
    (\<forall>q \<in> set qs. \<exists>x. module_mem s q = Some x \<and> \<not> m_tick x)"

text \<open>The fields of the master that the worker and the monitor leave alone; \<open>self\<close> is the address
  of the monitor's module.\<close>

definition master_same :: "(('u, 'z) iost \<Rightarrow> addr option) \<Rightarrow> ('u, 'z) iost \<Rightarrow> ('u, 'z) iost \<Rightarrow> bool" where
  "master_same self s s' \<longleftrightarrow> workers s' = workers s \<and> cancel s' = cancel s \<and> pool s' = pool s \<and>
    modulescount s' = modulescount s \<and> modules s' = modules s \<and> module_mem s' = module_mem s \<and> self s' = self s"

definition sit_at ::
  "(('u, 'z) iost \<Rightarrow> 'u control option) \<Rightarrow> (('u, 'y) reactor_scheme \<Rightarrow> 'm \<Rightarrow> ('u, 'z) iost \<Rightarrow> addr list \<Rightarrow> bool)
   \<Rightarrow> ('u, 'y) reactor_scheme \<Rightarrow> nat \<Rightarrow> 'm \<Rightarrow> ('u, 'z) iost \<Rightarrow> bool" where
  "sit_at place mon R b m s \<longleftrightarrow> (\<exists>c. place s = Some c \<and> io_ok mon R b (c, m, s))"

text \<open>The program before the call: the monitor is installed at \<open>p\<close>, in the state that \<open>up\<close> says, and the
  tasks \<open>js\<close> (address, function, number of its yields and waits) have been created.\<close>

definition io_start ::
  "(('u, 'y) reactor_scheme \<Rightarrow> addr \<Rightarrow> ('u, 'z) iost \<Rightarrow> bool) \<Rightarrow> ('u, 'y) reactor_scheme \<Rightarrow> addr \<Rightarrow> addr list \<Rightarrow> ('u, 'z) iost
   \<Rightarrow> (addr \<times> 'u \<times> nat) list \<Rightarrow> bool" where
  "io_start up R p qs s js \<longleftrightarrow>
    workers s = 0 \<and> one_ticks s p qs \<and> up R p s \<and> js \<noteq> [] \<and> distinct (map fst js) \<and> length js \<le> r_cap R \<and>
    (\<exists>L. world_rep s L [] \<and> set L = fst ` set js) \<and>
    (\<forall>(a, u, k) \<in> set js. stands R s a u \<and> serves R u k \<and> ioevents s (r_slot R a) = None)"

section \<open>A worker that steps whenever there is time\<close>

definition sit_nudge ::
  "(('u, 'z) iost \<Rightarrow> 'u control option) \<Rightarrow> ('u, 'z) seating \<Rightarrow> ('u, 'z) working \<Rightarrow> ('u, 'z) iost \<Rightarrow> ('u, 'z) iost" where
  "sit_nudge place seat work s =
    (case place s of
       None \<Rightarrow> s
     | Some c \<Rightarrow> (case work c s of Some (Inr (c', s1)) \<Rightarrow> put_worker seat c' s1 s | _ \<Rightarrow> s))"

definition sit_nudged ::
  "(('u, 'z) iost \<Rightarrow> 'u control option) \<Rightarrow> ('u, 'z) seating \<Rightarrow> ('u, 'z) working \<Rightarrow> tid \<Rightarrow> ('u, 'z) iost pthreads" where
  "sit_nudged place seat work i =
    \<lparr>pt_create = (\<lambda>s. (0, 1, sit_nudge place seat work (sit_spawn seat i s))), pt_cancel = (\<lambda>h s. (0, s)),
     pt_join = (\<lambda>h s. (0, worker_cleanup s)), pt_kill = (\<lambda>h sig s. (0, s))\<rparr>"

lemma sit_nudge_step:
  "sit_step place seat work s (sit_nudge place seat work s) \<or>
    sit_nudge place seat work s = s \<and> (\<nexists>s'. sit_step place seat work s s')"
proof (cases "place s")
  case None
  then show ?thesis by (auto simp: sit_nudge_def elim: sit_step.cases)
next
  case (Some c)
  show ?thesis
  proof (cases "\<exists>c' s1. work c s = Some (Inr (c', s1))")
    case True
    then obtain c' s1 where run: "work c s = Some (Inr (c', s1))" by blast
    have "sit_step place seat work s (put_worker seat c' s1 s)" by (rule sit_step.intros, rule Some, rule run)
    with run Some show ?thesis by (simp add: sit_nudge_def)
  next
    case False
    then have "sit_nudge place seat work s = s" using Some by (auto simp: sit_nudge_def split: option.splits sum.splits)
    moreover have "\<nexists>s'. sit_step place seat work s s'" using False Some by (auto elim: sit_step.cases)
    ultimately show ?thesis by blast
  qed
qed

lemma sit_nudge_law:
  "(sit_step place seat work)\<^sup>+\<^sup>+ s (sit_nudge place seat work s) \<or>
    sit_nudge place seat work s = s \<and> (\<nexists>s'. sit_step place seat work s s')"
  using sit_nudge_step [of place seat work s] by blast

lemma sit_nudge_runs: "(sit_step place seat work)\<^sup>*\<^sup>* s (sit_nudge place seat work s)"
  using sit_nudge_step [of place seat work s] by auto

lemma sit_nudge_time: "sit_time place seat work (\<lambda>t. sit_nudge place seat work)"
  unfolding sit_time_def using sit_nudge_runs sit_nudge_law by blast

lemma sit_nudge_threads: "sit_threads place seat work i (sit_nudged place seat work i)"
  by (simp add: sit_threads_def sit_nudged_def sit_nudge_runs)

section \<open>Small facts\<close>

lemma master_same_refl [simp]: "master_same self s s"
  by (simp add: master_same_def)

lemma master_same_trans: "master_same self s s' \<Longrightarrow> master_same self s' s'' \<Longrightarrow> master_same self s s''"
  by (simp add: master_same_def)

lemma one_ticks_same: "master_same self s s' \<Longrightarrow> one_ticks s p qs \<Longrightarrow> one_ticks s' p qs"
  by (simp add: one_ticks_def master_same_def installed_def)

lemma io_mods_simps [simp]:
  "f_tick (io_mods init tickf dtor p) p t s = tickf t s" "f_init (io_mods init tickf dtor p) p s = init s"
  "f_dtor (io_mods init tickf dtor p) p s = dtor s" "q \<noteq> p \<Longrightarrow> f_init (io_mods init tickf dtor p) q s = (0, s)"
  "q \<noteq> p \<Longrightarrow> f_dtor (io_mods init tickf dtor p) q s = (0, s)"
  by (simp_all add: io_mods_def)

lemma one_ticks_at:
  assumes "one_ticks s p qs" "0 < i" "i < length (p # qs)"
  obtains q x where "module_at i s = Inr (q, x)" "q \<in> set qs" "\<not> m_tick x" "q \<noteq> p"
proof -
  have inst: "installed s (p # qs)" using assms(1) by (simp add: one_ticks_def)
  obtain x where x: "module_at i s = Inr ((p # qs) ! i, x)" "module_mem s ((p # qs) ! i) = Some x"
    by (rule installed_at [OF inst assms(3)])
  obtain j where j: "i = Suc j" "j < length qs" using assms(2,3) by (cases i) auto
  then have q: "qs ! j \<in> set qs" by simp
  with assms(1) have "\<not> m_tick x" "qs ! j \<noteq> p" using x(2) j(1) by (fastforce simp: one_ticks_def)+
  then show thesis using that [of "qs ! j" x] x(1) j(1) q by simp
qed

text \<open>The modules behind the monitor do nothing.\<close>

lemma others_tick:
  assumes "one_ticks s p qs"
  shows "0 < i \<Longrightarrow> i \<le> length (p # qs) \<Longrightarrow> tick_modules mf t i any s = Inr (any, s)"
proof (induction "length (p # qs) - i" arbitrary: i)
  case 0
  then have "unat (modulescount s) \<le> i" using assms by (simp add: one_ticks_def installed_def)
  then show ?case by (subst tick_modules.simps) simp
next
  case (Suc n)
  have i: "i < length (p # qs)" using Suc.hyps(2) by simp
  obtain q x where x: "module_at i s = Inr (q, x)" "\<not> m_tick x"
    by (rule one_ticks_at [OF assms Suc.prems(1) i])
  have "tick_modules mf t (i + 1) any s = Inr (any, s)"
    using Suc.hyps(1) [of "i + 1"] Suc.hyps(2) i by simp
  then show ?case using x i assms by (simp add: tick_modules.simps [of mf t i] one_ticks_def installed_def)
qed

lemma others_init:
  assumes "one_ticks s p qs"
  shows "0 < i \<Longrightarrow> i \<le> length (p # qs) \<Longrightarrow> init_modules (io_mods init tickf dtor p) i s = Inr (0, s)"
proof (induction "length (p # qs) - i" arbitrary: i)
  case 0
  then have "unat (modulescount s) \<le> i" using assms by (simp add: one_ticks_def installed_def)
  then show ?case by (subst init_modules.simps) simp
next
  case (Suc n)
  have i: "i < length (p # qs)" using Suc.hyps(2) by simp
  obtain q x where x: "module_at i s = Inr (q, x)" "q \<noteq> p"
    by (rule one_ticks_at [OF assms Suc.prems(1) i])
  have "init_modules (io_mods init tickf dtor p) (i + 1) s = Inr (0, s)"
    using Suc.hyps(1) [of "i + 1"] Suc.hyps(2) i by simp
  then show ?case using x i assms by (simp add: init_modules.simps [of _ i] one_ticks_def installed_def)
qed

lemma others_down:
  assumes "length (modules s) = MODULES_MAX" "length (p # qs) \<le> MODULES_MAX" "unat (modulescount s) = length (p # qs)"
    and "take (length (p # qs)) (modules s) = map Some (p # qs)" "p \<notin> set qs" "\<forall>q \<in> set qs. module_mem s q \<noteq> None"
  shows "0 < i \<Longrightarrow> i \<le> length (p # qs) \<Longrightarrow> dtor_modules (io_mods init tickf dtor p) i s = Inr s"
proof (induction "length (p # qs) - i" arbitrary: i)
  case 0
  then have "unat (modulescount s) \<le> i" using assms(3) by simp
  then show ?case by (subst dtor_modules.simps) simp
next
  case (Suc n)
  then have i: "i < length (p # qs)" by simp
  obtain j where j: "i = Suc j" "j < length qs" using Suc.prems(1) i by (cases i) auto
  have "modules s ! i = take (length (p # qs)) (modules s) ! i" using i by simp
  also have "\<dots> = Some (qs ! j)" unfolding assms(4) using j by simp
  finally have at: "modules s ! i = Some (qs ! j)" .
  have q: "qs ! j \<in> set qs" "qs ! j \<noteq> p" using j(2) assms(5) by (auto simp: in_set_conv_nth)
  then obtain x where x: "module_mem s (qs ! j) = Some x" using assms(6) by blast
  have "i < length (modules s)" using i assms(1,2) by simp
  with at x have mod: "module_at i s = Inr (qs ! j, x)" by (simp add: module_at_def)
  have "dtor_modules (io_mods init tickf dtor p) (i + 1) s = Inr s"
    using Suc.hyps(1) [of "i + 1"] Suc.hyps(2) i by simp
  then show ?case using mod q(2) i assms(3) by (subst dtor_modules.simps) simp
qed

section \<open>The worker and the monitor\<close>

locale seated = monitor fine mon enter report tick answers rest rank
  for fine :: "('u, 'y) reactor_scheme \<Rightarrow> bool"
    and mon :: "('u, 'y) reactor_scheme \<Rightarrow> 'm \<Rightarrow> ('u, 'z) iost \<Rightarrow> addr list \<Rightarrow> bool"
    and enter report
    and tick :: "'a \<Rightarrow> 'm \<Rightarrow> ('u, 'z) iost \<Rightarrow> (fault + ('m \<times> ('u, 'z) iost)) option"
    and answers rest rank +
  fixes place :: "('u, 'z) iost \<Rightarrow> 'u control option"
    and seat :: "('u, 'z) seating"
    and self :: "('u, 'z) iost \<Rightarrow> addr option"
  assumes seat_place: "place (seat c s1 s) = Some c"
    and seat_only: "\<exists>z. seat c s1 s = iostate.more_update (\<lambda>_. z) s"
    and seat_self: "self (seat c s1 s) = self s"
    and seat_mon: "mon R m s W \<Longrightarrow> mon R m s1 W' \<Longrightarrow> mon R m (seat c s1 s) W'"
    and place_more: "iostate.more s' = iostate.more s \<Longrightarrow> place s' = place s"
    and self_more: "iostate.more s' = iostate.more s \<Longrightarrow> self s' = self s"
begin

abbreviation step where
  "step R \<equiv> sit_step place seat (work R)"

abbreviation sits where
  "sits \<equiv> sit_at place mon"

lemma seat_fields:
  "heap (seat c s1 s) = heap s" "tasks (seat c s1 s) = tasks s" "taskq (seat c s1 s) = taskq s"
  "ioevents (seat c s1 s) = ioevents s" "tls_task (seat c s1 s) = tls_task s" "tls_context (seat c s1 s) = tls_context s"
  "workers (seat c s1 s) = workers s" "cancel (seat c s1 s) = cancel s" "pool (seat c s1 s) = pool s"
  "modulescount (seat c s1 s) = modulescount s" "modules (seat c s1 s) = modules s" "module_mem (seat c s1 s) = module_mem s"
proof -
  obtain z where z: "seat c s1 s = iostate.more_update (\<lambda>_. z) s" using seat_only by blast
  show "heap (seat c s1 s) = heap s" "tasks (seat c s1 s) = tasks s" "taskq (seat c s1 s) = taskq s"
    "ioevents (seat c s1 s) = ioevents s" "tls_task (seat c s1 s) = tls_task s" "tls_context (seat c s1 s) = tls_context s"
    "workers (seat c s1 s) = workers s" "cancel (seat c s1 s) = cancel s" "pool (seat c s1 s) = pool s"
    "modulescount (seat c s1 s) = modulescount s" "modules (seat c s1 s) = modules s" "module_mem (seat c s1 s) = module_mem s"
    unfolding z by simp_all
qed

lemma atI: "place s = Some c \<Longrightarrow> io_inv mon R L Q W n (c, m, s) \<Longrightarrow> io_left L W n \<le> b \<Longrightarrow> sits R b m s"
  unfolding sit_at_def io_ok_def by blast

lemma atE:
  assumes "sits R b m s"
  obtains c L Q W n where "place s = Some c" "io_inv mon R L Q W n (c, m, s)" "io_left L W n \<le> b"
  using assms unfolding sit_at_def io_ok_def by blast

lemma step_at:
  assumes "step R s s'" "sits R b m s" "fine R"
  shows "(\<exists>b' < b. sits R b' m s') \<and> master_same self s s'"
  using assms(1)
proof cases
  case (1 c c' s1)
  from assms(2) 1(2) obtain L Q W n where inv: "io_inv mon R L Q W n (c, m, s)" and b: "io_left L W n \<le> b"
    by (auto elim!: atE)
  from work_goes_on [OF inv assms(3) still_no_step [OF 1(3) io_inv_facts(1) [OF inv]]] 1(3) obtain L' Q' W' n' where
    inv': "io_inv mon R L' Q' W' n' (c', m, s1)" and b': "io_left L' W' n' < io_left L W n"
    by (auto simp: io_goes_on_def)
  note facts = io_inv_facts [OF inv']
  let ?s = "s\<lparr>heap := heap s1, stacks := stacks s1, gathers := gathers s1, ints := ints s1, tasks := tasks s1,
      taskq := taskq s1, tls_task := tls_task s1, tls_context := tls_context s1, errno := errno s1, ioevents := ioevents s1\<rparr>"
  have "mon R m ?s W" by (rule mon_more [OF io_inv_facts(2) [OF inv]]) simp
  from seat_mon [OF this facts(2)] have "mon R m s' W'" by (simp add: 1(1) put_worker_def)
  then have "io_inv mon R L' Q' W' n' (c', m, s')"
    by (intro io_inv_cong [OF inv']) (use facts(5) in \<open>simp_all add: 1(1) put_worker_def seat_fields\<close>)
  then have "sits R (io_left L' W' n') m s'"
    by (rule atI [rotated, OF _ order_refl]) (simp add: 1(1) put_worker_def seat_place)
  moreover have "self ?s = self s" by (rule self_more) simp
  then have "master_same self s s'" by (simp add: master_same_def 1(1) put_worker_def seat_fields seat_self)
  ultimately show ?thesis using b b' by (meson order_less_le_trans)
qed

lemma runs_at:
  assumes "(step R)\<^sup>*\<^sup>* s s'" "sits R b m s" "fine R"
  shows "(\<exists>b' \<le> b. sits R b' m s') \<and> master_same self s s'"
  using assms(1)
proof induction
  case base
  then show ?case using assms(2) by auto
next
  case (step y z)
  then obtain b1 where b1: "b1 \<le> b" "sits R b1 m y" "master_same self s y" by blast
  from step_at [OF step.hyps(2) b1(2) assms(3)] obtain b2 where b2: "b2 < b1" "sits R b2 m z" "master_same self y z" by blast
  from b1(1) b2(1) have "b2 \<le> b" by simp
  with b2(2) master_same_trans [OF b1(3) b2(3)] show ?case by blast
qed

lemma moves_at:
  assumes "(step R)\<^sup>+\<^sup>+ s s'" "sits R b m s" "fine R"
  shows "(\<exists>b' < b. sits R b' m s') \<and> master_same self s s'"
proof -
  from tranclpD [OF assms(1)] obtain y where y: "step R s y" "(step R)\<^sup>*\<^sup>* y s'" by blast
  from step_at [OF y(1) assms(2,3)] obtain b1 where b1: "b1 < b" "sits R b1 m y" "master_same self s y" by blast
  from runs_at [OF y(2) b1(2) assms(3)] obtain b2 where b2: "b2 \<le> b1" "sits R b2 m s'" "master_same self y s'" by blast
  from b1(1) b2(1,2) have "\<exists>b' < b. sits R b' m s'" by (meson order_le_less_trans)
  with master_same_trans [OF b1(3) b2(3)] show ?thesis by blast
qed

text \<open>A worker that cannot move has nothing to do.\<close>

lemma idle:
  assumes at: "sits R b m s" and stuck: "\<nexists>s'. step R s s'" and fine: "fine R"
  obtains L W n where "io_inv mon R L [] W n (Looping, m, s)" "place s = Some Looping"
proof -
  obtain c L Q W n where c: "place s = Some c" and inv: "io_inv mon R L Q W n (c, m, s)" by (rule atE [OF at])
  have "Q = [] \<and> held c = None"
  proof (rule ccontr)
    assume "\<not> (Q = [] \<and> held c = None)"
    then have "Q \<noteq> [] \<or> held c \<noteq> None" by blast
    from work_goes_on [OF inv fine this] obtain c' s1 where run: "work R c s = Some (Inr (c', s1))"
      by (auto simp: io_goes_on_def)
    have "step R s (put_worker seat c' s1 s)" by (rule sit_step.intros, rule c, rule run)
    with stuck show False by blast
  qed
  moreover from this io_inv_facts(6) [OF inv] have "c = Looping" by (cases c) auto
  ultimately show thesis using that inv c by simp
qed

text \<open>No task is left when the count of the task list is 0; when the worker has nothing to do and no
  event is with the monitor, no task is left.\<close>

lemma at_empty:
  assumes at: "sits R b rest s" and none: "lcount (tasks s) = 0"
  shows "world_rep s [] [] \<and> mon R rest s [] \<and> place s = Some Looping"
proof -
  obtain c L Q W n where c: "place s = Some c" and inv: "io_inv mon R L Q W n (c, rest, s)" by (rule atE [OF at])
  note facts = io_inv_facts [OF inv]
  from rep_count [OF facts(1)] none have L: "L = []" by simp
  then have "Q = []" using io_distinct [OF inv] by simp
  moreover have "W = []" using facts(3) L by (cases W) (auto simp: watched_def)
  moreover have "c = Looping" using facts(6) facts(7) L by (cases c) auto
  ultimately show ?thesis using facts(1,2) L c by simp
qed

lemma stuck_empty:
  assumes at: "sits R b rest s" and stuck: "\<nexists>s'. step R s s'" and fine: "fine R" and none: "mon R rest s []"
  shows "lcount (tasks s) = 0"
proof -
  obtain L W n where inv: "io_inv mon R L [] W n (Looping, rest, s)" by (rule idle [OF at stuck fine])
  note facts = io_inv_facts [OF inv]
  have W: "W = []" using mon_length [OF facts(2) none] by simp
  have "set L = {}"
  proof (rule equals0I)
    fix q assume "q \<in> set L"
    from facts(8) [OF this] show False by (simp add: aside_def W)
  qed
  then show ?thesis using facts(1) by (simp add: world_rep_def rep_defs)
qed

end

section \<open>The module\<close>

text \<open>\<open>k\<close> is what the kernel does, and \<open>calm R k\<close> what is assumed of it. A tick of \<open>whole k\<close> finds the
  monitor empty, or comes nearer to the end; \<open>up\<close> is the module's state after its installation,
  \<open>init\<close> and \<open>dtor\<close> the functions it has given the master.\<close>

locale serving = seated fine mon enter report tick answers rest rank place seat self
  for fine :: "('u, 'y) reactor_scheme \<Rightarrow> bool"
    and mon :: "('u, 'y) reactor_scheme \<Rightarrow> 'm \<Rightarrow> ('u, 'z) iost \<Rightarrow> addr list \<Rightarrow> bool"
    and enter report
    and tick :: "'a \<Rightarrow> 'm \<Rightarrow> ('u, 'z) iost \<Rightarrow> (fault + ('m \<times> ('u, 'z) iost)) option"
    and answers rest rank place seat self +
  fixes calm :: "('u, 'y) reactor_scheme \<Rightarrow> 'k \<Rightarrow> bool"
    and whole :: "'k \<Rightarrow> c_uint \<Rightarrow> ('u, 'z) iost \<Rightarrow> fault + (tickstatus \<times> ('u, 'z) iost)"
    and init :: "'k \<Rightarrow> ('u, 'z) iost \<Rightarrow> int \<times> ('u, 'z) iost"
    and dtor :: "('u, 'z) iost \<Rightarrow> int \<times> ('u, 'z) iost"
    and up :: "('u, 'y) reactor_scheme \<Rightarrow> addr \<Rightarrow> ('u, 'z) iost \<Rightarrow> bool"
  assumes whole_tick: "fine R \<Longrightarrow> calm R k \<Longrightarrow> sit_at place mon R b rest s \<Longrightarrow>
      whole k t s = Inr (PMSIDLE, s) \<and> mon R rest s [] \<or>
      (\<exists>s'. whole k t s = Inr (PMSAGAIN, s') \<and> (\<exists>b' < b. sit_at place mon R b' rest s') \<and> master_same self s s')"
    and whole_init: "calm R k \<Longrightarrow> up R p s \<Longrightarrow> module_mem s p = Some x \<Longrightarrow>
      \<exists>z. (\<forall>s'. iostate.more s' = iostate.more s \<longrightarrow>
          (if m_init x then init k s' else (0, s')) = (0, iostate.more_update (\<lambda>_. z) s')) \<and>
        (\<forall>s'. iostate.more s' = z \<longrightarrow> mon R rest s' [] \<and> self s' = Some p \<and> place s' = None)"
    and whole_dtor: "self s = Some p \<Longrightarrow>
      \<exists>z. dtor s = (0, iostate.more_update (\<lambda>_. z) (s\<lparr>module_mem := (module_mem s)(p := None)\<rparr>)) \<and>
        (\<forall>s'. iostate.more s' = z \<longrightarrow> self s' = None)"
begin

abbreviation mods where
  "mods k p \<equiv> io_mods (init k) (whole k) dtor p"

lemma pass_run:
  assumes kernel: "calm R k" and at: "sits R b rest s" and fine: "fine R" and one: "one_ticks s p qs"
  shows "(tick_modules (mods k p) t 0 False s = Inr (False, s) \<and> mon R rest s []) \<or>
    (\<exists>s'. tick_modules (mods k p) t 0 False s = Inr (True, s') \<and> (\<exists>b' < b. sits R b' rest s') \<and> master_same self s s')"
proof -
  have inst: "installed s (p # qs)" using one by (simp add: one_ticks_def)
  obtain x where x: "module_at 0 s = Inr ((p # qs) ! 0, x)" "module_mem s ((p # qs) ! 0) = Some x"
    by (rule installed_at [OF inst, of 0]) simp
  have ready: "m_flags x AND MOD_PANIC = 0 \<and> m_tick x" using one x(2) by (auto simp: one_ticks_def)
  have count: "\<not> unat (modulescount s) \<le> 0" using inst by (simp add: installed_def)
  note unfold = tick_modules.simps [of "mods k p" t 0 False s]
  from whole_tick [OF fine kernel at, of t] show ?thesis
  proof
    assume "whole k t s = Inr (PMSIDLE, s) \<and> mon R rest s []"
    then show ?thesis using x(1) ready count others_tick [OF one, of 1] by (simp add: unfold)
  next
    assume "\<exists>s'. whole k t s = Inr (PMSAGAIN, s') \<and> (\<exists>b' < b. sits R b' rest s') \<and> master_same self s s'"
    then obtain s' where s': "whole k t s = Inr (PMSAGAIN, s')" "\<exists>b' < b. sits R b' rest s'" "master_same self s s'" by blast
    have "tick_modules (mods k p) t 1 True s' = Inr (True, s')"
      using others_tick [OF one_ticks_same [OF s'(3) one], of 1] by simp
    then show ?thesis using x(1) ready count s' by (simp add: unfold)
  qed
qed

lemma loop_run:
  assumes time: "sit_time place seat (work R) sleep" and kernel: "calm R k" and fine: "fine R"
  shows "sits R b rest s \<Longrightarrow> one_ticks s p qs \<Longrightarrow> \<not> cancel s \<Longrightarrow>
    \<exists>b' s'. master_loop (mods k p) sleep any s = Some (Inr s') \<and> sits R b' rest s' \<and>
      master_same self s s' \<and> lcount (tasks s') = 0"
proof (induction "2 * b + (if any then 1 else 0)" arbitrary: b any s rule: less_induct)
  case less
  show ?case
  proof (cases "lcount (tasks s) = 0")
    case True
    then have "master_loop (mods k p) sleep any s = Some (Inr s)" by (subst master_loop.simps) simp
    with True less.prems(1) show ?thesis by (intro exI [of _ b] exI [of _ s]) simp
  next
    case False
    let ?t = "if any then TIMEOUT_SHORT else TIMEOUT_LONG" and ?s = "if any then s else sleep TIMEOUT_LONG s"
    have runs: "(step R)\<^sup>*\<^sup>* s ?s" using time by (auto simp: sit_time_def)
    from runs_at [OF this less.prems(1) fine] obtain b1 where b1: "b1 \<le> b" "sits R b1 rest ?s" and
      same: "master_same self s ?s" by blast
    note one = one_ticks_same [OF same less.prems(2)]
    have loop: "master_loop (mods k p) sleep any s =
        (case tick_modules (mods k p) ?t 0 False ?s of
           Inl e \<Rightarrow> Some (Inl e) | Inr (any, s) \<Rightarrow> master_loop (mods k p) sleep any s)"
      using False less.prems(3) by (subst master_loop.simps) simp
    from pass_run [OF kernel b1(2) fine one, of ?t] show ?thesis
    proof
      assume "\<exists>s'. tick_modules (mods k p) ?t 0 False ?s = Inr (True, s') \<and>
        (\<exists>b' < b1. sits R b' rest s') \<and> master_same self ?s s'"
      then obtain s' b' where s': "tick_modules (mods k p) ?t 0 False ?s = Inr (True, s')" "b' < b1"
        "sits R b' rest s'" "master_same self ?s s'" by blast
      note all = master_same_trans [OF same s'(4)]
      have "\<not> cancel s'" using all less.prems(3) by (simp add: master_same_def)
      from less.hyps [OF _ s'(3) one_ticks_same [OF all less.prems(2)] this, of True] s'(2) b1(1) obtain b2 s2 where
        "master_loop (mods k p) sleep True s' = Some (Inr s2)" "sits R b2 rest s2"
        "master_same self s' s2" "lcount (tasks s2) = 0" by auto
      then show ?thesis using loop s'(1) master_same_trans [OF all] by auto
    next
      assume idle: "tick_modules (mods k p) ?t 0 False ?s = Inr (False, ?s) \<and> mon R rest ?s []"
      have cancel: "\<not> cancel ?s" using same less.prems(3) by (simp add: master_same_def)
      have "\<exists>b2. sits R b2 rest ?s \<and> 2 * b2 < 2 * b + (if any then 1 else 0)"
      proof (cases any)
        case True
        then show ?thesis using less.prems(1) by (intro exI [of _ b]) simp
      next
        case False
        have "\<exists>s'. step R s s'"
        proof (rule ccontr)
          assume stuck: "\<not> ?thesis"
          then have "?s = s" using runs by (auto elim: converse_rtranclpE)
          with stuck_empty [OF less.prems(1) _ fine] stuck idle \<open>lcount (tasks s) \<noteq> 0\<close> show False by auto
        qed
        then have "(step R)\<^sup>+\<^sup>+ s ?s" using time False by (simp add: sit_time_def)
        from moves_at [OF this less.prems(1) fine] show ?thesis by auto
      qed
      then obtain b2 where b2: "sits R b2 rest ?s" "2 * b2 + (if False then 1 else 0) < 2 * b + (if any then 1 else 0)" by auto
      from less.hyps [OF b2(2,1) one cancel] obtain b3 s2 where
        "master_loop (mods k p) sleep False ?s = Some (Inr s2)" "sits R b3 rest s2"
        "master_same self ?s s2" "lcount (tasks s2) = 0" by blast
      then show ?thesis using loop idle master_same_trans [OF same] by auto
    qed
  qed
qed

lemma start_run:
  assumes threads: "sit_threads place seat (work R) (r_tid R) pt" and fine: "fine R"
    and at: "sits R b rest (sit_spawn seat (r_tid R) s)"
    and none: "place s = None" and pool: "tp_count (pool s) = 0" "tp_threads (pool s) = Some arr" "arr \<noteq> []"
  shows "\<exists>b' s' arr'. scale_pool pt 1 s = Inr (0, s') \<and> sits R b' rest s' \<and> workers s' = workers s \<and>
    cancel s' = cancel s \<and> modulescount s' = modulescount s \<and> modules s' = modules s \<and> module_mem s' = module_mem s \<and>
    self s' = self s \<and> tp_count (pool s') = 1 \<and> tp_threads (pool s') = Some arr' \<and> arr' \<noteq> []"
proof -
  have spawned: "master_same self s (sit_spawn seat (r_tid R) s)"
    using self_more [of "s\<lparr>tls_context := x\<rparr>" s for x] by (simp add: sit_spawn_def master_same_def seat_fields seat_self)
  define P where "P = (\<lambda>(i :: nat) e. (i = 0 \<longrightarrow> e = s) \<and> (i = 1 \<longrightarrow> (\<exists>b'. sits R b' rest e) \<and> master_same self s e))"
  have create: "\<exists>h e'. pt_create pt e = (0, h, e') \<and> P (Suc i) e'" if P: "P i e" for i e
  proof -
    from threads obtain h e' where e': "pt_create pt e = (0, h, e')"
      "place e = None \<longrightarrow> (step R)\<^sup>*\<^sup>* (sit_spawn seat (r_tid R) e) e'" unfolding sit_threads_def by blast
    have "(\<exists>b'. sits R b' rest e') \<and> master_same self s e'" if "i = 0"
    proof -
      have "e = s" using P that by (simp add: P_def)
      then have "(step R)\<^sup>*\<^sup>* (sit_spawn seat (r_tid R) s) e'" using e'(2) none by simp
      from runs_at [OF this at fine] master_same_trans [OF spawned] show ?thesis by blast
    qed
    then show ?thesis using e'(1) by (auto simp: P_def)
  qed
  have base: "P 0 s" by (simp add: P_def)
  have size: "unat (1 :: c_ushort) \<le> length arr" using pool(3) by (cases arr) simp_all
  from scale_up_runs [of P pt s "pool s" arr 1, OF create base pool(1,2) size] obtain tp' e' arr' where
    e': "threadpool_scale pt 1 (pool s) s = Inr (0, None, tp', e')" "P (unat (1 :: c_ushort)) e'"
    "tp_count tp' = 1" "tp_threads tp' = Some arr'" "length arr' = length arr"
    by blast
  let ?s = "e'\<lparr>pool := tp'\<rparr>"
  from e'(2) obtain b' where b': "sits R b' rest e'" and same: "master_same self s e'" by (auto simp: P_def)
  have more: "place ?s = place e'" "self ?s = self e'" by (rule place_more, simp) (rule self_more, simp)
  obtain c L Q W n where c: "place e' = Some c" and inv: "io_inv mon R L Q W n (c, rest, e')" and left: "io_left L W n \<le> b'"
    by (rule atE [OF b'])
  have "mon R rest ?s W" by (rule mon_more [OF io_inv_facts(2) [OF inv]]) simp
  then have "io_inv mon R L Q W n (c, rest, ?s)"
    by (intro io_inv_cong [OF inv]) (use io_inv_facts(5) [OF inv] in simp_all)
  then have "sits R b' rest ?s" using c left more(1) by (intro atI) simp_all
  then show ?thesis
    using e' same pool(3) more(2) by (auto simp: scale_pool_def set_errno_def master_same_def)
qed

lemma stop_run:
  assumes threads: "sit_threads place seat (work R) i pt" and rep: "world_rep s [] []"
    and pool: "tp_threads (pool s) = Some arr" "unat (tp_count (pool s)) \<le> length arr"
  shows "\<exists>s'. scale_pool pt 0 s = Inr (0, s') \<and> world_rep s' [] [] \<and> tp_count (pool s') = 0 \<and>
    modulescount s' = modulescount s \<and> modules s' = modules s \<and> module_mem s' = module_mem s \<and> self s' = self s"
proof -
  let ?P = "\<lambda>e. world_rep e [] [] \<and> modulescount e = modulescount s \<and> modules e = modules s \<and>
    module_mem e = module_mem s \<and> self e = self s"
  have keep: "?P (worker_cleanup e)" if "?P e" for e
    using that cleanup_rep [of e] self_more [of "worker_cleanup e" e] by (simp add: worker_cleanup_def)
  have "pt_cancel pt h e \<in> {(0, e), (0, worker_cleanup e)}" "pt_join pt h e \<in> {(0, e), (0, worker_cleanup e)}" for h e
    using threads unfolding sit_threads_def by blast+
  with keep have "\<exists>e'. pt_cancel pt h e = (0, e') \<and> ?P e'" "\<exists>e'. pt_join pt h e = (0, e') \<and> ?P e'" if "?P e" for h e
    using that by (metis insertE singletonD)+
  moreover have "?P s" using rep by simp
  ultimately obtain tp' e' where
    e': "threadpool_scale pt 0 (pool s) s = Inr (0, None, tp', e')" "?P e'" "tp_count tp' = 0"
    using scale_down_runs [of ?P pt s "pool s" arr] pool by blast
  moreover have "world_rep (e'\<lparr>pool := tp'\<rparr>) [] [] \<longleftrightarrow> world_rep e' [] []" by (rule world_rep_cong) simp_all
  moreover have "self (e'\<lparr>pool := tp'\<rparr>) = self e'" by (rule self_more) simp
  ultimately show ?thesis by (auto simp: scale_pool_def set_errno_def)
qed

lemma down_run:
  assumes one: "one_ticks s p qs" and self: "self s = Some p" and pool: "tp_count (pool s) = 0"
  shows "\<exists>s'. master_deinit (mods k p) s = Inr (0, s') \<and> heap s' = heap s \<and> workers s' = 0 \<and>
    installed s' [] \<and> self s' = None \<and> module_mem s' p = None"
proof -
  define s1 where "s1 = s\<lparr>tls_task := threadlocal_delete (tls_task s), tls_context := threadlocal_delete (tls_context s),
    pool := (pool s)\<lparr>tp_mutex := False, tp_threads := None\<rparr>, tasks := list_deinit (tasks s), taskq := queue_deinit (taskq s)\<rparr>"
  have self1: "self s1 = Some p" using self self_more [of s1 s] by (simp add: s1_def)
  from whole_dtor [OF self1] obtain z where
    z: "dtor s1 = (0, iostate.more_update (\<lambda>_. z) (s1\<lparr>module_mem := (module_mem s1)(p := None)\<rparr>))"
      "\<forall>s'. iostate.more s' = z \<longrightarrow> self s' = None" by blast
  let ?s2 = "iostate.more_update (\<lambda>_. z) (s1\<lparr>module_mem := (module_mem s1)(p := None)\<rparr>)"
  from one have inst: "installed s (p # qs)" "p \<notin> set qs" by (simp_all add: one_ticks_def)
  obtain x where x: "module_at 0 s = Inr ((p # qs) ! 0, x)" "module_mem s ((p # qs) ! 0) = Some x"
    by (rule installed_at [OF inst(1), of 0]) simp
  have down: "m_dtor x" using one x(2) by (auto simp: one_ticks_def)
  have count: "\<not> unat (modulescount s1) \<le> 0" using inst(1) by (simp add: installed_def s1_def)
  have "modules s1 = modules s" "module_mem s1 = module_mem s" by (simp_all add: s1_def)
  then have at: "module_at 0 s1 = Inr (p, x)" using x(1) by (simp only: module_at_def nth_Cons_0)
  have rest: "dtor_modules (mods k p) 1 ?s2 = Inr ?s2"
    using inst by (intro others_down [where qs = qs]) (auto simp: installed_def s1_def)
  have "dtor_modules (mods k p) 0 s1 = Inr ?s2"
    using at count down rest z(1) by (subst dtor_modules.simps) simp
  then have "master_deinit (mods k p) s = Inr (0, (state_zero ?s2)\<lparr>cancel := True\<rparr>)"
    using pool by (simp add: master_deinit_def threadpool_deinit_def Let_def s1_def)
  moreover have "self ((state_zero ?s2)\<lparr>cancel := True\<rparr>) = None"
    by (rule z(2) [rule_format]) (simp add: state_zero_def)
  ultimately show ?thesis by (simp add: state_zero_def installed_def MODULES_MAX_def s1_def)
qed

lemma master_run:
  assumes env: "sit_threads place seat (work R) (r_tid R) pt" "sit_time place seat (work R) sleep" "calm R k"
    and fine: "fine R" and at: "sits R b rest (sit_spawn seat (r_tid R) s)" and tid: "r_tid R < i"
    and state: "place s = None" "workers s = 1" "\<not> cancel s" "one_ticks s p qs" "self s = Some p"
    and pool: "tp_count (pool s) = 0" "tp_threads (pool s) = Some arr" "arr \<noteq> []"
  shows "\<exists>s'. master (mods k p) pt sleep i s = Some (Inr (0, s')) \<and> world_rep s' [] [] \<and>
    one_ticks s' p qs \<and> self s' = Some p \<and> tp_count (pool s') = 0"
proof -
  from start_run [OF env(1) fine at state(1) pool] obtain b1 s1 arr1 where
    s1: "scale_pool pt 1 s = Inr (0, s1)" "sits R b1 rest s1" "\<not> cancel s1" "tp_count (pool s1) = 1"
      "tp_threads (pool s1) = Some arr1" "arr1 \<noteq> []" and same: "modulescount s1 = modulescount s" "modules s1 = modules s"
      "module_mem s1 = module_mem s" "self s1 = Some p" using state(3,5) by auto
  let ?s2 = "s1\<lparr>tls_context := snd (snd (threadlocal_set 0 i None (tls_context s1)))\<rparr>"
  obtain c L Q W n where c: "place s1 = Some c" and inv: "io_inv mon R L Q W n (c, rest, s1)" and left: "io_left L W n \<le> b1"
    by (rule atE [OF s1(2)])
  have "threadlocal_get (r_tid R) (tls_context ?s2) = Some (r_tid R)"
    using io_inv_facts(5) [OF inv] tid by (auto simp: threadlocal_get_def threadlocal_set_def split: if_splits)
  moreover have "mon R rest ?s2 W" by (rule mon_more [OF io_inv_facts(2) [OF inv]]) simp
  ultimately have "io_inv mon R L Q W n (c, rest, ?s2)" by (intro io_inv_cong [OF inv]) simp_all
  moreover have "place ?s2 = place s1" by (rule place_more) simp
  ultimately have at2: "sits R b1 rest ?s2" using c left by (intro atI) simp_all
  have self2: "self ?s2 = Some p" using same(4) self_more [of ?s2 s1] by simp
  have one2: "one_ticks ?s2 p qs" using state(4) same by (simp add: one_ticks_def installed_def)
  from loop_run [OF env(2,3) fine at2 one2, of True] s1(3) obtain b3 s3 where
    s3: "master_loop (mods k p) sleep True ?s2 = Some (Inr s3)" "sits R b3 rest s3"
      "master_same self ?s2 s3" "lcount (tasks s3) = 0" by auto
  have rep3: "world_rep s3 [] []" using at_empty [OF s3(2,4)] by simp
  have pool3: "tp_threads (pool s3) = Some arr1" "unat (tp_count (pool s3)) \<le> length arr1"
    using s3(3) s1(4-6) by (simp_all add: master_same_def Suc_le_eq)
  from stop_run [OF env(1) rep3 pool3] obtain s4 where
    s4: "scale_pool pt 0 s3 = Inr (0, s4)" "world_rep s4 [] []" "tp_count (pool s4) = 0"
      "modulescount s4 = modulescount s3" "modules s4 = modules s3" "module_mem s4 = module_mem s3" "self s4 = self s3"
    by blast
  have "one_ticks s4 p qs" using one_ticks_same [OF s3(3) one2] s4(4-6) by (simp add: one_ticks_def installed_def)
  moreover have "self s4 = Some p" using s3(3) s4(7) self2 by (simp add: master_same_def)
  moreover have "master (mods k p) pt sleep i s = Some (Inr (0, s4))"
    using s1(1) s3(1) s4(1) by (simp add: master_def state(2) master_free_none [OF s4(2)] Let_def)
  ultimately show ?thesis using s4(2,3) by simp
qed

text \<open>The only \<open>init\<close> that does anything is the monitor's.\<close>

lemma mods_start:
  assumes kernel: "calm R k" and up: "up R p s" and one: "one_ticks s p qs"
  obtains z where "starts_up (mods k p) (\<lambda>_. z) (p # qs) s"
    "\<And>s'. master.more s' = z \<Longrightarrow> mon R rest s' [] \<and> self s' = Some p \<and> place s' = None \<and> ioevents s' = ioevents s"
proof -
  from one obtain x where x: "module_mem s p = Some x" by (auto simp: one_ticks_def)
  from whole_init [OF kernel up x] obtain z where
    z: "\<And>s'. iostate.more s' = iostate.more s \<Longrightarrow>
        (if m_init x then init k s' else (0, s')) = (0, iostate.more_update (\<lambda>_. z) s')"
      "\<And>s'. iostate.more s' = z \<Longrightarrow> mon R rest s' [] \<and> self s' = Some p \<and> place s' = None" by metis
  let ?z = "master.more (iostate.more_update (\<lambda>_. z) s)"
  have more: "iostate.more s' = z \<and> ioevents s' = ioevents s" if "master.more s' = ?z" for s' :: "('u, 'z) iost"
    using that by (cases s; cases s') simp
  have put: "iostate.more_update (\<lambda>_. z) s' = master.more_update (\<lambda>_. ?z) s'"
    if "master.more s' = master.more s" for s' :: "('u, 'z) iost" using that by (cases s; cases s') simp
  have io: "iostate.more s' = iostate.more s" if "master.more s' = master.more s" for s' :: "('u, 'z) iost"
    using that by (cases s; cases s') simp
  have "init_modules (mods k p) 0 s' = Inr (0, master.more_update (\<lambda>_. ?z) s')"
    if inst: "installed s' (p # qs)" and mem: "module_mem s' = module_mem s" and rest: "master.more s' = master.more s" for s'
  proof -
    let ?s = "master.more_update (\<lambda>_. ?z) s'"
    obtain y where y: "module_at 0 s' = Inr (p, y)" "module_mem s' p = Some y"
      using installed_at [OF inst, of 0] by (metis length_greater_0_conv list.discI nth_Cons_0)
    have run: "(if m_init y then init k s' else (0, s')) = (0, ?s)"
      using z(1) [OF io [OF rest]] put [OF rest] x y(2) mem by simp
    have "one_ticks s' p qs" "one_ticks ?s p qs" using one inst mem by (simp_all add: one_ticks_def installed_def)
    note others = others_init [OF this(1), of 1] others_init [OF this(2), of 1]
    have "\<not> unat (modulescount s') \<le> 0" using inst by (simp add: installed_def)
    then have head: "init_modules (mods k p) 0 s' =
        (if \<not> m_init y then init_modules (mods k p) 1 s'
         else case init k s' of (rc, s) \<Rightarrow> if rc \<noteq> 0 then Inr (-1, s) else init_modules (mods k p) 1 s)"
      using y(1) by (simp add: init_modules.simps [of _ 0 s', unfolded add_0] del: One_nat_def cong: prod.case_cong_weak if_weak_cong)
    show ?thesis
    proof (cases "m_init y")
      case True
      with run have "init k s' = (0, ?s)" by simp
      with True others(2) show ?thesis by (simp add: head)
    next
      case False
      with run have "s' = ?s" by simp
      with False others(1) show ?thesis by (simp add: head)
    qed
  qed
  then show thesis using that [of ?z] z(2) more unfolding starts_up_def by blast
qed

lemma returns:
  assumes fine: "fine R" and tid: "r_tid R = 0" "0 < i" and env: "env_fine env"
    and outside: "sit_threads place seat (work R) (r_tid R) pt" "sit_time place seat (work R) sleep" "calm R k"
    and start: "io_start up R p qs s js"
  shows "\<exists>s'. pcaio (mods k p) pt sleep env 0 0 i 1 (map fst js) s = Some (Inr (0, s')) \<and>
    (\<forall>a. heap s' a = None) \<and> workers s' = 0 \<and> installed s' [] \<and> self s' = None \<and> module_mem s' p = None"
proof -
  from start obtain L where L: "world_rep s L []" "set L = fst ` set js" and state: "workers s = 0" "one_ticks s p qs" "up R p s"
    and js: "js \<noteq> []" "distinct (map fst js)" by (auto simp: io_start_def)
  have inst: "installed s (p # qs)" using state(2) by (simp add: one_ticks_def)
  have sub: "map fst js \<noteq> []" "set (map fst js) \<subseteq> set L" using js(1) L(2) by auto
  obtain z where z: "starts_up (mods k p) (\<lambda>_. z) (p # qs) s" "\<And>s'. master.more s' = z \<Longrightarrow>
    mon R rest s' [] \<and> self s' = Some p \<and> place s' = None \<and> ioevents s' = ioevents s"
    using mods_start [OF outside(3) state(3,2)] by metis
  obtain s1 where run: "pcaio (mods k p) pt sleep env 0 0 i 1 (map fst js) s =
      (case master (mods k p) pt sleep i s1 of
         None \<Rightarrow> None
       | Some (Inl e) \<Rightarrow> Some (Inl e)
       | Some (Inr (status, s)) \<Rightarrow>
          (case master_deinit (mods k p) s of Inl e \<Rightarrow> Some (Inl e) | Inr (_, s) \<Rightarrow> Some (Inr (status, s))))"
    and s1: "world_rep s1 L (map fst js)" "workers s1 = 1" "\<not> cancel s1" "installed s1 (p # qs)" "tp_count (pool s1) = 0"
      "tp_threads (pool s1) = Some (replicate (unat (1 :: c_ushort)) 0)" "heap s1 = heap s" "tls_key (tls_task s1)"
      "tls_key (tls_context s1)" "master.more s1 = z" "module_mem s1 = module_mem s"
    by (rule pcaio_start_run [OF state(1) env inst z(1) L(1) sub(1) js(2) sub(2)]) (rule that)
  have more: "mon R rest s1 []" "self s1 = Some p" "place s1 = None" "ioevents s1 = ioevents s" using z(2) [OF s1(10)] by simp_all
  have one: "one_ticks s1 p qs" using state(2) s1(4,11) by (simp add: one_ticks_def)
  let ?s = "sit_spawn seat (r_tid R) s1"
  have "world_rep ?s L (map fst js)" using s1(1) world_rep_cong [of ?s s1] by (simp add: sit_spawn_def seat_fields)
  moreover have "stands R ?s a u \<longleftrightarrow> stands R s a u" for a u by (simp add: stands_def sit_spawn_def seat_fields s1(7))
  moreover have "threadlocal_get (r_tid R) (tls_context ?s) = Some (r_tid R)" using s1(9) by (simp add: sit_spawn_def seat_fields)
  moreover have "mon R rest ?s []"
    unfolding sit_spawn_def by (rule seat_mon [OF mon_more [OF more(1)] more(1)]) simp
  moreover have "tls_key (tls_task ?s)" "ioevents ?s = ioevents s"
    using s1(8) more(4) by (simp_all add: sit_spawn_def seat_fields)
  ultimately have "io_rep mon R rest ?s js" using start L(2) by (auto simp: io_rep_def io_start_def)
  from io_rep_ok [OF this] have at: "sits R (reactor_cost js) rest ?s"
    by (simp add: sit_at_def sit_spawn_def seat_place)
  have "r_tid R < i" using tid by simp
  from master_run [OF outside fine at this more(3) s1(2,3) one more(2) s1(5,6)] obtain s2 where
    s2: "master (mods k p) pt sleep i s1 = Some (Inr (0, s2))" "world_rep s2 [] []" "one_ticks s2 p qs"
      "self s2 = Some p" "tp_count (pool s2) = 0" by auto
  from down_run [OF s2(3-5), of k] obtain s3 where
    s3: "master_deinit (mods k p) s2 = Inr (0, s3)" "heap s3 = heap s2" "workers s3 = 0" "installed s3 []"
      "self s3 = None" "module_mem s3 p = None" by blast
  have "\<forall>a. heap s3 a = None" using world_rep_members [OF s2(2)] s3(2) by simp
  with run s2(1) s3 show ?thesis by simp
qed

end

end
