(* ===== verification/Server.thy ===== *)
theory Server
  imports Service Serving
begin

text \<open>
  The program with the select monitor: \<open>pcaio\<close> with one worker, which moves while the master
  sleeps and while its tick waits in \<open>select\<close>.
\<close>

section \<open>Master, monitor and worker\<close>

text \<open>The state of the master and of the select monitor, with the place of the worker, which works
  on the monitor's ring.\<close>

record 'u server = "'u frame selstate" +
  place :: "'u control option"

definition seat_sel :: "'u control \<Rightarrow> 'u server \<Rightarrow> 'u server \<Rightarrow> 'u server" where
  "seat_sel c s1 s = s\<lparr>place := Some c, sel_mod :=
    (case sel_mod s1 of None \<Rightarrow> sel_mod s | Some m \<Rightarrow> map_option (s_events_update (\<lambda>_. s_events m)) (sel_mod s))\<rparr>"

definition sel_self :: "'u server \<Rightarrow> addr option" where
  "sel_self s = map_option s_self (sel_mod s)"

text \<open>The monitor with an empty ring is installed at \<open>p\<close>, and there is no worker.\<close>

definition sel_up :: "'u reactor \<Rightarrow> addr \<Rightarrow> 'u server \<Rightarrow> bool" where
  "sel_up R p s \<longleftrightarrow> place s = None \<and> sel_self s = Some p \<and> sel_rep s (r_max R) (r_cap R) []"

abbreviation server_step :: "'u reactor \<Rightarrow> 'u server \<Rightarrow> 'u server \<Rightarrow> bool" where
  "server_step R \<equiv> sit_step place seat_sel (io_work sel_calls R)"

abbreviation server_threads :: "'u reactor \<Rightarrow> 'u server pthreads \<Rightarrow> bool" where
  "server_threads R \<equiv> sit_threads place seat_sel (io_work sel_calls R) (r_tid R)"

abbreviation server_time :: "'u reactor \<Rightarrow> (c_uint \<Rightarrow> 'u server \<Rightarrow> 'u server) \<Rightarrow> bool" where
  "server_time R \<equiv> sit_time place seat_sel (io_work sel_calls R)"

abbreviation server_at :: "'u reactor \<Rightarrow> nat \<Rightarrow> polling \<Rightarrow> 'u server \<Rightarrow> bool" where
  "server_at \<equiv> sit_at place sel_mon"

abbreviation server_rep :: "'u reactor \<Rightarrow> addr \<Rightarrow> addr list \<Rightarrow> 'u server \<Rightarrow> (addr \<times> 'u \<times> nat) list \<Rightarrow> bool" where
  "server_rep \<equiv> io_start sel_up"

text \<open>\<open>select\<close> does not fail; in the time it takes the worker may move, and asked about some
  descriptor it does not come back with nothing at all: the worker has moved, or one of those is reported.\<close>

fun reports :: "fd_sets \<Rightarrow> fd_sets \<Rightarrow> bool" where
  "reports (r, w, e) (r', w', e') \<longleftrightarrow> r \<inter> r' \<noteq> {} \<or> w \<inter> w' \<noteq> {} \<or> e \<inter> e' \<noteq> {}"

definition server_select ::
  "'u reactor \<Rightarrow> (nat \<Rightarrow> fd_sets \<Rightarrow> nat \<times> nat \<Rightarrow> 'u server \<Rightarrow> int \<times> fd_sets \<times> 'u server) \<Rightarrow> bool" where
  "server_select R select \<longleftrightarrow>
    (\<forall>n F tv s. case select n F tv s of (nfds, A, s') \<Rightarrow>
      nfds \<noteq> -1 \<and> (server_step R)\<^sup>*\<^sup>* s s' \<and> (reports F F \<longrightarrow> (server_step R)\<^sup>+\<^sup>+ s s' \<or> s' = s \<and> reports F A))"

text \<open>The table of the select monitor has no \<open>init\<close>.\<close>

abbreviation server_mods ::
  "(nat \<Rightarrow> fd_sets \<Rightarrow> nat \<times> nat \<Rightarrow> 'u server \<Rightarrow> int \<times> fd_sets \<times> 'u server) \<Rightarrow> addr \<Rightarrow> 'u server modfuns" where
  "server_mods select \<equiv> io_mods (\<lambda>s. (0, s)) (modselect_tick select) modselect_dtor"

lemma more_server:
  fixes s :: "'u server"
  assumes "iostate.more s' = iostate.more s" shows "sel_mod s' = sel_mod s" "place s' = place s"
  using assms by (cases s; cases s'; simp)+

interpretation sel_seated: seated reactor_fine sel_mon "\<lambda>R. sel_register" sel_report tick_step answers Resting sel_rank
  place seat_sel sel_self
proof unfold_locales
  show "place (seat_sel c s1 s) = Some c" for c and s1 s :: "'u server" by (simp add: seat_sel_def)
  show "\<exists>z. seat_sel c s1 s = iostate.more_update (\<lambda>_. z) s" for c and s1 s :: "'u server"
    by (intro exI [of _ "iostate.more (seat_sel c s1 s)"]) (cases s; simp add: seat_sel_def)
  show "sel_self (seat_sel c s1 s) = sel_self s" for c and s1 s :: "'u server"
    by (simp add: sel_self_def seat_sel_def option.map_comp comp_def split: option.splits)
  show "sel_mon R m (seat_sel c s1 s) W'" if "sel_mon R m s W" "sel_mon R m s1 W'"
    for R :: "'u reactor" and m W W' c and s1 s :: "'u server"
    using that by (auto simp: sel_mon_def sel_rep_def seat_sel_def)
  show "place s' = place s" if "iostate.more s' = iostate.more s" for s' s :: "'u server"
    by (rule more_server [OF that])
  show "sel_self s' = sel_self s" if "iostate.more s' = iostate.more s" for s' s :: "'u server"
    using more_server [OF that] by (simp add: sel_self_def)
qed

abbreviation server_same :: "'u server \<Rightarrow> 'u server \<Rightarrow> bool" where
  "server_same \<equiv> master_same sel_self"

section \<open>A tick\<close>

lemma schedule_fields:
  fixes s :: "'u server"
  shows "server_same s (snd (pcaio_schedule t s))" "place (snd (pcaio_schedule t s)) = place s"
  by (simp_all add: master_same_def sel_self_def pcaio_schedule_def split: option.splits prod.splits)

lemma sel_dispatch_fields:
  fixes s :: "'u server"
  shows "sel_dispatch nfds F es s = Inr (ok, s') \<Longrightarrow> server_same s s' \<and> place s' = place s"
proof (induction es arbitrary: s)
  case (Cons e es)
  from Cons.prems obtain v where v: "event_at e s = Inr v" by (auto simp: and_then_Inr)
  show ?case
  proof (cases "sel_ready nfds F (e_fd v) = 0")
    case True
    with Cons.prems v obtain md r where "sel_mod s = Some md" "sel_dispatch nfds F es (sel_put r s) = Inr (ok, s') \<or>
      s' = sel_put r s" by (auto simp: and_then_Inr split: option.splits if_splits)
    moreover have "server_same s (sel_put r s)" "place (sel_put r s) = place s"
      by (simp_all add: sel_put_def master_same_def sel_self_def option.map_comp comp_def)
    ultimately show ?thesis using Cons.IH [of "sel_put r s"] by (auto simp: master_same_def)
  next
    case False
    let ?s = "event_put e (Some (v\<lparr>e_events := sel_ready nfds F (e_fd v)\<rparr>)) s"
    from False Cons.prems v have "sel_dispatch nfds F es (snd (pcaio_schedule (Some (e_task v)) ?s)) = Inr (ok, s')"
      by (simp add: Let_def)
    from Cons.IH [OF this] schedule_fields [where s = ?s and t = "Some (e_task v)"]
    have "server_same ?s s' \<and> place s' = place ?s" by (simp add: master_same_def)
    then show ?thesis by (simp add: event_put_def master_same_def sel_self_def)
  qed
qed simp

lemma dispatch_goes_on:
  fixes s :: "('u, 'z) rstate"
  assumes fine: "reactor_fine R" and inv: "io_inv sel_mon R L Q W n (c, Handing k F es, s)"
  shows "\<exists>s' Q' W'. sel_dispatch k F es s = Inr (True, s') \<and> io_inv sel_mon R L Q' W' n (c, Handing k F [], s') \<and>
    length W' \<le> length W \<and> ((\<exists>e \<in> set es. sel_isready k F (ioevents s) e) \<longrightarrow> length W' < length W)"
  using inv
proof (induction es arbitrary: s Q W)
  case Nil
  then show ?case by auto
next
  case (Cons e es)
  note mon = io_inv_facts(2) [OF Cons.prems] and pre = selecting.inv_tick_pre [OF Cons.prems fine]
  obtain s1 W1 where s1: "tick_step (0, {}, {}, {}) (Handing k F (e # es)) s = Some (Inr (Handing k F es, s1))"
    "sel_mon R (Handing k F es) s1 W1" "tick_quiet s s1 L Q W W1 \<or> tick_wakes s s1 L Q W W1"
    and which: "sel_isready k F (ioevents s) e \<longrightarrow> length W1 < length W"
      "\<not> sel_isready k F (ioevents s) e \<longrightarrow> ioevents s1 = ioevents s"
  proof (cases "sel_isready k F (ioevents s) e")
    case True
    from hand_ready [OF mon pre True, of "(0, {}, {}, {})"] show ?thesis
      using that True by (blast dest: wakes_shorter)
  next
    case False
    from hand_idle [OF fine mon pre False, of "(0, {}, {}, {})"] show ?thesis
      using that False unfolding tick_quiet_def by blast
  qed
  from s1(1) have one: "sel_dispatch k F [e] s = Inr (True, s1)"
    by (auto simp del: sel_dispatch.simps simp: and_then_Inr split: if_splits)
  from selecting.inv_moved [OF Cons.prems fine s1(2,3)] obtain Q1 where
    "io_inv sel_mon R L Q1 W1 n (c, Handing k F es, s1)" by blast
  from Cons.IH [OF this] obtain s2 Q2 W2 where
    s2: "sel_dispatch k F es s1 = Inr (True, s2)" "io_inv sel_mon R L Q2 W2 n (c, Handing k F [], s2)"
      "length W2 \<le> length W1" "(\<exists>e \<in> set es. sel_isready k F (ioevents s1) e) \<longrightarrow> length W2 < length W1" by blast
  have "sel_dispatch k F (e # es) s = Inr (True, s2)" using sel_dispatch_Cons [of k F e es s] one s2(1) by simp
  moreover have "length W2 < length W" if "\<exists>e \<in> set (e # es). sel_isready k F (ioevents s) e"
    using that which s2(3,4) moved_length [OF s1(3)] by (cases "sel_isready k F (ioevents s) e") auto
  ultimately show ?case using s2(2,3) moved_length [OF s1(3)] by (meson le_trans)
qed

lemma ready_bits:
  "fd \<in> r \<union> w \<union> e \<Longrightarrow> sel_ready k (r, w, e) fd \<noteq> 0"
  by (auto simp: sel_ready_def IOIN_def IOOUT_def IOERR_def)

lemma isready_reports: "sel_isready 1 F evs e \<Longrightarrow> reports F F"
  by (cases F) (auto simp: sel_isready_def sel_ready_def split: option.splits if_splits)

lemma reports_ready:
  assumes "reports (sel_asked evs es) A" shows "\<exists>e \<in> set es. sel_isready k A evs e"
proof -
  obtain r w e where A: "A = (r, w, e)" by (cases A) auto
  from assms obtain fd ask where "fd \<in> r \<union> w \<union> e" "fd \<in> fds_of evs ask es" by (auto simp: A sel_asked_def)
  then obtain v a where "a \<in> set es" "evs a = Some v" "e_fd v \<in> r \<union> w \<union> e" by (auto simp: fds_of_def)
  moreover from this have "sel_isready k A evs a" using ready_bits [of "e_fd v" r w e k] by (simp add: sel_isready_def A)
  ultimately show ?thesis by blast
qed

lemma tick_run:
  fixes s :: "'u server"
  assumes fine: "reactor_fine R" and sel: "server_select R select" and at: "server_at R b Resting s"
  shows "modselect_tick select t s = Inr (PMSIDLE, s) \<and> sel_mon R Resting s [] \<or>
    (\<exists>s'. modselect_tick select t s = Inr (PMSAGAIN, s') \<and> (\<exists>b' < b. server_at R b' Resting s') \<and> server_same s s')"
proof -
  obtain c L Q W n where c: "place s = Some c" and inv: "io_inv sel_mon R L Q W n (c, Resting, s)" and b: "io_left L W n \<le> b"
    by (rule sel_seated.atE [OF at])
  note mon = io_inv_facts(2) [OF inv]
  from mon obtain md where md: "sel_mod s = Some md" "ring_rep (s_events md) W" by (auto simp: sel_rep_def)
  show ?thesis
  proof (cases "W = []")
    case True
    have "RINGT_ISEMPTY (s_events md)" using md(2) True ring_isempty by (auto simp: ring_rep_def)
    then show ?thesis using md(1) mon True by (simp add: modselect_tick_def)
  next
    case False
    have ne: "\<not> RINGT_ISEMPTY (s_events md)" using md(2) False ring_isempty by (auto simp: ring_rep_def)
    from take_run [OF fine mon selecting.inv_tick_pre [OF inv fine] False] obtain F es s1 W1 where
      asks: "tick_take s = Some (Inr (Asking F es, s1))" "es \<noteq> []" "F = sel_asked (ioevents s1) es"
        "\<forall>e \<in> set es. sel_isready 1 F (ioevents s1) e"
      and taken: "sel_mon R (Asking F es) s1 W1" "tick_quiet s s1 L Q W W1" by blast
    from selecting.inv_moved [OF inv fine taken(1) disjI1 [OF taken(2)]] obtain Q1 where
      inv1: "io_inv sel_mon R L Q1 W1 n (c, Asking F es, s1)" by blast
    obtain e where "e \<in> set es" using asks(2) by (cases es) auto
    with asks(4) have some: "reports F F" by (blast intro: isready_reports)
    from asks(1) obtain r where coll: "sel_collect (unat (s_maxfileno md)) (ioevents s) (s_events md) ({}, {}, {}) [] =
        Inr (True, r, F, es)" and put: "s1 = sel_put r s"
      using ne by (auto simp: tick_take_def md(1) and_then_Inr split: if_splits)
    let ?tv = "(unat t div 1000000, unat t mod 1000000)"
    obtain nfds A s2 where s2: "select (unat (s_maxfileno md)) F ?tv s1 = (nfds, A, s2)"
      by (cases "select (unat (s_maxfileno md)) F ?tv s1")
    with sel have law: "nfds \<noteq> -1" "(server_step R)\<^sup>+\<^sup>+ s1 s2 \<or> s2 = s1 \<and> reports F A"
      using some unfolding server_select_def by (metis (mono_tags, lifting) old.prod.case)+
    have "io_left L W1 n \<le> b" using b moved_length [OF disjI1 [OF taken(2)]] by (simp add: io_left_def)
    then have at1: "server_at R b (Asking F es) s1"
      using c by (intro sel_seated.atI [OF _ inv1]) (simp_all add: put sel_put_def)
    have same1: "server_same s s1" by (simp add: put sel_put_def master_same_def sel_self_def option.map_comp comp_def)
    have tick: "modselect_tick select t s = and_then (sel_dispatch nfds A es s2) (\<lambda>(ok, s).
        if \<not> ok then Inr (PMSPANIC, s) else Inr (PMSAGAIN, s))"
      using md(1) ne coll asks(2) put s2 law(1) by (simp add: modselect_tick_def Let_def)
    obtain b2 where at2: "server_at R b2 (Asking F es) s2" "b2 \<le> b" "server_same s s2"
      and less: "b2 < b \<or> (\<exists>e \<in> set es. sel_isready nfds A (ioevents s2) e)"
      using law(2)
    proof
      assume "(server_step R)\<^sup>+\<^sup>+ s1 s2"
      from sel_seated.moves_at [OF this at1 fine] show ?thesis
        using that master_same_trans [OF same1] by (meson less_imp_le)
    next
      assume "s2 = s1 \<and> reports F A"
      then show ?thesis using that [of b] at1 same1 reports_ready [of "ioevents s1" es A nfds] asks(3) by auto
    qed
    obtain c2 L2 Q2 W2 n2 where c2: "place s2 = Some c2" and inv2: "io_inv sel_mon R L2 Q2 W2 n2 (c2, Asking F es, s2)"
      and left2: "io_left L2 W2 n2 \<le> b2" by (rule sel_seated.atE [OF at2(1)])
    have "sel_mon R (Handing nfds A es) s2 W2" using io_inv_facts(2) [OF inv2] law(1) by (simp add: sel_mon_def)
    then have inv3: "io_inv sel_mon R L2 Q2 W2 n2 (c2, Handing nfds A es, s2)" using inv2 by (simp add: io_inv_def)
    from dispatch_goes_on [OF fine this] obtain s4 Q4 W4 where
      s4: "sel_dispatch nfds A es s2 = Inr (True, s4)" "io_inv sel_mon R L2 Q4 W4 n2 (c2, Handing nfds A [], s4)"
        "length W4 \<le> length W2" "(\<exists>e \<in> set es. sel_isready nfds A (ioevents s2) e) \<longrightarrow> length W4 < length W2" by blast
    have "sel_mon R Resting s4 W4" using io_inv_facts(2) [OF s4(2)] by (simp add: sel_mon_def)
    then have inv4: "io_inv sel_mon R L2 Q4 W4 n2 (c2, Resting, s4)" using s4(2) by (simp add: io_inv_def)
    have fields: "place s4 = Some c2" "server_same s s4"
      using sel_dispatch_fields [OF s4(1)] c2 master_same_trans [OF at2(3)] by auto
    have "server_at R (io_left L2 W4 n2) Resting s4" using fields(1) inv4 by (rule sel_seated.atI) simp
    moreover have "io_left L2 W4 n2 < b" using s4(3,4) left2 at2(2) less by (auto simp: io_left_def)
    moreover have "modselect_tick select t s = Inr (PMSAGAIN, s4)" by (simp add: tick s4(1))
    ultimately show ?thesis using fields(2) by blast
  qed
qed

interpretation sel_serving: serving reactor_fine sel_mon "\<lambda>R. sel_register" sel_report tick_step answers Resting sel_rank
  place seat_sel sel_self server_select modselect_tick "\<lambda>select s. (0, s)" modselect_dtor sel_up
proof unfold_locales
  show "\<exists>z. (\<forall>s' :: 'u server. iostate.more s' = iostate.more s \<longrightarrow>
        (if m_init x then (0, s') else (0, s')) = (0 :: int, iostate.more_update (\<lambda>_. z) s')) \<and>
      (\<forall>s'. iostate.more s' = z \<longrightarrow> sel_mon R Resting s' [] \<and> sel_self s' = Some p \<and> place s' = None)"
    if "sel_up R p s" for R :: "'u reactor" and p and s :: "'u server" and x
  proof (intro exI [of _ "iostate.more s"] conjI allI impI)
    fix s' :: "'u server" assume "iostate.more s' = iostate.more s"
    then show "(if m_init x then (0, s') else (0, s')) = (0 :: int, iostate.more_update (\<lambda>_. iostate.more s) s')"
      by (cases s; cases s') simp
  next
    fix s' :: "'u server" assume "iostate.more s' = iostate.more s"
    from more_server [OF this] that show "sel_mon R Resting s' []" "sel_self s' = Some p" "place s' = None"
      by (simp_all add: sel_up_def sel_self_def sel_rep_def)
  qed
  show "\<exists>z. modselect_dtor s = (0, iostate.more_update (\<lambda>_. z) (s\<lparr>module_mem := (module_mem s)(p := None)\<rparr>)) \<and>
      (\<forall>s' :: 'u server. iostate.more s' = z \<longrightarrow> sel_self s' = None)" if "sel_self s = Some p" for p and s :: "'u server"
  proof (intro exI [of _ "iostate.more (s\<lparr>sel_mod := None\<rparr>)"] conjI allI impI)
    from that show "modselect_dtor s =
        (0, iostate.more_update (\<lambda>_. iostate.more (s\<lparr>sel_mod := None\<rparr>)) (s\<lparr>module_mem := (module_mem s)(p := None)\<rparr>))"
      by (cases s) (auto simp: sel_self_def modselect_dtor_def)
    fix s' :: "'u server" assume "iostate.more s' = iostate.more (s\<lparr>sel_mod := None\<rparr>)"
    from more_server(1) [OF this] show "sel_self s' = None" by (simp add: sel_self_def)
  qed
qed (fact tick_run)

section \<open>A sample\<close>

text \<open>Whenever there is time, the worker takes one step; \<open>select\<close> reports all it is asked about.\<close>

abbreviation server_nudge :: "'u reactor \<Rightarrow> 'u server \<Rightarrow> 'u server" where
  "server_nudge R \<equiv> sit_nudge place seat_sel (io_work sel_calls R)"

abbreviation nudged_server :: "'u reactor \<Rightarrow> 'u server pthreads" where
  "nudged_server R \<equiv> sit_nudged place seat_sel (io_work sel_calls R) (r_tid R)"

definition nudged_select :: "'u reactor \<Rightarrow> nat \<Rightarrow> fd_sets \<Rightarrow> nat \<times> nat \<Rightarrow> 'u server \<Rightarrow> int \<times> fd_sets \<times> 'u server" where
  "nudged_select R n F tv s = (1, F, server_nudge R s)"

lemma nudged_select_law: "server_select R (nudged_select R)"
  using sit_nudge_runs [of place seat_sel "io_work sel_calls R"] sit_nudge_law [of place seat_sel "io_work sel_calls R"]
  by (auto simp: server_select_def nudged_select_def)

definition server_static :: "'u frame world \<Rightarrow> 'u server" where
  "server_static w = (selstate.extend (sel3 w) \<lparr>place = None\<rparr>)
     \<lparr>modulescount := 1, modules := [Some 8, None, None, None, None, None, None, None],
      module_mem := [8 \<mapsto> \<lparr>m_flags = 0, m_init = False, m_dtor = True, m_tick = True\<rparr>]\<rparr>"

lemma server_static_simps:
  "heap (server_static w) = heap w" "world_rep (server_static w) L Q = world_rep w L Q" "workers (server_static w) = 0"
  "place (server_static w) = None" "ioevents (server_static w) a = None" "sel_rep (server_static w) 16 3 []"
  "one_ticks (server_static w) 8 []" "sel_self (server_static w) = Some 8"
proof -
  have same: "sel_mod (server_static w) = sel_mod (sel3 w)" "heap (server_static w) = heap (sel3 w)"
    "tasks (server_static w) = tasks (sel3 w)" "taskq (server_static w) = taskq (sel3 w)"
    "ioevents (server_static w) = ioevents (sel3 w)"
    by (simp_all add: server_static_def selstate.extend_def)
  show "heap (server_static w) = heap w" "world_rep (server_static w) L Q = world_rep w L Q"
    "ioevents (server_static w) a = None" "sel_rep (server_static w) 16 3 []"
    using sel3_simps [of w] same by (simp_all add: sel_rep_def world_rep_def)
  have mods: "modulescount (server_static w) = 1" "modules (server_static w) = [Some 8, None, None, None, None, None, None, None]"
    "module_mem (server_static w) = [8 \<mapsto> \<lparr>m_flags = 0, m_init = False, m_dtor = True, m_tick = True\<rparr>]"
    by (simp_all add: server_static_def)
  show "one_ticks (server_static w) 8 []" by (simp add: one_ticks_def installed_def mods MODULES_MAX_def)
  show "place (server_static w) = None" by (simp add: server_static_def selstate.extend_def)
  have "workers (server_static w) = workers (sel3 w)" by (simp add: server_static_def selstate.extend_def)
  also have "\<dots> = 0" by (simp add: sel3_def iostate.extend_def master.extend_def state_static_def world.extend_def master.fields_def)
  finally show "workers (server_static w) = 0" .
  show "sel_self (server_static w) = Some 8"
    unfolding sel_self_def same(1) by (simp add: sel3_def iostate.extend_def selstate.fields_def)
qed

section \<open>Property\<close>

text \<open>Property C2. A program whose tasks wait for descriptors runs to its end: with the select
  monitor installed (and \<open>modio\<close> or other modules that do not tick behind it) and one worker, \<open>pcaio\<close> returns 0, in whatever order
  the worker moves while the master sleeps and while \<open>select\<close> waits, as long as a call of \<open>select\<close> in which the worker
  does not move reports one of its descriptors (a time-out without either would only send the master round again); by then
  every task has been served, has returned and is freed, and the monitor is taken down.\<close>

theorem served_returns:
  assumes "reactor_fine R" "r_tid R = 0" "0 < i" "env_fine env"
    and "server_threads R pt" "server_time R sleep" "server_select R select" "server_rep R p qs s js"
  shows "\<exists>s'. pcaio (server_mods select p) pt sleep env 0 0 i 1 (map fst js) s = Some (Inr (0, s')) \<and>
    (\<forall>a. heap s' a = None) \<and> workers s' = 0 \<and> installed s' [] \<and> sel_mod s' = None \<and> module_mem s' p = None"
proof -
  from assms(2,5) have "server_threads R pt" by simp
  from sel_serving.returns [OF assms(1-4) this assms(6-8)] show ?thesis by (simp add: sel_self_def)
qed

theorem served_returns_witness:
  "\<exists>s s'. server_rep (reactor1 0) 8 [] s [(64, 1, 1), (128, 0, 0)] \<and>
    pcaio (server_mods (nudged_select (reactor1 0)) 8) (nudged_server (reactor1 0)) (\<lambda>t. server_nudge (reactor1 0)) env1 0 0 9 1
      [64, 128] s = Some (Inr (0, s')) \<and> (\<forall>a. heap s' a = None) \<and> sel_mod s' = None"
proof -
  from sample_created obtain w :: "nat frame world" where
    w: "world_rep w [64, 128] []" "job_rep start2 w (64, Some 32, 1)" "job_rep start2 w (128, None, 0)" by blast
  let ?R = "reactor1 0" and ?js = "[(64, 1, 1), (128, 0, 0)] :: (addr \<times> nat \<times> nat) list"
  have fine: "reactor_fine ?R" "r_tid ?R = 0" "(0 :: nat) < 9" "env_fine env1"
    by (simp_all add: reactor_fine_def reactor1_def inj_def env_fine_def env1_def FD_SETSIZE_def)
  have limits: "r_max ?R = 16" "r_cap ?R = 3" "r_start ?R = start2" by (simp_all add: reactor1_def)
  have "stands ?R (server_static w) 64 1" "stands ?R (server_static w) 128 0"
    using w(2,3) by (auto simp: stands_def resumes_def server_static_simps limits)
  then have rep: "server_rep ?R 8 [] (server_static w) ?js"
    using w(1) by (auto simp: io_start_def sel_up_def server_static_simps limits reactor1_serves intro!: exI [of _ "[64, 128]"])
  from served_returns [OF fine sit_nudge_threads sit_nudge_time nudged_select_law rep] obtain s' where
    "pcaio (server_mods (nudged_select ?R) 8) (nudged_server ?R) (\<lambda>t. server_nudge ?R) env1 0 0 9 1 (map fst ?js) (server_static w) =
      Some (Inr (0, s'))" "\<forall>a. heap s' a = None" "sel_mod s' = None" by blast
  with rep show ?thesis by (intro exI [of _ "server_static w"] exI [of _ s']) simp
qed

end
