(* ===== verification/Poller.thy ===== *)
theory Poller
  imports Monitor Modepoll
begin

text \<open>
  The epoll monitor in the company of a worker: its tick in small steps, the proof that it keeps
  the contract \<open>monitor\<close>, and what follows for every interleaving.
\<close>

section \<open>The tick in small steps\<close>

text \<open>Where the master stands: between two ticks, in \<open>epoll_wait\<close>, in the loop with the returned
  events that are left, or done with a module that has panicked. The loop over the whole list,
  after \<open>epoll_wait\<close> has failed, is one step.\<close>

datatype epolling = EResting | EWaiting | EHanding "(c_int \<times> addr) list" | EPanicked

type_synonym 'k epl_result = "(fault + (epolling \<times> 'k)) option"

definition etick_take :: "('k, 'z) eplstate_scheme \<Rightarrow> ('k, 'z) eplstate_scheme epl_result" where
  "etick_take s =
    (case epl_mod s of
       None \<Rightarrow> Some (Inl NullDeref)
     | Some m \<Rightarrow> if lcount (p_waiting m) = 0 then None else Some (Inr (EWaiting, s\<lparr>errno := 0\<rparr>)))"

text \<open>\<open>ans\<close> is what \<open>epoll_wait\<close> answers.\<close>

fun etick_step ::
  "(c_int \<times> addr) list option \<Rightarrow> epolling \<Rightarrow> ('k, 'z) eplstate_scheme \<Rightarrow> ('k, 'z) eplstate_scheme epl_result" where
  "etick_step ans EResting s = etick_take s"
| "etick_step None EWaiting s =
    Some (and_then (epl_at s) (\<lambda>m.
      and_then (epl_flush (p_waiting m) s) (\<lambda>(l, s). Inr (EPanicked, epl_put l s))))"
| "etick_step (Some evs) EWaiting s =
    Some (and_then (epl_at s) (\<lambda>m.
      if unat (p_maxevents m) < length evs then Inl OutOfBounds else Inr (EHanding evs, s)))"
| "etick_step ans (EHanding []) s = Some (Inr (EResting, s))"
| "etick_step ans (EHanding (x # evs)) s =
    Some (and_then (epl_dispatch [x] s) (\<lambda>(ok, s). Inr (if ok then EHanding evs else EPanicked, s)))"
| "etick_step ans EPanicked s = None"

section \<open>With a worker\<close>

text \<open>What a waiting task does up to its switch, and what it does with its event afterwards.\<close>

definition epl_enter ::
  "('k, 'z) eplstate_scheme epoll_ctl \<Rightarrow> tid \<Rightarrow> addr \<Rightarrow> int \<Rightarrow> c_int \<Rightarrow> ('k, 'z) eplstate_scheme
   \<Rightarrow> fault + (int \<times> ('k, 'z) eplstate_scheme)" where
  "epl_enter ctl i a fd events s =
    and_then (epl_register ctl i a fd events s) (\<lambda>(rc, s).
      if rc \<noteq> 0 then Inr (-1, s)
      else and_then (epl_at s) (\<lambda>m.
        case list_append a (p_waiting m) of (rc, l) \<Rightarrow>
          let s = epl_put l s
          in if rc \<noteq> 0 then
               Inr (-1, event_put a None (snd (ctl (p_fd m) CTL_DEL fd (events OR EPOLLONESHOT) a s)))
             else Inr (0, s)))"

definition epl_report :: "addr \<Rightarrow> ('k, 'z) eplstate_scheme \<Rightarrow> fault + (c_int \<times> ('k, 'z) eplstate_scheme)" where
  "epl_report a s =
    and_then (event_at a s) (\<lambda>v. Inr (if e_events v AND IOERR \<noteq> 0 then -1 else 0, event_put a None s))"

lemma epl_parts:
  "epl_enter ctl i a fd events s = Inr (0, s1) \<Longrightarrow> pcaio_relaxA i 0 k TASK_NOSCHEDULE s1 = Inr (Switched c, s2) \<Longrightarrow>
    pcaio_modepoll_monitorA ctl i a 0 k fd events s = Inr (Switched c, s2)"
  "pcaio_modepoll_resumed a s = epl_report a (snd (pcaio_relaxA_resumed s))"
proof -
  assume enter: "epl_enter ctl i a fd events s = Inr (0, s1)" and away: "pcaio_relaxA i 0 k TASK_NOSCHEDULE s1 = Inr (Switched c, s2)"
  from enter obtain s0 m where s0: "epl_register ctl i a fd events s = Inr (0, s0)" "epl_at s0 = Inr m"
    by (auto simp: epl_enter_def and_then_Inr split: if_splits)
  with enter obtain l where "list_append a (p_waiting m) = (0, l)" "s1 = epl_put l s0"
    by (auto simp: epl_enter_def Let_def split: prod.splits if_splits)
  with s0 away show "pcaio_modepoll_monitorA ctl i a 0 k fd events s = Inr (Switched c, s2)"
    by (simp add: pcaio_modepoll_monitorA_def epl_enlist_def Let_def)
qed (simp add: epl_report_def pcaio_modepoll_resumed_def Let_def)

type_synonym 'z eplext = "'z eplstate_ext iostate_ext master_ext"

type_synonym ('u, 'z) pstate = "('u frame, 'z) eplstate_scheme"

text \<open>The program with the \<open>epoll_ctl\<close> of its system.\<close>

record ('u, 'z) poller = "'u reactor" +
  r_ctl :: "('u, 'z) pstate epoll_ctl"

abbreviation epl_calls :: "('u, 'z) poller \<Rightarrow> ('u, 'z eplext) userland" where
  "epl_calls \<equiv> io_calls (\<lambda>R. epl_enter (r_ctl R)) epl_report"

text \<open>\<open>epoll_wait\<close> does not fail, and returns only events that are in the list (see
  \<open>modepoll_early_event\<close> for the others), each of them once.\<close>

definition eanswers :: "epolling \<Rightarrow> ('u, 'z) pstate \<Rightarrow> (c_int \<times> addr) list option \<Rightarrow> bool" where
  "eanswers m s ans \<longleftrightarrow> (m = EWaiting \<longrightarrow>
    (case ans of
       None \<Rightarrow> False
     | Some evs \<Rightarrow> distinct (map snd evs) \<and>
        (\<forall>d W. epl_mod s = Some d \<longrightarrow> list_rep (p_waiting d) W \<longrightarrow> set (map snd evs) \<subseteq> set W)))"

abbreviation poller_step :: "('u, 'z) poller \<Rightarrow> 'u control \<times> epolling \<times> ('u, 'z) pstate \<Rightarrow> 'u control \<times> epolling \<times> ('u, 'z) pstate \<Rightarrow> bool" where
  "poller_step R \<equiv> duo_step (io_work epl_calls R) etick_step eanswers"

abbreviation poller_run :: "('u, 'z) poller \<Rightarrow> nat \<Rightarrow> 'u control \<times> epolling \<times> ('u, 'z) pstate \<Rightarrow> 'u control \<times> epolling \<times> ('u, 'z) pstate \<Rightarrow> bool" where
  "poller_run R \<equiv> duo_run (io_work epl_calls R) etick_step eanswers"

abbreviation poller_faults :: "('u, 'z) poller \<Rightarrow> 'u control \<times> epolling \<times> ('u, 'z) pstate \<Rightarrow> bool" where
  "poller_faults R \<equiv> duo_faults (io_work epl_calls R) etick_step eanswers"

text \<open>\<open>epoll_ctl\<close> changes the descriptor's registration or adds it; of this state it may write
  \<open>errno\<close> and whatever an extension of the state holds of the kernel.\<close>

definition ctl_keeps :: "('u, 'z) pstate \<Rightarrow> ('u, 'z) pstate \<Rightarrow> bool" where
  "ctl_keeps s s' \<longleftrightarrow> heap s' = heap s \<and> tasks s' = tasks s \<and> taskq s' = taskq s \<and> tls_task s' = tls_task s \<and>
     tls_context s' = tls_context s \<and> ioevents s' = ioevents s \<and> epl_mod s' = epl_mod s"

definition ctl_works :: "('u, 'z) pstate epoll_ctl \<Rightarrow> bool" where
  "ctl_works ctl \<longleftrightarrow> (\<forall>f fd ev a s. case ctl f CTL_MOD fd ev a s of (rc, s1) \<Rightarrow> ctl_keeps s s1 \<and>
     (rc \<noteq> 0 \<longrightarrow> (case ctl f CTL_ADD fd ev a s1 of (rc, s2) \<Rightarrow> rc = 0 \<and> ctl_keeps s1 s2)))"

text \<open>There is room for the events of all the program's tasks, \<open>r_max\<close> being \<open>maxevents\<close>.\<close>

definition poller_fine :: "('u, 'z) poller \<Rightarrow> bool" where
  "poller_fine R \<longleftrightarrow> inj (r_slot R) \<and> r_cap R \<le> unat (r_max R) \<and> ctl_works (r_ctl R)"

fun handed :: "epolling \<Rightarrow> addr list" where
  "handed (EHanding evs) = map snd evs"
| "handed m = []"

definition epl_mon :: "('u, 'z) poller \<Rightarrow> epolling \<Rightarrow> ('u, 'z) pstate \<Rightarrow> addr list \<Rightarrow> bool" where
  "epl_mon R m s W \<longleftrightarrow> m \<noteq> EPanicked \<and> (m = EWaiting \<longrightarrow> W \<noteq> []) \<and> epl_rep s (r_max R) W \<and> distinct (handed m) \<and> set (handed m) \<subseteq> set W"

fun epl_rank :: "epolling \<Rightarrow> ('u, 'z) pstate \<Rightarrow> nat" where
  "epl_rank EResting s = 2"
| "epl_rank EWaiting s = 1"
| "epl_rank (EHanding evs) s = (if evs = [] then 3 else 0)"
| "epl_rank EPanicked s = 0"

lemma more_epl: "iostate.more s' = iostate.more (s :: ('u, 'z) pstate) \<Longrightarrow> epl_mod s' = epl_mod s"
  by (cases s; cases s') simp

lemma epl_mon_length: "epl_mon R m s W \<Longrightarrow> epl_mon R m s W' \<Longrightarrow> length W = length W'"
  by (auto simp: epl_mon_def epl_rep_def dest: list_rep_unique)

lemma task_of_event: "task_of s e = event_task (ioevents s) e"
  by (simp add: task_of_def event_task_def)

text \<open>Entering an event.\<close>

lemma epl_rep_cong: "epl_mod s' = epl_mod s \<Longrightarrow> epl_rep s' mx W \<longleftrightarrow> epl_rep s mx W"
  by (simp add: epl_rep_def)

lemma epl_registers:
  fixes s :: "('u, 'z) pstate"
  assumes ctl: "ctl_works ctl" and epl: "epl_rep s mx W" and a: "a \<notin> set W" and self: "pcaio_self i s = Some p"
    and fd: "0 \<le> fd" "ev \<noteq> 0"
  shows "\<exists>s' m. epl_register ctl i a fd ev s = Inr (0, s') \<and> epl_mod s' = Some m \<and> p_maxevents m = mx \<and>
    list_rep (p_waiting m) W \<and> list_detached (p_waiting m) a \<and>
    ioevents s' = (ioevents s)(a \<mapsto> \<lparr>e_fd = fd, e_events = ev, e_task = p\<rparr>) \<and> heap s' = heap s \<and> tasks s' = tasks s \<and>
    taskq s' = taskq s \<and> tls_task s' = tls_task s \<and> tls_context s' = tls_context s"
proof -
  from epl obtain m where m: "epl_mod s = Some m" "p_maxevents m = mx" "list_rep (p_waiting m) W"
    by (auto simp: epl_rep_def)
  let ?l = "(p_waiting m)\<lparr>lnext := (lnext (p_waiting m))(a := None), lprev := (lprev (p_waiting m))(a := None)\<rparr>"
  let ?s = "epl_put ?l (event_put a (Some \<lparr>e_fd = fd, e_events = ev, e_task = p\<rparr>) s)" and ?f = "p_fd m" and ?e = "ev OR EPOLLONESHOT"
  have l: "list_rep ?l W" "list_detached ?l a" using m(3) a by (auto simp: rep_defs)
  obtain rc s1 where s1: "ctl ?f CTL_MOD fd ?e a ?s = (rc, s1)" by (cases "ctl ?f CTL_MOD fd ?e a ?s")
  obtain rc' s2 where s2: "ctl ?f CTL_ADD fd ?e a s1 = (rc', s2)" by (cases "ctl ?f CTL_ADD fd ?e a s1")
  from ctl have "case ctl ?f CTL_MOD fd ?e a ?s of (rc, s1) \<Rightarrow> ctl_keeps ?s s1 \<and>
     (rc \<noteq> 0 \<longrightarrow> (case ctl ?f CTL_ADD fd ?e a s1 of (rc, s2) \<Rightarrow> rc = 0 \<and> ctl_keeps s1 s2))"
    unfolding ctl_works_def by (elim allE)
  then have kept: "ctl_keeps ?s s1" "rc \<noteq> 0 \<Longrightarrow> rc' = 0 \<and> ctl_keeps s1 s2" by (simp_all add: s1 s2)
  define s' where "s' = (if rc = 0 then s1 else s2\<lparr>errno := 0\<rparr>)"
  have run: "epl_register ctl i a fd ev s = Inr (0, s')"
    using fd self m(1) kept(2) by (simp add: epl_register_def epl_at_def Let_def s1 s2 s'_def)
  have "ctl_keeps ?s s'" using kept by (auto simp: s'_def ctl_keeps_def)
  with run m l show ?thesis by (intro exI [of _ s'] exI [of _ "m\<lparr>p_waiting := ?l\<rparr>"]) (simp add: ctl_keeps_def)
qed

lemma epl_enters:
  fixes s :: "('u, 'z) pstate"
  assumes fine: "poller_fine R" and mon: "epl_mon R m s W" and a: "a \<notin> set W" and room: "length W < r_cap R"
    and self: "pcaio_self i s = Some p" and fd: "0 \<le> fd" "r_fits R fd" "ev \<noteq> 0"
  shows "\<exists>s' W'. epl_enter (r_ctl R) i a fd ev s = Inr (0, s') \<and> epl_mon R m s' W' \<and> mset W' = mset (a # W) \<and>
    ioevents s' = (ioevents s)(a \<mapsto> \<lparr>e_fd = fd, e_events = ev, e_task = p\<rparr>) \<and> heap s' = heap s \<and> tasks s' = tasks s \<and>
    taskq s' = taskq s \<and> tls_task s' = tls_task s \<and> tls_context s' = tls_context s"
proof -
  from mon have epl: "epl_rep s (r_max R) W" by (simp add: epl_mon_def)
  from fine have ctl: "ctl_works (r_ctl R)" by (simp add: poller_fine_def)
  from epl_registers [OF ctl epl a self fd(1,3)] obtain s1 d where
    s1: "epl_register (r_ctl R) i a fd ev s = Inr (0, s1)" "epl_mod s1 = Some d" "p_maxevents d = r_max R"
      "list_rep (p_waiting d) W" "list_detached (p_waiting d) a"
    and same: "ioevents s1 = (ioevents s)(a \<mapsto> \<lparr>e_fd = fd, e_events = ev, e_task = p\<rparr>)" "heap s1 = heap s" "tasks s1 = tasks s"
      "taskq s1 = taskq s" "tls_task s1 = tls_task s" "tls_context s1 = tls_context s" by blast
  have "unat (r_max R) < 2 ^ 16" using unsigned_less [of "r_max R", where ?'a = nat] by simp
  then have "length W + 1 < 2 ^ 64" using room fine by (simp add: poller_fine_def)
  from list_append_accept [OF s1(4) a s1(5) this] obtain l where
    l: "list_append a (p_waiting d) = (0, l)" "list_rep l (W @ [a])" by blast
  let ?s = "epl_put l s1"
  have "epl_enter (r_ctl R) i a fd ev s = Inr (0, ?s)" using s1(1,2) l(1) by (simp add: epl_enter_def epl_at_def Let_def)
  moreover have "epl_mon R m ?s (W @ [a])" using mon s1(2,3) l(2) by (auto simp: epl_mon_def epl_rep_def)
  ultimately show ?thesis using same by (intro exI [of _ ?s] exI [of _ "W @ [a]"]) simp
qed

text \<open>A returned event: its task is queued.\<close>

lemma handed_wakes:
  fixes s :: "('u, 'z) pstate"
  assumes mon: "epl_mon R (EHanding (x # evs)) s W" and pre: "tick_pre R s L Q W"
  shows "\<exists>s'. epl_dispatch [x] s = Inr (True, s') \<and> epl_mon R (EHanding evs) s' (remove1 (snd x) W) \<and>
    tick_wakes s s' L Q W (remove1 (snd x) W)"
proof -
  obtain ev e where x: "x = (ev, e)" by (cases x)
  from mon have epl: "epl_rep s (r_max R) W" and e: "e \<in> set W" "e \<notin> set (map snd evs)" "distinct (map snd evs)"
    "set (map snd evs) \<subseteq> set W" by (auto simp: epl_mon_def x)
  from pre have rep: "world_rep s L Q" and dist: "distinct W" by (simp_all add: tick_pre_def watched_def)
  have task: "ioevents s e \<noteq> None" "task_of s e \<in> set L" "task_of s e \<notin> set Q"
    using pre watched_task [of R s L W e] e(1) by (auto simp: tick_pre_def task_of_event)
  obtain s1 where s1: "epl_dispatch ((ev, e) # []) s = epl_dispatch [] s1" "epl_rep s1 (r_max R) (remove1 e W)"
    "ioevents s1 = (ioevents s)(e := map_option (\<lambda>v. v\<lparr>e_events := ev\<rparr>) (ioevents s e))"
    "world_rep s1 L (Q @ [task_of s e])" "heap s1 = heap s" "tls_task s1 = tls_task s" "tls_context s1 = tls_context s"
    by (rule epl_dispatch_member [OF rep epl e(1) task]) (rule that)
  from task(1) s1(3) obtain v where "ioevents s1 = (ioevents s)(e \<mapsto> v)" by auto
  moreover have "mset W = mset (e # remove1 e W)" using e(1) by simp
  ultimately have "tick_wakes s s1 L Q W (remove1 e W)"
    using s1(4-7) unfolding tick_wakes_def task_of_event by blast
  moreover have "epl_mon R (EHanding evs) s1 (remove1 e W)"
    using s1(2) e dist by (auto simp: epl_mon_def)
  ultimately show ?thesis using s1(1) by (auto simp: x simp del: epl_dispatch.simps(2))
qed

section \<open>Every step\<close>

lemma epl_take:
  assumes mon: "epl_mon R EResting s W" and pre: "tick_pre R s L Q W"
  shows "if W = [] then etick_take s = None
    else \<exists>s'. etick_take s = Some (Inr (EWaiting, s')) \<and> epl_mon R EWaiting s' W \<and> tick_quiet s s' L Q W W \<and> s' = s\<lparr>errno := 0\<rparr>"
proof -
  from mon obtain m where m: "epl_mod s = Some m" "p_maxevents m = r_max R" "list_rep (p_waiting m) W"
    by (auto simp: epl_mon_def epl_rep_def)
  have "world_rep (s\<lparr>errno := 0\<rparr>) L Q" using pre world_rep_cong [of "s\<lparr>errno := 0\<rparr>" s L Q] by (simp add: tick_pre_def)
  then show ?thesis
    using m list_rep_count [OF m(3)] by (simp add: etick_take_def epl_mon_def epl_rep_def tick_quiet_def)
qed

lemma epl_answered:
  assumes fine: "poller_fine R" and mon: "epl_mon R EWaiting s W" and pre: "tick_pre R s L Q W" and ans: "eanswers EWaiting s ans"
  shows "\<exists>evs. ans = Some evs \<and> etick_step ans EWaiting s = Some (Inr (EHanding evs, s)) \<and> epl_mon R (EHanding evs) s W \<and>
    length evs \<le> unat (r_max R)"
proof -
  from ans obtain evs where evs: "ans = Some evs" "distinct (map snd evs)"
    and sub: "\<And>d W. epl_mod s = Some d \<Longrightarrow> list_rep (p_waiting d) W \<Longrightarrow> set (map snd evs) \<subseteq> set W"
    by (auto simp: eanswers_def split: option.splits)
  from mon obtain m where m: "epl_mod s = Some m" "p_maxevents m = r_max R" "list_rep (p_waiting m) W"
    by (auto simp: epl_mon_def epl_rep_def)
  note W = sub [OF m(1,3)]
  have "length evs \<le> card (set W)" using distinct_card [OF evs(2)] card_mono [OF _ W] by (simp del: set_map)
  also have "\<dots> \<le> length W" by (rule card_length)
  finally have room: "length evs \<le> unat (r_max R)" using fine pre by (simp add: poller_fine_def tick_pre_def)
  have "epl_mon R (EHanding evs) s W" using mon evs(2) W by (auto simp: epl_mon_def)
  with evs(1) m(1,2) room show ?thesis by (simp add: epl_at_def)
qed

lemma epl_ticks:
  assumes fine: "poller_fine R" and mon: "epl_mon R m s W" and pre: "tick_pre R s L Q W" and ans: "eanswers m s ans"
    and step: "etick_step ans m s = Some r"
  shows "\<exists>m' s' W'. r = Inr (m', s') \<and> epl_mon R m' s' W' \<and> (tick_quiet s s' L Q W W' \<or> tick_wakes s s' L Q W W')"
proof -
  have same: "tick_quiet s s L Q W W" using pre by (simp add: tick_quiet_def tick_pre_def)
  show ?thesis
  proof (cases m)
    case EResting
    from epl_take [OF mon [unfolded EResting] pre] step show ?thesis by (auto simp: EResting split: if_splits)
  next
    case EWaiting
    from epl_answered [OF fine mon [unfolded EWaiting] pre ans [unfolded EWaiting]] step same show ?thesis
      by (auto simp: EWaiting)
  next
    case (EHanding evs)
    show ?thesis
    proof (cases evs)
      case Nil
      have "epl_mon R EResting s W" using mon by (simp add: epl_mon_def)
      then show ?thesis using step same by (auto simp: EHanding Nil)
    next
      case (Cons x evs')
      from handed_wakes [OF mon [unfolded EHanding Cons] pre] step show ?thesis
        by (auto simp: EHanding Cons simp del: epl_dispatch.simps)
    qed
  next
    case EPanicked
    then show ?thesis using step by simp
  qed
qed

lemma epl_goes:
  assumes fine: "poller_fine R" and mon: "epl_mon R m s W" and pre: "tick_pre R s L Q W" and some: "m \<noteq> EResting \<or> W \<noteq> []"
  shows "\<exists>ans m' s'. eanswers m s ans \<and> etick_step ans m s = Some (Inr (m', s')) \<and>
    (epl_rank m' s' < epl_rank m s \<or> (\<exists>W'. epl_mon R m' s' W' \<and> length W' < length W))"
proof (cases m)
  case EResting
  with some have "W \<noteq> []" by simp
  with epl_take [OF mon [unfolded EResting] pre] show ?thesis
    by (auto simp: EResting eanswers_def)
next
  case EWaiting
  with mon have "W \<noteq> []" by (simp add: epl_mon_def)
  then obtain a W' where W: "W = a # W'" by (cases W) auto
  from mon obtain d where d: "epl_mod s = Some d" "list_rep (p_waiting d) W" by (auto simp: epl_mon_def epl_rep_def)
  have "eanswers EWaiting s (Some [(IOIN, a)])"
    using d by (auto simp: eanswers_def W dest: list_rep_unique)
  from epl_answered [OF fine mon [unfolded EWaiting] pre this] this show ?thesis by (auto simp: EWaiting)
next
  case (EHanding evs)
  show ?thesis
  proof (cases evs)
    case Nil
    then show ?thesis by (intro exI [of _ None]) (simp add: EHanding eanswers_def)
  next
    case (Cons x evs')
    from handed_wakes [OF mon [unfolded EHanding Cons] pre] obtain s' where
      s': "epl_dispatch [x] s = Inr (True, s')" "epl_mon R (EHanding evs') s' (remove1 (snd x) W)" "tick_wakes s s' L Q W (remove1 (snd x) W)"
      by blast
    from s'(2) wakes_shorter [OF s'(3)] have "\<exists>W'. epl_mon R (EHanding evs') s' W' \<and> length W' < length W" by blast
    moreover have "etick_step None (EHanding (x # evs')) s = Some (Inr (EHanding evs', s'))"
      using s'(1) by (simp del: epl_dispatch.simps)
    ultimately show ?thesis unfolding EHanding Cons by (intro exI [of _ None] exI) (auto simp: eanswers_def simp del: etick_step.simps)
  qed
next
  case EPanicked
  then show ?thesis using mon by (simp add: epl_mon_def)
qed

interpretation epolling: monitor poller_fine epl_mon "\<lambda>R. epl_enter (r_ctl R)" epl_report etick_step eanswers EResting epl_rank
proof
  show "inj (r_slot R)" if "poller_fine R" for R :: "('u, 'z) poller" using that by (simp add: poller_fine_def)
  show "epl_mon R m s' W" if "epl_mon R m s W" "iostate.more s' = iostate.more s" for R m W and s s' :: "('u, 'z) pstate"
    using that more_epl [of s' s] by (simp add: epl_mon_def epl_rep_def)
  show "\<exists>r. epl_report a s = Inr (r, event_put a None s)" if "ioevents s a = Some v" for a v and s :: "('u, 'z) pstate"
    using that by (simp add: epl_report_def)
qed (fact epl_mon_length, fact epl_enters, fact epl_ticks, fact epl_goes)

end
