(* ===== verification/Pollservice.thy ===== *)
theory Pollservice
  imports Poller Service
begin

text \<open>
  One worker and the epoll monitor together: in every interleaving nothing is lost, and the tasks
  can always be brought to an end.
\<close>

text \<open>The start: the worker in its loop with nothing in hand, no event in the list, the tasks \<open>js\<close> queued.\<close>

abbreviation poller_rep :: "('u, 'z) poller \<Rightarrow> ('u, 'z) pstate \<Rightarrow> (addr \<times> 'u \<times> nat) list \<Rightarrow> bool" where
  "poller_rep R s js \<equiv> io_rep epl_mon R EResting s js"

lemma epl_mon_start [simp]: "epl_mon R EResting s W \<longleftrightarrow> epl_rep s (r_max R) W"
  by (simp add: epl_mon_def)

section \<open>A sample\<close>

text \<open>The descriptor is not registered before it is added.\<close>

definition ctl1 :: "('u, 'z) pstate epoll_ctl" where
  "ctl1 f op fd ev a s = (if op = CTL_ADD then 0 else -1, s\<lparr>errno := 2\<rparr>)"

definition poller1 :: "tid \<Rightarrow> (nat, 'z) poller" where
  "poller1 i = reactor.extend (reactor1 i) (poller.fields ctl1)"

lemma poller1_simps [simp]:
  "r_prog (poller1 i) = reader" "r_start (poller1 i) = start2" "r_slot (poller1 i) = (\<lambda>p. p + 4096)" "r_tid (poller1 i) = i"
  "r_max (poller1 i) = 16" "r_cap (poller1 i) = 3" "r_req (poller1 i) = (\<lambda>_. (5, IOIN))" "r_fits (poller1 i) = (\<lambda>fd. fd < 16)"
  "r_ctl (poller1 i) = ctl1"
  by (simp_all add: poller1_def reactor1_def reactor.extend_def poller.fields_def)

lemma poller1_fine: "poller_fine (poller1 i)"
  by (simp add: poller_fine_def inj_def ctl_works_def ctl_keeps_def ctl1_def)

lemma poller1_serves: "serves (poller1 i) 0 k" "serves (poller1 i) (Suc 0) (Suc 0)"
  by (rule reader_serves; simp)+

definition list0 :: "addr plist" where
  "list0 = \<lparr>lhead = None, ltail = None, lcount = 0, lmutex = False, lnext = (\<lambda>_. None), lprev = (\<lambda>_. None)\<rparr>"

definition epl3 :: "'k world \<Rightarrow> ('k, unit) eplstate_scheme" where
  "epl3 w = iostate.extend (master.extend (state_static w) (iostate.fields (\<lambda>_. None)))
     (eplstate.fields (Some \<lparr>p_self = 8, p_fd = 9, p_maxevents = 16, p_waiting = list0\<rparr>))"

lemma epl3_simps:
  "world_rep (epl3 w) L Q = world_rep w L Q" "epl_rep (epl3 w) 16 []" "ioevents (epl3 w) a = None"
  "tls_task (epl3 w) = tls_task w" "tls_context (epl3 w) = tls_context w" "heap (epl3 w) = heap w"
  by (simp_all add: epl3_def iostate.extend_def master.extend_def iostate.fields_def eplstate.fields_def
      world_rep_def epl_rep_def state_static_def world.extend_def master.fields_def list0_def rep_defs)

lemma poller1_sample:
  "\<exists>s :: (nat, unit) pstate. poller_rep (poller1 3) s [(64, 1, 1), (128, 0, 0)]"
proof -
  from sample_system obtain w :: "nat frame world" where w: "system_rep start2 3 w ([(64, Some 32, 1), (128, None, 0)], ints w)"
    by blast
  then have "stands (poller1 3) (epl3 w) 64 1" "stands (poller1 3) (epl3 w) 128 0"
    by (auto simp: system_rep_def stands_def resumes_def epl3_simps)
  with w have "poller_rep (poller1 3) (epl3 w) [(64, 1, 1), (128, 0, 0)]"
    by (auto simp: io_rep_def system_rep_def epl3_simps poller1_serves)
  then show ?thesis by blast
qed

section \<open>The tick undivided\<close>

lemma epl_dispatch_Cons:
  "epl_dispatch (x # evs) s =
    and_then (epl_dispatch [x] s) (\<lambda>(ok, s). if ok then epl_dispatch evs s else Inr (False, s))"
  by (cases x; cases "event_at (snd x) s"; cases "epl_at s") (auto simp: Let_def and_then_def split: prod.splits)

lemma epl_dispatch_steps:
  "case epl_dispatch evs s of
     Inr (ok, s') \<Rightarrow> (tick_small etick_step ans)\<^sup>*\<^sup>* (EHanding evs, s) (if ok then EHanding [] else EPanicked, s')
   | Inl f \<Rightarrow> tick_fails etick_step ans (EHanding evs, s) f"
proof (induction evs arbitrary: s)
  case (Cons x evs)
  show ?case
  proof (cases "epl_dispatch [x] s")
    case (Inl f)
    then have "etick_step ans (EHanding (x # evs)) s = Some (Inl f)" by simp
    moreover have "epl_dispatch (x # evs) s = Inl f" using epl_dispatch_Cons [of x evs s] Inl by simp
    ultimately show ?thesis by (simp del: etick_step.simps epl_dispatch.simps add: tick_fails_now)
  next
    case (Inr y)
    obtain ok s1 where y: "y = (ok, s1)" by (cases y)
    have "tick_small etick_step ans (EHanding (x # evs), s) (if ok then EHanding evs else EPanicked, s1)"
      using Inr y by (simp add: tick_small_def)
    note step = tick_small_step [OF this]
    have split: "epl_dispatch (x # evs) s = (if ok then epl_dispatch evs s1 else Inr (False, s1))"
      using epl_dispatch_Cons [of x evs s] Inr y by simp
    show ?thesis
    proof (cases ok)
      case True
      then show ?thesis
        using Cons.IH [of s1] step tick_fails_later [OF step] unfolding split by (auto split: sum.splits)
    next
      case False
      then show ?thesis using step [OF rtranclp.rtrancl_refl] unfolding split by simp
    qed
  qed
qed simp

section \<open>Properties\<close>

text \<open>Property C12. Between the epoll monitor and a worker nothing is lost, as long as \<open>epoll_wait\<close>
  returns events that are in the list (\<open>modepoll_early_event\<close> has the other case): whatever the order in which the worker and
  the ticks take their steps, no step faults, the cells for the returned events are not overrun and the
  monitor does not panic; every task that exists is queued, in the worker's hands, or waiting with its
  event in the list, and never queued and waiting at once or queued twice.\<close>

theorem poller_safe:
  fixes s s' :: "('u, 'z) pstate"
  assumes "poller_fine R" "poller_rep R s js" "poller_run R k (Looping, EResting, s) (c, m, s')"
  shows "\<not> poller_faults R (c, m, s') \<and> m \<noteq> EPanicked \<and>
    (\<exists>L Q W. world_rep s' L Q \<and> epl_rep s' (r_max R) W \<and> set (handed m) \<subseteq> set W \<and>
      distinct (Q @ map (event_task (ioevents s')) W) \<and>
      set L = set Q \<union> set (map (event_task (ioevents s')) W) \<union> set_option (held c))"
proof -
  from epolling.run_ok [OF assms(3) epolling.io_rep_ok [OF assms(2)] assms(1)] obtain b where
    ok: "io_ok epl_mon R b (c, m, s')" by blast
  from epolling.ok_everywhere [OF this assms(1)] obtain L Q W where
    W: "world_rep s' L Q" "epl_mon R m s' W" "distinct (Q @ map (event_task (ioevents s')) W)"
      "set L = set Q \<union> set (map (event_task (ioevents s')) W) \<union> set_option (held c)" by blast
  then have "m \<noteq> EPanicked" "epl_rep s' (r_max R) W" "set (handed m) \<subseteq> set W" by (simp_all add: epl_mon_def)
  with W epolling.ok_safe [OF ok assms(1)] show ?thesis by blast
qed

text \<open>Tasks that wait for descriptors are served by the epoll monitor as well: the worker
  never takes more than ten steps for each yield or wait of a task and four for the rest, however the
  ticks come in between; and from every state that can come about, worker and monitor can go on to a state
  with every task finished and freed, the queue empty and no event in the list.\<close>

theorem poller_finishes:
  fixes s :: "('u, 'z) pstate"
  assumes "poller_fine R" "poller_rep R s js" "poller_run R k (Looping, EResting, s) x"
  shows "k \<le> reactor_cost js \<and>
    (\<exists>s'. (poller_step R)\<^sup>*\<^sup>* x (Looping, EResting, s') \<and> world_rep s' [] [] \<and> epl_rep s' (r_max R) [])"
proof -
  from epolling.run_ok [OF assms(3) epolling.io_rep_ok [OF assms(2)] assms(1)] obtain b where
    b: "io_ok epl_mon R b x" "b + k \<le> reactor_cost js" by blast
  from epolling.ok_completes [OF b(1) assms(1)] b(2) show ?thesis by simp
qed


section \<open>Witnesses\<close>

theorem poller_safe_witness:
  "\<exists>(s :: (nat, unit) pstate) c s'. poller_rep (poller1 3) s [(64, 1, 1), (128, 0, 0)] \<and>
    poller_step (poller1 3) (Looping, EResting, s) (c, EResting, s') \<and> \<not> poller_faults (poller1 3) (c, EResting, s') \<and>
    (\<exists>L Q W. world_rep s' L Q \<and> set L = set Q \<union> set (map (event_task (ioevents s')) W) \<union> set_option (held c))"
proof -
  obtain s :: "(nat, unit) pstate" where s: "poller_rep (poller1 3) s [(64, 1, 1), (128, 0, 0)]"
    using poller1_sample by blast
  then obtain L where L: "world_rep s L [64, 128]" by (auto simp: io_rep_def)
  from world_rep_pop [OF this] obtain q where q: "queue_pop (\<lambda>q. (0, q)) QWAIT (taskq s) = Some (0, Some 64, q)" by blast
  have "qhead (taskq s) \<noteq> None" using L by (simp add: world_rep_def rep_defs)
  with q obtain c s' where step: "io_work epl_calls (poller1 3) Looping s = Some (Inr (c, s'))"
    by (simp add: fetch_step_def)
  have "poller_run (poller1 3) (Suc 0) (Looping, EResting, s) (c, EResting, s')"
    by (rule duo_run.works, rule duo_run.stay, rule step)
  from poller_safe [OF poller1_fine s this]
  have "\<not> poller_faults (poller1 3) (c, EResting, s')" "\<exists>L Q W. world_rep s' L Q \<and>
    set L = set Q \<union> set (map (event_task (ioevents s')) W) \<union> set_option (held c)" by auto
  moreover have "poller_step (poller1 3) (Looping, EResting, s) (c, EResting, s')" by (rule duo_step.work, rule step)
  ultimately show ?thesis using s by blast
qed

theorem poller_finishes_witness:
  "\<exists>(s :: (nat, unit) pstate) s'. poller_rep (poller1 3) s [(64, 1, 1), (128, 0, 0)] \<and>
    (poller_step (poller1 3))\<^sup>*\<^sup>* (Looping, EResting, s) (Looping, EResting, s') \<and>
    world_rep s' [] [] \<and> epl_rep s' 16 []"
proof -
  obtain s :: "(nat, unit) pstate" where s: "poller_rep (poller1 3) s [(64, 1, 1), (128, 0, 0)]"
    using poller1_sample by blast
  from poller_finishes [OF poller1_fine s duo_run.stay] s show ?thesis by auto
qed

end
