(* ===== verification/Pollserver.thy ===== *)
theory Pollserver
  imports Pollservice Serving
begin

text \<open>
  The program with the epoll monitor: \<open>pcaio\<close> with one worker, which moves while the master sleeps
  and while its tick waits in \<open>epoll_wait\<close>.
\<close>

section \<open>Master, monitor and worker\<close>

text \<open>The state of the master and of the epoll monitor, with the place of the worker, which works
  on the monitor's list.\<close>

record 'u pollserver = "'u frame eplstate" +
  pplace :: "'u control option"

type_synonym 'u pollprog = "('u, ('u, unit) pollserver_ext) poller"

definition seat_epl :: "'u control \<Rightarrow> 'u pollserver \<Rightarrow> 'u pollserver \<Rightarrow> 'u pollserver" where
  "seat_epl c s1 s = s\<lparr>pplace := Some c, epl_mod :=
    (case epl_mod s1 of None \<Rightarrow> epl_mod s | Some m \<Rightarrow> map_option (p_waiting_update (\<lambda>_. p_waiting m)) (epl_mod s))\<rparr>"

definition epl_self :: "'u pollserver \<Rightarrow> addr option" where
  "epl_self s = map_option p_self (epl_mod s)"

text \<open>The monitor, with room for \<open>r_max\<close> events and an \<open>init\<close>, is installed at \<open>p\<close>, and there is no
  worker. The list is whatever \<open>malloc\<close> has found there.\<close>

definition epl_up :: "'u pollprog \<Rightarrow> addr \<Rightarrow> 'u pollserver \<Rightarrow> bool" where
  "epl_up R p s \<longleftrightarrow> pplace s = None \<and> epl_self s = Some p \<and>
    (\<exists>m. epl_mod s = Some m \<and> p_maxevents m = r_max R) \<and> (\<exists>x. module_mem s p = Some x \<and> m_init x)"

abbreviation pollserver_step :: "'u pollprog \<Rightarrow> 'u pollserver \<Rightarrow> 'u pollserver \<Rightarrow> bool" where
  "pollserver_step R \<equiv> sit_step pplace seat_epl (io_work epl_calls R)"

abbreviation pollserver_threads :: "'u pollprog \<Rightarrow> 'u pollserver pthreads \<Rightarrow> bool" where
  "pollserver_threads R \<equiv> sit_threads pplace seat_epl (io_work epl_calls R) (r_tid R)"

abbreviation pollserver_time :: "'u pollprog \<Rightarrow> (c_uint \<Rightarrow> 'u pollserver \<Rightarrow> 'u pollserver) \<Rightarrow> bool" where
  "pollserver_time R \<equiv> sit_time pplace seat_epl (io_work epl_calls R)"

abbreviation pollserver_at :: "'u pollprog \<Rightarrow> nat \<Rightarrow> epolling \<Rightarrow> 'u pollserver \<Rightarrow> bool" where
  "pollserver_at \<equiv> sit_at pplace epl_mon"

abbreviation pollserver_rep :: "'u pollprog \<Rightarrow> addr \<Rightarrow> addr list \<Rightarrow> 'u pollserver \<Rightarrow> (addr \<times> 'u \<times> nat) list \<Rightarrow> bool" where
  "pollserver_rep \<equiv> io_start epl_up"

text \<open>\<open>epoll_wait\<close> does not fail, and returns events that are in the list; in the time it takes the worker
  may move, and with an event in the list it does not come back with nothing at all: the worker has moved,
  or an event is returned.\<close>

definition pollserver_wait :: "'u pollprog \<Rightarrow> 'u pollserver epoll_wait \<Rightarrow> bool" where
  "pollserver_wait R wait \<longleftrightarrow>
    (\<forall>f n t s. case wait f n t s of (ans, s') \<Rightarrow>
      (pollserver_step R)\<^sup>*\<^sup>* s s' \<and> eanswers EWaiting s' ans \<and>
      (\<forall>m W. epl_mod s = Some m \<longrightarrow> list_rep (p_waiting m) W \<longrightarrow> W \<noteq> [] \<longrightarrow>
        (pollserver_step R)\<^sup>+\<^sup>+ s s' \<or> s' = s \<and> ans \<noteq> Some []))"

text \<open>\<open>fd\<close> is what \<open>epoll_create1\<close> returns. The module is in its place when its \<open>init\<close> is called, so
  that this does not fault.\<close>

definition pollserver_init :: "int \<Rightarrow> 'u pollserver \<Rightarrow> int \<times> 'u pollserver" where
  "pollserver_init fd s = (case modepoll_init fd s of Inl e \<Rightarrow> (-1, s) | Inr r \<Rightarrow> r)"

abbreviation pollserver_mods :: "'u pollserver epoll_wait \<Rightarrow> int \<Rightarrow> addr \<Rightarrow> 'u pollserver modfuns" where
  "pollserver_mods wait fd \<equiv> io_mods (pollserver_init fd) (modepoll_tick wait) modepoll_dtor"

lemma more_pollserver:
  fixes s :: "'u pollserver"
  assumes "iostate.more s' = iostate.more s" shows "epl_mod s' = epl_mod s" "pplace s' = pplace s"
  using assms by (cases s; cases s'; simp)+

interpretation epl_seated: seated poller_fine epl_mon "\<lambda>R. epl_enter (r_ctl R)" epl_report etick_step eanswers EResting epl_rank
  pplace seat_epl epl_self
proof unfold_locales
  show "pplace (seat_epl c s1 s) = Some c" for c and s1 s :: "'u pollserver" by (simp add: seat_epl_def)
  show "\<exists>z. seat_epl c s1 s = iostate.more_update (\<lambda>_. z) s" for c and s1 s :: "'u pollserver"
    by (intro exI [of _ "iostate.more (seat_epl c s1 s)"]) (cases s; simp add: seat_epl_def)
  show "epl_self (seat_epl c s1 s) = epl_self s" for c and s1 s :: "'u pollserver"
    by (simp add: epl_self_def seat_epl_def option.map_comp comp_def split: option.splits)
  show "epl_mon R m (seat_epl c s1 s) W'" if "epl_mon R m s W" "epl_mon R m s1 W'"
    for R :: "'u pollprog" and m W W' c and s1 s :: "'u pollserver"
    using that by (auto simp: epl_mon_def epl_rep_def seat_epl_def)
  show "pplace s' = pplace s" if "iostate.more s' = iostate.more s" for s' s :: "'u pollserver"
    by (rule more_pollserver [OF that])
  show "epl_self s' = epl_self s" if "iostate.more s' = iostate.more s" for s' s :: "'u pollserver"
    using more_pollserver [OF that] by (simp add: epl_self_def)
qed

abbreviation pollserver_same :: "'u pollserver \<Rightarrow> 'u pollserver \<Rightarrow> bool" where
  "pollserver_same \<equiv> master_same epl_self"

section \<open>A tick\<close>

lemma epl_schedule_fields:
  fixes s :: "'u pollserver"
  shows "pollserver_same s (snd (pcaio_schedule t s))" "pplace (snd (pcaio_schedule t s)) = pplace s"
  by (simp_all add: master_same_def epl_self_def pcaio_schedule_def split: option.splits prod.splits)

lemma epl_dispatch_fields:
  fixes s :: "'u pollserver"
  shows "epl_dispatch evs s = Inr (ok, s') \<Longrightarrow> pollserver_same s s' \<and> pplace s' = pplace s"
proof (induction evs arbitrary: s)
  case (Cons x evs)
  obtain ev e where x: "x = (ev, e)" by (cases x)
  from Cons.prems obtain v m where v: "event_at e s = Inr v" "epl_at s = Inr m" by (auto simp: x and_then_Inr)
  obtain rc l where l: "list_delete (Some e) (p_waiting m) = (rc, l)" by (cases "list_delete (Some e) (p_waiting m)")
  let ?s = "epl_put l (event_put e (Some (v\<lparr>e_events := ev\<rparr>)) s)"
  have here: "pollserver_same s ?s" "pplace ?s = pplace s"
    by (simp_all add: epl_put_def event_put_def master_same_def epl_self_def option.map_comp comp_def)
  show ?case
  proof (cases "rc = 0")
    case True
    with Cons.prems v l have "epl_dispatch evs (snd (pcaio_schedule (Some (e_task v)) ?s)) = Inr (ok, s')"
      by (simp add: x Let_def)
    from Cons.IH [OF this] epl_schedule_fields [where s = ?s and t = "Some (e_task v)"] here
    show ?thesis by (simp add: master_same_def)
  next
    case False
    with Cons.prems v l have "s' = ?s" by (simp add: x Let_def)
    with here show ?thesis by simp
  qed
qed simp

lemma edispatch_goes_on:
  fixes s :: "('u, 'z) pstate"
  assumes fine: "poller_fine R" and inv: "io_inv epl_mon R L Q W n (c, EHanding evs, s)"
  shows "\<exists>s' Q' W'. epl_dispatch evs s = Inr (True, s') \<and> io_inv epl_mon R L Q' W' n (c, EHanding [], s') \<and>
    length W' + length evs \<le> length W"
  using inv
proof (induction evs arbitrary: s Q W)
  case Nil
  then show ?case by auto
next
  case (Cons x evs)
  from handed_wakes [OF io_inv_facts(2) [OF Cons.prems] epolling.inv_tick_pre [OF Cons.prems fine]] obtain s1 W1 where
    s1: "epl_dispatch [x] s = Inr (True, s1)" "epl_mon R (EHanding evs) s1 W1" "tick_wakes s s1 L Q W W1" by blast
  from epolling.inv_moved [OF Cons.prems fine s1(2) disjI2 [OF s1(3)]] obtain Q1 where
    "io_inv epl_mon R L Q1 W1 n (c, EHanding evs, s1)" by blast
  from Cons.IH [OF this] obtain s2 Q2 W2 where
    s2: "epl_dispatch evs s1 = Inr (True, s2)" "io_inv epl_mon R L Q2 W2 n (c, EHanding [], s2)" "length W2 + length evs \<le> length W1"
    by blast
  have "epl_dispatch (x # evs) s = Inr (True, s2)" using epl_dispatch_Cons [of x evs s] s1(1) s2(1) by simp
  moreover have "length W2 + length (x # evs) \<le> length W" using s2(3) wakes_shorter [OF s1(3)] by simp
  ultimately show ?case using s2(2) by blast
qed

lemma poll_tick_run:
  fixes s :: "'u pollserver"
  assumes fine: "poller_fine R" and kernel: "pollserver_wait R wait" and at: "pollserver_at R b EResting s"
  shows "modepoll_tick wait t s = Inr (PMSIDLE, s) \<and> epl_mon R EResting s [] \<or>
    (\<exists>s'. modepoll_tick wait t s = Inr (PMSAGAIN, s') \<and> (\<exists>b' < b. pollserver_at R b' EResting s') \<and> pollserver_same s s')"
proof -
  obtain c L Q W n where c: "pplace s = Some c" and inv: "io_inv epl_mon R L Q W n (c, EResting, s)" and b: "io_left L W n \<le> b"
    by (rule epl_seated.atE [OF at])
  note mon = io_inv_facts(2) [OF inv]
  from mon obtain m where m: "epl_mod s = Some m" "p_maxevents m = r_max R" "list_rep (p_waiting m) W" by (auto simp: epl_rep_def)
  show ?thesis
  proof (cases "W = []")
    case True
    then show ?thesis using m list_rep_count [OF m(3)] mon by (simp add: modepoll_tick_def epl_at_def)
  next
    case False
    let ?s = "s\<lparr>errno := 0\<rparr>"
    from epl_take [OF mon epolling.inv_tick_pre [OF inv fine]] False have
      taken: "epl_mon R EWaiting ?s W" "tick_quiet s ?s L Q W W" by auto
    from epolling.inv_moved [OF inv fine taken(1) disjI1 [OF taken(2)]] obtain Q1 where
      inv1: "io_inv epl_mon R L Q1 W n (c, EWaiting, ?s)" by blast
    have at1: "pollserver_at R b EWaiting ?s" using c b by (intro epl_seated.atI [OF _ inv1]) simp_all
    have same1: "pollserver_same s ?s" by (simp add: master_same_def epl_self_def)
    let ?n = "sint (ucast (lcount (p_waiting m)) :: c_int)"
    obtain ans s2 where s2: "wait (p_fd m) ?n (unat t div 1000) ?s = (ans, s2)" by (cases "wait (p_fd m) ?n (unat t div 1000) ?s")
    from kernel have "case wait (p_fd m) ?n (unat t div 1000) ?s of (ans, s') \<Rightarrow>
      (pollserver_step R)\<^sup>*\<^sup>* ?s s' \<and> eanswers EWaiting s' ans \<and>
      (\<forall>m W. epl_mod ?s = Some m \<longrightarrow> list_rep (p_waiting m) W \<longrightarrow> W \<noteq> [] \<longrightarrow>
        (pollserver_step R)\<^sup>+\<^sup>+ ?s s' \<or> s' = ?s \<and> ans \<noteq> Some [])" unfolding pollserver_wait_def by (elim allE)
    then have law: "(pollserver_step R)\<^sup>*\<^sup>* ?s s2" "eanswers EWaiting s2 ans"
      "(pollserver_step R)\<^sup>+\<^sup>+ ?s s2 \<or> s2 = ?s \<and> ans \<noteq> Some []"
      using m False by (auto simp: s2)
    obtain b2 where at2: "pollserver_at R b2 EWaiting s2" "b2 \<le> b" "pollserver_same s s2" and less: "b2 < b \<or> ans \<noteq> Some []"
      using law(3)
    proof
      assume "(pollserver_step R)\<^sup>+\<^sup>+ ?s s2"
      from epl_seated.moves_at [OF this at1 fine] show ?thesis
        using that master_same_trans [OF same1] by (meson less_imp_le)
    next
      assume "s2 = ?s \<and> ans \<noteq> Some []"
      then show ?thesis using that [of b] at1 same1 by simp
    qed
    obtain c2 L2 Q2 W2 n2 where c2: "pplace s2 = Some c2" and inv2: "io_inv epl_mon R L2 Q2 W2 n2 (c2, EWaiting, s2)"
      and left2: "io_left L2 W2 n2 \<le> b2" by (rule epl_seated.atE [OF at2(1)])
    from epl_answered [OF fine io_inv_facts(2) [OF inv2] epolling.inv_tick_pre [OF inv2 fine] law(2)] obtain evs where
      evs: "ans = Some evs" "epl_mon R (EHanding evs) s2 W2" "length evs \<le> unat (r_max R)" by blast
    have inv3: "io_inv epl_mon R L2 Q2 W2 n2 (c2, EHanding evs, s2)" using inv2 evs(2) by (simp add: io_inv_def)
    from edispatch_goes_on [OF fine this] obtain s4 Q4 W4 where
      s4: "epl_dispatch evs s2 = Inr (True, s4)" "io_inv epl_mon R L2 Q4 W4 n2 (c2, EHanding [], s4)"
        "length W4 + length evs \<le> length W2" by blast
    have "epl_mon R EResting s4 W4" using io_inv_facts(2) [OF s4(2)] by (simp add: epl_mon_def)
    then have inv4: "io_inv epl_mon R L2 Q4 W4 n2 (c2, EResting, s4)" using s4(2) by (simp add: io_inv_def)
    have fields: "pplace s4 = Some c2" "pollserver_same s s4"
      using epl_dispatch_fields [OF s4(1)] c2 master_same_trans [OF at2(3)] by auto
    have "lcount (p_waiting m) \<noteq> 0" using list_rep_count [OF m(3)] False by simp
    then have "modepoll_tick wait t s = Inr (PMSAGAIN, s4)"
      using m(1,2) s2 s4(1) evs(1,3) by (cases evs) (simp_all add: modepoll_tick_def epl_at_def)
    moreover have "pollserver_at R (io_left L2 W4 n2) EResting s4" using fields(1) inv4 by (rule epl_seated.atI) simp
    moreover have "io_left L2 W4 n2 < b"
      using s4(3) left2 at2(2) less evs(1) by (cases evs) (auto simp: io_left_def)
    ultimately show ?thesis using fields(2) by blast
  qed
qed

lemma poll_init_run:
  fixes s :: "'u pollserver"
  assumes "fd \<noteq> -1" "epl_up R p s"
  shows "\<exists>z. (\<forall>s' :: 'u pollserver. iostate.more s' = iostate.more s \<longrightarrow>
        pollserver_init fd s' = (0, iostate.more_update (\<lambda>_. z) s')) \<and>
      (\<forall>s' :: 'u pollserver. iostate.more s' = z \<longrightarrow> epl_mon R EResting s' [] \<and> epl_self s' = Some p \<and> pplace s' = None)"
proof -
  from assms(2) obtain m where m: "epl_mod s = Some m" "p_maxevents m = r_max R" and at: "pplace s = None" "epl_self s = Some p"
    by (auto simp: epl_up_def)
  let ?l = "list_init ((p_waiting m)\<lparr>lhead := None, ltail := None, lcount := 0, lmutex := False\<rparr>)"
  let ?m = "m\<lparr>p_waiting := ?l, p_fd := fd\<rparr>"
  have rep: "list_rep ?l []" by (simp add: list_init_def rep_defs)
  show ?thesis
  proof (intro exI [of _ "iostate.more (s\<lparr>epl_mod := Some ?m\<rparr>)"] conjI allI impI)
    fix s' :: "'u pollserver" assume same: "iostate.more s' = iostate.more s"
    have "pollserver_init fd s' = (0, s'\<lparr>epl_mod := Some ?m\<rparr>)"
      using m(1) more_pollserver(1) [OF same] assms(1) by (simp add: pollserver_init_def modepoll_init_def epl_at_def Let_def)
    then show "pollserver_init fd s' = (0, iostate.more_update (\<lambda>_. iostate.more (s\<lparr>epl_mod := Some ?m\<rparr>)) s')"
      using same by (cases s; cases s') simp
  next
    fix s' :: "'u pollserver" assume "iostate.more s' = iostate.more (s\<lparr>epl_mod := Some ?m\<rparr>)"
    from more_pollserver [OF this] m at rep show "epl_mon R EResting s' []" "epl_self s' = Some p" "pplace s' = None"
      by (simp_all add: epl_self_def epl_rep_def)
  qed
qed

interpretation epl_serving: serving poller_fine epl_mon "\<lambda>R. epl_enter (r_ctl R)" epl_report etick_step eanswers EResting epl_rank
  pplace seat_epl epl_self "\<lambda>R k. pollserver_wait R (fst k) \<and> snd k \<noteq> -1" "\<lambda>k. modepoll_tick (fst k)"
  "\<lambda>k. pollserver_init (snd k)" modepoll_dtor epl_up
proof unfold_locales
  show "modepoll_tick (fst k) t s = Inr (PMSIDLE, s) \<and> epl_mon R EResting s [] \<or>
      (\<exists>s'. modepoll_tick (fst k) t s = Inr (PMSAGAIN, s') \<and> (\<exists>b' < b. pollserver_at R b' EResting s') \<and> pollserver_same s s')"
    if "poller_fine R" "pollserver_wait R (fst k) \<and> snd k \<noteq> -1" "pollserver_at R b EResting s"
    for R :: "'u pollprog" and k :: "'u pollserver epoll_wait \<times> int" and b s t
    using that by (intro poll_tick_run) simp_all
  show "\<exists>z. (\<forall>s' :: 'u pollserver. iostate.more s' = iostate.more s \<longrightarrow>
        (if m_init x then pollserver_init (snd k) s' else (0, s')) = (0, iostate.more_update (\<lambda>_. z) s')) \<and>
      (\<forall>s' :: 'u pollserver. iostate.more s' = z \<longrightarrow> epl_mon R EResting s' [] \<and> epl_self s' = Some p \<and> pplace s' = None)"
    if "pollserver_wait R (fst k) \<and> snd k \<noteq> -1" "epl_up R p s" "module_mem s p = Some x"
    for R :: "'u pollprog" and k :: "'u pollserver epoll_wait \<times> int" and p s x
  proof -
    have "m_init x" using that(2,3) by (auto simp: epl_up_def)
    then show ?thesis using poll_init_run [OF _ that(2), of "snd k"] that(1) by simp
  qed
  show "\<exists>z. modepoll_dtor s = (0, iostate.more_update (\<lambda>_. z) (s\<lparr>module_mem := (module_mem s)(p := None)\<rparr>)) \<and>
      (\<forall>s' :: 'u pollserver. iostate.more s' = z \<longrightarrow> epl_self s' = None)" if "epl_self s = Some p" for p and s :: "'u pollserver"
  proof (intro exI [of _ "iostate.more (s\<lparr>epl_mod := None\<rparr>)"] conjI allI impI)
    from that show "modepoll_dtor s =
        (0, iostate.more_update (\<lambda>_. iostate.more (s\<lparr>epl_mod := None\<rparr>)) (s\<lparr>module_mem := (module_mem s)(p := None)\<rparr>))"
      by (cases s) (auto simp: epl_self_def modepoll_dtor_def)
    fix s' :: "'u pollserver" assume "iostate.more s' = iostate.more (s\<lparr>epl_mod := None\<rparr>)"
    from more_pollserver(1) [OF this] show "epl_self s' = None" by (simp add: epl_self_def)
  qed
qed

section \<open>A sample\<close>

text \<open>Whenever there is time, the worker takes one step; when it cannot, \<open>epoll_wait\<close> returns the event
  that has waited longest.\<close>

abbreviation pollserver_nudge :: "'u pollprog \<Rightarrow> 'u pollserver \<Rightarrow> 'u pollserver" where
  "pollserver_nudge R \<equiv> sit_nudge pplace seat_epl (io_work epl_calls R)"

abbreviation nudged_pollserver :: "'u pollprog \<Rightarrow> 'u pollserver pthreads" where
  "nudged_pollserver R \<equiv> sit_nudged pplace seat_epl (io_work epl_calls R) (r_tid R)"

definition nudged_wait :: "'u pollprog \<Rightarrow> 'u pollserver epoll_wait" where
  "nudged_wait R f n t s =
    (let s' = pollserver_nudge R s
     in (case if s' = s then map_option (\<lambda>m. lhead (p_waiting m)) (epl_mod s) else None of
           Some (Some a) \<Rightarrow> Some [(IOIN, a)]
         | _ \<Rightarrow> Some [], s'))"

lemma nudged_wait_law: "pollserver_wait R (nudged_wait R)"
proof -
  let ?step = "pollserver_step R" and ?s' = "pollserver_nudge R"
  have "case nudged_wait R f n t s of (ans, s') \<Rightarrow> ?step\<^sup>*\<^sup>* s s' \<and> eanswers EWaiting s' ans \<and>
      (\<forall>m W. epl_mod s = Some m \<longrightarrow> list_rep (p_waiting m) W \<longrightarrow> W \<noteq> [] \<longrightarrow> ?step\<^sup>+\<^sup>+ s s' \<or> s' = s \<and> ans \<noteq> Some [])"
    for f n t s
  proof (cases "?s' s = s")
    case False
    then have "?step\<^sup>+\<^sup>+ s (?s' s)" using sit_nudge_law [of pplace seat_epl "io_work epl_calls R" s] by blast
    then show ?thesis using False sit_nudge_runs [of pplace seat_epl "io_work epl_calls R" s]
      by (simp add: nudged_wait_def eanswers_def Let_def)
  next
    case True
    have heads: "lhead (p_waiting m) = hd_opt W" if "list_rep (p_waiting m) W" for m W
      using that by (simp add: rep_defs)
    show ?thesis
    proof (cases "map_option (\<lambda>m. lhead (p_waiting m)) (epl_mod s)")
      case None
      then show ?thesis using True by (simp add: nudged_wait_def eanswers_def)
    next
      case (Some h)
      then obtain m where m: "epl_mod s = Some m" "h = lhead (p_waiting m)" by auto
      show ?thesis
      proof (cases h)
        case None
        then have "W = []" if "list_rep (p_waiting m) W" for W using heads [OF that] m(2) by (cases W) simp_all
        then show ?thesis using True None m Some by (auto simp: nudged_wait_def eanswers_def)
      next
        case (Some a)
        have "a \<in> set W" if "list_rep (p_waiting m) W" for W using heads [OF that] m(2) Some by (cases W) simp_all
        then show ?thesis using True Some m by (auto simp: nudged_wait_def eanswers_def)
      qed
    qed
  qed
  then show ?thesis by (simp add: pollserver_wait_def)
qed

definition pollserver_static :: "'u frame world \<Rightarrow> 'u pollserver" where
  "pollserver_static w = (eplstate.extend (epl3 w) \<lparr>pplace = None\<rparr>)
     \<lparr>modulescount := 1, modules := [Some 8, None, None, None, None, None, None, None],
      module_mem := [8 \<mapsto> \<lparr>m_flags = 0, m_init = True, m_dtor = True, m_tick = True\<rparr>]\<rparr>"

lemma pollserver_static_simps:
  "heap (pollserver_static w) = heap w" "world_rep (pollserver_static w) L Q = world_rep w L Q" "workers (pollserver_static w) = 0"
  "ioevents (pollserver_static w) a = None" "one_ticks (pollserver_static w) 8 []"
  "r_max R = 16 \<Longrightarrow> epl_up R 8 (pollserver_static w)"
proof -
  have same: "epl_mod (pollserver_static w) = epl_mod (epl3 w)" "heap (pollserver_static w) = heap (epl3 w)"
    "tasks (pollserver_static w) = tasks (epl3 w)" "taskq (pollserver_static w) = taskq (epl3 w)"
    "ioevents (pollserver_static w) = ioevents (epl3 w)"
    by (simp_all add: pollserver_static_def eplstate.extend_def)
  show "heap (pollserver_static w) = heap w" "world_rep (pollserver_static w) L Q = world_rep w L Q"
    "ioevents (pollserver_static w) a = None"
    using epl3_simps [of w] same by (simp_all add: world_rep_def)
  have mods: "modulescount (pollserver_static w) = 1" "modules (pollserver_static w) = [Some 8, None, None, None, None, None, None, None]"
    "module_mem (pollserver_static w) = [8 \<mapsto> \<lparr>m_flags = 0, m_init = True, m_dtor = True, m_tick = True\<rparr>]"
    by (simp_all add: pollserver_static_def)
  show "one_ticks (pollserver_static w) 8 []" by (simp add: one_ticks_def installed_def mods MODULES_MAX_def)
  have "pplace (pollserver_static w) = None" by (simp add: pollserver_static_def eplstate.extend_def)
  moreover have "epl_mod (epl3 w) = Some \<lparr>p_self = 8, p_fd = 9, p_maxevents = 16, p_waiting = list0\<rparr>"
    by (simp add: epl3_def iostate.extend_def eplstate.fields_def)
  ultimately show "epl_up R 8 (pollserver_static w)" if "r_max R = 16" using that by (simp add: epl_up_def epl_self_def same(1) mods(3))
  have "workers (pollserver_static w) = workers (epl3 w)" by (simp add: pollserver_static_def eplstate.extend_def)
  also have "\<dots> = 0" by (simp add: epl3_def iostate.extend_def master.extend_def state_static_def world.extend_def master.fields_def)
  finally show "workers (pollserver_static w) = 0" .
qed

section \<open>Property\<close>

text \<open>Property C3. A program whose tasks wait on the epoll monitor runs to its end as well: with the monitor
  installed, with at least as many cells as there are tasks (\<open>maxevents\<close>), and one worker, \<open>pcaio\<close> initialises the monitor and
  returns 0, in whatever order the worker moves while the master sleeps and while \<open>epoll_wait\<close> waits, as long as
  \<open>epoll_wait\<close> returns listed events only, and some when the worker does not move; by then every task has been served,
  has returned and is freed, and the monitor is taken down.\<close>

theorem epoll_served_returns:
  assumes "poller_fine R" "r_tid R = 0" "0 < i" "env_fine env" "fd \<noteq> -1"
    and "pollserver_threads R pt" "pollserver_time R sleep" "pollserver_wait R wait" "pollserver_rep R p qs s js"
  shows "\<exists>s'. pcaio (pollserver_mods wait fd p) pt sleep env 0 0 i 1 (map fst js) s = Some (Inr (0, s')) \<and>
    (\<forall>a. heap s' a = None) \<and> workers s' = 0 \<and> installed s' [] \<and> epl_mod s' = None \<and> module_mem s' p = None"
proof -
  have "pollserver_wait R (fst (wait, fd)) \<and> snd (wait, fd) \<noteq> -1" using assms(5,8) by simp
  from epl_serving.returns [OF assms(1-4,6,7) this assms(9)] show ?thesis by (simp add: epl_self_def)
qed

theorem epoll_served_returns_witness:
  "\<exists>s s'. pollserver_rep (poller1 0) 8 [] s [(64, 1, 1), (128, 0, 0)] \<and>
    pcaio (pollserver_mods (nudged_wait (poller1 0)) 7 8) (nudged_pollserver (poller1 0)) (\<lambda>t. pollserver_nudge (poller1 0)) env1 0 0 9 1
      [64, 128] s = Some (Inr (0, s')) \<and> (\<forall>a. heap s' a = None) \<and> epl_mod s' = None"
proof -
  from sample_created obtain w :: "nat frame world" where
    w: "world_rep w [64, 128] []" "job_rep start2 w (64, Some 32, 1)" "job_rep start2 w (128, None, 0)" by blast
  let ?R = "poller1 0 :: nat pollprog" and ?js = "[(64, 1, 1), (128, 0, 0)] :: (addr \<times> nat \<times> nat) list"
  have fine: "r_tid ?R = 0" "(0 :: nat) < 9" "env_fine env1" "(7 :: int) \<noteq> -1"
    by (simp_all add: env_fine_def env1_def)
  have "stands ?R (pollserver_static w) 64 1" "stands ?R (pollserver_static w) 128 0"
    using w(2,3) by (auto simp: stands_def resumes_def pollserver_static_simps)
  then have rep: "pollserver_rep ?R 8 [] (pollserver_static w) ?js"
    using w(1) by (auto simp: io_start_def pollserver_static_simps poller1_serves intro!: exI [of _ "[64, 128]"])
  from epoll_served_returns [OF poller1_fine fine sit_nudge_threads sit_nudge_time nudged_wait_law rep] obtain s' where
    "pcaio (pollserver_mods (nudged_wait ?R) 7 8) (nudged_pollserver ?R) (\<lambda>t. pollserver_nudge ?R) env1 0 0 9 1 (map fst ?js)
      (pollserver_static w) = Some (Inr (0, s'))" "\<forall>a. heap s' a = None" "epl_mod s' = None" by blast
  with rep show ?thesis by (intro exI [of _ "pollserver_static w"] exI [of _ s']) simp
qed

end
