(* ===== verification/Startup.thy ===== *)
theory Startup
  imports Modselect Modepoll Samples Streams
begin

text \<open>
  What a program that does input and output does before and around \<open>pcaio\<close>: the installation
  of an I/O module and of \<open>modio\<close>, with every way it can fail, and the \<open>main\<close>s of
  \<open>examples/select_echo.c\<close>, \<open>select_pipe.c\<close>, \<open>epoll_echo.c\<close>, \<open>epoll_pipe.c\<close>
  and \<open>asleep.c\<close>.
\<close>

section \<open>The programs\<close>

text \<open>What the C library and the memory give: for the tasks (as in \<open>new_tasks\<close>), for the
  I/O module, its ring and \<open>modio\<close>, \<open>getrlimit\<close> and \<open>pipe2\<close>; and what is in the
  epoll module before it is written.\<close>

record libc =
  l_task :: "nat \<Rightarrow> addr option \<times> int \<times> addr option"
  l_module :: "addr option"
  l_ring :: "nat \<Rightarrow> addr option list option"
  l_modio :: "addr option"
  l_limit_rc :: int
  l_limit :: int
  l_pipe :: "(int \<times> int) option"
  l_list :: "addr plist"
  l_fd :: int

definition sample_task ::
  "libc \<Rightarrow> nat \<Rightarrow> addr \<Rightarrow> addr list \<Rightarrow> ('k, 'z) world_scheme \<Rightarrow> fault + (addr option \<times> ('k, 'z) world_scheme)" where
  "sample_task lc n f va w = (case l_task lc n of (mt, rc, ms) \<Rightarrow> pcaio_task_new mt rc ms (Some f) None (length va) va w)"

text \<open>The two lines that install an I/O module and \<open>modio\<close> over it. When the first fails, the
  pointer that the second passes on was never written.\<close>

definition select_modules ::
  "libc \<Rightarrow> ('k, 'z) selstate_scheme await \<Rightarrow> ('k, 'z) selstate_scheme modio option \<Rightarrow> ('k, 'z) selstate_scheme
   \<Rightarrow> fault + (('k, 'z) selstate_scheme modio option \<times> ('k, 'z) selstate_scheme)" where
  "select_modules lc aw md s =
    and_then (pcaio_modselect_use (l_limit_rc lc) (l_limit lc) (l_module lc) (l_ring lc) 4 s) (\<lambda>(rc, s).
      if rc \<noteq> 0 then Inl Indeterminate
      else and_then (pcaio_modio_use (l_modio lc) (Some aw) md s) (\<lambda>(_, md, s). Inr (md, s)))"

definition epoll_modules ::
  "libc \<Rightarrow> c_ushort \<Rightarrow> ('k, 'z) eplstate_scheme await \<Rightarrow> ('k, 'z) eplstate_scheme modio option \<Rightarrow> ('k, 'z) eplstate_scheme
   \<Rightarrow> fault + (('k, 'z) eplstate_scheme modio option \<times> ('k, 'z) eplstate_scheme)" where
  "epoll_modules lc n aw md s =
    and_then (pcaio_modepoll_use (l_module lc) (l_list lc) (l_fd lc) n s) (\<lambda>(rc, s).
      if rc \<noteq> 0 then Inl Indeterminate
      else and_then (pcaio_modio_use (l_modio lc) (Some aw) md s) (\<lambda>(_, md, s). Inr (md, s)))"

text \<open>The functions of \<open>select_echo.c\<close> and \<open>select_pipe.c\<close> are those of the programs for
  epoll, word by word.\<close>

definition select_echo ::
  "c_uchar list \<Rightarrow> (int \<Rightarrow> nat \<Rightarrow> ('k, 'z) streams_scheme \<Rightarrow> int \<times> ('k, 'z) streams_scheme)
   \<Rightarrow> ('k, 'z) streams_scheme await \<Rightarrow> (c_int \<Rightarrow> ('k, 'z) streams_scheme \<Rightarrow> int \<times> ('k, 'z) streams_scheme)
   \<Rightarrow> ('k, 'z) streams_scheme \<Rightarrow> (int \<times> ('k, 'z) streams_scheme) option" where
  "select_echo = echoA"

definition select_producer ::
  "(('k, 'z) streams_scheme \<Rightarrow> int \<times> ('k, 'z) streams_scheme)
   \<Rightarrow> (int \<Rightarrow> nat \<Rightarrow> ('k, 'z) streams_scheme \<Rightarrow> int \<times> ('k, 'z) streams_scheme)
   \<Rightarrow> (int \<Rightarrow> nat \<Rightarrow> ('k, 'z) streams_scheme \<Rightarrow> int \<times> ('k, 'z) streams_scheme)
   \<Rightarrow> ('k, 'z) streams_scheme await \<Rightarrow> (c_int \<Rightarrow> ('k, 'z) streams_scheme \<Rightarrow> int \<times> ('k, 'z) streams_scheme)
   \<Rightarrow> int \<Rightarrow> ('k, 'z) streams_scheme \<Rightarrow> (int \<times> ('k, 'z) streams_scheme) option" where
  "select_producer = producer"

definition select_consumer ::
  "(int \<Rightarrow> nat \<Rightarrow> ('k, 'z) streams_scheme \<Rightarrow> int \<times> ('k, 'z) streams_scheme)
   \<Rightarrow> ('k, 'z) streams_scheme await \<Rightarrow> (c_int \<Rightarrow> ('k, 'z) streams_scheme \<Rightarrow> int \<times> ('k, 'z) streams_scheme)
   \<Rightarrow> int \<Rightarrow> ('k, 'z) streams_scheme \<Rightarrow> (int \<times> ('k, 'z) streams_scheme) option" where
  "select_consumer = consumer"

text \<open>The functions of the modules depend on \<open>modio\<close>'s \<open>_mod\<close>; \<open>nonblock\<close> is
  the effect of the two calls of \<open>fcntl\<close>.\<close>

definition echo_WORKERS :: c_ushort where "echo_WORKERS = 1"

definition select_echo_main ::
  "libc \<Rightarrow> (('k, 'z) selstate_scheme \<Rightarrow> ('k, 'z) selstate_scheme) \<Rightarrow> addr \<Rightarrow> ('k, 'z) selstate_scheme await
   \<Rightarrow> (('k, 'z) selstate_scheme modio option \<Rightarrow> ('k, 'z) selstate_scheme modfuns) \<Rightarrow> ('k, 'z) selstate_scheme pthreads
   \<Rightarrow> (c_uint \<Rightarrow> ('k, 'z) selstate_scheme \<Rightarrow> ('k, 'z) selstate_scheme) \<Rightarrow> initenv \<Rightarrow> int \<Rightarrow> int \<Rightarrow> tid
   \<Rightarrow> ('k, 'z) selstate_scheme modio option \<Rightarrow> ('k, 'z) selstate_scheme
   \<Rightarrow> (fault + (int \<times> ('k, 'z) selstate_scheme)) option" where
  "select_echo_main lc nonblock func aw mf pt sleep env sigempty_rc sigaction_rc i md s =
    (case and_then (sample_task lc 0 func [] (nonblock s)) (\<lambda>(t, s).
        and_then (select_modules lc aw md s) (\<lambda>(md, s). Inr (t, md, s))) of
       Inl e \<Rightarrow> Some (Inl e)
     | Inr (t, md, s) \<Rightarrow> pcaio_array (mf md) pt sleep env sigempty_rc sigaction_rc i echo_WORKERS [t] s)"

definition epoll_echo_main ::
  "libc \<Rightarrow> (('k, 'z) eplstate_scheme \<Rightarrow> ('k, 'z) eplstate_scheme) \<Rightarrow> addr \<Rightarrow> ('k, 'z) eplstate_scheme await
   \<Rightarrow> (('k, 'z) eplstate_scheme modio option \<Rightarrow> ('k, 'z) eplstate_scheme modfuns) \<Rightarrow> ('k, 'z) eplstate_scheme pthreads
   \<Rightarrow> (c_uint \<Rightarrow> ('k, 'z) eplstate_scheme \<Rightarrow> ('k, 'z) eplstate_scheme) \<Rightarrow> initenv \<Rightarrow> int \<Rightarrow> int \<Rightarrow> tid
   \<Rightarrow> ('k, 'z) eplstate_scheme modio option \<Rightarrow> ('k, 'z) eplstate_scheme
   \<Rightarrow> (fault + (int \<times> ('k, 'z) eplstate_scheme)) option" where
  "epoll_echo_main lc nonblock func aw mf pt sleep env sigempty_rc sigaction_rc i md s =
    (case and_then (sample_task lc 0 func [] (nonblock s)) (\<lambda>(t, s).
        and_then (epoll_modules lc 4 aw md s) (\<lambda>(md, s). Inr (t, md, s))) of
       Inl e \<Rightarrow> Some (Inl e)
     | Inr (t, md, s) \<Rightarrow> pcaio_array (mf md) pt sleep env sigempty_rc sigaction_rc i echo_WORKERS [t] s)"

definition pipe_WORKERS :: c_ushort where "pipe_WORKERS = 2"

text \<open>The consumer gets the reading end, the producer the writing end. \<open>select_pipe.c\<close> installs
  the modules before it opens the pipe, \<open>epoll_pipe.c\<close> after it has created the tasks.\<close>

definition pipe_tasks ::
  "libc \<Rightarrow> addr \<Rightarrow> addr \<Rightarrow> int \<times> int \<Rightarrow> ('k, 'z) world_scheme
   \<Rightarrow> fault + (addr option list \<times> ('k, 'z) world_scheme)" where
  "pipe_tasks lc reader writer q w =
    and_then (sample_task lc 0 reader [of_int (fst q)] w) (\<lambda>(t0, w).
      and_then (sample_task lc 1 writer [of_int (snd q)] w) (\<lambda>(t1, w). Inr ([t0, t1], w)))"

definition select_pipe_main ::
  "libc \<Rightarrow> addr \<Rightarrow> addr \<Rightarrow> ('k, 'z) selstate_scheme await
   \<Rightarrow> (('k, 'z) selstate_scheme modio option \<Rightarrow> ('k, 'z) selstate_scheme modfuns) \<Rightarrow> ('k, 'z) selstate_scheme pthreads
   \<Rightarrow> (c_uint \<Rightarrow> ('k, 'z) selstate_scheme \<Rightarrow> ('k, 'z) selstate_scheme) \<Rightarrow> initenv \<Rightarrow> int \<Rightarrow> int \<Rightarrow> tid
   \<Rightarrow> ('k, 'z) selstate_scheme modio option \<Rightarrow> ('k, 'z) selstate_scheme
   \<Rightarrow> (fault + (int \<times> ('k, 'z) selstate_scheme)) option" where
  "select_pipe_main lc reader writer aw mf pt sleep env sigempty_rc sigaction_rc i md s =
    (case select_modules lc aw md s of
       Inl e \<Rightarrow> Some (Inl e)
     | Inr (md, s) \<Rightarrow>
        (case l_pipe lc of
           None \<Rightarrow> Some (Inr (-1, s))
         | Some q \<Rightarrow>
            (case pipe_tasks lc reader writer q s of
               Inl e \<Rightarrow> Some (Inl e)
             | Inr (ts, s) \<Rightarrow> pcaio_array (mf md) pt sleep env sigempty_rc sigaction_rc i pipe_WORKERS ts s)))"

definition epoll_pipe_main ::
  "libc \<Rightarrow> addr \<Rightarrow> addr \<Rightarrow> ('k, 'z) eplstate_scheme await
   \<Rightarrow> (('k, 'z) eplstate_scheme modio option \<Rightarrow> ('k, 'z) eplstate_scheme modfuns) \<Rightarrow> ('k, 'z) eplstate_scheme pthreads
   \<Rightarrow> (c_uint \<Rightarrow> ('k, 'z) eplstate_scheme \<Rightarrow> ('k, 'z) eplstate_scheme) \<Rightarrow> initenv \<Rightarrow> int \<Rightarrow> int \<Rightarrow> tid
   \<Rightarrow> ('k, 'z) eplstate_scheme modio option \<Rightarrow> ('k, 'z) eplstate_scheme
   \<Rightarrow> (fault + (int \<times> ('k, 'z) eplstate_scheme)) option" where
  "epoll_pipe_main lc reader writer aw mf pt sleep env sigempty_rc sigaction_rc i md s =
    (case l_pipe lc of
       None \<Rightarrow> Some (Inr (-1, s))
     | Some q \<Rightarrow>
        (case and_then (pipe_tasks lc reader writer q s) (\<lambda>(ts, s).
            and_then (epoll_modules lc 4 aw md s) (\<lambda>(md, s). Inr (ts, md, s))) of
           Inl e \<Rightarrow> Some (Inl e)
         | Inr (ts, md, s) \<Rightarrow> pcaio_array (mf md) pt sleep env sigempty_rc sigaction_rc i pipe_WORKERS ts s))"

definition asleep_TASKS_MAX :: nat where "asleep_TASKS_MAX = 3"

definition asleep_WORKERS :: c_ushort where "asleep_WORKERS = 1"

definition asleep_main ::
  "libc \<Rightarrow> addr \<Rightarrow> ('k, 'z) eplstate_scheme await
   \<Rightarrow> (('k, 'z) eplstate_scheme modio option \<Rightarrow> ('k, 'z) eplstate_scheme modfuns) \<Rightarrow> ('k, 'z) eplstate_scheme pthreads
   \<Rightarrow> (c_uint \<Rightarrow> ('k, 'z) eplstate_scheme \<Rightarrow> ('k, 'z) eplstate_scheme) \<Rightarrow> initenv \<Rightarrow> int \<Rightarrow> int \<Rightarrow> tid
   \<Rightarrow> ('k, 'z) eplstate_scheme modio option \<Rightarrow> ('k, 'z) eplstate_scheme
   \<Rightarrow> (fault + (int \<times> ('k, 'z) eplstate_scheme)) option" where
  "asleep_main lc taskA aw mf pt sleep env sigempty_rc sigaction_rc i md s =
    (case and_then (epoll_modules lc 8 aw md s) (\<lambda>(md, s).
        and_then (new_tasks (l_task lc) taskA (\<lambda>i. [of_nat i]) [0..<asleep_TASKS_MAX] s) (\<lambda>(ts, s). Inr (ts, md, s))) of
       Inl e \<Rightarrow> Some (Inl e)
     | Inr (ts, md, s) \<Rightarrow>
        (case pcaio_array (mf md) pt sleep env sigempty_rc sigaction_rc i asleep_WORKERS ts s of
           None \<Rightarrow> None
         | Some (Inl e) \<Rightarrow> Some (Inl e)
         | Some (Inr (_, s)) \<Rightarrow> Some (Inr (0, s))))"

section \<open>Installing a module\<close>

lemma install_run:
  assumes "installed s ms" "length ms < MODULES_MAX" "module_mem s p = Some x" "m_flags x = 0"
  shows "\<exists>s'. pcaio_module_install p s = Inr (0, s') \<and> installed s' (ms @ [p]) \<and>
    s' = s\<lparr>modules := (modules s)[length ms := Some p], modulescount := modulescount s + 1\<rparr>"
proof -
  have count: "unat (modulescount s) = length ms" "length (modules s) = MODULES_MAX"
    using assms(1) by (simp_all add: installed_def)
  let ?s = "s\<lparr>modules := (modules s)[length ms := Some p], modulescount := modulescount s + 1\<rparr>"
  have same: "module_put p (x\<lparr>m_flags := 0\<rparr>) s = s"
    using assms(3,4) by (simp add: module_put_def fun_upd_idem)
  then have "pcaio_module_install p s = Inr (0, ?s)"
    using assms(2,3) count by (simp add: pcaio_module_install_def)
  moreover have "unat (modulescount s + 1) = length ms + 1"
    using count(1) assms(2) by (simp add: unat_word_ariths MODULES_MAX_def)
  moreover have "take (length ms + 1) ((modules s)[length ms := Some p]) = map Some ms @ [Some p]"
    using assms(1,2) count(2) by (simp add: installed_def take_Suc_conv_app_nth)
  ultimately show ?thesis using assms by (auto simp: installed_def)
qed

lemma install_full:
  "installed s ms \<Longrightarrow> length ms = MODULES_MAX \<Longrightarrow> pcaio_module_install p s = Inr (-1, s)"
  by (simp add: pcaio_module_install_def installed_def)

lemma storagebits_bounds:
  assumes "storagebits n = Inr bits" "n \<le> 1024"
  shows "bits \<le> 30" "unat n \<le> 2 ^ unat bits" "2 ^ unat bits < 2 * unat n" "unat bits = floorlog 2 (unat n - 1)"
proof -
  let ?k = "floorlog 2 (unat n - 1)"
  have n: "n \<noteq> 0" "bits = of_nat ?k" "unat n \<le> 1024" "unat n > 0"
    using assms by (auto simp: storagebits_def word_le_nat_alt unat_gt_0 split: if_splits)
  have k: "?k \<le> 10" using n(3) by (intro floorlog_leI) simp_all
  then have u: "unat bits = ?k" using n(2) by (simp add: unat_of_nat take_bit_eq_mod)
  then show "unat bits = ?k" .
  show "bits \<le> 30" using u k by (simp add: word_le_nat_alt)
  have "unat n - 1 < 2 ^ ?k" using floorlog_bounds [of "unat n - 1" 2] by (cases "unat n - 1 = 0") simp_all
  then show "unat n \<le> 2 ^ unat bits" unfolding u by simp
  show "2 ^ unat bits < 2 * unat n"
  proof (cases "unat n - 1 = 0")
    case False
    then have "2 ^ (?k - 1) \<le> unat n - 1" using floorlog_bounds [of "unat n - 1" 2] by simp
    moreover have "?k \<noteq> 0" using False by (simp add: floorlog_eq_zero_iff)
    then have "(2 :: nat) ^ ?k = 2 * 2 ^ (?k - 1)" by (cases ?k) simp_all
    ultimately show ?thesis unfolding u using n(4) by simp
  qed (use u n(4) in \<open>simp add: floorlog_def\<close>)
qed

text \<open>The part of \<open>pcaio_modselect_use\<close> after the tests, with the memory it got.\<close>

lemma modselect_use_run:
  fixes s :: "('k, 'z) selstate_scheme"
  assumes "sel_mod s = None" "installed s ms" "length ms < MODULES_MAX" "n \<noteq> 0" "n \<le> 1024" "uint n \<le> limit"
    and "sized_malloc rmalloc" "rmalloc (2 ^ floorlog 2 (unat n - 1)) \<noteq> None"
  shows "\<exists>s' cap. pcaio_modselect_use 0 limit (Some p) rmalloc n s = Inr (0, s') \<and> installed s' (ms @ [p]) \<and>
    sel_rep s' n cap [] \<and> cap + 1 = 2 ^ floorlog 2 (unat n - 1) \<and> unat n \<le> cap + 1 \<and> cap + 1 < 2 * unat n \<and>
    (\<forall>L Q. world_rep s' L Q = world_rep s L Q) \<and> heap s' = heap s \<and> module_mem s' = (module_mem s)
      (p \<mapsto> \<lparr>m_flags = 0, m_init = False, m_dtor = True, m_tick = True\<rparr>)"
proof -
  let ?x = "\<lparr>m_flags = 0, m_init = False, m_dtor = True, m_tick = True\<rparr>"
  obtain bits where bits: "storagebits n = Inr bits" using assms(4) by (simp add: storagebits_def)
  note bounds = storagebits_bounds [OF bits assms(5)]
  from ring_init_small [OF assms(7) bounds(1)] assms(8) obtain r where
    r: "ring_init rmalloc (Some \<lparr>rhead = 0, rtail = 0, rmask = 0, rheadx = False, rtailx = False, rbackend = None\<rparr>) bits =
      Inr (0, Some r)" "ring_rep r []" "ring_capacity r = 2 ^ unat bits - 1"
    unfolding bounds(4) by (fastforce split: option.splits)
  have "installed (module_put p ?x s) ms" using assms(2) by (simp add: installed_def module_put_def)
  from install_run [OF this assms(3), of p ?x] obtain s1 where
    s1: "pcaio_module_install p (module_put p ?x s) = Inr (0, s1)" "installed s1 (ms @ [p])"
      "s1 = (module_put p ?x s)\<lparr>modules := (modules s)[length ms := Some p], modulescount := modulescount s + 1\<rparr>"
    by (auto simp: module_put_def)
  let ?s = "s1\<lparr>sel_mod := Some \<lparr>s_self = p, s_maxfileno = n, s_events = r\<rparr>\<rparr>"
  have "pcaio_modselect_use 0 limit (Some p) rmalloc n s = Inr (0, ?s)"
    using assms(1,5,6) bits r(1) s1(1) by (simp add: pcaio_modselect_use_def Let_def)
  moreover have "installed ?s (ms @ [p])" using s1(2) by (simp add: installed_def)
  moreover have "sel_rep ?s n (2 ^ unat bits - 1) []" using r by (simp add: sel_rep_def)
  moreover have "world_rep ?s L Q = world_rep s L Q" for L Q
    by (rule world_rep_cong) (simp_all add: s1(3) module_put_def)
  moreover have "heap ?s = heap s" "module_mem ?s = (module_mem s)(p \<mapsto> ?x)" by (simp_all add: s1(3) module_put_def)
  ultimately show ?thesis
    using bounds(2-4) by (intro exI [of _ ?s] exI [of _ "2 ^ unat bits - 1"]) simp
qed

lemma put_back: "module_mem s p = None \<Longrightarrow> (module_put p x s)\<lparr>module_mem := (module_mem (module_put p x s))(p := None)\<rparr> = s"
  by (simp add: module_put_def fun_upd_idem)

lemma modselect_use_fails:
  fixes s :: "('k, 'z) selstate_scheme"
  assumes "installed s ms" "n \<noteq> 0" "n \<le> 1024" "module_mem s p = None" "sized_malloc rmalloc"
    and "rmalloc (2 ^ floorlog 2 (unat n - 1)) = None \<or> length ms = MODULES_MAX"
  shows "pcaio_modselect_use 0 limit (Some p) rmalloc n s = Inr (-1, s)"
proof -
  let ?r0 = "\<lparr>rhead = 0, rtail = 0, rmask = 0, rheadx = False, rtailx = False, rbackend = None\<rparr> :: addr ring"
  obtain bits where bits: "storagebits n = Inr bits" using assms(2) by (simp add: storagebits_def)
  note bounds = storagebits_bounds [OF bits assms(3)]
  note init = ring_init_small [OF assms(5) bounds(1), of ?r0, unfolded bounds(4)]
  show ?thesis
  proof (cases "rmalloc (2 ^ floorlog 2 (unat n - 1))")
    case None
    then show ?thesis using init bits by (simp add: pcaio_modselect_use_def)
  next
    case (Some b)
    then obtain r where r: "ring_init rmalloc (Some ?r0) bits = Inr (0, Some r)" using init by auto
    let ?s = "module_put p \<lparr>m_flags = 0, m_init = False, m_dtor = True, m_tick = True\<rparr> s"
    have "installed ?s ms" using assms(1) by (simp add: installed_def module_put_def)
    from install_full [OF this, of p] assms(6) Some have "pcaio_module_install p ?s = Inr (-1, ?s)" by simp
    then show ?thesis
      using r bits put_back [OF assms(4)] by (simp add: pcaio_modselect_use_def Let_def)
  qed
qed

lemma modepoll_use_run:
  fixes s :: "('k, 'z) eplstate_scheme"
  assumes "epl_mod s = None" "installed s ms" "length ms < MODULES_MAX" "n \<noteq> 0"
  shows "\<exists>s'. pcaio_modepoll_use (Some p) l fd n s = Inr (0, s') \<and> installed s' (ms @ [p]) \<and>
    epl_mod s' = Some \<lparr>p_self = p, p_fd = fd, p_maxevents = n, p_waiting = l\<rparr> \<and>
    (\<forall>L Q. world_rep s' L Q = world_rep s L Q) \<and> heap s' = heap s"
proof -
  let ?x = "\<lparr>m_flags = 0, m_init = True, m_dtor = True, m_tick = True\<rparr>"
  have "installed (module_put p ?x s) ms" using assms(2) by (simp add: installed_def module_put_def)
  from install_run [OF this assms(3), of p ?x] obtain s1 where
    s1: "pcaio_module_install p (module_put p ?x s) = Inr (0, s1)" "installed s1 (ms @ [p])"
      "s1 = (module_put p ?x s)\<lparr>modules := (modules s)[length ms := Some p], modulescount := modulescount s + 1\<rparr>"
    by (auto simp: module_put_def)
  let ?s = "s1\<lparr>epl_mod := Some \<lparr>p_self = p, p_fd = fd, p_maxevents = n, p_waiting = l\<rparr>\<rparr>"
  have "pcaio_modepoll_use (Some p) l fd n s = Inr (0, ?s)"
    using assms(1,4) s1(1) by (simp add: pcaio_modepoll_use_def Let_def)
  moreover have "installed ?s (ms @ [p])" using s1(2) by (simp add: installed_def)
  moreover have "world_rep ?s L Q = world_rep s L Q" for L Q
    by (rule world_rep_cong) (simp_all add: s1(3) module_put_def)
  moreover have "heap ?s = heap s" by (simp add: s1(3) module_put_def)
  ultimately show ?thesis by (intro exI [of _ ?s]) simp
qed

lemma modio_use_run:
  assumes "installed s ms" "length ms < MODULES_MAX"
  shows "\<exists>s'. pcaio_modio_use (Some p) (Some aw) None s = Inr (0, Some \<lparr>io_self = p, io_await = aw\<rparr>, s') \<and>
    installed s' (ms @ [p]) \<and> world.truncate s' = world.truncate s \<and> master.more s' = master.more s"
proof -
  let ?x = "\<lparr>m_flags = 0, m_init = False, m_dtor = True, m_tick = False\<rparr>"
  have "installed (module_put p ?x s) ms" using assms(1) by (simp add: installed_def module_put_def)
  from install_run [OF this assms(2), of p ?x] obtain s1 where
    "pcaio_module_install p (module_put p ?x s) = Inr (0, s1)" "installed s1 (ms @ [p])"
      "s1 = (module_put p ?x s)\<lparr>modules := (modules s)[length ms := Some p], modulescount := modulescount s + 1\<rparr>"
    by (auto simp: module_put_def)
  then show ?thesis by (simp add: pcaio_modio_use_def world.truncate_def module_put_def)
qed

lemma select_modules_run:
  fixes s :: "('k, 'z) selstate_scheme"
  assumes "sel_mod s = None" "installed s ms" "length ms + 2 \<le> MODULES_MAX"
    and lc: "l_limit_rc lc = 0" "4 \<le> l_limit lc" "l_module lc = Some p" "l_modio lc = Some q" "sized_malloc (l_ring lc)"
      "l_ring lc 4 \<noteq> None"
  shows "\<exists>s' cap. select_modules lc aw None s = Inr (Some \<lparr>io_self = q, io_await = aw\<rparr>, s') \<and>
    installed s' (ms @ [p, q]) \<and> sel_rep s' 4 cap [] \<and> 3 \<le> cap \<and>
    (\<forall>L Q. world_rep s' L Q = world_rep s L Q) \<and> heap s' = heap s"
proof -
  have size: "floorlog 2 (unat (4 :: c_ushort) - 1) = 2" by (simp add: compute_floorlog)
  have len: "length ms < MODULES_MAX" using assms(3) by simp
  have ring: "l_ring lc (2 ^ floorlog 2 (unat (4 :: c_ushort) - 1)) \<noteq> None" unfolding size using lc(6) by simp
  from modselect_use_run [OF assms(1,2) len, of 4 "l_limit lc" "l_ring lc", OF _ _ _ lc(5) ring, of p] lc(2)
  obtain s1 cap where s1: "pcaio_modselect_use 0 (l_limit lc) (Some p) (l_ring lc) 4 s = Inr (0, s1)"
    "installed s1 (ms @ [p])" "sel_rep s1 4 cap []" "4 \<le> cap + 1"
    "\<forall>L Q. world_rep s1 L Q = world_rep s L Q" "heap s1 = heap s" by auto
  from modio_use_run [OF s1(2), of q aw] assms(3) obtain s2 where
    s2: "pcaio_modio_use (Some q) (Some aw) None s1 = Inr (0, Some \<lparr>io_self = q, io_await = aw\<rparr>, s2)"
      "installed s2 ((ms @ [p]) @ [q])" "world.truncate s2 = world.truncate s1" "master.more s2 = master.more s1"
    by auto
  have "heap s2 = heap s1" "tasks s2 = tasks s1" "taskq s2 = taskq s1" "sel_mod s2 = sel_mod s1"
    using s2(3,4) by (simp_all add: world.truncate_def) (cases s1; cases s2; simp)
  then have "world_rep s2 L Q = world_rep s1 L Q" "sel_rep s2 4 cap []" for L Q
    using s1(3) by (simp_all add: sel_rep_def world_rep_def)
  moreover have "select_modules lc aw None s = Inr (Some \<lparr>io_self = q, io_await = aw\<rparr>, s2)"
    using lc s1(1) s2(1) by (simp add: select_modules_def)
  ultimately show ?thesis
    using s1 s2(2) \<open>heap s2 = heap s1\<close> by (intro exI [of _ s2] exI [of _ cap]) simp
qed

lemma sample_task_run:
  assumes "world_rep w L Q" "l_task lc n = (Some p, 0, Some sp)" "p \<noteq> 0" "heap w p = None" "length va \<le> 6"
  shows "\<exists>w'. sample_task lc n f va w = Inr (Some p, w') \<and> world_rep w' (L @ [p]) Q \<and>
    job_rep start w' (p, None, start (Some f) va) \<and> (\<forall>r. r \<noteq> p \<longrightarrow> heap w' r = heap w r) \<and>
    world.more w' = world.more w"
proof -
  from task_new_success [OF assms(1,3,4), of "length va" va sp f None] obtain w' where
    w': "task_new (Some p) 0 (Some sp) (Some f) None (length va) va w = Inr (Some p, w')" "world_rep w' (L @ [p]) Q"
      "heap w' = (heap w)(p := Some \<lparr>t_flags = 0, t_context = Entry (task_hi p) (task_lo p), t_stack = Some sp,
        t_gather = None, t_terminated = None, t_status = None, t_func = Some f, t_callback = None,
        t_argc = length va, t_argv = va\<rparr>)" by auto
  then have "job_rep start w' (p, None, start (Some f) va)" using assms(5) by (simp add: taskmain_args_spec)
  then show ?thesis
    using w' task_new_more [OF w'(1)] assms(2) by (auto simp: sample_task_def pcaio_task_new_def)
qed

lemma pipe_tasks_run:
  assumes "world_rep w [] []" "l_task lc 0 = (Some t, 0, Some a)" "l_task lc 1 = (Some u, 0, Some b)" "t \<noteq> 0" "u \<noteq> 0" "t \<noteq> u"
  shows "\<exists>w'. pipe_tasks lc reader writer (x, y) w = Inr ([Some t, Some u], w') \<and> world_rep w' [t, u] [] \<and>
    job_rep start w' (t, None, start (Some reader) [of_int x]) \<and>
    job_rep start w' (u, None, start (Some writer) [of_int y]) \<and> world.more w' = world.more w"
proof -
  have "heap w t = None" "heap w u = None" using world_rep_members [OF assms(1)] by simp_all
  with sample_task_run [OF assms(1,2,4), of "[of_int x]" reader start] obtain w1 where
    w1: "sample_task lc 0 reader [of_int x] w = Inr (Some t, w1)" "world_rep w1 ([] @ [t]) []"
      "job_rep start w1 (t, None, start (Some reader) [of_int x])" "\<forall>r. r \<noteq> t \<longrightarrow> heap w1 r = heap w r"
      "world.more w1 = world.more w" by auto
  have "heap w1 u = None" using w1(4) assms(6) \<open>heap w u = None\<close> by simp
  with sample_task_run [OF w1(2) assms(3,5), of "[of_int y]" writer start] obtain w2 where
    w2: "sample_task lc 1 writer [of_int y] w1 = Inr (Some u, w2)" "world_rep w2 (([] @ [t]) @ [u]) []"
      "job_rep start w2 (u, None, start (Some writer) [of_int y])" "\<forall>r. r \<noteq> u \<longrightarrow> heap w2 r = heap w1 r"
      "world.more w2 = world.more w1" by auto
  have "job_rep start w2 (t, None, start (Some reader) [of_int x])" using w1(3) w2(4) assms(6) by auto
  then show ?thesis using w1 w2 by (auto simp: pipe_tasks_def)
qed

lemma epoll_modules_run:
  fixes s :: "('k, 'z) eplstate_scheme"
  assumes "epl_mod s = None" "installed s ms" "length ms + 2 \<le> MODULES_MAX" "n \<noteq> 0"
    and lc: "l_module lc = Some p" "l_modio lc = Some q"
  shows "\<exists>s'. epoll_modules lc n aw None s = Inr (Some \<lparr>io_self = q, io_await = aw\<rparr>, s') \<and>
    installed s' (ms @ [p, q]) \<and>
    epl_mod s' = Some \<lparr>p_self = p, p_fd = l_fd lc, p_maxevents = n, p_waiting = l_list lc\<rparr> \<and>
    (\<forall>L Q. world_rep s' L Q = world_rep s L Q) \<and> heap s' = heap s"
proof -
  have len: "length ms < MODULES_MAX" using assms(3) by simp
  from modepoll_use_run [OF assms(1,2) len assms(4), of p "l_list lc" "l_fd lc"] obtain s1 where
    s1: "pcaio_modepoll_use (Some p) (l_list lc) (l_fd lc) n s = Inr (0, s1)" "installed s1 (ms @ [p])"
      "epl_mod s1 = Some \<lparr>p_self = p, p_fd = l_fd lc, p_maxevents = n, p_waiting = l_list lc\<rparr>"
      "\<forall>L Q. world_rep s1 L Q = world_rep s L Q" "heap s1 = heap s" by auto
  from modio_use_run [OF s1(2), of q aw] assms(3) obtain s2 where
    s2: "pcaio_modio_use (Some q) (Some aw) None s1 = Inr (0, Some \<lparr>io_self = q, io_await = aw\<rparr>, s2)"
      "installed s2 ((ms @ [p]) @ [q])" "world.truncate s2 = world.truncate s1" "master.more s2 = master.more s1"
    by auto
  have same: "heap s2 = heap s1" "tasks s2 = tasks s1" "taskq s2 = taskq s1" "epl_mod s2 = epl_mod s1"
    using s2(3,4) by (simp_all add: world.truncate_def) (cases s1; cases s2; simp)
  then have "world_rep s2 L Q = world_rep s1 L Q" for L Q by (simp add: world_rep_def)
  moreover have "epoll_modules lc n aw None s = Inr (Some \<lparr>io_self = q, io_await = aw\<rparr>, s2)"
    using lc s1(1) s2(1) by (simp add: epoll_modules_def)
  ultimately show ?thesis using s1 s2(2) same by (intro exI [of _ s2]) simp
qed

text \<open>\<open>asleep.c\<close> calls \<open>pcaio\<close> with three tasks that get their numbers.\<close>

lemma asleep_main_starts:
  fixes s :: "('k frame, 'z) eplstate_scheme"
  assumes "world_rep s [] []" "epl_mod s = None" "installed s []"
    and lc: "l_module lc = Some p" "l_modio lc = Some q" "\<And>i. i < 3 \<Longrightarrow> l_task lc i = (Some (pt i), 0, Some (st i)) \<and> pt i \<noteq> 0"
      "inj_on pt {0..<3}"
  shows "\<exists>s'. asleep_main lc func aw mf pth sleep env m n i None s =
      (case pcaio (mf (Some \<lparr>io_self = q, io_await = aw\<rparr>)) pth sleep env m n i 1 (map pt [0..<3]) s' of
         None \<Rightarrow> None | Some (Inl e) \<Rightarrow> Some (Inl e) | Some (Inr (rc, s)) \<Rightarrow> Some (Inr (0, s))) \<and>
    world_rep s' (map pt [0..<3]) [] \<and> installed s' [p, q] \<and>
    (\<forall>i < 3. job_rep start s' (pt i, None, start (Some func) [of_nat i]))"
proof -
  from epoll_modules_run [OF assms(2,3) _ _ lc(1,2), of 8 aw] obtain s1 where
    s1: "epoll_modules lc 8 aw None s = Inr (Some \<lparr>io_self = q, io_await = aw\<rparr>, s1)" "installed s1 [p, q]"
      "world_rep s1 [] []" using assms(1) by (auto simp: MODULES_MAX_def)
  have blocks: "l_task lc j = (Some (pt j), 0, Some (st j)) \<and> pt j \<noteq> 0 \<and> heap s1 (pt j) = None \<and>
      length [of_nat j :: addr] \<le> 6" if "j \<in> set [0..<3]" for j
    using lc(3) [of j] that world_rep_members [OF s1(3), of "pt j"] by simp
  have inj: "inj_on pt (set [0..<3])" "distinct [0..<3]" using lc(4) by simp_all
  from new_tasks_run [where mem = "l_task lc" and va = "\<lambda>j. [of_nat j]" and f = func and start = start, OF s1(3) inj blocks]
  obtain s2 where
    s2: "new_tasks (l_task lc) func (\<lambda>i. [of_nat i]) [0..<3] s1 = Inr (map (\<lambda>i. Some (pt i)) [0..<3], s2)"
      "world_rep s2 ([] @ map pt [0..<3]) []" "world.more s2 = world.more s1"
      "\<forall>i \<in> set [0..<3]. job_rep start s2 (pt i, None, start (Some func) [of_nat i])" by blast
  have "pcaio_array (mf (Some \<lparr>io_self = q, io_await = aw\<rparr>)) pth sleep env m n i asleep_WORKERS
      (map (\<lambda>i. Some (pt i)) [0..<3]) s2 =
    pcaio (mf (Some \<lparr>io_self = q, io_await = aw\<rparr>)) pth sleep env m n i 1 (map pt [0..<3]) s2"
    by (simp only: pcaio_array_def those_Some option.case asleep_WORKERS_def)
  moreover have "installed s2 [p, q] \<longleftrightarrow> installed s1 [p, q]"
    using s2(3) by (cases s1; cases s2; simp add: installed_def)
  ultimately show ?thesis
    using s1(1,2) s2 by (intro exI [of _ s2]) (simp add: asleep_main_def asleep_TASKS_MAX_def del: job_rep.simps upt_rec_numeral)
qed

section \<open>Properties\<close>

text \<open>Property C26. What \<open>pcaio_modselect_use\<close> can do: it installs the select monitor behind the
  modules there are, with an empty ring of one place less than the next power of two, which is
  at least \<open>maxfileno - 1\<close> and less than \<open>2 * maxfileno - 1\<close>; or it returns \<open>-1\<close> and leaves everything as it was: when the module
  is in use already, more than 1024 descriptors or more than the process may open are asked for,
  memory is short, or the eight places for modules are taken. For 0 descriptors it converts an infinite logarithm.\<close>

theorem modselect_use_spec:
  fixes s :: "('k, 'z) selstate_scheme"
  assumes "installed s ms" "sized_malloc rmalloc" "\<forall>p. mem = Some p \<longrightarrow> module_mem s p = None"
  shows "if sel_mod s \<noteq> None \<or> n > 1024 \<or> limit_rc \<noteq> 0 \<or> uint n > limit \<or> mem = None
    then pcaio_modselect_use limit_rc limit mem rmalloc n s = Inr (-1, s)
    else if n = 0 then pcaio_modselect_use limit_rc limit mem rmalloc n s = Inl Indeterminate
    else if rmalloc (2 ^ floorlog 2 (unat n - 1)) = None \<or> length ms = MODULES_MAX
    then pcaio_modselect_use limit_rc limit mem rmalloc n s = Inr (-1, s)
    else \<exists>s' cap. pcaio_modselect_use limit_rc limit mem rmalloc n s = Inr (0, s') \<and>
      installed s' (ms @ [the mem]) \<and> sel_rep s' n cap [] \<and> cap + 1 = 2 ^ floorlog 2 (unat n - 1) \<and>
      unat n \<le> cap + 1 \<and> cap + 1 < 2 * unat n"
proof -
  consider (refused) "sel_mod s \<noteq> None \<or> n > 1024 \<or> limit_rc \<noteq> 0 \<or> uint n > limit \<or> mem = None"
    | (zero) p where "sel_mod s = None" "n = 0" "limit_rc = 0" "uint n \<le> limit" "mem = Some p"
    | (tried) p where "sel_mod s = None" "n \<noteq> 0" "n \<le> 1024" "limit_rc = 0" "uint n \<le> limit" "mem = Some p"
    by (metis leI option.exhaust)
  then show ?thesis
  proof cases
    case refused
    then show ?thesis by (auto simp: pcaio_modselect_use_def split: option.splits)
  next
    case zero
    then show ?thesis by (simp add: pcaio_modselect_use_def storagebits_def)
  next
    case tried
    have len: "length ms \<le> MODULES_MAX" using assms(1) by (simp add: installed_def)
    show ?thesis
    proof (cases "rmalloc (2 ^ floorlog 2 (unat n - 1)) = None \<or> length ms = MODULES_MAX")
      case True
      have "module_mem s p = None" using assms(3) tried(6) by simp
      from modselect_use_fails [OF assms(1) tried(2,3) this assms(2) True] show ?thesis
        using tried True by (auto simp: not_less)
    next
      case False
      from modselect_use_run [OF tried(1) assms(1) _ tried(2,3,5) assms(2), of p] False len show ?thesis
        using tried by (auto simp: not_less)
    qed
  qed
qed

text \<open>\<open>select_pipe.c\<close> sets out as it is written: with the memory it asks for,
  its \<open>main\<close> is the call of \<open>pcaio\<close> with two workers on a state with the select monitor and \<open>modio\<close>
  installed, an empty ring with a place for each of its two tasks, and these in the task list, not yet queued:
  the first is going to run \<open>_consumer\<close> on the reading end of the pipe, the second \<open>_producer\<close> on the writing end.
  When there is no pipe it returns \<open>-1\<close>; when the monitor cannot be installed it
  reads a pointer that was never written.\<close>

theorem select_pipe_starts:
  fixes s :: "('k frame, 'z) selstate_scheme"
  assumes "world_rep s [] []" "sel_mod s = None" "installed s []"
    and lc: "l_limit_rc lc = 0" "4 \<le> l_limit lc" "l_modio lc = Some q" "sized_malloc (l_ring lc)" "l_ring lc 4 \<noteq> None"
      "l_task lc 0 = (Some t, 0, Some a)" "l_task lc 1 = (Some u, 0, Some b)" "t \<noteq> 0" "u \<noteq> 0" "t \<noteq> u"
  shows "case l_module lc of
      None \<Rightarrow> select_pipe_main lc reader writer aw mf pt sleep env m n i None s = Some (Inl Indeterminate)
    | Some p \<Rightarrow>
       (case l_pipe lc of
          None \<Rightarrow> \<exists>s'. select_pipe_main lc reader writer aw mf pt sleep env m n i None s = Some (Inr (-1, s'))
        | Some (x, y) \<Rightarrow> \<exists>s' cap.
            select_pipe_main lc reader writer aw mf pt sleep env m n i None s =
              pcaio (mf (Some \<lparr>io_self = q, io_await = aw\<rparr>)) pt sleep env m n i 2 [t, u] s' \<and>
            world_rep s' [t, u] [] \<and> installed s' [p, q] \<and> sel_rep s' 4 cap [] \<and> 2 \<le> cap \<and>
            job_rep start s' (t, None, start (Some reader) [of_int x]) \<and>
            job_rep start s' (u, None, start (Some writer) [of_int y]))"
proof (cases "l_module lc")
  case None
  then show ?thesis using assms(2) by (simp add: select_pipe_main_def select_modules_def pcaio_modselect_use_def lc(1,2))
next
  case (Some p)
  from select_modules_run [OF assms(2,3) _ lc(1,2) Some lc(3-5), of aw] obtain s1 cap where
    s1: "select_modules lc aw None s = Inr (Some \<lparr>io_self = q, io_await = aw\<rparr>, s1)" "installed s1 [p, q]"
      "sel_rep s1 4 cap []" "3 \<le> cap" "world_rep s1 [] []"
    using assms(1) by (auto simp: MODULES_MAX_def)
  show ?thesis
  proof (cases "l_pipe lc")
    case None
    then show ?thesis using s1(1) Some by (simp add: select_pipe_main_def)
  next
    case (Some e)
    obtain x y where e: "e = (x, y)" by (cases e)
    from pipe_tasks_run [OF s1(5) lc(6-10), of reader writer x y start] obtain s2 where
      s2: "pipe_tasks lc reader writer (x, y) s1 = Inr ([Some t, Some u], s2)" "world_rep s2 [t, u] []"
        "job_rep start s2 (t, None, start (Some reader) [of_int x])"
        "job_rep start s2 (u, None, start (Some writer) [of_int y])" "world.more s2 = world.more s1" by blast
    have "select_pipe_main lc reader writer aw mf pt sleep env m n i None s =
      pcaio (mf (Some \<lparr>io_self = q, io_await = aw\<rparr>)) pt sleep env m n i 2 [t, u] s2"
      using s1(1) s2(1) Some e by (simp add: select_pipe_main_def pcaio_array_def pipe_WORKERS_def)
    moreover have "sel_mod s2 = sel_mod s1" "installed s2 [p, q] \<longleftrightarrow> installed s1 [p, q]"
      using s2(5) by (cases s1; cases s2; simp add: installed_def)+
    ultimately show ?thesis
      using \<open>l_module lc = Some p\<close> Some e s1 s2(2-4) by (auto simp: sel_rep_def intro!: exI [of _ s2] exI [of _ cap])
  qed
qed

theorem modselect_use_spec_witness:
  "\<exists>s'. pcaio_modselect_use 0 64 (Some 8) (\<lambda>n. Some (replicate n None)) 4
      (iostate.extend (master.extend (state_static (world0 :: unit world)) (iostate.fields (\<lambda>_. None))) (selstate.fields None)) = Inr (0, s') \<and>
    installed s' [8] \<and> sel_rep s' 4 3 []"
proof -
  let ?s = "iostate.extend (master.extend (state_static (world0 :: unit world)) (iostate.fields (\<lambda>_. None))) (selstate.fields None)"
  have pre: "installed ?s []" "sized_malloc (\<lambda>n. Some (replicate n None))" "\<forall>p. Some 8 = Some p \<longrightarrow> module_mem ?s p = None"
    "sel_mod ?s = None"
    by (simp_all add: installed_def sized_malloc_def iostate.extend_def master.extend_def iostate.fields_def selstate.fields_def
      state_static_def world.extend_def master.fields_def)
  from modselect_use_spec [OF pre(1-3), of 4 0 64] pre(4) obtain s' cap where
    "pcaio_modselect_use 0 64 (Some 8) (\<lambda>n. Some (replicate n None)) 4 ?s = Inr (0, s')"
    "installed s' [8]" "sel_rep s' 4 cap []" "Suc cap = 2 ^ floorlog 2 3"
    by (auto simp: MODULES_MAX_def)
  moreover have "floorlog 2 3 = 2" by (simp add: compute_floorlog)
  ultimately show ?thesis by auto
qed

definition libc1 :: libc where
  "libc1 = \<lparr>l_task = (\<lambda>n. (Some (if n = 0 then 64 else 128), 0, Some 4096)), l_module = Some 8,
     l_ring = (\<lambda>n. Some (replicate n None)), l_modio = Some 16, l_limit_rc = 0, l_limit = 1024, l_pipe = Some (3, 4),
     l_list = \<lparr>lhead = None, ltail = None, lcount = 0, lmutex = False, lnext = (\<lambda>_. None), lprev = (\<lambda>_. None)\<rparr>, l_fd = 0\<rparr>"

theorem select_pipe_starts_witness:
  "\<forall>mf pt sleep env. \<exists>s' :: (nat frame, unit) selstate_scheme. \<exists>cap. select_pipe_main libc1 7 9 (\<lambda>fd ev s. Some (0, s)) (\<lambda>_. mf) pt sleep env 0 0 9 None
      (iostate.extend (master.extend (state_static world0) (iostate.fields (\<lambda>_. None))) (selstate.fields None)) =
      pcaio mf pt sleep env 0 0 9 2 [64, 128] s' \<and>
    world_rep s' [64, 128] [] \<and> installed s' [8, 16] \<and> sel_rep s' 4 cap []"
proof (intro allI)
  fix mf pt sleep env
  let ?s = "iostate.extend (master.extend (state_static (world0 :: nat frame world)) (iostate.fields (\<lambda>_. None))) (selstate.fields None)"
  have s: "world_rep ?s [] []" "sel_mod ?s = None" "installed ?s []"
    using world0_rep by (simp_all add: installed_def iostate.extend_def master.extend_def iostate.fields_def
      selstate.fields_def state_static_def world.extend_def master.fields_def world_rep_def)
  have lc: "l_limit_rc libc1 = 0" "4 \<le> l_limit libc1" "l_modio libc1 = Some 16" "sized_malloc (l_ring libc1)"
    "l_ring libc1 4 \<noteq> None" "l_task libc1 0 = (Some 64, 0, Some 4096)" "l_task libc1 1 = (Some 128, 0, Some 4096)"
    "(64 :: addr) \<noteq> 0" "(128 :: addr) \<noteq> 0" "(64 :: addr) \<noteq> 128" by (simp_all add: libc1_def sized_malloc_def)
  have ends: "l_module libc1 = Some 8" "l_pipe libc1 = Some (3, 4)" by (simp_all add: libc1_def)
  note starts = select_pipe_starts [OF s lc, of 7 9 "\<lambda>fd ev s. Some (0, s)" "\<lambda>_. mf" pt sleep env 0 0 9 start2,
    unfolded ends option.case prod.case]
  show "\<exists>s' cap. select_pipe_main libc1 7 9 (\<lambda>fd ev s. Some (0, s)) (\<lambda>_. mf) pt sleep env 0 0 9 None ?s =
      pcaio mf pt sleep env 0 0 9 2 [64, 128] s' \<and>
    world_rep s' [64, 128] [] \<and> installed s' [8, 16] \<and> sel_rep s' 4 cap []"
    using starts by blast
qed

end
