(* ===== verification/Shutdown.thy ===== *)
theory Shutdown
  imports Program
begin

text \<open>
  The end of a program that is interrupted: the signal handler stops the master's loop, workers
  are cancelled wherever they wait or run, and what is left of the tasks is freed. Nothing is
  assumed of the tasks but that they compute, yield, create tasks and return; they need not end.
\<close>

section \<open>Tasks of any length\<close>

coinductive tame ::
  "('u \<Rightarrow> 'u uop) \<Rightarrow> (addr option \<Rightarrow> addr list \<Rightarrow> 'u) \<Rightarrow> ('u, 'z) userland \<Rightarrow> 'u \<Rightarrow> bool"
  for prog start cb where
  returns: "prog u = Return e \<Longrightarrow> tame prog start cb u"
| relaxes: "prog u = Relax 0 f \<Longrightarrow> (\<And>e. tame prog start cb (f e)) \<Longrightarrow> tame prog start cb u"
| asks: "prog u = Self f \<Longrightarrow> (\<And>x. tame prog start cb (f x)) \<Longrightarrow> tame prog start cb u"
| spawns: "prog u = Call n f \<Longrightarrow> creates cb n g argc va \<Longrightarrow> argc \<le> 6 \<Longrightarrow>
    tame prog start cb (start (Some g) (take argc va)) \<Longrightarrow> (\<And>r. tame prog start cb (f r)) \<Longrightarrow>
    tame prog start cb u"

section \<open>Workers that leave\<close>

text \<open>A worker that has been cancelled leaves at a cancellation point: in
  \<open>pthread_cond_wait\<close>, or in a call that its task makes. Its cleanup handler runs, and its
  task, if it has one, stays where it is.\<close>

fun cancellable :: "'u control \<Rightarrow> bool" where
  "cancellable Looping = True"
| "cancellable (Inside p pl) = True"
| "cancellable c = False"

inductive mortal_step ::
  "('u \<Rightarrow> 'u uop) \<Rightarrow> (addr option \<Rightarrow> addr list \<Rightarrow> 'u)
   \<Rightarrow> ('u, 'z) userland
   \<Rightarrow> ('u, 'z) system \<Rightarrow> ('u, 'z) system \<Rightarrow> bool" for prog start cb where
  moves: "sys_step prog start cb s s' \<Longrightarrow> mortal_step prog start cb s s'"
| leaves: "i < length cs \<Longrightarrow> cancellable (cs ! i) \<Longrightarrow>
    mortal_step prog start cb (cs, w) (cs[i := Stopped (-1)], worker_cleanup w)"

section \<open>The invariant\<close>

text \<open>A task that nobody runs, and one that has ended. The status pointers are in \<open>X\<close>.\<close>

definition resting ::
  "('u \<Rightarrow> 'u uop) \<Rightarrow> (addr option \<Rightarrow> addr list \<Rightarrow> 'u) \<Rightarrow> ('u, 'z) userland
   \<Rightarrow> ('u frame, 'z) world_scheme \<Rightarrow> addr \<Rightarrow> bool" where
  "resting prog start cb w p \<longleftrightarrow> (\<exists>s u. job_rep start w (p, s, u) \<and> tame prog start cb u)"

definition over :: "('k, 'z) world_scheme \<Rightarrow> addr \<Rightarrow> bool" where
  "over w p \<longleftrightarrow> (\<exists>t. heap w p = Some t \<and> t_flags t AND TASK_TERMINATED \<noteq> 0)"

definition active ::
  "('u \<Rightarrow> 'u uop) \<Rightarrow> (addr option \<Rightarrow> addr list \<Rightarrow> 'u) \<Rightarrow> ('u, 'z) userland
   \<Rightarrow> ('u frame, 'z) world_scheme \<Rightarrow> addr \<Rightarrow> 'u \<Rightarrow> bool" where
  "active prog start cb w p u \<longleftrightarrow> tame prog start cb u \<and>
    (\<exists>t. heap w p = Some t \<and> t_flags t = 0 \<and> t_terminated t = None \<and> t_callback t = None)"

text \<open>Whether or not the storage keys still exist, a worker finds no other task than its own.\<close>

fun place_ok ::
  "('u \<Rightarrow> 'u uop) \<Rightarrow> (addr option \<Rightarrow> addr list \<Rightarrow> 'u) \<Rightarrow> ('u, 'z) userland \<Rightarrow> tid
   \<Rightarrow> ('u frame, 'z) world_scheme \<Rightarrow> 'u control \<Rightarrow> bool" where
  "place_ok prog start cb i w (Fetched p) \<longleftrightarrow>
     pcaio_self i w \<in> {None, Some p} \<and> resting prog start cb w p"
| "place_ok prog start cb i w (Inside p pl) \<longleftrightarrow>
     pcaio_self i w \<in> {None, Some p} \<and> (\<exists>u. pl = Run p u \<and> active prog start cb w p u)"
| "place_ok prog start cb i w (Landed p ret) \<longleftrightarrow> ret = 0 \<and> (resting prog start cb w p \<or> over w p)"
| "place_ok prog start cb i w c \<longleftrightarrow> True"

definition mortal_inv ::
  "('u \<Rightarrow> 'u uop) \<Rightarrow> (addr option \<Rightarrow> addr list \<Rightarrow> 'u) \<Rightarrow> ('u, 'z) userland \<Rightarrow> addr set
   \<Rightarrow> (addr \<Rightarrow> c_int) \<Rightarrow> addr list \<Rightarrow> addr list \<Rightarrow> ('u, 'z) system \<Rightarrow> bool" where
  "mortal_inv prog start cb X m L Q s \<longleftrightarrow>
    (case s of (cs, w) \<Rightarrow>
      world_rep w L Q \<and> set Q \<union> carried cs \<subseteq> set L \<and> exclusive cs Q \<and>
      (\<forall>q \<in> set Q. resting prog start cb w q) \<and> (\<forall>i < length cs. place_ok prog start cb i w (cs ! i)) \<and>
      (\<forall>p t. heap w p = Some t \<longrightarrow> t_status t \<in> insert None (Some ` X)) \<and>
      (\<forall>x. x \<notin> X \<longrightarrow> ints w x = m x))"

definition mortal_ok ::
  "('u \<Rightarrow> 'u uop) \<Rightarrow> (addr option \<Rightarrow> addr list \<Rightarrow> 'u) \<Rightarrow> ('u, 'z) userland \<Rightarrow> addr set
   \<Rightarrow> (addr \<Rightarrow> c_int) \<Rightarrow> ('u, 'z) system \<Rightarrow> bool" where
  "mortal_ok prog start cb X m s \<longleftrightarrow> (\<exists>L Q. mortal_inv prog start cb X m L Q s)"

lemma resting_cong: "heap w' p = heap w p \<Longrightarrow> resting prog start cb w' p \<longleftrightarrow> resting prog start cb w p"
  by (simp add: resting_def)

lemma over_cong: "heap w' p = heap w p \<Longrightarrow> over w' p \<longleftrightarrow> over w p"
  by (simp add: over_def)

lemma active_cong: "heap w' p = heap w p \<Longrightarrow> active prog start cb w' p u \<longleftrightarrow> active prog start cb w p u"
  by (simp add: active_def)

lemma place_ok_cong:
  "(\<And>p. held c = Some p \<Longrightarrow> heap w' p = heap w p) \<Longrightarrow> pcaio_self i w' \<in> {None, pcaio_self i w} \<Longrightarrow>
    place_ok prog start cb i w c \<Longrightarrow> place_ok prog start cb i w' c"
  by (cases c) (auto simp: resting_cong [of w' _ w] over_cong [of w' _ w] active_cong [of w' _ w])

lemma mortal_inv_facts:
  assumes "mortal_inv prog start cb X m L Q (cs, w)"
  shows "world_rep w L Q" "set Q \<union> carried cs \<subseteq> set L" "exclusive cs Q"
    "\<And>q. q \<in> set Q \<Longrightarrow> resting prog start cb w q"
    "\<And>i. i < length cs \<Longrightarrow> place_ok prog start cb i w (cs ! i)"
    "\<And>p t. heap w p = Some t \<Longrightarrow> t_status t \<in> insert None (Some ` X)" "\<And>x. x \<notin> X \<Longrightarrow> ints w x = m x"
  using assms unfolding mortal_inv_def prod.case by blast+

text \<open>Only thread \<open>i\<close> moves.\<close>

lemma mortal_inv_update:
  assumes inv: "mortal_inv prog start cb X m L Q (cs, w)" and i: "i < length cs"
    and rep: "world_rep w' L' Q'" "set Q' \<union> carried (cs[i := c]) \<subseteq> set L'" "exclusive (cs[i := c]) Q'"
    and self: "\<And>j. j \<noteq> i \<Longrightarrow> pcaio_self j w' \<in> {None, pcaio_self j w}"
    and others: "\<And>j p. j < length cs \<Longrightarrow> j \<noteq> i \<Longrightarrow> held (cs ! j) = Some p \<Longrightarrow> heap w' p = heap w p"
    and queued: "\<And>q. q \<in> set Q' \<Longrightarrow> resting prog start cb w' q"
    and ok: "place_ok prog start cb i w' c"
    and cells: "\<And>p t. heap w' p = Some t \<Longrightarrow> t_status t \<in> insert None (Some ` X)" "\<And>x. x \<notin> X \<Longrightarrow> ints w' x = m x"
  shows "mortal_inv prog start cb X m L' Q' (cs[i := c], w')"
proof -
  have "place_ok prog start cb j w' (cs[i := c] ! j)" if j: "j < length cs" for j
  proof (cases "j = i")
    case True
    then show ?thesis using ok i by simp
  next
    case False
    have "place_ok prog start cb j w (cs ! j)" using inv j by (simp add: mortal_inv_def)
    with place_ok_cong [of "cs ! j" w' w j] others [OF j False] self [OF False] False show ?thesis by auto
  qed
  then show ?thesis using rep queued cells unfolding mortal_inv_def prod.case by (auto simp del: insert_iff)
qed

text \<open>A step that neither takes a task nor gives one back, and writes to this task only.\<close>

lemma mortal_inv_keep:
  assumes inv: "mortal_inv prog start cb X m L Q (cs, w)" and i: "i < length cs"
    and held: "held (cs ! i) = Some p" "held c = Some p"
    and rep: "world_rep w' L Q" and heap: "\<And>q. q \<noteq> p \<Longrightarrow> heap w' q = heap w q"
    and tls: "tls_task w' = tls_task w" and ok: "place_ok prog start cb i w' c"
    and cells: "\<And>t. heap w' p = Some t \<Longrightarrow> t_status t \<in> insert None (Some ` X)" "\<And>x. x \<notin> X \<Longrightarrow> ints w' x = m x"
  shows "mortal_inv prog start cb X m L Q (cs[i := c], w')"
proof -
  note facts = mortal_inv_facts [OF inv]
  have same: "held c = held (cs ! i)" using held by simp
  show ?thesis
  proof (rule mortal_inv_update [OF inv i rep])
    show "set Q \<union> carried (cs[i := c]) \<subseteq> set L" using facts(2) carried_keep [OF same] by simp
    show "exclusive (cs[i := c]) Q" using facts(3) exclusive_keep [OF same] by simp
    show "resting prog start cb w' q" if "q \<in> set Q" for q
    proof -
      have "q \<noteq> p" using exclusiveD(1) [OF facts(3) i held(1)] that by auto
      with facts(4) [OF that] resting_cong [OF heap] show ?thesis by blast
    qed
    show "heap w' q = heap w q" if "j < length cs" "j \<noteq> i" "held (cs ! j) = Some q" for j q
    proof (rule heap)
      show "q \<noteq> p" using exclusiveD(2) [OF facts(3) i held(1) that(1)] that(2,3) by auto
    qed
    show "t_status t \<in> insert None (Some ` X)" if "heap w' q = Some t" for q t
      using that facts(6) [of q t] cells(1) [of t] heap [of q] by (cases "q = p") auto
  qed (use tls ok cells in \<open>simp_all add: pcaio_self_def\<close>)
qed

text \<open>A step that gives a task back, to nobody or to the queue.\<close>

lemma mortal_inv_drop:
  assumes inv: "mortal_inv prog start cb X m L Q (cs, w)" and i: "i < length cs"
    and held: "held (cs ! i) = Some p" "held c = None"
    and rep: "world_rep w' L' Q'" "set L - {p} \<subseteq> set L'" and queue: "set Q' \<subseteq> set L'"
      "Q' = Q \<or> Q' = Q @ [p] \<and> resting prog start cb w' p"
    and heap: "\<And>q. q \<noteq> p \<Longrightarrow> heap w' q = heap w q"
    and self: "\<And>j. j \<noteq> i \<Longrightarrow> pcaio_self j w' \<in> {None, pcaio_self j w}" and ok: "place_ok prog start cb i w' c"
    and cells: "\<And>t. heap w' p = Some t \<Longrightarrow> t_status t \<in> insert None (Some ` X)" "\<And>x. x \<notin> X \<Longrightarrow> ints w' x = m x"
  shows "mortal_inv prog start cb X m L' Q' (cs[i := c], w')"
proof -
  note facts = mortal_inv_facts [OF inv]
  note out = exclusiveD(1) [OF facts(3) i held(1)]
  show ?thesis
  proof (rule mortal_inv_update [OF inv i rep(1)])
    show "set Q' \<union> carried (cs[i := c]) \<subseteq> set L'"
      using facts(2) rep(2) queue(1) carried_drop [OF i facts(3) held] by auto
    show "exclusive (cs[i := c]) Q'"
      using queue(2) exclusive_drop [OF i facts(3) held(2)] exclusive_queue [OF i facts(3) held] by blast
    have rest: "resting prog start cb w' q" if "q \<in> set Q" for q
    proof -
      have "q \<noteq> p" using out that by auto
      with facts(4) [OF that] resting_cong [OF heap] show ?thesis by blast
    qed
    show "resting prog start cb w' q" if "q \<in> set Q'" for q using that queue(2) rest [of q] by auto
    show "heap w' q = heap w q" if "j < length cs" "j \<noteq> i" "held (cs ! j) = Some q" for j q
    proof (rule heap)
      show "q \<noteq> p" using exclusiveD(2) [OF facts(3) i held(1) that(1)] that(2,3) by auto
    qed
    show "t_status t \<in> insert None (Some ` X)" if "heap w' q = Some t" for q t
      using that facts(6) [of q t] cells(1) [of t] heap [of q] by (cases "q = p") auto
  qed (use self ok cells in auto)
qed

section \<open>A step of one thread\<close>

text \<open>A thread waits, or takes a step that keeps the invariant; it never faults.\<close>

definition survives ::
  "('u \<Rightarrow> 'u uop) \<Rightarrow> (addr option \<Rightarrow> addr list \<Rightarrow> 'u) \<Rightarrow> ('u, 'z) userland \<Rightarrow> addr set
   \<Rightarrow> (addr \<Rightarrow> c_int) \<Rightarrow> tid \<Rightarrow> 'u control list \<Rightarrow> ('u, 'z) moved option \<Rightarrow> bool" where
  "survives prog start cb X m i cs r \<longleftrightarrow>
    r = None \<or> (\<exists>c w. r = Some (Inr (c, w)) \<and> mortal_ok prog start cb X m (cs[i := c], w))"

lemma survivesI:
  "r = Some (Inr (c, w)) \<Longrightarrow> mortal_inv prog start cb X m L Q (cs[i := c], w) \<Longrightarrow> survives prog start cb X m i cs r"
  unfolding survives_def mortal_ok_def by blast

lemma fetch_survives:
  assumes inv: "mortal_inv prog start cb X m L Q (cs, w)" and i: "i < length cs" "cs ! i = Looping"
  shows "survives prog start cb X m i cs (fetch_step i w)"
proof (cases Q)
  case Nil
  have "qhead (taskq w) = None" using mortal_inv_facts(1) [OF inv] Nil by (simp add: world_rep_def rep_defs)
  then show ?thesis by (simp add: fetch_step_def survives_def)
next
  case (Cons p Q')
  note facts = mortal_inv_facts [OF inv]
  obtain q where q: "queue_pop (\<lambda>q. (0, q)) QWAIT (taskq w) = Some (0, Some p, q)"
    "world_rep (w\<lparr>taskq := q\<rparr>) L Q'"
    by (rule world_rep_pop [OF facts(1) [unfolded Cons]])
  let ?w = "tls_set_task i (Some p) (w\<lparr>taskq := q\<rparr>)"
  have "qhead (taskq w) \<noteq> None" using facts(1) Cons by (simp add: world_rep_def rep_defs)
  then have step: "fetch_step i w = Some (Inr (Fetched p, ?w))" by (simp add: fetch_step_def q(1))
  have held: "held (cs ! i) = None" by (simp add: i(2))
  have self: "pcaio_self j ?w \<in> {None, if j = i then Some p else pcaio_self j w}" for j
    by (simp add: pcaio_self_def tls_set_task_def threadlocal_get_def threadlocal_set_def)
  have "mortal_inv prog start cb X m L Q' (cs[i := Fetched p], ?w)"
  proof (rule mortal_inv_update [OF inv i(1)])
    show "world_rep ?w L Q'" using q(2) by simp
    show "set Q' \<union> carried (cs[i := Fetched p]) \<subseteq> set L"
      using facts(2) by (simp add: Cons carried_take [OF i(1) held])
    show "exclusive (cs[i := Fetched p]) Q'"
      using exclusive_take [OF i(1) _ held, of p Q' "Fetched p"] facts(3) by (simp add: Cons)
    show "resting prog start cb ?w x" if "x \<in> set Q'" for x
      using facts(4) [of x] that resting_cong [of ?w x w] by (simp add: Cons)
    have "resting prog start cb ?w p" using facts(4) [of p] resting_cong [of ?w p w] by (simp add: Cons)
    then show "place_ok prog start cb i ?w (Fetched p)" using self [of i] by simp
    show "pcaio_self j ?w \<in> {None, pcaio_self j w}" if "j \<noteq> i" for j using self [of j] that by simp
    show "t_status t \<in> insert None (Some ` X)" if "heap ?w x = Some t" for x t using facts(6) [of x t] that by simp
    show "ints ?w x = m x" if "x \<notin> X" for x using facts(7) [OF that] by simp
  qed simp
  then show ?thesis by (rule survivesI [OF step])
qed

lemma resting_enters:
  assumes "resting prog start cb w p"
  shows "\<exists>u er. enter_step start cb i p w = Inr (Inside p (Run p u), w\<lparr>errno := er\<rparr>) \<and> active prog start cb w p u"
proof -
  from assms obtain s u where su: "job_rep start w (p, s, u)" "tame prog start cb u" by (auto simp: resting_def)
  then obtain t where t: "heap w p = Some t" "t_flags t = 0" "t_terminated t = None" "t_callback t = None" and
    "resumes start p t u" by (auto simp: resumes_def)
  from step_enter [OF t(1) this(5), of _ cb i]
  have "\<exists>er. enter_step start cb i p w = Inr (Inside p (Run p u), w\<lparr>errno := er\<rparr>)" by simp
  moreover have "active prog start cb w p u" using t su(2) by (simp add: active_def)
  ultimately show ?thesis by blast
qed

lemma enter_survives:
  assumes inv: "mortal_inv prog start cb X m L Q (cs, w)" and i: "i < length cs" "cs ! i = Fetched p"
  shows "survives prog start cb X m i cs (Some (enter_step start cb i p w))"
proof -
  note facts = mortal_inv_facts [OF inv]
  from facts(5) [OF i(1)] have self: "pcaio_self i w \<in> {None, Some p}" and rest: "resting prog start cb w p"
    by (simp_all add: i(2))
  from resting_enters [OF rest] obtain u er where
    step: "enter_step start cb i p w = Inr (Inside p (Run p u), w\<lparr>errno := er\<rparr>)" "active prog start cb w p u"
    by blast
  let ?w = "w\<lparr>errno := er\<rparr>"
  have "mortal_inv prog start cb X m L Q (cs[i := Inside p (Run p u)], ?w)"
  proof (rule mortal_inv_keep [OF inv i(1), where p = p])
    show "world_rep ?w L Q" using facts(1) by simp
    show "place_ok prog start cb i ?w (Inside p (Run p u))"
      using step(2) self active_cong [of ?w p w] by simp
    show "t_status t \<in> insert None (Some ` X)" if "heap ?w p = Some t" for t using facts(6) [of p t] that by simp
    show "ints ?w x = m x" if "x \<notin> X" for x using facts(7) [OF that] by simp
  qed (simp_all add: i(2))
  then show ?thesis by (rule survivesI [rotated]) (simp add: step(1))
qed

text \<open>\<open>pcaio_relaxA\<close> switches, or, when the storage keys are gone, returns -1 at once.\<close>

lemma relaxA_cases:
  assumes "pcaio_self i w \<in> {None, Some p}" "heap w p = Some t"
  obtains (stays) "pcaio_relaxA i 0 k f w = Inr (Returned (-1), w)"
    | (switches) c where "pcaio_relaxA i 0 k f w =
        Inr (Switched c, task_put p (t\<lparr>t_flags := t_flags t OR f, t_context := Saved k\<rparr>) w)"
proof (cases "pcaio_self i w = None \<or> threadlocal_get i (tls_context w) = None")
  case True
  then show thesis
    using stays relaxA_no_task [of i w 0 k f] relaxA_no_landing [of i w 0 k f] by (auto simp: pcaio_self_def)
next
  case False
  then show thesis using switches relaxA_switch [of i w p _ t k f] assms by (auto simp: pcaio_self_def)
qed

lemma relax_survives:
  assumes inv: "mortal_inv prog start cb X m L Q (cs, w)" and i: "i < length cs" "cs ! i = Inside p (Run p u)"
    and prog: "prog u = Relax 0 f" and rest: "\<And>e. tame prog start cb (f e)"
  shows "survives prog start cb X m i cs (Some (run_step prog cb i p (Run p u) w))"
proof -
  note facts = mortal_inv_facts [OF inv]
  from facts(5) [OF i(1)] have self: "pcaio_self i w \<in> {None, Some p}" and act: "active prog start cb w p u"
    by (simp_all add: i(2))
  then obtain t where t: "heap w p = Some t" "t_flags t = 0" "t_terminated t = None" "t_callback t = None"
    by (auto simp: active_def)
  from self t(1) show ?thesis
  proof (cases rule: relaxA_cases [where k = "Relaxed (f 0)" and f = 0])
    case stays
    then have step: "run_step prog cb i p (Run p u) w = Inr (Inside p (Run p (f (-1))), w)"
      by (simp add: prog relax_step_def)
    have "mortal_inv prog start cb X m L Q (cs[i := Inside p (Run p (f (-1)))], w)"
      by (rule mortal_inv_keep [OF inv i(1), where p = p])
        (use facts(1,6,7) self t rest in \<open>auto simp: i(2) active_def\<close>)
    then show ?thesis by (rule survivesI [rotated]) (simp only: step)
  next
    case (switches c)
    let ?w = "task_put p (t\<lparr>t_context := Saved (Relaxed (f 0))\<rparr>) w"
    from switches have step: "run_step prog cb i p (Run p u) w = Inr (Landed p 0, ?w)" by (simp add: prog relax_step_def)
    have "mortal_inv prog start cb X m L Q (cs[i := Landed p 0], ?w)"
    proof (rule mortal_inv_keep [OF inv i(1), where p = p])
      show "world_rep ?w L Q" using facts(1) t(1) by (simp add: world_rep_put)
      have "resting prog start cb ?w p"
        unfolding resting_def using rest [of 0] t by (intro exI [of _ "t_status t"] exI [of _ "f 0"]) auto
      then show "place_ok prog start cb i ?w (Landed p 0)" by simp
    qed (use facts(6) [of p t] facts(7) t(1) in \<open>simp_all add: i(2)\<close>)
    then show ?thesis by (rule survivesI [rotated]) (simp only: step)
  qed
qed

text \<open>A task returns: to the worker, or, without a landing context, out of the thread.\<close>

lemma return_survives:
  assumes inv: "mortal_inv prog start cb X m L Q (cs, w)" and i: "i < length cs" "cs ! i = Inside p (Run p u)"
    and prog: "prog u = Return e"
  shows "survives prog start cb X m i cs (Some (run_step prog cb i p (Run p u) w))"
proof -
  note facts = mortal_inv_facts [OF inv]
  from facts(5) [OF i(1)] obtain t where
    t: "heap w p = Some t" "t_flags t = 0" "t_terminated t = None" "t_callback t = None"
    by (auto simp: i(2) active_def)
  let ?t = "t\<lparr>t_flags := t_flags t OR TASK_TERMINATED\<rparr>"
  let ?w = "(case t_status t of None \<Rightarrow> id | Some a \<Rightarrow> ints_update (\<lambda>m. m(a := e))) (task_put p ?t w)"
  let ?c = "if threadlocal_get i (tls_context w) = None then Vanished else Landed p 0"
  have step: "run_step prog cb i p (Run p u) w = Inr (?c, ?w)"
    by (cases "threadlocal_get i (tls_context w)")
      (simp_all add: prog landing_step_def taskmain_finish_plain [OF t(1,3,4)])
  have same: "heap ?w = (heap w)(p := Some ?t)" "tasks ?w = tasks w" "taskq ?w = taskq w" "tls_task ?w = tls_task w"
    "ints ?w = (case t_status t of None \<Rightarrow> ints w | Some a \<Rightarrow> (ints w)(a := e))"
    by (simp_all split: option.splits)
  have "world_rep (task_put p ?t w) L Q" using facts(1) t(1) by (simp add: world_rep_put)
  then have rep: "world_rep ?w L Q" using world_rep_cong [of ?w "task_put p ?t w" L Q] same by simp
  have over: "over ?w p" using same(1) terminated_flag t(2) by (simp add: over_def)
  have cells: "t_status t' \<in> insert None (Some ` X)" if "heap ?w p = Some t'" for t'
    using that same(1) facts(6) [OF t(1)] by auto
  have ints: "ints ?w x = m x" if "x \<notin> X" for x
    using that facts(6) [OF t(1)] facts(7) [OF that] unfolding same(5) by auto
  have "mortal_inv prog start cb X m L Q (cs[i := Landed p 0], ?w)"
    by (rule mortal_inv_keep [OF inv i(1), where p = p]) (use rep over same cells ints i(2) in auto)
  moreover have "mortal_inv prog start cb X m L Q (cs[i := Vanished], ?w)"
    by (rule mortal_inv_drop [OF inv i(1), where p = p])
      (use rep same cells ints i(2) facts(2) in \<open>auto simp: pcaio_self_def\<close>)
  ultimately have "mortal_inv prog start cb X m L Q (cs[i := ?c], ?w)" by simp
  then show ?thesis by (rule survivesI [rotated]) (simp only: step)
qed

lemma create_survives:
  assumes inv: "mortal_inv prog start cb X m L Q (cs, w)" and i: "i < length cs" "cs ! i = Inside p (Run p u)"
    and prog: "prog u = Call n f" and new: "creates cb n g argc va" "argc \<le> 6"
    and child: "tame prog start cb (start (Some g) (take argc va))" and rest: "\<And>r. tame prog start cb (f r)"
  shows "survives prog start cb X m i cs (Some (run_step prog cb i p (Run p u) w))"
proof -
  note facts = mortal_inv_facts [OF inv]
  from facts(5) [OF i(1)] have self: "pcaio_self i w \<in> {None, Some p}" and act: "active prog start cb w p u"
    by (simp_all add: i(2))
  have acts: "active prog start cb w' p (f r)" if "heap w' p = heap w p" for w' r
    using act rest that by (simp add: active_def)
  show ?thesis
  proof (cases rule: create_outcome [where i = i and start = start, OF new(1) facts(1) new(2)])
    case failed: (1 r w')
    have step: "run_step prog cb i p (Run p u) w = Inr (Inside p (Run p (f r)), w')" by (simp add: prog failed(1))
    have "mortal_inv prog start cb X m L Q (cs[i := Inside p (Run p (f r))], w')"
      by (rule mortal_inv_keep [OF inv i(1), where p = p])
        (use failed acts [of w'] self facts(6) [of p] facts(7) in \<open>simp_all add: i(2) pcaio_self_def\<close>)
    then show ?thesis by (rule survivesI [rotated]) (simp only: step)
  next
    case created: (2 q r w')
    have step: "run_step prog cb i p (Run p u) w = Inr (Inside p (Run p (f r)), w')" by (simp add: prog created(1))
    have same: "held (Inside p (Run p (f r))) = held (cs ! i)" by (simp add: i(2))
    have "q \<notin> set L" using world_rep_members [OF facts(1), of q] created(2) by simp
    then have out: "q \<notin> set Q" "q \<notin> carried cs" using facts(2) by auto
    have ne: "x \<noteq> q" if "j < length cs" "held (cs ! j) = Some x" for j x
      using carriedI [OF that] out(2) by auto
    have pq: "p \<noteq> q" using ne [OF i(1)] by (simp add: i(2))
    obtain t where t: "heap w' q = Some t" "t_status t = None" using created(6) by auto
    have "mortal_inv prog start cb X m (L @ [q]) (Q @ [q]) (cs[i := Inside p (Run p (f r))], w')"
    proof (rule mortal_inv_update [OF inv i(1) created(3)])
      show "set (Q @ [q]) \<union> carried (cs[i := Inside p (Run p (f r))]) \<subseteq> set (L @ [q])"
        using facts(2) carried_keep [OF same] by auto
      have "exclusive cs (Q @ [q])" using facts(3) out ne by (auto simp: exclusive_def)
      then show "exclusive (cs[i := Inside p (Run p (f r))]) (Q @ [q])" using exclusive_keep [OF same] by blast
      have "resting prog start cb w' q"
        unfolding resting_def using created(6) child
        by (intro exI [of _ None] exI [of _ "start (Some g) (take argc va)"]) simp
      moreover have "resting prog start cb w' x" if "x \<in> set Q" for x
        using facts(4) [OF that] resting_cong [OF created(4)] that out(1) by metis
      ultimately show "resting prog start cb w' x" if "x \<in> set (Q @ [q])" for x using that by auto
      show "heap w' x = heap w x" if "j < length cs" "j \<noteq> i" "held (cs ! j) = Some x" for j x
        using created(4) ne that by blast
      show "place_ok prog start cb i w' (Inside p (Run p (f r)))"
        using acts [of w'] self created(4) [OF pq] created(8) by (simp add: pcaio_self_def)
      show "t_status t' \<in> insert None (Some ` X)" if "heap w' x = Some t'" for x t'
        using that t created(4) [of x] facts(6) [of x t'] by (cases "x = q") auto
    qed (use facts(7) created(7,8) in \<open>simp_all add: pcaio_self_def\<close>)
    then show ?thesis by (rule survivesI [rotated]) (simp only: step)
  qed
qed

lemma run_survives:
  assumes inv: "mortal_inv prog start cb X m L Q (cs, w)" and i: "i < length cs" "cs ! i = Inside p pl"
  shows "survives prog start cb X m i cs (Some (run_step prog cb i p pl w))"
proof -
  note facts = mortal_inv_facts [OF inv]
  from facts(5) [OF i(1)] obtain u where u: "pl = Run p u" "active prog start cb w p u"
    and self: "pcaio_self i w \<in> {None, Some p}" by (auto simp: i(2))
  note at = i(2) [unfolded u(1)]
  from u(2) have "tame prog start cb u" by (simp add: active_def)
  then show ?thesis
  proof (cases rule: tame.cases)
    case returns
    then show ?thesis unfolding u(1) by (rule return_survives [OF inv i(1) at])
  next
    case relaxes
    then show ?thesis unfolding u(1) by (rule relax_survives [OF inv i(1) at])
  next
    case (asks f)
    have step: "run_step prog cb i p (Run p u) w = Inr (Inside p (Run p (f (pcaio_self i w))), w)"
      by (simp add: asks(1))
    have "mortal_inv prog start cb X m L Q (cs[i := Inside p (Run p (f (pcaio_self i w)))], w)"
      by (rule mortal_inv_keep [OF inv i(1), where p = p])
        (use facts(1,6,7) self u(2) asks(2) in \<open>auto simp: i(2) active_def\<close>)
    then show ?thesis unfolding u(1) by (rule survivesI [rotated]) (simp only: step)
  next
    case (spawns n f g argc va)
    then show ?thesis unfolding u(1) by (intro create_survives [OF inv i(1) at])
  qed
qed

lemma land_survives:
  assumes inv: "mortal_inv prog start cb X m L Q (cs, w)" and i: "i < length cs" "cs ! i = Landed p ret"
  shows "survives prog start cb X m i cs (Some (land_step i p ret w))"
proof -
  note facts = mortal_inv_facts [OF inv]
  from facts(5) [OF i(1)] have ret: "ret = 0" and what: "resting prog start cb w p \<or> over w p"
    by (simp_all add: i(2))
  have held: "held (cs ! i) = Some p" "held (Looping :: 'a control) = None" by (simp_all add: i(2))
  note out = exclusiveD(1) [OF facts(3) i(1) held(1)]
  have pL: "p \<in> set L" using facts(2) carriedI [OF i(1) held(1)] by auto
  from what show ?thesis
  proof
    assume rest: "resting prog start cb w p"
    then obtain t where t: "heap w p = Some t" "t_flags t = 0" by (auto simp: resting_def)
    from back_ready [OF facts(1) out t(1), of i] t(2) obtain w' where
      w': "worker_back i p 0 w = Inr (Again, w')" "world_rep w' L (Q @ [p])" "heap w' = heap w" "ints w' = ints w"
      by auto
    have step: "Some (land_step i p ret w) = Some (Inr (Looping, w'))" by (simp add: land_step_def settle_def ret w'(1))
    have "mortal_inv prog start cb X m L (Q @ [p]) (cs[i := Looping], w')"
    proof (rule mortal_inv_drop [OF inv i(1) held w'(2)])
      show "Q @ [p] = Q \<or> Q @ [p] = Q @ [p] \<and> resting prog start cb w' p"
        using rest resting_cong [of w' p w] w'(3) by simp
      show "pcaio_self j w' \<in> {None, pcaio_self j w}" if "j \<noteq> i" for j using back_self [OF w'(1) that] by simp
      show "t_status t' \<in> insert None (Some ` X)" if "heap w' p = Some t'" for t' using facts(6) [of p t'] that w'(3) by simp
    qed (use facts(2,7) pL w' in auto)
    then show ?thesis by (rule survivesI [OF step])
  next
    assume "over w p"
    then obtain t where t: "heap w p = Some t" "t_flags t AND TASK_TERMINATED \<noteq> 0" by (auto simp: over_def)
    from back_terminated [OF facts(1) out t, of i] obtain w' where
      w': "worker_back i p 0 w = Inr (Again, w')" "world_rep w' (remove1 p L) Q"
        "heap w' = (heap w)(p := None)" "ints w' = ints w" by auto
    have step: "Some (land_step i p ret w) = Some (Inr (Looping, w'))" by (simp add: land_step_def settle_def ret w'(1))
    have "distinct L" using facts(1) by (simp add: world_rep_def rep_defs)
    then have L: "set (remove1 p L) = set L - {p}" by simp
    have "mortal_inv prog start cb X m (remove1 p L) Q (cs[i := Looping], w')"
    proof (rule mortal_inv_drop [OF inv i(1) held w'(2)])
      show "set Q \<subseteq> set (remove1 p L)" using L facts(2) out by auto
      show "pcaio_self j w' \<in> {None, pcaio_self j w}" if "j \<noteq> i" for j using back_self [OF w'(1) that] by simp
    qed (use L facts(7) w' in auto)
    then show ?thesis by (rule survivesI [OF step])
  qed
qed

lemma thread_survives:
  assumes inv: "mortal_inv prog start cb X m L Q (cs, w)" and i: "i < length cs"
  shows "survives prog start cb X m i cs (thread_step prog start cb i (cs ! i) w)"
proof (cases "cs ! i")
  case Looping
  then show ?thesis using fetch_survives [OF inv i Looping] by simp
next
  case (Fetched p)
  then show ?thesis using enter_survives [OF inv i Fetched] by simp
next
  case (Inside p pl)
  then show ?thesis using run_survives [OF inv i Inside] by simp
next
  case (Landed p ret)
  then show ?thesis using land_survives [OF inv i Landed] by simp
qed (simp_all add: survives_def)

section \<open>Every run\<close>

text \<open>A worker leaves; the storage keys go with it.\<close>

lemma cleanup_no_self: "pcaio_self j (worker_cleanup w) = None"
  by (simp add: pcaio_self_def worker_cleanup_def)

lemma leave_ok:
  assumes inv: "mortal_inv prog start cb X m L Q (cs, w)" and i: "i < length cs"
  shows "mortal_inv prog start cb X m L Q (cs[i := Stopped (-1)], worker_cleanup w)"
proof -
  note facts = mortal_inv_facts [OF inv]
  have same: "heap (worker_cleanup w) = heap w" "ints (worker_cleanup w) = ints w" by (simp_all add: worker_cleanup_def)
  show ?thesis
  proof (rule mortal_inv_update [OF inv i cleanup_rep [OF facts(1)]])
    have "carried (cs[i := Stopped (-1)]) \<subseteq> carried cs"
      using carried_update [OF i] carried_split [OF i] by auto
    then show "set Q \<union> carried (cs[i := Stopped (-1)]) \<subseteq> set L" using facts(2) by blast
    show "exclusive (cs[i := Stopped (-1)]) Q" by (rule exclusive_drop [OF i facts(3)]) simp
    show "resting prog start cb (worker_cleanup w) q" if "q \<in> set Q" for q
      using facts(4) [OF that] resting_cong [of "worker_cleanup w" q w] same by simp
    show "t_status t \<in> insert None (Some ` X)" if "heap (worker_cleanup w) p = Some t" for p t
      using facts(6) [of p t] that same by simp
  qed (use facts(7) same in \<open>simp_all add: cleanup_no_self\<close>)
qed

lemma mortal_ok_step:
  assumes "mortal_step prog start cb s s'" "mortal_ok prog start cb X m s"
  shows "mortal_ok prog start cb X m s'"
  using assms
proof (induction rule: mortal_step.induct)
  case (moves s s')
  from moves show ?case
  proof (induction rule: sys_step.induct)
    case (move i cs w c w')
    from move(3) obtain L Q where inv: "mortal_inv prog start cb X m L Q (cs, w)" by (auto simp: mortal_ok_def)
    from thread_survives [OF inv move(1)] move(2) show ?case by (simp add: survives_def)
  qed
next
  case (leaves i cs w)
  then show ?case using leave_ok by (metis mortal_ok_def)
qed

lemma mortal_ok_reach:
  "(mortal_step prog start cb)\<^sup>*\<^sup>* s s' \<Longrightarrow> mortal_ok prog start cb X m s \<Longrightarrow> mortal_ok prog start cb X m s'"
  by (induction rule: rtranclp_induct) (auto intro: mortal_ok_step)

lemma mortal_ok_no_fault: "mortal_ok prog start cb X m s \<Longrightarrow> \<not> sys_faults prog start cb s"
proof
  assume ok: "mortal_ok prog start cb X m s" and fault: "sys_faults prog start cb s"
  obtain cs w where s: "s = (cs, w)" by (cases s)
  from fault obtain i e where i: "i < length cs" "thread_step prog start cb i (cs ! i) w = Some (Inl e)"
    by (auto simp: sys_faults_def s)
  from ok obtain L Q where "mortal_inv prog start cb X m L Q (cs, w)" by (auto simp: mortal_ok_def s)
  from thread_survives [OF this i(1)] i(2) show False by (simp add: survives_def)
qed

section \<open>The master\<close>

text \<open>The workers move and leave; the signal handler may have run meanwhile.\<close>

definition crew_dies ::
  "('u \<Rightarrow> 'u uop) \<Rightarrow> (addr option \<Rightarrow> addr list \<Rightarrow> 'u)
   \<Rightarrow> ('u, unit) userland
   \<Rightarrow> ('u, 'z) program_scheme \<Rightarrow> ('u, 'z) program_scheme \<Rightarrow> bool" where
  "crew_dies prog start cb s s' \<longleftrightarrow>
    (\<exists>cs w. (mortal_step prog start cb)\<^sup>*\<^sup>* (crew s) (cs, w) \<and> s' = put_crew cs w s)"

text \<open>What is relied on: no pthread call fails; in \<open>pthread_cancel\<close> and \<open>pthread_join\<close> the
  workers move on, and those that have been cancelled leave; and the signal comes at last, after
  any number of calls of \<open>usleep\<close>.\<close>

definition mortal_threads ::
  "('u \<Rightarrow> 'u uop) \<Rightarrow> (addr option \<Rightarrow> addr list \<Rightarrow> 'u)
   \<Rightarrow> ('u, unit) userland
   \<Rightarrow> ('u, 'z) program_scheme pthreads \<Rightarrow> bool" where
  "mortal_threads prog start cb pt \<longleftrightarrow>
    (\<forall>s. \<exists>h s1 s'. pt_create pt s = (0, h, s') \<and> crew_runs prog start cb (spawn s) s1 \<and> s' \<in> {s1, signal_handler s1}) \<and>
    (\<forall>h s. \<exists>s1 s'. pt_cancel pt h s = (0, s') \<and> crew_dies prog start cb s s1 \<and> s' \<in> {s1, signal_handler s1}) \<and>
    (\<forall>h s. \<exists>s1 s'. pt_join pt h s = (0, s') \<and> crew_dies prog start cb s s1 \<and> s' \<in> {s1, signal_handler s1})"

definition interrupting ::
  "('u \<Rightarrow> 'u uop) \<Rightarrow> (addr option \<Rightarrow> addr list \<Rightarrow> 'u)
   \<Rightarrow> ('u, unit) userland
   \<Rightarrow> (c_uint \<Rightarrow> ('u, 'z) program_scheme \<Rightarrow> ('u, 'z) program_scheme) \<Rightarrow> bool" where
  "interrupting prog start cb sleep \<longleftrightarrow>
    (\<forall>t s. (\<exists>s1. crew_runs prog start cb s s1 \<and> sleep t s \<in> {s1, signal_handler s1}) \<and>
      (\<exists>k. cancel ((sleep t ^^ k) s)))"

text \<open>The master's fields that neither workers nor the signal handler touch.\<close>

definition firm ::
  "('u \<Rightarrow> 'u uop) \<Rightarrow> (addr option \<Rightarrow> addr list \<Rightarrow> 'u) \<Rightarrow> ('u, unit) userland \<Rightarrow> addr set
   \<Rightarrow> (addr \<Rightarrow> c_int) \<Rightarrow> c_ushort \<Rightarrow> threadpool \<Rightarrow> ('u, 'z) program_scheme \<Rightarrow> bool" where
  "firm prog start cb X m n tp s \<longleftrightarrow> mortal_ok prog start cb X m (crew s) \<and>
    workers s = n \<and> modulescount s = 0 \<and> pool s = tp"

lemma mortal_cong:
  assumes "heap w' = heap w" "tasks w' = tasks w" "taskq w' = taskq w" "tls_task w' = tls_task w" "ints w' = ints w"
  shows "mortal_ok prog start cb X m (cs, w') \<longleftrightarrow> mortal_ok prog start cb X m (cs, w)"
proof -
  have "place_ok prog start cb i w' c \<longleftrightarrow> place_ok prog start cb i w c" for i c
    using assms(1,4)
    by (cases c) (simp_all add: pcaio_self_def resting_cong [of w' _ w] active_cong [of w' _ w] over_cong [of w' _ w])
  moreover have "resting prog start cb w' q \<longleftrightarrow> resting prog start cb w q" for q
    using assms(1) by (simp add: resting_cong [of w' q w])
  ultimately show ?thesis
    using assms world_rep_cong [of w' w] by (simp add: mortal_ok_def mortal_inv_def)
qed

lemma runs_dies: "crew_runs prog start cb s s' \<Longrightarrow> crew_dies prog start cb s s'"
proof -
  have "(sys_step prog start cb)\<^sup>*\<^sup>* s s' \<Longrightarrow> (mortal_step prog start cb)\<^sup>*\<^sup>* s s'" for s s' :: "('a, unit) system"
    by (induction rule: rtranclp_induct) (auto intro: moves rtranclp.rtrancl_into_rtrancl)
  then show "crew_runs prog start cb s s' \<Longrightarrow> crew_dies prog start cb s s'"
    unfolding crew_runs_def crew_dies_def by blast
qed

lemma crew_signal [simp]: "crew (signal_handler s) = crew s"
  by (simp add: signal_handler_def crew_def world.truncate_def)

lemma firm_dies:
  assumes "crew_dies prog start cb s s1" "s' \<in> {s1, signal_handler s1}" "firm prog start cb X m n tp s"
  shows "firm prog start cb X m n tp s'"
proof -
  from assms(1) obtain cs w where run: "(mortal_step prog start cb)\<^sup>*\<^sup>* (crew s) (cs, w)" "s1 = put_crew cs w s"
    by (auto simp: crew_dies_def)
  from mortal_ok_reach [OF run(1)] assms(3) have "mortal_ok prog start cb X m (cs, w)" by (simp add: firm_def)
  with run(2) assms(2,3) show ?thesis by (auto simp: firm_def signal_handler_def) (metis crew_signal crew_put_crew signal_handler_def)
qed

lemma firm_spawn: "firm prog start cb X m n tp s \<Longrightarrow> firm prog start cb X m n tp (spawn s)"
proof -
  assume firm: "firm prog start cb X m n tp s"
  then obtain L Q where inv: "mortal_inv prog start cb X m L Q (controls s, world.truncate s)"
    by (auto simp: firm_def mortal_ok_def crew_def)
  have "carried (controls s @ [Looping]) = carried (controls s)"
    by (auto simp: carried_def nth_append less_Suc_eq split: if_splits)
  moreover have "exclusive (controls s @ [Looping]) Q"
    using mortal_inv_facts(3) [OF inv] by (auto simp: exclusive_def nth_append less_Suc_eq)
  ultimately have "mortal_inv prog start cb X m L Q (controls s @ [Looping], world.truncate s)"
    using inv by (auto simp: mortal_inv_def nth_append less_Suc_eq)
  then have "mortal_ok prog start cb X m (controls s @ [Looping], world.truncate s)" unfolding mortal_ok_def by blast
  then have "mortal_ok prog start cb X m (crew (spawn s))"
    using mortal_cong [of "world.truncate (spawn s)" "world.truncate s" prog start cb X m "controls s @ [Looping]"]
    by (simp add: crew_def spawn_def Let_def)
  with firm show ?thesis by (simp add: firm_def spawn_def Let_def)
qed

lemma master_loop_stops: "\<not> (\<not> cancel s \<and> lcount (tasks s) \<noteq> 0) \<Longrightarrow> master_loop mf sleep any s = Some (Inr s)"
  by (subst master_loop.simps) (rule if_not_P)

lemma firm_loop:
  assumes time: "interrupting prog start cb sleep"
  shows "firm prog start cb X m n tp s \<Longrightarrow> cancel ((sleep TIMEOUT_LONG ^^ k) s) \<Longrightarrow>
    \<exists>s'. master_loop mf sleep False s = Some (Inr s') \<and> firm prog start cb X m n tp s'"
proof (induction k arbitrary: s)
  case 0
  then have "master_loop mf sleep False s = Some (Inr s)" by (subst master_loop.simps) simp
  with 0 show ?case by blast
next
  case (Suc k)
  show ?case
  proof (cases "\<not> cancel s \<and> lcount (tasks s) \<noteq> 0")
    case False
    then have "master_loop mf sleep False s = Some (Inr s)" by (rule master_loop_stops)
    with Suc.prems(1) show ?thesis by blast
  next
    case True
    let ?s = "sleep TIMEOUT_LONG s"
    from time obtain s1 where "crew_runs prog start cb s s1" "?s \<in> {s1, signal_handler s1}"
      by (meson interrupting_def)
    from firm_dies [OF runs_dies [OF this(1)] this(2) Suc.prems(1)] have firm: "firm prog start cb X m n tp ?s" .
    have "cancel ((sleep TIMEOUT_LONG ^^ k) ?s)" using Suc.prems(2) by (simp add: funpow_swap1)
    from Suc.IH [OF firm this] obtain s' where
      s': "master_loop mf sleep False ?s = Some (Inr s')" "firm prog start cb X m n tp s'" by blast
    have "tick_modules mf TIMEOUT_LONG 0 False ?s = Inr (False, ?s)" using firm by (intro tick_none) (simp add: firm_def)
    with True have "master_loop mf sleep False s = master_loop mf sleep False ?s" by (subst master_loop.simps) simp
    with s' show ?thesis by auto
  qed
qed

lemma firm_loop_first:
  assumes time: "interrupting prog start cb sleep" and firm: "firm prog start cb X m n tp s"
  shows "\<exists>s'. master_loop mf sleep True s = Some (Inr s') \<and> firm prog start cb X m n tp s'"
proof (cases "\<not> cancel s \<and> lcount (tasks s) \<noteq> 0")
  case False
  then have "master_loop mf sleep True s = Some (Inr s)" by (rule master_loop_stops)
  with firm show ?thesis by blast
next
  case True
  have "tick_modules mf TIMEOUT_SHORT 0 False s = Inr (False, s)" using firm by (intro tick_none) (simp add: firm_def)
  with True have "master_loop mf sleep True s = master_loop mf sleep False s" by (subst master_loop.simps) simp
  moreover from time obtain k where "cancel ((sleep TIMEOUT_LONG ^^ k) s)" by (meson interrupting_def)
  ultimately show ?thesis using firm_loop [OF time firm] by simp
qed

lemma master_free_more:
  fixes w :: "('k, 'z) world_scheme"
  assumes "master_free w = Some (Inr w')" shows "world.more w' = world.more w"
proof -
  define P where "P = (\<lambda>(w :: ('k, 'z) world_scheme) (r :: fault + ('k, 'z) world_scheme). \<forall>v. r = Inr v \<longrightarrow> world.more v = world.more w)"
  have free: "world.more w2 = world.more w1" if "task_free tp w1 = Inr w2" for tp and w1 w2 :: "('k, 'z) world_scheme"
    using that by (auto simp: task_free_def Let_def and_then_Inr heap_free_def split: option.splits)
  have "P w (Inr w')"
  proof (rule master_free.raw_induct [where P = P, OF _ assms])
    fix loop and w :: "('k, 'z) world_scheme" and r
    assume IH: "\<And>w r. loop w = Some r \<Longrightarrow> P w r"
      and eq: "(case list_pop True (tasks w) of
         Inl e \<Rightarrow> Some (Inl e)
       | Inr (rc, tp, l) \<Rightarrow>
          if rc \<noteq> 0 then Some (Inr (w\<lparr>tasks := l\<rparr>))
          else (case task_free tp (w\<lparr>tasks := l\<rparr>) of
              Inl e \<Rightarrow> Some (Inl e)
            | Inr w \<Rightarrow> loop w)) = Some r"
    show "P w r"
      using eq IH free by (fastforce simp: P_def split: sum.splits prod.splits if_splits)
  qed
  then show ?thesis by (simp add: P_def)
qed

text \<open>From the first worker to the last task freed.\<close>

lemma master_interrupted:
  assumes threads: "mortal_threads prog start cb pt" and time: "interrupting prog start cb sleep"
    and firm: "firm prog start cb X m n (pool s) s" and pool: "tp_count (pool s) = 0"
    and array: "tp_threads (pool s) = Some arr" "unat n \<le> length arr"
  shows "\<exists>s'. master mf pt sleep i s = Some (Inr (0, s')) \<and> (\<forall>p. heap s' p = None) \<and>
    (\<forall>x. x \<notin> X \<longrightarrow> ints s' x = m x) \<and> modulescount s' = 0 \<and> tp_count (pool s') = 0"
proof -
  let ?firm = "firm prog start cb X m n"
  have create: "\<exists>h e'. pt_create pt e = (0, h, e') \<and> ?firm tp e'" if "?firm tp e" for tp e
  proof -
    from threads obtain h s1 s' where "pt_create pt e = (0, h, s')" "crew_runs prog start cb (spawn e) s1"
      "s' \<in> {s1, signal_handler s1}" unfolding mortal_threads_def by meson
    with firm_dies [OF runs_dies _ firm_spawn [OF that]] show ?thesis by blast
  qed
  have stop: "\<exists>e'. pt_cancel pt h e = (0, e') \<and> ?firm tp e'" "\<exists>e'. pt_join pt h e = (0, e') \<and> ?firm tp e'"
    if "?firm tp e" for h tp e
    using threads firm_dies [OF _ _ that] unfolding mortal_threads_def by meson+
  from scale_up_runs [of "\<lambda>_. ?firm (pool s)" pt s "pool s" arr n, OF create firm pool array] obtain tp1 e1 arr1 where
    e1: "threadpool_scale pt n (pool s) s = Inr (0, None, tp1, e1)" "?firm (pool s) e1" "tp_count tp1 = n"
      "tp_threads tp1 = Some arr1" "length arr1 = length arr" by blast
  let ?s1 = "e1\<lparr>pool := tp1, tls_context := snd (snd (threadlocal_set 0 i None (tls_context e1)))\<rparr>"
  have "?firm tp1 ?s1"
    using e1(2) mortal_cong [of "world.truncate ?s1" "world.truncate e1" prog start cb X m "controls e1"]
    by (simp add: firm_def crew_def)
  from firm_loop_first [OF time this] obtain s2 where
    s2: "master_loop mf sleep True ?s1 = Some (Inr s2)" "?firm tp1 s2" by blast
  have pool2: "pool s2 = tp1" using s2(2) by (simp add: firm_def)
  have room: "unat (tp_count tp1) \<le> length arr1" using e1(3,5) array(2) by simp
  from scale_down_runs [of "?firm tp1" pt s2 tp1 arr1, OF stop s2(2) e1(4) room] obtain tp3 e3 where
    e3: "threadpool_scale pt 0 tp1 s2 = Inr (0, None, tp3, e3)" "?firm tp1 e3" "tp_count tp3 = 0" by blast
  let ?s3 = "e3\<lparr>pool := tp3\<rparr>"
  from e3(2) obtain L Q where inv: "mortal_inv prog start cb X m L Q (controls e3, world.truncate e3)"
    by (auto simp: firm_def mortal_ok_def crew_def)
  have "world_rep ?s3 L Q" using mortal_inv_facts(1) [OF inv] world_rep_cong [of ?s3 "world.truncate e3"] by simp
  from master_free_spec [OF world_rep_draining [OF this]] obtain s4 where
    s4: "master_free ?s3 = Some (Inr s4)" "draining s4 []" "ints s4 = ints e3" by auto
  have more: "world.more s4 = world.more ?s3" by (rule master_free_more [OF s4(1)])
  then have "modulescount s4 = modulescount ?s3" "pool s4 = pool ?s3" by (cases s4; cases e3; simp)+
  then have "modulescount s4 = 0" "tp_count (pool s4) = 0" using e3(2,3) by (simp_all add: firm_def)
  moreover have "\<forall>p. heap s4 p = None" using s4(2) by (auto simp: draining_def)
  moreover have "\<forall>x. x \<notin> X \<longrightarrow> ints s4 x = m x" using s4(3) mortal_inv_facts(7) [OF inv] by simp
  moreover have "master mf pt sleep i s = Some (Inr (0, s4))"
    using firm e1(1) s2(1) e3(1) s4(1) pool2
    by (simp add: master_def scale_pool_def set_errno_def firm_def Let_def)
  ultimately show ?thesis by blast
qed

section \<open>The start\<close>

lemma mortal_starts:
  assumes rep: "world_rep w L (map fst js)" "set L = fst ` set js"
    and jobs: "\<forall>j \<in> set js. job_rep start w j" "\<forall>(p, x, u) \<in> set js. tame prog start cb u"
    and cs: "set cs \<subseteq> {Looping}"
  shows "mortal_ok prog start cb (statuses js) (ints w) (cs, w)"
proof -
  have loop: "cs ! i = Looping" if "i < length cs" for i using cs nth_mem [OF that] by blast
  then have none: "carried cs = {}" by (auto simp: carried_def)
  have queue: "distinct (map fst js)" "set (map fst js) \<subseteq> set L"
    using rep by (auto simp: world_rep_def rep_defs)
  have "exclusive cs (map fst js)" using queue(1) loop by (simp add: exclusive_def)
  moreover have "resting prog start cb w q" if "q \<in> set (map fst js)" for q
  proof -
    from that obtain x u where "(q, x, u) \<in> set js" by auto
    with jobs show ?thesis unfolding resting_def by blast
  qed
  moreover have "t_status t \<in> insert None (Some ` statuses js)" if "heap w q = Some t" for q t
  proof -
    have "q \<in> set L" using world_rep_members [OF rep(1), of q] that by simp
    then obtain x u where j: "(q, x, u) \<in> set js" using rep(2) by auto
    with jobs(1) that have "t_status t = x" by fastforce
    with j show ?thesis by (cases x) (auto simp: statuses_def)
  qed
  ultimately have "mortal_inv prog start cb (statuses js) (ints w) L (map fst js) (cs, w)"
    using rep(1) queue(2) none loop by (simp add: mortal_inv_def)
  then show ?thesis unfolding mortal_ok_def by blast
qed

section \<open>A sample\<close>

text \<open>A task that never ends. The signal comes in the first \<open>usleep\<close>, after a step of a worker;
  the worker that is joined leaves if it can.\<close>

definition spin :: "nat \<Rightarrow> nat uop" where
  "spin u = Relax 0 (\<lambda>_. u)"

lemma spin_tame: "tame spin start cb u"
proof (coinduction arbitrary: u)
  case tame
  then show ?case by (auto simp: spin_def)
qed

definition leave_one :: "nat \<Rightarrow> 'u program \<Rightarrow> 'u program" where
  "leave_one i s =
    (if i < length (controls s) \<and> cancellable (controls s ! i)
     then put_crew ((controls s)[i := Stopped (-1)]) (worker_cleanup (world.truncate s)) s else s)"

definition leaving_threads ::
  "('u \<Rightarrow> 'u uop) \<Rightarrow> (addr option \<Rightarrow> addr list \<Rightarrow> 'u)
   \<Rightarrow> ('u, unit) userland \<Rightarrow> 'u program pthreads" where
  "leaving_threads prog start cb =
    \<lparr>pt_create = (\<lambda>s. (0, length (controls s), nudged prog start cb (spawn s))),
     pt_cancel = (\<lambda>h s. (0, s)), pt_join = (\<lambda>h s. (0, leave_one h s)), pt_kill = (\<lambda>h sig s. (0, s))\<rparr>"

lemma leave_one_dies: "crew_dies prog start cb s (leave_one i s)"
proof (cases "i < length (controls s) \<and> cancellable (controls s ! i)")
  case True
  then have "mortal_step prog start cb (crew s) ((controls s)[i := Stopped (-1)], worker_cleanup (world.truncate s))"
    unfolding crew_def by (intro leaves) simp_all
  then show ?thesis using True by (auto simp: crew_dies_def leave_one_def)
next
  case False
  have "s = put_crew (controls s) (world.truncate s) s"
    by (cases s) (simp add: put_crew_def world.truncate_def)
  with False show ?thesis by (auto simp: crew_dies_def leave_one_def crew_def)
qed

lemma leaving_threads_laws: "mortal_threads prog start cb (leaving_threads prog start cb)"
proof -
  have "crew_dies prog start cb s s" for s :: "'a program" using leave_one_dies [of prog start cb s "length (controls s)"]
    by (simp add: leave_one_def)
  then show ?thesis using nudged_runs leave_one_dies by (fastforce simp: mortal_threads_def leaving_threads_def)
qed

lemma nudged_interrupts: "interrupting prog start cb (\<lambda>t s. signal_handler (nudged prog start cb s))"
proof -
  have "cancel (((\<lambda>s. signal_handler (nudged prog start cb s)) ^^ 1) s)" for s :: "'a program"
    by (simp add: signal_handler_def)
  then show ?thesis using nudged_runs unfolding interrupting_def by blast
qed

section \<open>Properties\<close>





text \<open>Property C37. The first worker to leave strands the others: its cleanup handler deletes the
  storage keys of the whole process, so that in another worker \<open>pcaio_relaxA\<close> fails at once
  and the task goes on without having yielded, and that when it returns, the task is not freed and its
  thread ends without its own cleanup.\<close>

theorem leaving_strands_others:
  assumes "heap w p = Some t" "t_terminated t = None" "t_callback t = None"
    and "pcaio_self j w = Some p" "threadlocal_get j (tls_context w) = Some j"
  shows "(prog u = Relax f k \<longrightarrow>
      (\<exists>w'. thread_step prog start cb j (Inside p (Run p u)) w = Some (Inr (Landed p 0, w'))) \<and>
      thread_step prog start cb j (Inside p (Run p u)) (worker_cleanup w) =
        Some (Inr (Inside p (Run p (k (-1))), worker_cleanup w))) \<and>
    (prog u = Return e \<longrightarrow>
      (\<exists>w'. thread_step prog start cb j (Inside p (Run p u)) w = Some (Inr (Landed p 0, w'))) \<and>
      (\<exists>w'. thread_step prog start cb j (Inside p (Run p u)) (worker_cleanup w) = Some (Inr (Vanished, w')) \<and>
        over w' p))"
proof (intro conjI impI)
  let ?w = "worker_cleanup w"
  have gone: "threadlocal_get j (tls_task ?w) = None" "threadlocal_get j (tls_context ?w) = None" "heap ?w p = Some t"
    using assms(1) by (simp_all add: worker_cleanup_def)
  have "(t_flags t OR TASK_TERMINATED) AND TASK_TERMINATED = TASK_TERMINATED"
    by (rule bit_word_eqI) (auto simp: bit_simps)
  then have flag: "(t_flags t OR TASK_TERMINATED) AND TASK_TERMINATED \<noteq> 0" by (simp add: TASK_TERMINATED_def)
  show "\<exists>w'. thread_step prog start cb j (Inside p (Run p u)) w = Some (Inr (Landed p 0, w'))" if "prog u = Relax f k"
    using relaxA_switch [OF _ assms(5,1)] assms(4) that by (simp add: pcaio_self_def relax_step_def)
  show "thread_step prog start cb j (Inside p (Run p u)) ?w = Some (Inr (Inside p (Run p (k (-1))), ?w))"
    if "prog u = Relax f k"
    using relaxA_no_task [OF gone(1)] that by (simp add: relax_step_def)
  show "\<exists>w'. thread_step prog start cb j (Inside p (Run p u)) w = Some (Inr (Landed p 0, w'))" if "prog u = Return e"
    using taskmain_finish_plain [OF assms(1-3)] assms(5) that by (simp add: landing_step_def)
  show "\<exists>w'. thread_step prog start cb j (Inside p (Run p u)) ?w = Some (Inr (Vanished, w')) \<and> over w' p"
    if "prog u = Return e"
    using taskmain_finish_plain [OF gone(3) assms(2,3)] gone(2) flag that
    by (auto simp: landing_step_def over_def split: option.splits)
qed

theorem leaving_strands_others_witness:
  "\<exists>w w' :: nat frame world. pcaio_self 3 w = Some 64 \<and>
    thread_step prog_gather start2 no_calls 3 (Inside 64 (Run 64 0)) (worker_cleanup w) = Some (Inr (Vanished, w')) \<and>
    over w' 64"
proof -
  from sample_created obtain w :: "nat frame world" and t where
    t: "heap w 64 = Some t" "t_terminated t = None" "t_callback t = None" by auto
  let ?w = "w\<lparr>tls_task := \<lparr>tls_key = True, tls_slot = (\<lambda>_. Some 64)\<rparr>,
    tls_context := \<lparr>tls_key = True, tls_slot = (\<lambda>i. Some i)\<rparr>\<rparr>"
  have "heap ?w 64 = Some t" "pcaio_self 3 ?w = Some 64" "threadlocal_get 3 (tls_context ?w) = Some 3"
    using t(1) by (simp_all add: pcaio_self_def threadlocal_get_def)
  from leaving_strands_others [OF this(1) t(2,3) this(2,3), of prog_gather 0 0 "\<lambda>_. 0" start2 no_calls 5]
  obtain w' where "thread_step prog_gather start2 no_calls 3 (Inside 64 (Run 64 0)) (worker_cleanup ?w) =
      Some (Inr (Vanished, w'))" "over w' 64"
    by (auto simp: prog_gather_def simp del: thread_step.simps)
  then show ?thesis using \<open>pcaio_self 3 ?w = Some 64\<close> by blast
qed

end
