(* ===== verification/Gatherers.thy ===== *)
theory Gatherers
  imports Program Nested Alone
begin

text \<open>
  The program as a whole when tasks gather others and one worker runs them: \<open>pcaio\<close> with the
  master of \<open>Master\<close>, the steps of \<open>Interleave\<close> and the jobs of \<open>Forkjoin\<close>.
\<close>

section \<open>One worker and its way to the end\<close>

text \<open>The only worker comes in \<open>n\<close> steps to the state in which no task is left and the statuses
  are \<open>R\<close>; until then the master sees tasks.\<close>

fun lone ::
  "('u \<Rightarrow> 'u uop) \<Rightarrow> (addr option \<Rightarrow> addr list \<Rightarrow> 'u) \<Rightarrow> ('u, unit) userland \<Rightarrow> (addr \<Rightarrow> c_int)
   \<Rightarrow> nat \<Rightarrow> 'u control \<Rightarrow> 'u frame world \<Rightarrow> bool" where
  "lone prog start cb R 0 c w \<longleftrightarrow> c = Looping \<and> world_rep w [] [] \<and> ints w = R"
| "lone prog start cb R (Suc n) c w \<longleftrightarrow> lcount (tasks w) \<noteq> 0 \<and>
    (\<exists>c' w'. thread_step prog start cb 0 c w = Some (Inr (c', w')) \<and>
      tls_context w' = tls_context w \<and> lone prog start cb R n c' w')"

text \<open>What a step leaves alone: the landing contexts, and, except behind \<open>swapcontext\<close>, the
  task list.\<close>

definition keeps :: "('k, 'z) world_scheme \<Rightarrow> ('k, 'z) world_scheme \<Rightarrow> bool" where
  "keeps w w' \<longleftrightarrow> tls_context w' = tls_context w \<and> tasks w' = tasks w"

lemma keeps_relaxA: "pcaio_relaxA i rc k f w = Inr (r, w') \<Longrightarrow> keeps w w'"
  by (auto simp: pcaio_relaxA_def keeps_def task_put_def and_then_Inr Let_def split: if_splits option.splits)

lemma keeps_push: "gather_push g [q] w = Inr (r, w') \<Longrightarrow> keeps w w'"
  by (cases "queue_push q (taskq w)") (auto simp: keeps_def task_put_def and_then_Inr Let_def split: if_splits)

lemma schedule_keeps [simp]:
  "tls_context (snd (pcaio_schedule tp w)) = tls_context w" "tasks (snd (pcaio_schedule tp w)) = tasks w"
  by (auto simp: pcaio_schedule_def split: option.splits prod.splits)

lemma keeps_gather: "keeps w (gather_put g x w)" "keeps w (gather_put g x w') \<longleftrightarrow> keeps w w'"
  by (simp_all add: keeps_def gather_put_def)

lemma keeps_terminated: "gather_taskterminated p w = Inr w' \<Longrightarrow> keeps w w'"
  by (auto simp: gather_taskterminated_def and_then_Inr keeps_def Let_def gather_put_def split: if_splits prod.splits)

lemma keeps_finish:
  assumes "taskmain_finish gather_run_hook (\<lambda>_ _. Inr) i p e w = Inr (r, w')" shows "keeps w w'"
proof -
  from assms obtain t w1 w2 t2 w3 where
    "write_status (t_status t) e (task_put p (t\<lparr>t_flags := t_flags t OR TASK_TERMINATED\<rparr>) w) = Inr w1"
    "(case t_terminated t of None \<Rightarrow> Inr w1 | Some h \<Rightarrow> gather_run_hook h p w1) = Inr w2"
    "task_at p w2 = Inr t2" "(case t_callback t2 of None \<Rightarrow> Inr w2 | Some cb \<Rightarrow> Inr w2) = (Inr w3 :: fault + _)"
    "w3 = w'"
    unfolding taskmain_finish_def and_then_Inr Let_def sum.inject prod.inject by blast
  then have "keeps w w1" "keeps w1 w2" "w2 = w'"
    by (auto simp: write_status_def task_put_def keeps_def gather_run_hook_def
        dest!: keeps_terminated split: option.splits hook.splits)
  then show ?thesis by (simp add: keeps_def)
qed

lemma keeps_relax_step:
  assumes "relax_step t b r = Inr (c, w')" "\<And>x w1. r = Inr (x, w1) \<Longrightarrow> keeps w w1"
    and "\<And>e w1. keeps w w1 \<Longrightarrow> keeps w (snd (b e w1))"
  shows "keeps w w'"
proof (cases r)
  case (Inl e)
  with assms(1) show ?thesis by (simp add: relax_step_def)
next
  case (Inr y)
  obtain x w1 where y: "y = (x, w1)" by (cases y)
  with Inr assms(2) have k: "keeps w w1" by simp
  show ?thesis
  proof (cases x)
    case (Returned e)
    with assms(1) assms(3) [OF k, of e] Inr y show ?thesis by (cases "b e w1") (simp add: relax_step_def)
  next
    case (Switched c)
    with assms(1) k Inr y show ?thesis by (simp add: relax_step_def)
  qed
qed

lemma keeps_landing:
  assumes "landing_step t r = Inr (c, w')" "\<And>x w1. r = Inr (x, w1) \<Longrightarrow> keeps w w1"
  shows "keeps w w'"
  using assms by (auto simp: landing_step_def and_then_Inr)

text \<open>Calls that do so too.\<close>

definition calm :: "('u, 'z) userland \<Rightarrow> bool" where
  "calm cb \<longleftrightarrow> u_callback cb = (\<lambda>_ _. Inr) \<and> (\<forall>i n w r w'. u_call cb i n w = Inr (r, w') \<longrightarrow> keeps w w')"

lemma calm_no_calls: "calm no_calls"
  by (simp add: calm_def no_calls_def keeps_def)

lemma keeps_run:
  assumes calm: "calm cb" and run: "run_step prog cb i t pl w = Inr (c, w')" shows "keeps w w'"
proof (cases pl)
  case (Run p u)
  show ?thesis
  proof (cases "prog u")
    case (Return e)
    with run Run calm show ?thesis by (auto simp: calm_def intro: keeps_landing keeps_finish)
  next
    case (Relax f k)
    with run Run show ?thesis by (auto intro: keeps_relax_step keeps_relaxA)
  next
    case (Gather g ts k)
    with run Run show ?thesis by (auto simp: keeps_gather)
  next
    case (Schedule tp k)
    with run Run schedule_keeps [of tp w] show ?thesis
      by (cases "pcaio_schedule tp w") (auto simp: keeps_def)
  next
    case (Self k)
    with run Run show ?thesis by (simp add: keeps_def)
  next
    case (Call n k)
    with run Run calm show ?thesis by (auto simp: calm_def and_then_Inr)
  qed
next
  case (Arming p g ts k)
  show ?thesis
  proof (cases ts)
    case Nil
    with run Arming show ?thesis
      by (auto simp: gather_failed_def keeps_gather intro: keeps_relax_step keeps_relaxA)
  next
    case (Cons q qs)
    with run Arming show ?thesis
      by (auto simp: and_then_Inr gather_failed_def keeps_gather simp del: gather_push.simps
        dest: keeps_push split: if_splits)
  qed
qed

lemma keeps_step:
  assumes calm: "calm cb" and step: "thread_step prog start cb i c w = Some (Inr (c', w'))" and c': "\<forall>r. c' \<noteq> Stopped r"
  shows "tls_context w' = tls_context w \<and> (tasks w' = tasks w \<or> (\<exists>p r. c = Landed p r))"
proof (cases c)
  case Looping
  with step c' show ?thesis by (auto simp: fetch_step_def split: if_splits option.splits)
next
  case (Fetched p)
  from step obtain t where t: "task_at p w = Inr t" by (auto simp: Fetched enter_step_def and_then_Inr)
  show ?thesis
  proof (cases "t_context t")
    case Blank
    with step t show ?thesis by (simp add: Fetched enter_step_def)
  next
    case (Entry a b)
    let ?p = "task_ptr a b"
    from step t Entry obtain y where y: "task_at ?p w = Inr y"
      by (auto simp: Fetched enter_step_def and_then_Inr Let_def)
    show ?thesis
    proof (cases "taskmain_args y")
      case None
      with step t Entry y calm have
        "landing_step p (taskmain_finish gather_run_hook (\<lambda>_ _. Inr) i ?p None w) = Inr (c', w')"
        by (simp add: Fetched enter_step_def Let_def calm_def)
      from keeps_landing [OF this keeps_finish] show ?thesis by (simp add: keeps_def)
    next
      case (Some args)
      with step t Entry y show ?thesis by (simp add: Fetched enter_step_def Let_def)
    qed
  next
    case (Saved f)
    with step t show ?thesis
      by (cases f) (auto simp: Fetched enter_step_def pcaio_relaxA_resumed_def pcaio_gatherA_resumed_def gather_put_def)
  qed
next
  case (Inside p pl)
  with step have "run_step prog cb i p pl w = Inr (c', w')" by simp
  from keeps_run [OF calm this] show ?thesis by (simp add: keeps_def)
next
  case (Landed p r)
  with step c' show ?thesis
    by (auto simp: land_step_def settle_def worker_back_def task_free_def heap_free_def task_put_def and_then_Inr Let_def
      split: if_splits option.splits prod.splits wstat.splits)
qed (use step in simp_all)

text \<open>A round that comes back to the loop is a way of steps, also when the program has further
  calls, \<open>cx\<close>, that are not made in this round.\<close>

definition extends :: "('u \<Rightarrow> 'u uop) \<Rightarrow> (addr option \<Rightarrow> addr list \<Rightarrow> 'u) \<Rightarrow> ('u, unit) userland \<Rightarrow> ('u, unit) userland \<Rightarrow> bool" where
  "extends prog start cb cx \<longleftrightarrow> (\<forall>c w x.
    thread_step prog start cb 0 c w = Some (Inr x) \<longrightarrow> thread_step prog start cx 0 c w = Some (Inr x))"

lemma extends_same [simp]: "extends prog start cb cb"
  by (simp add: extends_def)

lemma lone_round:
  fixes w :: "'u frame world"
  assumes "calm cb" "extends prog start cb cx" "finish_round prog start cb 0 c w = Some (Inr (Looping, w'))" "c \<noteq> Looping"
    and "lcount (tasks w) \<noteq> 0" "lone prog start cx R n Looping w'"
  shows "\<exists>n. lone prog start cx R n c w"
proof -
  define P where "P = (\<lambda>(prog :: 'u \<Rightarrow> 'u uop) start (cb :: ('u, unit) userland) (i :: tid) c w (r :: ('u, unit) moved).
    (\<forall>x. c \<in> {Looping, Stopped x, Vanished} \<longrightarrow> r = Inr (c, w)) \<and>
    (calm cb \<longrightarrow> extends prog start cb cx \<longrightarrow> i = 0 \<longrightarrow> r = Inr (Looping, w') \<longrightarrow> c \<noteq> Looping \<longrightarrow> lcount (tasks w) \<noteq> 0 \<longrightarrow>
      lone prog start cx R n Looping w' \<longrightarrow> (\<exists>n. lone prog start cx R n c w)))"
  have "P prog start cb 0 c w (Inr (Looping, w'))"
  proof (rule finish_round.raw_induct [where P = P, OF _ assms(3)])
    fix fin and prog :: "'u \<Rightarrow> 'u uop" and start and cb :: "('u, unit) userland" and i c and w :: "'u frame world" and r
    assume IH: "\<And>prog start cb i c w r. fin prog start cb i c w = Some r \<Longrightarrow> P prog start cb i c w r"
      and eq: "(case c of
         Looping \<Rightarrow> Some (Inr (c, w))
       | Stopped r \<Rightarrow> Some (Inr (c, w))
       | Vanished \<Rightarrow> Some (Inr (c, w))
       | _ \<Rightarrow>
         (case thread_step prog start cb i c w of
            None \<Rightarrow> None
          | Some (Inl e) \<Rightarrow> Some (Inl e)
          | Some (Inr (c, w)) \<Rightarrow> fin prog start cb i c w)) = Some r"
    show "P prog start cb i c w r"
      unfolding P_def
    proof (intro conjI allI impI)
      show "c \<in> {Looping, Stopped x, Vanished} \<Longrightarrow> r = Inr (c, w)" for x using eq by auto
      assume h: "calm cb" "extends prog start cb cx" "i = 0" "r = Inr (Looping, w')" "c \<noteq> Looping" "lcount (tasks w) \<noteq> 0"
        "lone prog start cx R n Looping w'"
      from eq h(4,5) obtain c1 w1 where
        one: "thread_step prog start cb i c w = Some (Inr (c1, w1))" "fin prog start cb i c1 w1 = Some r"
        by (auto split: control.splits option.splits sum.splits)
      from one(1) h(2,3) have step: "thread_step prog start cx 0 c w = Some (Inr (c1, w1))" by (simp add: extends_def)
      from IH [OF one(2)] h(1-4,7) have early: "\<And>x. c1 \<in> {Looping, Stopped x, Vanished} \<Longrightarrow> c1 = Looping \<and> w1 = w'"
        and late: "c1 \<noteq> Looping \<Longrightarrow> lcount (tasks w1) \<noteq> 0 \<Longrightarrow> \<exists>n. lone prog start cx R n c1 w1"
        unfolding P_def by auto
      from early have "\<forall>r. c1 \<noteq> Stopped r" by blast
      from keeps_step [OF h(1) one(1) this] have keep: "tls_context w1 = tls_context w"
        "tasks w1 = tasks w \<or> (\<exists>p r. c = Landed p r)" by simp_all
      have "\<exists>n. lone prog start cx R n c1 w1"
      proof (cases "c1 = Looping")
        case True
        with early h(7) show ?thesis by blast
      next
        case False
        have "\<not> (\<exists>p r. c = Landed p r)"
        proof
          assume "\<exists>p r. c = Landed p r"
          then obtain p x where "settle (worker_back 0 p x w) = Inr (c1, w1)" using step by (auto simp: land_step_def)
          from settle_kind [OF this] early have "c1 = Looping" by blast
          with False show False ..
        qed
        with keep(2) h(6) late False show ?thesis by simp
      qed
      then obtain m where "lone prog start cx R m c1 w1" ..
      with h(6) step keep(1) have "lone prog start cx R (Suc m) c w" by auto
      then show "\<exists>n. lone prog start cx R n c w" ..
    qed
  qed
  with assms show ?thesis by (simp add: P_def)
qed

lemma lone_worker_step:
  fixes w :: "'u frame world"
  assumes calm: "calm cb" "extends prog start cb cx" and step: "worker_step (\<lambda>q. (0, q)) prog start cb 0 w = Some w'"
    and rep: "world_rep w L Q" "L \<noteq> []" and rest: "lone prog start cx R n Looping w'"
  shows "\<exists>n. lone prog start cx R n Looping w"
proof -
  from step have "one_round prog start cb 0 w = Some (Inr (Looping, w'))"
    unfolding one_round_iter
    by (auto simp: worker_step_def settle_def split: option.splits sum.splits prod.splits wstat.splits)
  then obtain c1 w1 where one: "thread_step prog start cb 0 Looping w = Some (Inr (c1, w1))"
    "finish_round prog start cb 0 c1 w1 = Some (Inr (Looping, w'))"
    by (auto simp: one_round_def split: option.splits sum.splits)
  then have fetched: "c1 \<noteq> Looping" "\<forall>r. c1 \<noteq> Stopped r"
    by (cases c1; auto simp: fetch_step_def split: if_splits option.splits)+
  from keeps_step [OF calm(1) one(1) fetched(2)] have keep: "tls_context w1 = tls_context w" "tasks w1 = tasks w" by simp_all
  from rep_count [OF rep(1)] rep(2) have some: "lcount (tasks w) \<noteq> 0" by simp
  from calm(2) one(1) have first: "thread_step prog start cx 0 Looping w = Some (Inr (c1, w1))" by (simp add: extends_def)
  have "\<exists>n. lone prog start cx R n c1 w1" by (rule lone_round [OF calm one(2) fetched(1) _ rest]) (simp add: keep some)
  then obtain m where "lone prog start cx R m c1 w1" ..
  with some first keep have "lone prog start cx R (Suc m) Looping w" by auto
  then show ?thesis ..
qed

text \<open>A step of the abstract scheduler is such a round.\<close>

lemma lone_fj_step:
  fixes w :: "'u frame world"
  assumes calm: "calm cb" "extends prog start cb cx" and rep: "fj_rep start G 0 w a" and a: "fst a \<noteq> []"
    and step: "worker_step (\<lambda>q. (0, q)) prog start cb 0 w = Some w'" and rest: "lone prog start cx R n Looping w'"
  shows "\<exists>n. lone prog start cx R n Looping w"
proof -
  obtain Q S F m where abs: "a = (Q, S, F, m)" by (cases a)
  from rep obtain L where L: "world_rep w L (map fst Q)" "set L = fst ` (set Q \<union> set S) \<union> fst ` set F"
    by (auto simp: fj_rep_def abs)
  with a have "L \<noteq> []" by (auto simp: abs)
  from lone_worker_step [OF calm step L(1) this rest] show ?thesis .
qed

lemma lone_exists:
  fixes w :: "'u frame world"
  shows "fj_rep start G 0 w a \<Longrightarrow> fj_bound G prog B R N a \<Longrightarrow> \<exists>n. lone prog start no_calls R n Looping w"
proof (induction N arbitrary: w a rule: less_induct)
  case (less N)
  obtain Q S F m where a: "a = (Q, S, F, m)" by (cases a)
  show ?case
  proof (cases "Q = []")
    case True
    from fj_finished [OF less.prems(2) [unfolded a True]] less.prems(1)
    have "lone prog start no_calls R 0 Looping w" by (auto simp: a True fj_rep_def)
    then show ?thesis by blast
  next
    case False
    then have some: "fst a \<noteq> []" by (simp add: a)
    from fj_progress [OF less.prems(2) some] obtain a' M where
      a': "fj_step G prog a = Some a'" "fj_bound G prog B R M a'" "M < N" by blast
    from fj_round [OF less.prems a'(1), of "\<lambda>q. (0, q)" no_calls] obtain w' where
      w': "worker_step (\<lambda>q. (0, q)) prog start no_calls 0 w = Some w'" "fj_rep start G 0 w' a'" by blast
    from less.IH [OF a'(3) w'(2) a'(2)] obtain n where "lone prog start no_calls R n Looping w'" by blast
    from lone_fj_step [OF calm_no_calls extends_same less.prems(1) some w'(1) this] show ?thesis .
  qed
qed

section \<open>The contract of the workers\<close>

lemma lone_steps:
  assumes "(sys_step prog start cb ^^ k) ([c], w) (cs, w')" "lone prog start cb R n c w"
  shows "\<exists>c'. cs = [c'] \<and> k \<le> n \<and> lone prog start cb R (n - k) c' w' \<and> tls_context w' = tls_context w"
  using assms
proof (induction k arbitrary: n c w)
  case 0
  then show ?case by auto
next
  case (Suc k)
  from relpowp_Suc_D2 [OF Suc.prems(1)] obtain s1 where
    s1: "sys_step prog start cb ([c], w) s1" "(sys_step prog start cb ^^ k) s1 (cs, w')" by blast
  from s1(1) obtain c1 w1 where
    one: "thread_step prog start cb 0 c w = Some (Inr (c1, w1))" "s1 = ([c1], w1)"
    by (auto elim!: sys_step_cases)
  show ?case
  proof (cases n)
    case 0
    with Suc.prems(2) one(1) show ?thesis by (simp add: fetch_step_def world_rep_def rep_defs)
  next
    case (Suc m)
    with Suc.prems(2) one(1) have "lone prog start cb R m c1 w1" "tls_context w1 = tls_context w" by auto
    with Suc.IH [of c1 w1 m] s1(2) one(2) Suc show ?thesis by auto
  qed
qed

definition lone_ok ::
  "('u \<Rightarrow> 'u uop) \<Rightarrow> (addr option \<Rightarrow> addr list \<Rightarrow> 'u) \<Rightarrow> ('u, unit) userland \<Rightarrow> (addr \<Rightarrow> c_int)
   \<Rightarrow> nat \<Rightarrow> ('u, 'z) program_scheme \<Rightarrow> bool" where
  "lone_ok prog start cb R n s \<longleftrightarrow>
    (case controls s of
       [] \<Rightarrow> tls_context s = \<lparr>tls_key = True, tls_slot = (\<lambda>_. None)\<rparr> \<and>
        lone prog start cb R n Looping (world.truncate (spawn s))
     | [c] \<Rightarrow> tls_context s = \<lparr>tls_key = True, tls_slot = (\<lambda>_. None)(0 := Some 0)\<rparr> \<and>
        lone prog start cb R n c (world.truncate s)
     | _ \<Rightarrow> False)"

lemma lone_okI:
  "controls s = [c] \<Longrightarrow> tls_context s = \<lparr>tls_key = True, tls_slot = (\<lambda>_. None)(0 := Some 0)\<rparr> \<Longrightarrow>
    lone prog start cb R n c (world.truncate s) \<Longrightarrow> lone_ok prog start cb R n s"
  by (simp add: lone_ok_def)

lemma lone_okE:
  assumes "lone_ok prog start cb R n s" "controls s \<noteq> []"
  obtains c where "controls s = [c]" "tls_context s = \<lparr>tls_key = True, tls_slot = (\<lambda>_. None)(0 := Some 0)\<rparr>"
    "lone prog start cb R n c (world.truncate s)"
  using assms by (auto simp: lone_ok_def split: list.splits)

lemma lone_ok_power:
  assumes run: "(sys_step prog start cb ^^ k) (crew s) (cs, w)" and ok: "lone_ok prog start cb R n s"
    and some: "controls s \<noteq> []"
  shows "k \<le> n \<and> lone_ok prog start cb R (n - k) (put_crew cs w s)"
proof -
  from ok some obtain c where c: "controls s = [c]"
    "tls_context s = \<lparr>tls_key = True, tls_slot = (\<lambda>_. None)(0 := Some 0)\<rparr>" "lone prog start cb R n c (world.truncate s)"
    by (rule lone_okE)
  from lone_steps [OF run [unfolded crew_def c(1)] c(3)] obtain c' where
    c': "cs = [c']" "k \<le> n" "lone prog start cb R (n - k) c' w" "tls_context w = tls_context (world.truncate s)" by blast
  have "world.truncate (put_crew cs w s) = w" using crew_put_crew [of cs w s] by (simp add: crew_def)
  with c c' show ?thesis by (auto intro!: lone_okI)
qed

lemma no_crew: "crew_runs prog start cb s s' \<Longrightarrow> controls s = [] \<Longrightarrow> s' = s"
proof -
  assume "crew_runs prog start cb s s'" and none: "controls s = []"
  then obtain cs w where run: "(sys_step prog start cb)\<^sup>*\<^sup>* ([], world.truncate s) (cs, w)" and s': "s' = put_crew cs w s"
    by (auto simp: crew_runs_def crew_def)
  from run have "(cs, w) = ([], world.truncate s)"
    by (cases rule: converse_rtranclpE) (auto elim: sys_step.cases)
  with none s' show "s' = s" by (cases s) (simp add: put_crew_def world.truncate_def)
qed

interpretation lonely: work_force prog start cb "lone_ok prog start cb R" "\<lambda>m. m = R" 1
  for prog start cb R
proof unfold_locales
  fix n :: nat and s s' :: "('a, 'b) program_scheme" and i and tp
  show "\<exists>m \<le> n. lone_ok prog start cb R m s'"
    if runs: "crew_runs prog start cb s s'" and ok: "lone_ok prog start cb R n s"
  proof (cases "controls s = []")
    case True
    with no_crew [OF runs] ok show ?thesis by auto
  next
    case False
    from runs obtain k cs w where k: "(sys_step prog start cb ^^ k) (crew s) (cs, w)" "s' = put_crew cs w s"
      by (auto simp: crew_runs_def rtranclp_power)
    with lone_ok_power [OF k(1) ok False] show ?thesis by (intro exI [of _ "n - k"]) simp
  qed
  show "\<exists>m < n. lone_ok prog start cb R m s'"
    if moves: "crew_moves prog start cb s s'" and ok: "lone_ok prog start cb R n s"
  proof -
    from moves obtain k cs w where
      k: "k > 0" "(sys_step prog start cb ^^ k) (crew s) (cs, w)" "s' = put_crew cs w s"
      by (auto simp: crew_moves_def tranclp_power)
    from k(1) obtain k' where "k = Suc k'" by (cases k) auto
    with relpowp_Suc_D2 [of k' "sys_step prog start cb" "crew s" "(cs, w)"] k(2) have "controls s \<noteq> []"
      by (auto simp: crew_def elim!: sys_step.cases)
    from lone_ok_power [OF k(2) ok this] k(1,3) show ?thesis by (intro exI [of _ "n - k"]) simp
  qed
  show "lone_ok prog start cb R n (spawn s)" if ok: "lone_ok prog start cb R n s" and few: "length (controls s) < 1"
  proof -
    from few have none: "controls s = []" by simp
    with ok have "tls_context s = \<lparr>tls_key = True, tls_slot = (\<lambda>_. None)\<rparr>"
      "lone prog start cb R n Looping (world.truncate (spawn s))" by (simp_all add: lone_ok_def)
    with none show ?thesis by (intro lone_okI) (simp_all add: spawn_def threadlocal_set_def)
  qed
  show "lone_ok prog start cb R n (s\<lparr>tls_context := snd (snd (threadlocal_set 0 i None (tls_context s)))\<rparr>)"
    if ok: "lone_ok prog start cb R n s" and some: "controls s \<noteq> []" and i: "length (controls s) \<le> i"
  proof -
    from ok some obtain c where c: "controls s = [c]"
      "tls_context s = \<lparr>tls_key = True, tls_slot = (\<lambda>_. None)(0 := Some 0)\<rparr>"
      "lone prog start cb R n c (world.truncate s)" by (rule lone_okE)
    with i have "snd (snd (threadlocal_set 0 i None (tls_context s))) = tls_context s"
      by (simp add: threadlocal_set_def fun_upd_idem)
    with ok show ?thesis by simp
  qed
  show "lone_ok prog start cb R n (s\<lparr>pool := tp\<rparr>)" if ok: "lone_ok prog start cb R n s"
  proof -
    have "world.truncate (s\<lparr>pool := tp\<rparr>) = world.truncate s"
      "world.truncate (spawn (s\<lparr>pool := tp\<rparr>)) = world.truncate (spawn s)"
      by (simp_all add: world.truncate_def spawn_def Let_def)
    with ok show ?thesis by (simp add: lone_ok_def split: list.splits)
  qed
  show "lcount (tasks s) = 0"
    if ok: "lone_ok prog start cb R n s" and stuck: "\<nexists>s'. sys_step prog start cb (crew s) s'"
      and some: "controls s \<noteq> []"
  proof -
    from ok some obtain c where c: "controls s = [c]" "lone prog start cb R n c (world.truncate s)" by (rule lone_okE)
    show ?thesis
    proof (cases n)
      case 0
      with c(2) show ?thesis by (simp add: world_rep_def rep_defs)
    next
      case (Suc m)
      with c(2) obtain c' w' where "thread_step prog start cb 0 c (world.truncate s) = Some (Inr (c', w'))" by auto
      then have "sys_step prog start cb (crew s) ([c'], w')"
        using sys_step.move [of 0 "[c]" prog start cb "world.truncate s" c' w'] by (simp add: crew_def c(1))
      with stuck show ?thesis by blast
    qed
  qed
  show "world_rep s [] [] \<and> ints s = R"
    if ok: "lone_ok prog start cb R n s" and none: "lcount (tasks s) = 0"
  proof -
    from ok obtain c w where w: "lone prog start cb R n c w" "heap w = heap s" "tasks w = tasks s" "taskq w = taskq s"
      "ints w = ints s"
      by (auto simp: lone_ok_def spawn_def Let_def split: list.splits)
    with none have "world_rep w [] [] \<and> ints w = R" by (cases n) simp_all
    with world_rep_cong [of w s "[]" "[]"] w show ?thesis by simp
  qed
qed

section \<open>Property\<close>

text \<open>Property C4. A program whose tasks gather others, to any depth, ends with one worker: let the
  queued tasks, with the subtasks they gather, theirs and so on, return after finitely many yields, and
  let the tasks that are not queued be exactly the ones that get gathered. Then \<open>pcaio\<close> returns 0,
  whenever the worker moves while the master starts and sleeps; by then every task is freed, every
  status pointer holds the exit value of its task, nothing else is written, and the state is that
  of a program that has not called \<open>pcaio\<close> yet.\<close>

theorem gathering_returns:
  fixes s :: "('u, 'z) program_scheme"
  assumes "crew_threads prog start no_calls pt" "crew_time prog start no_calls sleep" "env_fine env"
    and "workers s = 0" "installed s []" "controls s = []" "0 < i"
    and "world_rep s L []" "js \<noteq> []" "set L = fst ` set (js @ F)" "\<forall>j \<in> set (js @ F). job_rep start s j"
    and "inj G" "distinct (map fst js @ map fst F)" "\<forall>(p, s, u) \<in> set F. B p = (s, u)"
    and "\<forall>(p, s, u) \<in> set js. \<exists>e. fj_ends G prog B R p u (As p) (ns p) e \<and> (\<forall>x. s = Some x \<longrightarrow> R x = e)"
    and "mset (concat (map (\<lambda>(p, s, u). As p) js)) = mset (map fst F)"
    and "\<forall>x. x \<notin> statuses (js @ F) \<longrightarrow> ints s x = R x" "\<forall>m s. f_init mf m s = (0, s)"
  shows "\<exists>s'. pcaio mf pt sleep env 0 0 i 1 (map fst js) s = Some (Inr (0, s')) \<and> (\<forall>p. heap s' p = None) \<and>
    ints s' = R \<and> workers s' = 0 \<and> installed s' []"
proof (rule lonely.pcaio_ends [where prog = prog and start = start and cb = no_calls and R = R, OF assms(1-6) _ _ _ assms(8)])
  show "map fst js \<noteq> []" "distinct (map fst js)" "set (map fst js) \<subseteq> set L" using assms(9,10,13) by auto
  show "\<exists>N. lone_ok prog start no_calls R N s1"
    if s1: "world_rep s1 L (map fst js)" "heap s1 = heap s" "ints s1 = ints s" "tls_key (tls_task s1)"
      "tls_context s1 = \<lparr>tls_key = True, tls_slot = (\<lambda>_. None)\<rparr>" "controls s1 = []" for s1 :: "('u, 'z) program_scheme"
  proof -
    let ?w = "world.truncate (spawn s1)"
    let ?Q = "map (\<lambda>(p, s, u). (p, s, None :: addr option, u)) js" and ?N = "sum_list (map (\<lambda>(p, s, u). Suc (ns p)) js)"
    have same: "heap ?w = heap s1" "tasks ?w = tasks s1" "taskq ?w = taskq s1" by (simp_all add: spawn_def Let_def)
    have "fj_rep start G 0 ?w (?Q, [], F, ints s)"
    proof (rule fj_repI)
      have queue: "map fst ?Q = map fst js" by (simp add: comp_def split_def)
      show "world_rep ?w L (map fst ?Q)" unfolding queue using s1(1) world_rep_cong [OF same] by simp
      show "set L = fst ` (set ?Q \<union> set []) \<union> fst ` set F" using assms(10) by (force simp: image_iff)
      have jobs: "job_rep start ?w j" if "j \<in> set (js @ F)" for j
        using assms(11) that s1(2) same(1) fresh_cong [of ?w j s start] by simp
      show "ready_rep start G ?w j" if "j \<in> set ?Q" for j
      proof -
        from that obtain p x u where j: "(p, x, u) \<in> set js" "j = (p, x, None, u)" by auto
        with jobs [of "(p, x, u)"] show ?thesis by (auto simp: belongs_def fj_resumes_def resumes_def)
      qed
      show "job_rep start ?w j" if "j \<in> set F" for j using that jobs by simp
    qed (use s1(3-6) in \<open>simp_all add: spawn_def Let_def threadlocal_get_def threadlocal_set_def\<close>)
    from lone_exists [OF this fj_bound_start [OF assms(12-17)]] obtain n where "lone prog start no_calls R n Looping ?w" ..
    with s1(5,6) show ?thesis by (auto simp: lone_ok_def)
  qed
qed (use assms(7,18) in simp_all)

theorem gathering_returns_witness:
  "\<exists>s s'. pcaio quiet_mods (nudged_threads prog_gather start2 no_calls) (\<lambda>t. nudged prog_gather start2 no_calls)
      env1 0 0 9 1 [64] (s :: nat program) = Some (Inr (0, s')) \<and>
    heap s 64 \<noteq> None \<and> heap s 128 \<noteq> None \<and> (\<forall>p. heap s' p = None) \<and> ints s' 32 = 7"
proof -
  from sample_created obtain w :: "nat frame world" where
    w: "world_rep w [64, 128] []" "job_rep start2 w (64, Some 32, 1)" "job_rep start2 w (128, None, 0)" by blast
  let ?s = "program_static w" and ?G = "\<lambda>p :: addr. p + 936" and ?R = "(ints w)(32 := 7)"
    and ?B = "\<lambda>p :: addr. (None :: addr option, 0 :: nat)"
  let ?js = "[(64 :: addr, Some (32 :: addr), 1 :: nat)]" and ?F = "[(128 :: addr, None :: addr option, 0 :: nat)]"
  have rep: "world_rep ?s [64, 128] []" using w(1) by (simp add: world_rep_def)
  have jobs: "\<forall>j \<in> set (?js @ ?F). job_rep start2 ?s j" using w(2,3) by auto
  have ends: "fj_ends ?G prog_gather ?B ?R 64 1 [128] 2 7" by (rule sample_gather_ends) simp_all
  have pre: "env_fine env1" "workers ?s = 0" "controls ?s = []" "(0 :: nat) < 9" "?js \<noteq> []"
    "set [64, 128] = fst ` set (?js @ ?F)" "inj ?G" "distinct (map fst ?js @ map fst ?F)"
    "\<forall>(p, s, u) \<in> set ?F. ?B p = (s, u)"
    "\<forall>(p, s, u) \<in> set ?js. \<exists>e. fj_ends ?G prog_gather ?B ?R p u [128] 2 e \<and> (\<forall>x. s = Some x \<longrightarrow> ?R x = e)"
    "mset (concat (map (\<lambda>(p, s, u). [128]) ?js)) = mset (map fst ?F)"
    "\<forall>a. a \<notin> statuses (?js @ ?F) \<longrightarrow> ints ?s a = ?R a" "\<forall>m s. f_init quiet_mods m s = (0, s)"
    using ends by (auto simp: env_fine_def env1_def statuses_def quiet_mods_def inj_def)
  from gathering_returns [where As = "\<lambda>_. [128]" and ns = "\<lambda>_. 2" and R = ?R and js = ?js and F = ?F and G = ?G and
      B = ?B and prog = prog_gather and start = start2, OF nudged_threads_laws nudged_time pre(1,2) program_static_installed
      pre(3,4) rep pre(5,6) jobs pre(7-13)]
  obtain s' where "pcaio quiet_mods (nudged_threads prog_gather start2 no_calls) (\<lambda>t. nudged prog_gather start2 no_calls)
      env1 0 0 9 1 (map fst ?js) ?s = Some (Inr (0, s'))" "\<forall>p. heap s' p = None" "ints s' = ?R" by blast
  moreover have "heap ?s 64 \<noteq> None" "heap ?s 128 \<noteq> None" using w(2,3) by auto
  ultimately show ?thesis by (intro exI [of _ ?s] exI [of _ s']) simp
qed

end
