(* ===== verification/Tests.thy ===== *)
theory Tests
  imports QueueT ListT RingT
begin

text \<open>
  The tests of the containers, \<open>tests/test_queueT.c\<close>, \<open>test_listT.c\<close> and \<open>test_ringT.c\<close>, as
  functions on them. The macros of \<open>cutest.h\<close>, which is not part of the repository, are
  arguments; one that accepts its operands lets the test go on.
\<close>

section \<open>Checks\<close>

record 'a cutest =
  eqint :: "int \<Rightarrow> int \<Rightarrow> fault + unit"
  eqptr :: "'a option \<Rightarrow> 'a option \<Rightarrow> fault + unit"
  isnull :: "'a option \<Rightarrow> fault + unit"
  isnotnull :: "'a option \<Rightarrow> fault + unit"

definition cutest_laws :: "'a cutest \<Rightarrow> bool" where
  "cutest_laws ct \<longleftrightarrow> (\<forall>x. eqint ct x x = Inr ()) \<and> (\<forall>p. eqptr ct p p = Inr ()) \<and>
    isnull ct None = Inr () \<and> (\<forall>p. isnotnull ct (Some p) = Inr ())"

fun checks :: "(fault + unit) list \<Rightarrow> (fault + 'b) option \<Rightarrow> (fault + 'b) option" where
  "checks [] r = r"
| "checks (c # cs) r = (case c of Inl e \<Rightarrow> Some (Inl e) | Inr _ \<Rightarrow> checks cs r)"

definition attempt :: "fault + 'a \<Rightarrow> ('a \<Rightarrow> (fault + 'b) option) \<Rightarrow> (fault + 'b) option" where
  "attempt r f = (case r of Inl e \<Rightarrow> Some (Inl e) | Inr x \<Rightarrow> f x)"

lemma attempt_Inr [simp]: "attempt (Inr x) f = f x"
  by (simp add: attempt_def)

text \<open>The local variables of type \<open>foo\<close> are named by their \<open>val\<close>, which is what \<open>out->val\<close>
  reads.\<close>

definition foo_val :: "int option \<Rightarrow> fault + int" where
  "foo_val p = (case p of None \<Rightarrow> Inl NullDeref | Some v \<Rightarrow> Inr v)"

section \<open>The queue\<close>

definition test_pop ::
  "int cutest \<Rightarrow> (int queue \<Rightarrow> int \<times> int queue) \<Rightarrow> int \<Rightarrow> int queue
   \<Rightarrow> (int option \<Rightarrow> int queue \<Rightarrow> (fault + 'b) option) \<Rightarrow> (fault + 'b) option" where
  "test_pop ct cw v q k =
    (case queue_pop cw 0 q of
       None \<Rightarrow> None
     | Some (rc, out, q) \<Rightarrow>
        checks [eqint ct 0 rc] (attempt (foo_val out) (\<lambda>x. checks [eqint ct v x] (k out q))))"

definition test_queueT :: "int cutest \<Rightarrow> (int queue \<Rightarrow> int \<times> int queue) \<Rightarrow> int queue \<Rightarrow> (fault + unit) option" where
  "test_queueT ct cw q =
    (let q = queue_init (q\<lparr>qnext := (qnext q)(73 := None, 74 := None, 75 := None)\<rparr>)
     in checks [isnull ct (qhead q), isnull ct (qtail q), eqint ct 0 (uint (qcount q))]
    (let q = snd (queue_push 73 q)
     in checks [isnotnull ct (qhead q), isnotnull ct (qtail q), isnull ct (qnext q 73), eqptr ct (qhead q) (qtail q),
          eqptr ct (qhead q) (Some 73), eqint ct 1 (uint (qcount q))]
    (test_pop ct cw 73 q (\<lambda>out q.
      checks [isnull ct (qhead q), isnull ct (qtail q), isnull ct (qnext q (the out)), eqint ct 0 (uint (qcount q))]
    (let q = snd (queue_push 73 q); q = snd (queue_push 74 q); q = snd (queue_push 75 q)
     in checks [eqptr ct (qhead q) (Some 73), eqptr ct (qtail q) (Some 75), eqptr ct (qnext q 73) (Some 74),
          eqptr ct (qnext q 74) (Some 75), isnull ct (qnext q 75), eqint ct 3 (uint (qcount q))]
    (test_pop ct cw 73 q (\<lambda>out q. test_pop ct cw 74 q (\<lambda>out q. test_pop ct cw 75 q (\<lambda>out q.
      checks [eqint ct 0 (uint (qcount q)), isnull ct (qhead q), isnull ct (qtail q), isnull ct (qnext q (the out))]
    (let q = queue_deinit q in Some (Inr ())))))))))))"

section \<open>The list\<close>

definition test_append :: "int \<Rightarrow> int plist \<Rightarrow> (int \<Rightarrow> int plist \<Rightarrow> (fault + 'b) option) \<Rightarrow> (fault + 'b) option" where
  "test_append v l k = (case list_append v l of (rc, l) \<Rightarrow> k rc l)"

definition test_delete ::
  "int cutest \<Rightarrow> int \<Rightarrow> int plist \<Rightarrow> (int plist \<Rightarrow> (fault + 'b) option) \<Rightarrow> (fault + 'b) option" where
  "test_delete ct v l k = (case list_delete (Some v) l of (rc, l) \<Rightarrow> checks [eqint ct 0 rc] (k l))"

definition test_list_pop ::
  "int cutest \<Rightarrow> int plist \<Rightarrow> (int option \<Rightarrow> int plist \<Rightarrow> (fault + 'b) option) \<Rightarrow> (fault + 'b) option" where
  "test_list_pop ct l k = attempt (list_pop True l) (\<lambda>(rc, out, l). checks [eqint ct 0 rc] (k out l))"

text \<open>The list of all fields zero, and the three local nodes.\<close>

definition test_plist :: "int plist" where
  "test_plist = \<lparr>lhead = None, ltail = None, lcount = 0, lmutex = False, lnext = (\<lambda>_. None), lprev = (\<lambda>_. None)\<rparr>"

definition test_listT_pop :: "int cutest \<Rightarrow> (fault + unit) option" where
  "test_listT_pop ct =
    (let l = list_init test_plist; l = snd (list_append 7 l); l = snd (list_append 8 l); l = snd (list_append 9 l)
     in checks [eqint ct 3 (uint (lcount l))]
    (test_list_pop ct l (\<lambda>out l.
      checks [eqptr ct (Some 7) out, eqptr ct (Some 8) (lhead l), eqptr ct (Some 9) (ltail l), isnull ct (lprev l 7),
        isnull ct (lnext l 7), eqint ct 2 (uint (lcount l))]
    (test_list_pop ct l (\<lambda>out l. test_list_pop ct l (\<lambda>out l.
      checks [eqptr ct (Some 9) out, isnull ct (lhead l), isnull ct (ltail l), isnull ct (lprev l 7), isnull ct (lnext l 7),
        eqint ct 0 (uint (lcount l))]
    (let l = list_deinit l in Some (Inr ()))))))))"

definition test_listT :: "int cutest \<Rightarrow> (fault + unit) option" where
  "test_listT ct =
    (let l = list_init test_plist
     in checks [isnull ct (lhead l), isnull ct (ltail l), eqint ct 0 (uint (lcount l))]
    (test_append 7 l (\<lambda>rc l.
      checks [eqint ct 0 rc, isnotnull ct (lhead l), isnotnull ct (ltail l), isnull ct (lprev l 7), isnull ct (lnext l 7),
        eqint ct 1 (uint (lcount l))]
    (test_append 8 l (\<lambda>rc l.
      checks [eqint ct 0 rc, isnotnull ct (lhead l), isnotnull ct (ltail l), eqptr ct (Some 7) (lprev l 8),
        eqptr ct (Some 8) (lnext l 7), isnull ct (lnext l 8), eqint ct 2 (uint (lcount l))]
    (test_append 9 l (\<lambda>rc l.
      checks [eqint ct 0 rc, eqint ct 3 (uint (lcount l))]
    (test_delete ct 9 l (\<lambda>l.
      checks [eqptr ct (Some 7) (lhead l), eqptr ct (Some 8) (ltail l), isnull ct (lnext l 8), isnull ct (lprev l 9),
        isnull ct (lnext l 9), eqint ct 2 (uint (lcount l))]
    (test_append 9 l (\<lambda>rc l.
      checks [eqint ct 0 rc]
    (test_delete ct 8 l (\<lambda>l.
      checks [eqptr ct (Some 7) (lhead l), eqptr ct (Some 9) (ltail l), eqptr ct (lnext l 7) (Some 9),
        eqptr ct (Some 7) (lprev l 9), isnull ct (lnext l 9), isnull ct (lprev l 8), isnull ct (lnext l 8),
        eqint ct 2 (uint (lcount l))]
    (test_delete ct 7 l (\<lambda>l.
      checks [eqptr ct (Some 9) (lhead l), eqptr ct (Some 9) (ltail l), isnull ct (lnext l 9), isnull ct (lprev l 9),
        isnull ct (lnext l 7), isnull ct (lprev l 7), eqint ct 1 (uint (lcount l))]
    (test_delete ct 9 l (\<lambda>l.
      checks [isnull ct (lhead l), isnull ct (ltail l), isnull ct (lnext l 9), isnull ct (lprev l 9),
        eqint ct 0 (uint (lcount l))]
    (let l = list_deinit l in Some (Inr ())))))))))))))))))))"

section \<open>The ring\<close>

definition test_ring_push ::
  "int cutest \<Rightarrow> int \<Rightarrow> int \<Rightarrow> int ring \<Rightarrow> (int ring \<Rightarrow> (fault + 'b) option) \<Rightarrow> (fault + 'b) option" where
  "test_ring_push ct expected e r k = attempt (ring_push e r) (\<lambda>(rc, r). checks [eqint ct expected rc] (k r))"

definition test_ring_pop ::
  "int cutest \<Rightarrow> int \<Rightarrow> int ring \<Rightarrow> (int ring \<Rightarrow> (fault + 'b) option) \<Rightarrow> (fault + 'b) option" where
  "test_ring_pop ct e r k =
    attempt (ring_pop r) (\<lambda>(rc, tmp, r). checks [eqint ct 0 rc, eqptr ct (Some e) tmp] (k r))"

definition test_ringT ::
  "int cutest \<Rightarrow> (nat \<Rightarrow> int option list option) \<Rightarrow> int ring \<Rightarrow> (fault + unit) option" where
  "test_ringT ct malloc r =
    attempt (ring_init malloc (Some r) 2) (\<lambda>(rc, rp). let r = the rp in
      checks [eqint ct 0 (sint (rhead r)), eqint ct 0 (sint (rtail r)), eqint ct 3 (sint (rmask r)),
        eqint ct 0 (sint (RINGT_USED r)), eqint ct 3 (sint (RINGT_AVAIL r))]
    (test_ring_push ct 0 1 r (\<lambda>r.
      checks [eqint ct 0 (sint (rhead r)), eqint ct 1 (sint (rtail r))]
    (test_ring_push ct 0 2 r (\<lambda>r. test_ring_push ct 0 3 r (\<lambda>r.
      checks [eqint ct 0 (sint (rhead r)), eqint ct 3 (sint (rtail r))]
    (test_ring_push ct (-1) 99 r (\<lambda>r. test_ring_pop ct 1 r (\<lambda>r.
     test_ring_push ct 0 99 r (\<lambda>r. test_ring_pop ct 2 r (\<lambda>r. test_ring_pop ct 3 r (\<lambda>r.
     let r = ring_deinit (Some r) in Some (Inr ())))))))))))))"

section \<open>They pass\<close>

lemma cutest_simps:
  assumes "cutest_laws ct"
  shows "eqint ct x x = Inr ()" "eqptr ct p p = Inr ()" "isnull ct None = Inr ()" "isnotnull ct (Some q) = Inr ()"
  using assms by (simp_all add: cutest_laws_def)

text \<open>What comes next is not looked at before its turn.\<close>

lemma test_congs:
  "cs = cs' \<Longrightarrow> checks cs r = checks cs' r" "x = x' \<Longrightarrow> attempt x f = attempt x' f"
  "l = l' \<Longrightarrow> test_append v l g = test_append v l' g" "l = l' \<Longrightarrow> test_delete ct v l h = test_delete ct v l' h"
  "l = l' \<Longrightarrow> test_list_pop ct l j = test_list_pop ct l' j" "q = q' \<Longrightarrow> test_pop ct cw v q k = test_pop ct cw v q' k"
  by simp_all

lemma test_queueT_passes: "cutest_laws ct \<Longrightarrow> test_queueT ct cw q = Some (Inr ())"
  by (simp add: test_queueT_def test_pop_def foo_val_def queue_init_def queue_push_def queue_pop_def queue_take_def
      queue_lock_def queue_unlock_def queue_signal_def Let_def cutest_simps cong: test_congs prod.case_cong_weak let_weak_cong)

lemma test_listT_pop_passes: "cutest_laws ct \<Longrightarrow> test_listT_pop ct = Some (Inr ())"
  by (simp add: test_listT_pop_def test_list_pop_def test_plist_def list_init_def list_append_def list_pop_def
      list_lock_def list_unlock_def Let_def cutest_simps cong: test_congs prod.case_cong_weak let_weak_cong)

lemma test_listT_passes: "cutest_laws ct \<Longrightarrow> test_listT ct = Some (Inr ())"
  by (simp add: test_listT_def test_append_def test_delete_def test_plist_def list_init_def list_append_def list_delete_def
      list_lock_def list_unlock_def Let_def cutest_simps cong: test_congs prod.case_cong_weak let_weak_cong)

lemma test_ringT_passes:
  "cutest_laws ct \<Longrightarrow> malloc 4 = Some b \<Longrightarrow> length b = 4 \<Longrightarrow> test_ringT ct malloc r = Some (Inr ())"
  by (simp add: test_ringT_def test_ring_push_def test_ring_pop_def ring_init_def ring_push_def ring_pop_def ring_store_def
      ring_load_def RINGT_ISFULL_def RINGT_ISEMPTY_def RINGT_USED_def RINGT_AVAIL_def Let_def cutest_simps cong: test_congs prod.case_cong_weak let_weak_cong)

end
