(* ===== verification/Testgather.thy ===== *)
theory Testgather
  imports Gatherers Samples Tests
begin

text \<open>
  \<open>tests/test_gather.c\<close> as a whole: a task creates three tasks, gathers them and adds up what
  they returned. Its function is a term of \<open>Samples\<close>; \<open>g\<close> is the address of the latch in its
  stack, \<open>x\<close> that of its array of statuses.
\<close>

section \<open>The program\<close>

definition co_gather :: "addr \<Rightarrow> addr list \<Rightarrow> (c_int \<Rightarrow> coro) \<Rightarrow> coro" where
  "co_gather g ts k = Coro (Gather g ts k)"

lemma co_gather_op [simp]: "coro_op (co_gather g ts k) = Gather g ts k"
  by (simp add: co_gather_def)

definition test_subtaskA :: "c_uint \<Rightarrow> coro" where
  "test_subtaskA seed = co_relaxA 0 (\<lambda>_. leave (seed * seed))"

text \<open>Calls 0, 1 and 2 create the tasks, call 3 adds and checks.\<close>

fun test_create :: "nat list \<Rightarrow> addr list \<Rightarrow> (addr list \<Rightarrow> coro) \<Rightarrow> coro" where
  "test_create [] ts k = k ts"
| "test_create (i # is) ts k = co_call i (\<lambda>r. test_create is (ts @ [word_of_int r]) k)"

definition test_taskA :: "addr \<Rightarrow> coro" where
  "test_taskA g = test_create [0..<3] [] (\<lambda>tasks. co_gather g tasks (\<lambda>_. co_call 3 (\<lambda>_. leave 0)))"

definition test_sum :: "addr \<Rightarrow> ('k, 'z) world_scheme \<Rightarrow> c_int" where
  "test_sum x w = foldl (\<lambda>sum i. sum + ints w (x + 4 * of_nat i)) 0 [0..<3]"

definition test_calls ::
  "(nat \<Rightarrow> addr option \<times> int \<times> addr option) \<Rightarrow> addr \<Rightarrow> addr \<Rightarrow> 'a cutest \<Rightarrow> (coro, 'z) userland" where
  "test_calls mem subtaskA x ct = \<lparr>u_callback = (\<lambda>_ _. Inr), u_call = (\<lambda>_ n w.
     if n < 3 then
       (case mem n of (mt, rc, ms) \<Rightarrow>
         and_then (pcaio_task_new mt rc ms (Some subtaskA) (Some (x + 4 * of_nat n)) 1 [of_nat (n + 1)] w)
           (\<lambda>(tp, w). Inr (case tp of None \<Rightarrow> 0 | Some p \<Rightarrow> uint p, w)))
     else and_then (eqint ct 14 (sint (test_sum x w))) (\<lambda>_. Inr (0, w)))\<rparr>"

definition test_gather_main ::
  "'a cutest \<Rightarrow> addr option \<times> int \<times> addr option \<Rightarrow> addr
   \<Rightarrow> ('k, 'z) master_scheme modfuns \<Rightarrow> ('k, 'z) master_scheme pthreads
   \<Rightarrow> (c_uint \<Rightarrow> ('k, 'z) master_scheme \<Rightarrow> ('k, 'z) master_scheme) \<Rightarrow> initenv \<Rightarrow> int \<Rightarrow> int \<Rightarrow> tid
   \<Rightarrow> ('k, 'z) master_scheme \<Rightarrow> (fault + (int \<times> ('k, 'z) master_scheme)) option" where
  "test_gather_main ct mem taskA mf pt sleep env sigempty_rc sigaction_rc i s =
    attempt (new_tasks (\<lambda>_. mem) taskA (\<lambda>_. []) [0] s) (\<lambda>(ts, s).
      case pcaio_array mf pt sleep env sigempty_rc sigaction_rc i 1 ts s of
        None \<Rightarrow> None
      | Some r \<Rightarrow> attempt r (\<lambda>(rc, s). checks [eqint ct 0 rc] (Some (Inr (0, s)))))"

section \<open>The rounds behind the gather\<close>

text \<open>The calls that are left then.\<close>

definition test_rest ::
  "(nat \<Rightarrow> addr option \<times> int \<times> addr option) \<Rightarrow> addr \<Rightarrow> addr \<Rightarrow> 'a cutest \<Rightarrow> (coro, unit) userland" where
  "test_rest mem subtaskA x ct = (test_calls mem subtaskA x ct)
    \<lparr>u_call := (\<lambda>i n w. if n < 3 then Inl NullDeref else u_call (test_calls mem subtaskA x ct) i n w)\<rparr>"

lemma test_rest_calm: "calm (test_rest mem subtaskA x ct)"
  by (auto simp: calm_def test_rest_def test_calls_def keeps_def and_then_Inr)

lemma test_rest_extends: "extends prog start (test_rest mem subtaskA x ct) (test_calls mem subtaskA x ct)"
  unfolding extends_def
proof (intro allI impI)
  let ?cb = "test_rest mem subtaskA x ct" and ?cx = "test_calls mem subtaskA x ct :: (coro, unit) userland"
  fix c w r assume step: "thread_step prog start ?cb 0 c w = Some (Inr r)"
  have ending: "u_callback ?cb = u_callback ?cx" by (simp add: test_rest_def)
  have call: "u_call ?cx i n w = Inr y" if "u_call ?cb i n w = Inr y" for i n w y
    using that by (simp add: test_rest_def split: if_splits)
  show "thread_step prog start ?cx 0 c w = Some (Inr r)"
  proof (cases c)
    case (Fetched p)
    from step show ?thesis unfolding Fetched thread_step.simps enter_step_def ending .
  next
    case (Inside p pl)
    show ?thesis
    proof (cases pl)
      case (Run q u)
      show ?thesis
      proof (cases "prog u")
        case (Call n k)
        with step Inside Run obtain y where "u_call ?cb 0 n w = Inr y"
          by (cases "u_call ?cb 0 n w") simp_all
        with call [OF this] step Inside Run Call show ?thesis by simp
      qed (use step ending Inside Run in simp_all)
    next
      case (Arming q g ts k)
      with step Inside show ?thesis by (cases ts) simp_all
    qed
  qed (use step in simp_all)
qed

text \<open>States of the abstract scheduler from which the worker gets to the end.\<close>

definition ends_from ::
  "(addr option \<Rightarrow> addr list \<Rightarrow> coro) \<Rightarrow> (coro, unit) userland \<Rightarrow> (addr \<Rightarrow> c_int) \<Rightarrow> (addr \<Rightarrow> addr) \<Rightarrow> coro fj_state \<Rightarrow> bool" where
  "ends_from start cx R G a \<longleftrightarrow> (\<forall>w. fj_rep start G 0 w a \<longrightarrow> (\<exists>n. lone coro_op start cx R n Looping w))"

lemma ends_from_empty: "ends_from start cx R G ([], [], [], R)"
proof -
  have "lone coro_op start cx R 0 Looping w" if "fj_rep start G 0 w ([], [], [], R)" for w
    using that by (auto simp: fj_rep_def)
  then show ?thesis unfolding ends_from_def by blast
qed

lemma ends_from_step:
  assumes "calm cb" "extends coro_op start cb cx" "fst a \<noteq> []" "ends_from start cx R G a'"
    and "\<And>w :: coro frame world. fj_rep start G 0 w a \<Longrightarrow>
      \<exists>w'. worker_step (\<lambda>q. (0, q)) coro_op start cb 0 w = Some w' \<and> fj_rep start G 0 w' a'"
  shows "ends_from start cx R G a"
  unfolding ends_from_def
proof (intro allI impI)
  fix w :: "coro frame world" assume rep: "fj_rep start G 0 w a"
  from assms(5) [OF rep] obtain w' where
    w': "worker_step (\<lambda>q. (0, q)) coro_op start cb 0 w = Some w'" "fj_rep start G 0 w' a'" by blast
  from assms(4) w'(2) obtain n where "lone coro_op start cx R n Looping w'" by (auto simp: ends_from_def)
  from lone_fj_step [OF assms(1,2) rep assms(3) w'(1) this] show "\<exists>n. lone coro_op start cx R n Looping w" .
qed

lemma ends_from_relax:
  assumes "calm cb" "extends coro_op start cb cx" "inj G" "fj_inv G ((p, s, r, co_relaxA 0 k) # Q, S, F, m)"
    and "ends_from start cx R G (Q @ [(p, s, r, k 0)], S, F, m)"
  shows "ends_from start cx R G ((p, s, r, co_relaxA 0 k) # Q, S, F, m)"
  by (rule ends_from_step [OF assms(1,2) _ assms(5)]) (simp, rule sim_relax [OF _ assms(4,3)], simp_all)

lemma ends_from_leave:
  assumes "calm cb" "extends coro_op start cb cx" "inj G" "fj_inv G ((p, s, Some g, leave e) # Q, S, F, m)"
    and "members g (Q @ S) \<noteq> 0" "ends_from start cx R G (Q, S, F, put_status s e m)"
  shows "ends_from start cx R G ((p, s, Some g, leave e) # Q, S, F, m)"
  by (rule ends_from_step [OF assms(1,2) _ assms(6)]) (simp, rule sim_return_stay [OF _ assms(4,3) _ assms(5)], simp_all)

lemma ends_from_last:
  assumes "calm cb" "extends coro_op start cb cx" "inj G" "fj_inv G ((p, s, Some g, leave e) # Q, S, F, m)"
    and "members g (Q @ S) = 0"
    and "ends_from start cx R G (Q @ filter (\<lambda>j. G (fst j) = g) S, filter (\<lambda>j. G (fst j) \<noteq> g) S, F, put_status s e m)"
  shows "ends_from start cx R G ((p, s, Some g, leave e) # Q, S, F, m)"
  by (rule ends_from_step [OF assms(1,2) _ assms(6)]) (simp, rule sim_return_wake [OF _ assms(4,3) _ assms(5)], simp_all)

lemma test_sum_exec:
  assumes "cutest_laws ct" "ints w = (m :: addr \<Rightarrow> c_int)(x := 1, x + 4 := 4, x + 8 := 9)"
  shows "exec coro_op (test_rest mem subtaskA x ct) i p (co_call 3 (\<lambda>_. leave 0)) w =
    exec coro_op (test_rest mem subtaskA x ct) i p (leave 0) w"
proof -
  have "test_sum x w = 14" using assms(2) by (simp add: test_sum_def upt_rec)
  then have "u_call (test_rest mem subtaskA x ct) i 3 w = Inr (0, w)"
    using cutest_simps(1) [OF assms(1), of 14] by (simp add: test_rest_def test_calls_def)
  then show ?thesis by (simp add: exec.simps [of _ _ _ _ "co_call 3 f" for f])
qed

text \<open>The three subtasks yield, return 1, 4 and 9, and the last wakes the task that waits.\<close>

lemma test_rounds:
  assumes ct: "cutest_laws ct" and inj: "inj G" "G p = g" and dist: "distinct [p, t0, t1, t2]"
    and R: "R = m(x := 1, x + 4 := 4, x + 8 := 9)"
  shows "ends_from start (test_calls mem subtaskA x ct) R G
    ([(t0, Some x, Some g, test_subtaskA 1), (t1, Some (x + 4), Some g, test_subtaskA 2), (t2, Some (x + 8), Some g, test_subtaskA 3)],
     [(p, None, None, co_call 3 (\<lambda>_. leave 0))], [], m)"
proof -
  let ?cb = "test_rest mem subtaskA x ct" and ?cx = "test_calls mem subtaskA x ct" and ?e = "\<lambda>n :: c_int. leave (n * n)"
  note run = test_rest_calm [of mem subtaskA x ct] test_rest_extends [of coro_op start mem subtaskA x ct]
  note relax = ends_from_relax [OF run inj(1)] and leaves = ends_from_leave [OF run inj(1)] and last = ends_from_last [OF run inj(1)]
  let ?p = "(p, None, None, co_call 3 (\<lambda>_. leave 0))"
  let ?s0 = "\<lambda>u. (t0, Some x, Some g, u)" and ?s1 = "\<lambda>u. (t1, Some (x + 4), Some g, u)" and ?s2 = "\<lambda>u. (t2, Some (x + 8), Some g, u)"
  have "t0 \<noteq> p" "t1 \<noteq> p" "t2 \<noteq> p" "t0 \<noteq> t1" "t0 \<noteq> t2" "t1 \<noteq> t2" "t1 \<noteq> t0" "t2 \<noteq> t0" "t2 \<noteq> t1" using dist by auto
  note simps = this fj_inv_def latch_of_def inj(2) put_status_def
  have "ends_from start ?cx R G ([?p], [], [], R)"
  proof (rule ends_from_step [OF run _ ends_from_empty])
    fix w :: "coro frame world" assume "fj_rep start G 0 w ([?p], [], [], R)"
    from sim_return_after [OF this _ inj(1), of coro_op "leave 0" 0 ?cb] test_sum_exec [OF ct, of _ m x mem subtaskA 0 p]
    show "\<exists>w'. worker_step (\<lambda>q. (0, q)) coro_op start ?cb 0 w = Some w' \<and> fj_rep start G 0 w' ([], [], [], R)"
      by (simp add: simps R)
  qed simp
  then have "ends_from start ?cx R G ([?s2 (?e 3)], [?p], [], m(x := 1, x + 4 := 4))"
    by - (rule last, simp_all add: simps R)
  then have "ends_from start ?cx R G ([?s1 (?e 2), ?s2 (?e 3)], [?p], [], m(x := 1))"
    by - (rule leaves, simp_all add: simps)
  then have "ends_from start ?cx R G ([?s0 (?e 1), ?s1 (?e 2), ?s2 (?e 3)], [?p], [], m)"
    by - (rule leaves, simp_all add: simps)
  then have "ends_from start ?cx R G ([?s2 (test_subtaskA 3), ?s0 (?e 1), ?s1 (?e 2)], [?p], [], m)"
    unfolding test_subtaskA_def by - (rule relax, simp_all add: simps)
  then have "ends_from start ?cx R G ([?s1 (test_subtaskA 2), ?s2 (test_subtaskA 3), ?s0 (?e 1)], [?p], [], m)"
    unfolding test_subtaskA_def [of 2] by - (rule relax, simp_all add: simps)
  then show ?thesis
    unfolding test_subtaskA_def [of 1] by - (rule relax, simp_all add: simps)
qed

section \<open>The first round\<close>

lemma lone_stepI:
  assumes "world_rep w L Q" "L \<noteq> []" "thread_step prog start cb 0 c w = Some (Inr (c', w'))"
    and "tls_context w' = tls_context w" "\<exists>n. lone prog start cb R n c' w'"
  shows "\<exists>n. lone prog start cb R n c w"
proof -
  from assms(5) obtain n where "lone prog start cb R n c' w'" ..
  with assms(1-4) rep_count [of w L Q] have "lone prog start cb R (Suc n) c w" by auto
  then show ?thesis ..
qed

text \<open>One round of the loop over the three tasks.\<close>

lemma create_step:
  fixes w :: "coro frame world"
  assumes rep: "world_rep w L Q" and n: "n < 3" "mem n = (Some t, 0, Some st)" "t \<noteq> 0" "t \<notin> set L"
  shows "\<exists>w'. thread_step coro_op start (test_calls mem subtaskA x ct) 0 (Inside p (Run p (co_call n f))) w =
      Some (Inr (Inside p (Run p (f (uint t))), w')) \<and>
    world_rep w' (L @ [t]) Q \<and> job_rep start w' (t, Some (x + 4 * of_nat n), start (Some subtaskA) [of_nat (n + 1)]) \<and>
    (\<forall>q. q \<noteq> t \<longrightarrow> heap w' q = heap w q) \<and> ints w' = ints w \<and> tls_task w' = tls_task w \<and> tls_context w' = tls_context w"
proof -
  have none: "heap w t = None" using world_rep_members [OF rep, of t] n(4) by simp
  from task_new_success [OF rep n(3) none, of 1 "[of_nat (n + 1)]" st subtaskA "Some (x + 4 * of_nat n)"] obtain w' where
    w': "task_new (Some t) 0 (Some st) (Some subtaskA) (Some (x + 4 * of_nat n)) 1 [of_nat (n + 1)] w = Inr (Some t, w')"
      "world_rep w' (L @ [t]) Q"
      "heap w' = (heap w)(t := Some \<lparr>t_flags = 0, t_context = Entry (task_hi t) (task_lo t),
        t_stack = Some st, t_gather = None, t_terminated = None, t_status = Some (x + 4 * of_nat n),
        t_func = Some subtaskA, t_callback = None, t_argc = 1, t_argv = [of_nat (n + 1)]\<rparr>)" by auto
  have "job_rep start w' (t, Some (x + 4 * of_nat n), start (Some subtaskA) [of_nat (n + 1)])"
    using w'(3) by (simp add: taskmain_args_spec)
  moreover have "thread_step coro_op start (test_calls mem subtaskA x ct) 0 (Inside p (Run p (co_call n f))) w =
      Some (Inr (Inside p (Run p (f (uint t))), w'))"
    using n(1,2) w'(1) by (simp add: test_calls_def pcaio_task_new_def)
  ultimately show ?thesis using w'(2,3) task_new_frame [OF w'(1)] by simp
qed

lemma test_runs:
  fixes w :: "coro frame world"
  assumes ct: "cutest_laws ct" and rep: "world_rep w [p] [p]" and job: "job_rep start w (p, None, test_taskA g)"
    and tls: "tls_key (tls_task w)" "threadlocal_get 0 (tls_context w) = Some 0"
    and mem: "mem 0 = (Some t0, 0, Some st0)" "mem 1 = (Some t1, 0, Some st1)" "mem 2 = (Some t2, 0, Some st2)"
    and dist: "distinct [0, p, t0, t1, t2]"
    and sub: "\<And>a. start (Some subtaskA) [a] = test_subtaskA (ucast a)"
  shows "\<exists>n. lone coro_op start (test_calls mem subtaskA x ct) ((ints w)(x := 1, x + 4 := 4, x + 8 := 9)) n Looping w"
proof -
  let ?cx = "test_calls mem subtaskA x ct" and ?cb = "test_rest mem subtaskA x ct" and ?R = "(ints w)(x := 1, x + 4 := 4, x + 8 := 9)"
  let ?k = "\<lambda>tasks. co_gather g tasks (\<lambda>_. co_call 3 (\<lambda>_. leave 0))"
  define G where "G = (\<lambda>a. a + (g - p))"
  have G: "inj G" "G p = g" by (auto simp: G_def inj_def)
  from step_fetch [OF rep tls(1), of coro_op start ?cx 0] obtain w1 where
    w1: "thread_step coro_op start ?cx 0 Looping w = Some (Inr (Fetched p, w1))" "world_rep w1 [p] []" "heap w1 = heap w"
      "pcaio_self 0 w1 = Some p" "local_to 0 w w1" by blast
  from job obtain t where t: "heap w p = Some t" "t_flags t = 0" "t_status t = None" "belongs t None"
    "resumes start p t (test_taskA g)" by (auto simp: belongs_def resumes_def)
  from step_enter [of w1 p t start "test_taskA g" coro_op ?cx 0] t(1,5) w1(3) obtain er where
    enter: "thread_step coro_op start ?cx 0 (Fetched p) w1 = Some (Inr (Inside p (Run p (test_taskA g)), w1\<lparr>errno := er\<rparr>))" by auto
  let ?w2 = "w1\<lparr>errno := er\<rparr>"
  have w2: "world_rep ?w2 [p] []" using w1(2) by simp
  have ints: "ints w1 = ints w"
    using w1(1) by (auto simp: fetch_step_def tls_set_task_def worker_cleanup_def split: if_splits option.splits)
  define u2 where "u2 = (\<lambda>a b. co_call 2 (\<lambda>r. ?k [a, b, word_of_int r]))"
  define u1 where "u1 = (\<lambda>a. co_call 1 (\<lambda>r. u2 a (word_of_int r)))"
  have start: "test_taskA g = co_call 0 (\<lambda>r. u1 (word_of_int r))"
    by (simp add: test_taskA_def u1_def u2_def upt_rec numeral_2_eq_2)
  from create_step [where n = 0 and mem = mem and f = "\<lambda>r. u1 (word_of_int r)" and start = start and
      subtaskA = subtaskA and x = x and ct = ct and p = p, OF w2 _ mem(1)] dist w1(3) ints obtain w3 where
    w3: "thread_step coro_op start ?cx 0 (Inside p (Run p (test_taskA g))) ?w2 = Some (Inr (Inside p (Run p (u1 t0)), w3))"
      "world_rep w3 [p, t0] []" "job_rep start w3 (t0, Some x, test_subtaskA 1)" "\<And>q. q \<noteq> t0 \<Longrightarrow> heap w3 q = heap w q"
      "ints w3 = ints w" "tls_task w3 = tls_task w1" "tls_context w3 = tls_context w1"
    unfolding start by (auto simp: sub simp del: job_rep.simps)
  from create_step [where n = 1 and mem = mem and f = "\<lambda>r. u2 t0 (word_of_int r)" and start = start and
      subtaskA = subtaskA and x = x and ct = ct and p = p, OF w3(2) _ mem(2)] dist w3(4) obtain w4 where
    w4: "thread_step coro_op start ?cx 0 (Inside p (Run p (u1 t0))) w3 = Some (Inr (Inside p (Run p (u2 t0 t1)), w4))"
      "world_rep w4 [p, t0, t1] []" "job_rep start w4 (t1, Some (x + 4), test_subtaskA 2)" "\<And>q. q \<noteq> t1 \<Longrightarrow> heap w4 q = heap w3 q"
      "ints w4 = ints w" "tls_task w4 = tls_task w1" "tls_context w4 = tls_context w1"
    unfolding u1_def by (auto simp: sub w3 simp del: job_rep.simps)
  from create_step [where n = 2 and mem = mem and f = "\<lambda>r. ?k [t0, t1, word_of_int r]" and start = start and
      subtaskA = subtaskA and x = x and ct = ct and p = p, OF w4(2) _ mem(3)] dist obtain w5 where
    w5: "thread_step coro_op start ?cx 0 (Inside p (Run p (u2 t0 t1))) w4 = Some (Inr (Inside p (Run p (?k [t0, t1, t2])), w5))"
      "world_rep w5 [p, t0, t1, t2] []" "job_rep start w5 (t2, Some (x + 8), test_subtaskA 3)" "\<And>q. q \<noteq> t2 \<Longrightarrow> heap w5 q = heap w4 q"
      "ints w5 = ints w" "tls_task w5 = tls_task w1" "tls_context w5 = tls_context w1"
    unfolding u2_def by (auto simp: sub w4 simp del: job_rep.simps)
  let ?u = "?k [t0, t1, t2]" and ?ts = "[t0, t1, t2]"
  let ?F = "[(t0, Some x, test_subtaskA 1), (t1, Some (x + 4), test_subtaskA 2), (t2, Some (x + 8), test_subtaskA 3)]"
  define B where "B = (\<lambda>q. the (map_of ?F q))"
  have heap5: "heap w5 p = Some t" "heap w5 t0 = heap w3 t0" "heap w5 t1 = heap w4 t1"
    using dist t(1) w3(4) w4(4) w5(4) by auto
  have jobs: "\<forall>j \<in> set ?F. job_rep start w5 j"
    using w3(3) w4(3) w5(3) fresh_cong [of w5 "(t0, Some x, test_subtaskA 1)" w3 start]
      fresh_cong [of w5 "(t1, Some (x + 4), test_subtaskA 2)" w4 start] heap5(2,3) by (simp del: job_rep.simps)
  have kids: "\<forall>(q, s, v) \<in> set ?F. B q = (s, v)" using dist by (auto simp: B_def)
  have inv: "fj_inv G ([(p, None, None, ?u)], [], ?F, ints w)" using dist by (auto simp: fj_inv_def latch_of_def)
  have self: "tls_key (tls_task w5)" "threadlocal_get 0 (tls_context w5) = Some 0" "pcaio_self 0 w5 = Some p"
    using w1(4,5) tls w5(6,7) by (simp_all add: local_to_def pcaio_self_def)
  from gather_sleeps [where Q = "[]" and S = "[]" and F = ?F and B = B and G = G and prog = coro_op and cb = ?cb and start = start
      and L = "[p, t0, t1, t2]" and ts = ?ts and k = "\<lambda>_. co_call 3 (\<lambda>_. leave 0)",
      OF _ _ _ _ jobs w5(5) self heap5(1) t(2-4) inv G(1) _ kids]
    w5(2) dist G(2) obtain w6 w7 where
    w6: "exec coro_op ?cb 0 p ?u w5 = Some (Inr (Some 0, w6))" "worker_back 0 p 0 w6 = Inr (Again, w7)"
      "fj_rep start G 0 w7 (started B g ?ts, [(p, None, None, co_call 3 (\<lambda>_. leave 0))], [], ints w)" by auto
  have "started B g ?ts = [(t0, Some x, Some g, test_subtaskA 1), (t1, Some (x + 4), Some g, test_subtaskA 2),
      (t2, Some (x + 8), Some g, test_subtaskA 3)]" using kids by (simp add: started_def)
  with test_rounds [OF ct G, of t0 t1 t2 ?R "ints w" x start mem subtaskA] w6(3) dist
  obtain n where n: "lone coro_op start ?cx ?R n Looping w7" by (auto simp: ends_from_def)
  have "finish_round coro_op start ?cb 0 (Inside p (Run p ?u)) w5 = Some (Inr (Looping, w7))"
    using w6(1,2) by (simp add: finish_switch worker_switch_def settle_def)
  from lone_round [OF test_rest_calm test_rest_extends this _ _ n] rep_count [OF w5(2)]
  have "\<exists>n. lone coro_op start ?cx ?R n (Inside p (Run p ?u)) w5" by simp
  then have "\<exists>n. lone coro_op start ?cx ?R n (Inside p (Run p (test_taskA g))) ?w2"
    by (intro lone_stepI [OF w2 _ w3(1)] lone_stepI [OF w3(2) _ w4(1)] lone_stepI [OF w4(2) _ w5(1)]) (simp_all add: w3(7) w4(7) w5(7))
  then show ?thesis 
    by (intro lone_stepI [OF rep _ w1(1)] lone_stepI [OF w1(2) _ enter]) (use w1(5) in \<open>simp_all add: local_to_def\<close>)
qed

section \<open>Property\<close>

text \<open>Property C7. The test of \<open>pcaio_gatherA\<close> passes: its task creates three tasks while it runs, sleeps
  until the last of them has returned, finds 1, 4 and 9 in its array and adds them up to the 14 the
  test asks for; \<open>pcaio\<close> returns the 0 it asks for, and every task is freed. This relies on
  four successful allocations.\<close>

theorem test_gather_returns:
  fixes s :: "coro program"
  assumes "crew_threads coro_op start (test_calls mem subtaskA x ct) pth"
    and "crew_time coro_op start (test_calls mem subtaskA x ct) sleep" "env_fine env"
    and "workers s = 0" "installed s []" "controls s = []" "1 \<le> i" "world_rep s [] []"
    and "start (Some taskA) [] = test_taskA g" "\<And>a. start (Some subtaskA) [a] = test_subtaskA (ucast a)"
    and "mem 0 = (Some t0, 0, Some st0)" "mem 1 = (Some t1, 0, Some st1)" "mem 2 = (Some t2, 0, Some st2)"
    and "distinct [0, p, t0, t1, t2]" "cutest_laws ct" "\<forall>m s. f_init mf m s = (0, s)"
  shows "\<exists>s'. test_gather_main ct (Some p, 0, Some sp) taskA mf pth sleep env 0 0 i s = Some (Inr (0, s')) \<and>
    (\<forall>q. heap s' q = None) \<and> ints s' = (ints s)(x := 1, x + 4 := 4, x + 8 := 9) \<and> workers s' = 0 \<and> installed s' []"
proof -
  let ?cx = "test_calls mem subtaskA x ct" and ?R = "(ints s)(x := 1, x + 4 := 4, x + 8 := 9)"
  have "heap s p = None" using world_rep_members [OF assms(8), of p] by simp
  with new_tasks_run [OF assms(8), of "\<lambda>_. p" "[0]" "\<lambda>_. (Some p, 0, Some sp)" "\<lambda>_. sp" "\<lambda>_. []" taskA start] assms(14)
  obtain s1 where s1: "new_tasks (\<lambda>_. (Some p, 0, Some sp)) taskA (\<lambda>_. []) [0] s = Inr ([Some p], s1)" "world_rep s1 [p] []"
    "ints s1 = ints s" "world.more s1 = world.more s" "job_rep start s1 (p, None, test_taskA g)"
    by (auto simp: assms(9) simp del: job_rep.simps)
  have same: "workers s1 = 0" "installed s1 []" "controls s1 = []" using assms(4-6) more_of [OF s1(4)] by simp_all
  have "\<exists>s'. pcaio mf pth sleep env 0 0 i 1 [p] s1 = Some (Inr (0, s')) \<and> (\<forall>q. heap s' q = None) \<and> ints s' = ?R \<and>
    workers s' = 0 \<and> installed s' []"
  proof (rule lonely.pcaio_ends [where prog = coro_op and start = start and cb = ?cx and R = ?R,
        OF assms(1-3) same _ _ _ s1(2) _ _ _ assms(16)])
    show "\<exists>N. lone_ok coro_op start ?cx ?R N s2"
      if s2: "world_rep s2 [p] [p]" "heap s2 = heap s1" "ints s2 = ints s1" "tls_key (tls_task s2)"
        "tls_context s2 = \<lparr>tls_key = True, tls_slot = (\<lambda>_. None)\<rparr>" "controls s2 = []" for s2 :: "coro program"
    proof -
      let ?w = "world.truncate (spawn s2)"
      have w: "heap ?w = heap s2" "tasks ?w = tasks s2" "taskq ?w = taskq s2" "ints ?w = ints s" "tls_key (tls_task ?w)"
        "threadlocal_get 0 (tls_context ?w) = Some 0"
        using s2(3-6) s1(3) by (simp_all add: spawn_def Let_def threadlocal_get_def threadlocal_set_def)
      have "world_rep ?w [p] [p]" using world_rep_cong [OF w(1-3)] s2(1) by simp
      moreover have "job_rep start ?w (p, None, test_taskA g)"
        using s1(5) fresh_cong [of ?w "(p, None, test_taskA g)" s1 start] w(1) s2(2) by (simp del: job_rep.simps)
      ultimately obtain n where "lone coro_op start ?cx ((ints ?w)(x := 1, x + 4 := 4, x + 8 := 9)) n Looping ?w"
        using test_runs [where w = ?w and p = p and g = g and start = start and mem = mem and subtaskA = subtaskA, OF assms(15) _ _ w(5,6) assms(11-14,10)] by blast
      with w(4) s2(5,6) show ?thesis by (auto simp: lone_ok_def)
    qed
  qed (use assms(7) in simp_all)
  then obtain s' where "pcaio mf pth sleep env 0 0 i 1 [p] s1 = Some (Inr (0, s'))" "\<forall>q. heap s' q = None" "ints s' = ?R"
    "workers s' = 0" "installed s' []" by blast
  then show ?thesis
    using s1(1) cutest_simps(1) [OF assms(15)] by (auto simp: test_gather_main_def pcaio_array_def)
qed

definition strict_cutest :: "int cutest" where
  "strict_cutest = \<lparr>eqint = (\<lambda>a b. if a = b then Inr () else Inl Indeterminate),
     eqptr = (\<lambda>p q. if p = q then Inr () else Inl Indeterminate),
     isnull = (\<lambda>p. if p = None then Inr () else Inl Indeterminate),
     isnotnull = (\<lambda>p. if p = None then Inl Indeterminate else Inr ())\<rparr>"

definition test_start :: "addr option \<Rightarrow> addr list \<Rightarrow> coro" where
  "test_start f args = (if f = Some 7 then test_taskA 1000 else test_subtaskA (ucast (hd args)))"

definition test_mem :: "nat \<Rightarrow> addr option \<times> int \<times> addr option" where
  "test_mem n = (Some (if n = 0 then 128 else if n = 1 then 192 else 256), 0, Some 4096)"

theorem test_gather_returns_witness:
  "\<exists>s'. test_gather_main strict_cutest (Some 64, 0, Some 4096) 7 quiet_mods
      (nudged_threads coro_op test_start (test_calls test_mem 9 32 strict_cutest))
      (\<lambda>t. nudged coro_op test_start (test_calls test_mem 9 32 strict_cutest)) env1 0 0 9
      (program_static (world0 :: coro frame world)) = Some (Inr (0, s')) \<and> (\<forall>q. heap s' q = None) \<and> ints s' 40 = 9"
proof -
  let ?s = "program_static (world0 :: coro frame world)"
  have pre: "env_fine env1" "workers ?s = 0" "controls ?s = []" "(1 :: nat) \<le> 9" "world_rep ?s [] []"
    "test_start (Some 7) [] = test_taskA 1000" "test_mem 0 = (Some 128, 0, Some 4096)" "test_mem 1 = (Some 192, 0, Some 4096)"
    "test_mem 2 = (Some 256, 0, Some 4096)" "distinct [0, 64, 128, 192, 256 :: addr]" "cutest_laws strict_cutest"
    "\<forall>m s. f_init quiet_mods m s = (0, s)"
    using world0_rep by (simp_all add: env_fine_def env1_def quiet_mods_def test_start_def test_mem_def cutest_laws_def
        strict_cutest_def world_rep_def)
  have sub: "test_start (Some 9) [a] = test_subtaskA (ucast a)" for a by (simp add: test_start_def)
  from test_gather_returns [where start = test_start and mem = test_mem and subtaskA = 9 and x = 32 and ct = strict_cutest
      and s = ?s and taskA = 7 and g = 1000 and p = 64 and sp = 4096 and mf = quiet_mods, OF nudged_threads_laws nudged_time
      pre(1,2) program_static_installed pre(3-6) sub pre(7-12)]
  obtain s' where "test_gather_main strict_cutest (Some 64, 0, Some 4096) 7 quiet_mods
      (nudged_threads coro_op test_start (test_calls test_mem 9 32 strict_cutest))
      (\<lambda>t. nudged coro_op test_start (test_calls test_mem 9 32 strict_cutest)) env1 0 0 9 ?s = Some (Inr (0, s'))"
    "\<forall>q. heap s' q = None" "ints s' = (ints ?s)(32 := 1, 32 + 4 := 4, 32 + 8 := 9)" by blast
  then show ?thesis by (intro exI [of _ s']) simp
qed

end
